(* ===== verification/Prelude.thy ===== *)
theory Prelude
  imports Main "HOL-Library.Word" "HOL-Library.Monad_Syntax"
begin

text \<open>
  Shared vocabulary of the development: the fixed-width integer types of
  \<^verbatim>\<open>docker/AFL/types.h\<close>, byte buffers with bounds-checked little-endian access
  (the targets the code is built for are little endian), the byte swaps \<^verbatim>\<open>SWAP16\<close> and
  \<^verbatim>\<open>SWAP32\<close>, bounds-checked \<^verbatim>\<open>memcpy\<close>, \<^verbatim>\<open>memmove\<close> and \<^verbatim>\<open>memset\<close>, and the
  early-exit loop \<open>for_each\<close> that stands for a C \<^verbatim>\<open>for\<close> loop whose body may jump out.
  An access outside a buffer is the value \<^const>\<open>None\<close>, so a theorem that a routine
  returns \<^const>\<open>Some\<close> is a memory-safety theorem.
\<close>

unbundle bit_operations_syntax

named_theorems mem_simps \<open>unfolding of the bounds-checked memory primitives\<close>
named_theorems le_bit \<open>bits of words assembled from bytes\<close>

section \<open>Machine integers\<close>

type_synonym u8 = "8 word"
type_synonym u16 = "16 word"
type_synonym u32 = "32 word"
type_synonym u64 = "64 word"

definition SWAP16 :: "u16 \<Rightarrow> u16" where
  "SWAP16 x = push_bit 8 x OR drop_bit 8 x"

definition SWAP32 :: "u32 \<Rightarrow> u32" where
  "SWAP32 x = push_bit 24 x OR drop_bit 24 x OR
              (push_bit 8 x AND 0x00FF0000) OR (drop_bit 8 x AND 0x0000FF00)"

lemma SWAP16_twice: "SWAP16 (SWAP16 x) = x"
  unfolding SWAP16_def
  by (rule bit_word_eqI) (auto simp: bit_simps)

lemma SWAP32_masks: "SWAP32 x = push_bit 24 x OR drop_bit 24 x OR
   push_bit 8 x AND push_bit 16 (mask 8) OR drop_bit 8 x AND push_bit 8 (mask 8)"
  by (simp add: SWAP32_def push_bit_eq_mult mask_eq_exp_minus_1)

lemma bit_SWAP32:
  "bit (SWAP32 x) n \<longleftrightarrow> (if n < 8 then bit x (n + 24) else if n < 16 then bit x (n + 8)
     else if n < 24 then bit x (n - 8) else n < 32 \<and> bit x (n - 24))"
proof -
  have "8 \<le> n \<Longrightarrow> \<not> bit x (n + 24)" using bit_imp_le_length [of x "n + 24"] by auto
  then show ?thesis by (auto simp: SWAP32_masks bit_simps add.commute)
qed

lemma SWAP32_twice: "SWAP32 (SWAP32 x) = x"
proof (rule bit_word_eqI)
  fix n assume "n < LENGTH(32)"
  then consider "n < 8" | "8 \<le> n" "n < 16" | "16 \<le> n" "n < 24" | "24 \<le> n" "n < 32" by force
  then show "bit (SWAP32 (SWAP32 x)) n = bit x n" by cases (simp_all add: bit_SWAP32 less_diff_conv2)
qed

lemma unat_two_power: "k < 32 \<Longrightarrow> unat (2 ^ k :: u32) = 2 ^ k"
  using unat_of_nat [of "2 ^ k", where 'a = 32] power_strict_increasing [of k 32 "2 :: nat"]
  by (simp add: take_bit_nat_eq_self_iff)

lemma nth_upd: "xs[i := v] ! j = (if i = j \<and> i < length xs then v else xs ! j)"
  by (cases "i < length xs") (auto simp: nth_list_update list_update_beyond)

section \<open>Little-endian words\<close>

fun load_le :: "u8 list \<Rightarrow> 'a::len word" where
  "load_le [] = 0"
| "load_le (b # bs) = ucast b OR push_bit 8 (load_le bs)"

fun store_le :: "nat \<Rightarrow> 'a::len word \<Rightarrow> u8 list" where
  "store_le 0 w = []"
| "store_le (Suc n) w = ucast w # store_le n (drop_bit 8 w)"

lemma length_store_le [simp]: "length (store_le n w) = n"
  by (induction n arbitrary: w) auto

lemma bit_load_le [le_bit]:
  "bit (load_le bs :: 'a::len word) n \<longleftrightarrow>
     n < LENGTH('a) \<and> n div 8 < length bs \<and> bit (bs ! (n div 8)) (n mod 8)"
proof (induction bs arbitrary: n)
  case Nil
  then show ?case by simp
next
  case (Cons b bs)
  show ?case
  proof (cases "n < 8")
    case True
    then show ?thesis
      by (auto simp: bit_or_iff bit_push_bit_iff bit_ucast_iff)
  next
    case False
    then have d: "n div 8 = Suc ((n - 8) div 8)" "(n - 8) mod 8 = n mod 8"
      by (simp_all add: le_div_geq le_mod_geq)
    from False have "\<not> bit b n"
      by (auto dest: bit_imp_le_length)
    with False Cons.IH [of "n - 8"] show ?thesis
      by (auto simp: bit_or_iff bit_push_bit_iff bit_ucast_iff d)
  qed
qed

lemma nth_store_le:
  "k < n \<Longrightarrow> store_le n w ! k = ucast (drop_bit (8 * k) w)"
proof (induction n arbitrary: w k)
  case 0
  then show ?case by simp
next
  case (Suc n)
  then show ?case
    by (cases k) (simp_all add: add.commute)
qed

lemma store_le_load_le [simp]:
  assumes "8 * length bs \<le> LENGTH('a::len)"
  shows "store_le (length bs) (load_le bs :: 'a word) = bs"
proof (rule nth_equalityI)
  show "length (store_le (length bs) (load_le bs :: 'a word)) = length bs" by simp
  fix k
  assume "k < length (store_le (length bs) (load_le bs :: 'a word))"
  then have k: "k < length bs" by simp
  show "store_le (length bs) (load_le bs :: 'a word) ! k = bs ! k"
  proof (rule bit_eqI)
    fix n
    assume "possible_bit TYPE(u8) n"
    then have n: "n < 8" by (simp add: possible_bit_def)
    have "8 * k + n < LENGTH('a)" using k n assms by linarith
    moreover have "(8 * k + n) div 8 = k" "(8 * k + n) mod 8 = n" using n by simp_all
    ultimately show "bit (store_le (length bs) (load_le bs :: 'a word) ! k) n = bit (bs ! k) n"
      using k n by (simp add: nth_store_le bit_ucast_iff bit_drop_bit_eq bit_load_le)
  qed
qed

lemma load_le_store_le [simp]:
  assumes "LENGTH('a::len) \<le> 8 * n"
  shows "load_le (store_le n w) = (w :: 'a word)"
proof (rule bit_eqI)
  fix m
  assume "possible_bit TYPE('a word) m"
  then have m: "m < LENGTH('a)" by (simp add: possible_bit_def)
  with assms have "m div 8 < n" by linarith
  with m show "bit (load_le (store_le n w) :: 'a word) m = bit w m"
    by (simp add: bit_load_le nth_store_le bit_ucast_iff bit_drop_bit_eq)
qed

lemma load_le_eq_0_iff:
  assumes "8 * length bs \<le> LENGTH('a::len)"
  shows "(load_le bs :: 'a word) = 0 \<longleftrightarrow> (\<forall>b \<in> set bs. b = 0)"
proof
  assume z: "(load_le bs :: 'a word) = 0"
  have "bs = store_le (length bs) (load_le bs :: 'a word)" using assms by simp
  also have "\<dots> = store_le (length bs) (0 :: 'a word)" using z by simp
  also have "\<dots> = replicate (length bs) 0"
    by (rule nth_equalityI) (simp_all add: nth_store_le)
  finally show "\<forall>b \<in> set bs. b = 0"
    by (metis in_set_replicate)
next
  assume "\<forall>b \<in> set bs. b = 0"
  then show "(load_le bs :: 'a word) = 0"
    by (induction bs) simp_all
qed

lemma load_le_and:
  "length xs = length ys \<Longrightarrow>
   (load_le xs :: 'a::len word) AND load_le ys = load_le (map2 (AND) xs ys)"
  by (rule bit_eqI) (auto simp: bit_and_iff bit_load_le)

lemma load_le_and_not:
  assumes "length xs = length ys" "8 * length xs = LENGTH('a::len)"
  shows "(load_le xs :: 'a word) AND NOT (load_le ys) = load_le (map2 (\<lambda>v c. v AND NOT c) xs ys)"
proof (rule bit_eqI)
  fix n
  assume "possible_bit TYPE('a word) n"
  then have n: "n < LENGTH('a)" by (simp add: possible_bit_def)
  with assms have "n div 8 < length ys" by linarith
  with n assms show "bit ((load_le xs :: 'a word) AND NOT (load_le ys)) n =
      bit (load_le (map2 (\<lambda>v c. v AND NOT c) xs ys) :: 'a word) n"
    by (auto simp: bit_and_iff bit_not_iff bit_load_le)
qed

section \<open>Bounds-checked buffer access\<close>

definition load :: "nat \<Rightarrow> u8 list \<Rightarrow> nat \<Rightarrow> 'a::len word option" where
  "load n buf i = (if i + n \<le> length buf then Some (load_le (take n (drop i buf))) else None)"

definition store :: "nat \<Rightarrow> u8 list \<Rightarrow> nat \<Rightarrow> 'a::len word \<Rightarrow> u8 list option" where
  "store n buf i w =
     (if i + n \<le> length buf then Some (take i buf @ store_le n w @ drop (i + n) buf) else None)"

abbreviation rd8 :: "u8 list \<Rightarrow> nat \<Rightarrow> u8 option" where "rd8 \<equiv> load 1"
abbreviation rd16 :: "u8 list \<Rightarrow> nat \<Rightarrow> u16 option" where "rd16 \<equiv> load 2"
abbreviation rd32 :: "u8 list \<Rightarrow> nat \<Rightarrow> u32 option" where "rd32 \<equiv> load 4"
abbreviation wr8 :: "u8 list \<Rightarrow> nat \<Rightarrow> u8 \<Rightarrow> u8 list option" where "wr8 \<equiv> store 1"
abbreviation wr16 :: "u8 list \<Rightarrow> nat \<Rightarrow> u16 \<Rightarrow> u8 list option" where "wr16 \<equiv> store 2"
abbreviation wr32 :: "u8 list \<Rightarrow> nat \<Rightarrow> u32 \<Rightarrow> u8 list option" where "wr32 \<equiv> store 4"

definition memmove :: "u8 list \<Rightarrow> nat \<Rightarrow> nat \<Rightarrow> nat \<Rightarrow> u8 list option" where
  "memmove buf dst src n =
     (if dst + n \<le> length buf \<and> src + n \<le> length buf
      then Some (take dst buf @ take n (drop src buf) @ drop (dst + n) buf) else None)"

definition memcpy :: "u8 list \<Rightarrow> nat \<Rightarrow> u8 list \<Rightarrow> nat \<Rightarrow> nat \<Rightarrow> u8 list option" where
  "memcpy buf dst sbuf src n =
     (if dst + n \<le> length buf \<and> src + n \<le> length sbuf
      then Some (take dst buf @ take n (drop src sbuf) @ drop (dst + n) buf) else None)"

definition memset :: "u8 list \<Rightarrow> nat \<Rightarrow> u8 \<Rightarrow> nat \<Rightarrow> u8 list option" where
  "memset buf dst c n =
     (if dst + n \<le> length buf
      then Some (take dst buf @ replicate n c @ drop (dst + n) buf) else None)"

lemma load_Some_iff [mem_simps]:
  "load n buf i = Some w \<longleftrightarrow> i + n \<le> length buf \<and> w = load_le (take n (drop i buf))"
  by (auto simp: load_def)

lemma store_Some_iff [mem_simps]:
  "store n buf i w = Some b \<longleftrightarrow>
     i + n \<le> length buf \<and> b = take i buf @ store_le n w @ drop (i + n) buf"
  by (auto simp: store_def)

lemma store_length: "store n buf i w = Some b \<Longrightarrow> length b = length buf"
  by (auto simp: store_Some_iff)

lemma memmove_length: "memmove buf d s n = Some b \<Longrightarrow> length b = length buf"
  by (auto simp: memmove_def split: if_splits)

lemma memcpy_length: "memcpy buf d sb s n = Some b \<Longrightarrow> length b = length buf"
  by (auto simp: memcpy_def split: if_splits)

lemma memset_length: "memset buf d c n = Some b \<Longrightarrow> length b = length buf"
  by (auto simp: memset_def split: if_splits)

lemmas mem_lengths = store_length memmove_length memcpy_length memset_length

text \<open>What every fixed-width cell of a buffer promises: a write is readable, a second
  write replaces the first, and writing back what was read restores the buffer. The
  three widths the fuzzer uses are interpretations.\<close>

locale cell =
  fixes rd :: "u8 list \<Rightarrow> nat \<Rightarrow> 'v option"
    and wr :: "u8 list \<Rightarrow> nat \<Rightarrow> 'v \<Rightarrow> u8 list option"
    and sz :: nat
  assumes rd_ok: "i + sz \<le> length b \<Longrightarrow> \<exists>v. rd b i = Some v"
    and rd_oob: "length b < i + sz \<Longrightarrow> rd b i = None"
    and wr_ok: "i + sz \<le> length b \<Longrightarrow> \<exists>b'. wr b i v = Some b'"
    and wr_oob: "length b < i + sz \<Longrightarrow> wr b i v = None"
    and wr_len: "wr b i v = Some b' \<Longrightarrow> length b' = length b"
    and rd_wr: "wr b i v = Some b' \<Longrightarrow> rd b' i = Some v"
    and wr_wr: "wr b i v = Some b' \<Longrightarrow> wr b' i v' = wr b i v'"
    and wr_rd: "rd b i = Some v \<Longrightarrow> wr b i v = Some b"
begin

lemma restore: "rd b i = Some v \<Longrightarrow> wr b i v' = Some b' \<Longrightarrow> wr b' i v = Some b"
  by (simp add: wr_wr wr_rd)

lemma rd_Some_bound: "rd b i = Some v \<Longrightarrow> i + sz \<le> length b"
  by (metis not_le option.distinct(1) rd_oob)

end

lemma cell_word:
  assumes "LENGTH('a::len) = 8 * n"
  shows "cell (load n :: u8 list \<Rightarrow> nat \<Rightarrow> 'a word option) (store n) n"
proof
  fix b :: "u8 list" and i and v v' :: "'a word" and b'
  show "i + n \<le> length b \<Longrightarrow> \<exists>v :: 'a word. load n b i = Some v"
    by (simp add: load_def)
  show "length b < i + n \<Longrightarrow> (load n b i :: 'a word option) = None"
    by (simp add: load_def)
  show "i + n \<le> length b \<Longrightarrow> \<exists>b'. store n b i v = Some b'"
    by (simp add: store_def)
  show "length b < i + n \<Longrightarrow> store n b i v = None"
    by (simp add: store_def)
  show "store n b i v = Some b' \<Longrightarrow> length b' = length b"
    by (rule store_length)
  show "store n b i v = Some b' \<Longrightarrow> load n b' i = Some v"
    using assms by (auto simp: store_Some_iff load_def min_def)
  show "store n b i v = Some b' \<Longrightarrow> store n b' i v' = store n b i v'"
  proof -
    assume w: "store n b i v = Some b'"
    then have "length b' = length b" by (rule store_length)
    with w show "store n b' i v' = store n b i v'"
      by (auto simp: store_Some_iff store_def)
  qed
  show "load n b i = Some v \<Longrightarrow> store n b i v = Some b"
  proof -
    assume l: "load n b i = Some v"
    then have le: "i + n \<le> length b" and v: "v = load_le (take n (drop i b))"
      by (simp_all add: load_Some_iff)
    have len: "length (take n (drop i b)) = n" using le by simp
    have "store_le n v = take n (drop i b)"
      using store_le_load_le [of "take n (drop i b)", where 'a = 'a] assms len v by simp
    then have "take i b @ store_le n v @ drop (i + n) b = b"
      by (metis add.commute append_take_drop_id drop_drop)
    with le show "store n b i v = Some b" by (simp add: store_def)
  qed
qed

interpretation c8: cell "rd8" "wr8" 1
  by (rule cell_word) simp

interpretation c16: cell "rd16" "wr16" 2
  by (rule cell_word) simp

interpretation c32: cell "rd32" "wr32" 4
  by (rule cell_word) simp

section \<open>Loops with an early exit\<close>

text \<open>The loop body returns whether control leaves the loop (the \<^verbatim>\<open>goto abandon_entry\<close> of
  \<^verbatim>\<open>fuzz_one\<close>) and the new state; \<^const>\<open>None\<close> is a memory error.\<close>

fun for_each :: "('i \<Rightarrow> 'b \<Rightarrow> (bool \<times> 'b) option) \<Rightarrow> 'i list \<Rightarrow> 'b \<Rightarrow> (bool \<times> 'b) option" where
  "for_each f [] b = Some (False, b)"
| "for_each f (i # is) b =
     (case f i b of None \<Rightarrow> None
      | Some (ab, b') \<Rightarrow> if ab then Some (True, b') else for_each f is b')"

lemma for_each_append:
  "for_each f (xs @ ys) b =
     (case for_each f xs b of None \<Rightarrow> None
      | Some (ab, b') \<Rightarrow> if ab then Some (True, b') else for_each f ys b')"
  by (induction xs arbitrary: b) (auto split: option.splits)

lemma for_each_inv:
  assumes "for_each f xs b = Some (ab, b')" "P b"
    and "\<And>i b ab b'. i \<in> set xs \<Longrightarrow> P b \<Longrightarrow> f i b = Some (ab, b') \<Longrightarrow> P b'"
  shows "P b'"
  using assms
proof (induction xs arbitrary: b)
  case Nil
  then show ?case by simp
next
  case (Cons x xs)
  then obtain ab1 b1 where f: "f x b = Some (ab1, b1)"
    by (auto split: option.splits)
  with Cons.prems have "P b1" by (meson list.set_intros(1))
  moreover from Cons.prems f have "ab1 \<Longrightarrow> b' = b1"
    and "\<not> ab1 \<Longrightarrow> for_each f xs b1 = Some (ab, b')" by simp_all
  ultimately show ?case
    using Cons.IH [of b1] Cons.prems(3) by (metis list.set_intros(2))
qed

lemma for_each_total:
  assumes "P b"
    and "\<And>i b. i \<in> set xs \<Longrightarrow> P b \<Longrightarrow> \<exists>ab b'. f i b = Some (ab, b') \<and> (ab \<or> P b')"
  shows "\<exists>ab b'. for_each f xs b = Some (ab, b') \<and> (ab \<or> P b')"
  using assms
proof (induction xs arbitrary: b)
  case Nil
  then show ?case by auto
next
  case (Cons x xs)
  from Cons.prems obtain ab1 b1 where f: "f x b = Some (ab1, b1)" "ab1 \<or> P b1"
    by (meson list.set_intros(1))
  show ?case
  proof (cases ab1)
    case True
    with f show ?thesis by auto
  next
    case False
    with f have "P b1" by simp
    moreover have "\<And>i b. i \<in> set xs \<Longrightarrow> P b \<Longrightarrow> \<exists>ab b'. f i b = Some (ab, b') \<and> (ab \<or> P b')"
      using Cons.prems(2) by simp
    ultimately have "\<exists>ab b'. for_each f xs b1 = Some (ab, b') \<and> (ab \<or> P b')"
      by (rule Cons.IH)
    with False f show ?thesis by simp
  qed
qed

text \<open>A \<^verbatim>\<open>for\<close> loop that runs to its end unless the program stops in its body.\<close>

fun foldM :: "('i \<Rightarrow> 'b \<Rightarrow> 'b option) \<Rightarrow> 'i list \<Rightarrow> 'b \<Rightarrow> 'b option" where
  "foldM f [] b = Some b"
| "foldM f (i # is) b = (case f i b of None \<Rightarrow> None | Some b' \<Rightarrow> foldM f is b')"

lemma foldM_append:
  "foldM f (xs @ ys) b = (case foldM f xs b of None \<Rightarrow> None | Some b' \<Rightarrow> foldM f ys b')"
  by (induction xs arbitrary: b) (auto split: option.splits)

text \<open>The rule for a counting loop: an invariant indexed by the counter.\<close>

lemma foldM_upt:
  assumes "I 0 b" "\<And>i b. i < n \<Longrightarrow> I i b \<Longrightarrow> \<exists>b'. f i b = Some b' \<and> I (Suc i) b'"
  shows "\<exists>b'. foldM f [0 ..< n] b = Some b' \<and> I n b'"
  using assms
proof (induction n)
  case 0
  then show ?case by simp
next
  case (Suc n)
  then obtain b1 where "foldM f [0 ..< n] b = Some b1" "I n b1"
    by (metis less_Suc_eq)
  with Suc.prems(2) [of n b1] show ?case
    by (auto simp: foldM_append)
qed

lemma foldM_inv:
  assumes "foldM f xs s = Some t" "P s" "\<And>x a b. x \<in> set xs \<Longrightarrow> P a \<Longrightarrow> f x a = Some b \<Longrightarrow> P b"
  shows "P t"
  using assms
proof (induction xs arbitrary: s)
  case (Cons x xs)
  then obtain c where c: "f x s = Some c" "foldM f xs c = Some t" by (auto split: option.splits)
  show ?case by (rule Cons.IH [OF c(2)]) (use Cons.prems(2,3) c(1) in auto)
qed simp

lemma foldM_upt_inv:
  assumes "foldM f [0 ..< n] b = Some b'" "I 0 b"
    and "\<And>i b b'. i < n \<Longrightarrow> I i b \<Longrightarrow> f i b = Some b' \<Longrightarrow> I (Suc i) b'"
  shows "I n b'"
  using assms
proof (induction n arbitrary: b')
  case 0
  then show ?case by simp
next
  case (Suc n)
  then obtain b1 where "foldM f [0 ..< n] b = Some b1" "f n b1 = Some b'"
    by (auto simp: foldM_append split: option.splits)
  with Suc show ?case by (metis less_Suc_eq)
qed

text \<open>\<^verbatim>\<open>strrchr(path, '/') + 1\<close>: the part after the last slash; a path without one is a
  null pointer in the source.\<close>

definition after_last_slash :: "string \<Rightarrow> string option" where
  "after_last_slash p =
     (if CHR ''/'' \<in> set p then Some (rev (takeWhile (\<lambda>c. c \<noteq> CHR ''/'') (rev p))) else None)"

section \<open>Decimal numerals\<close>

fun show_nat :: "nat \<Rightarrow> string" where
  "show_nat n = (if n < 10 then [char_of (48 + n)] else show_nat (n div 10) @ [char_of (48 + n mod 10)])"

declare show_nat.simps [simp del]

text \<open>The value of a sequence of digits, as \<^verbatim>\<open>strtoul\<close> accumulates it.\<close>

definition is_digit :: "char \<Rightarrow> bool" where
  "is_digit c \<longleftrightarrow> (48 :: nat) \<le> of_char c \<and> of_char c \<le> (57 :: nat)"

definition digits_value :: "string \<Rightarrow> nat" where
  "digits_value ds = foldl (\<lambda>a c. 10 * a + (of_char c - 48)) 0 ds"

lemma digit_char: "n < 10 \<Longrightarrow> is_digit (char_of (48 + n)) \<and> of_char (char_of (48 + n)) = 48 + n" for n :: nat
  by (simp add: is_digit_def)

lemma show_nat_digits: "show_nat n \<noteq> [] \<and> (\<forall>c \<in> set (show_nat n). is_digit c)"
proof (induction n rule: show_nat.induct)
  case (1 n)
  show ?case
  proof (cases "n < 10")
    case True
    then show ?thesis using digit_char [of n] by (subst (1 2) show_nat.simps) simp
  next
    case False
    then show ?thesis using 1 digit_char [of "n mod 10"] by (subst (1 2) show_nat.simps) auto
  qed
qed

lemma digits_value_show_nat: "digits_value (show_nat n) = n"
proof (induction n rule: show_nat.induct)
  case (1 n)
  show ?case
  proof (cases "n < 10")
    case True
    then show ?thesis using digit_char [of n] by (subst show_nat.simps) (simp add: digits_value_def)
  next
    case False
    then have "digits_value (show_nat n) = 10 * digits_value (show_nat (n div 10)) + n mod 10"
      using digit_char [of "n mod 10"] by (subst show_nat.simps) (simp add: digits_value_def)
    then show ?thesis using 1 [OF False] by simp
  qed
qed

end
