(* ===== verification/Legion_Graph.thy ===== *)
theory Legion_Graph
  imports Prelude
begin

text \<open>
  The call-graph analysis of \<^verbatim>\<open>src/legion/graph_analyzer.cc\<close>: \<open>shortest_paths\<close>, Dijkstra's algorithm with edges of
  length one, and \<open>find_deep_functions\<close>. The edges are the list of pairs of \<^verbatim>\<open>source_nodes\<close> and \<^verbatim>\<open>target_nodes\<close>. The
  order in which a C++ \<^verbatim>\<open>unordered_map\<close> is traversed is not specified; it is a parameter here, a ranking of the keys
  that may be a different one for every size of the map.
\<close>

section \<open>The algorithm\<close>

type_synonym ranking = "nat \<Rightarrow> int \<Rightarrow> nat"

definition traverse :: "ranking \<Rightarrow> (int \<times> int) list \<Rightarrow> (int \<times> int) list" where
  "traverse rank m = sort_key (\<lambda>(k, x). rank (length m) k) m"

text \<open>The adjacency map: \<^verbatim>\<open>graph[source_nodes[i]].push_back(make_pair(target_nodes[i], 1))\<close>; its keys are the nodes with an
  outgoing edge.\<close>

definition graph_keys :: "(int \<times> int) list \<Rightarrow> int list" where
  "graph_keys es = remdups (map fst es)"

definition adjacent :: "(int \<times> int) list \<Rightarrow> int \<Rightarrow> int list" where
  "adjacent es u = map snd (filter (\<lambda>e. fst e = u) es)"

definition far :: "(int \<times> int) list \<Rightarrow> int" where
  "far es = int (length (graph_keys es)) + 10"

definition relax_one :: "int \<Rightarrow> int \<Rightarrow> (int \<times> int) list \<Rightarrow> (int \<times> int) list" where
  "relax_one d v unvisited = map (\<lambda>(k, x). if k = v \<and> x > d + 1 then (k, d + 1) else (k, x)) unvisited"

definition relax :: "(int \<times> int) list \<Rightarrow> int \<Rightarrow> int \<Rightarrow> (int \<times> int) list \<Rightarrow> (int \<times> int) list" where
  "relax es current d unvisited = fold (relax_one d) (adjacent es current) unvisited"

text \<open>The search for the closest unvisited node; \<^const>\<open>None\<close> is a \<^verbatim>\<open>next\<close> that was never assigned.\<close>

definition INT32_MAX :: int where "INT32_MAX = 2147483647"

definition closer :: "int \<times> int \<Rightarrow> (int \<times> int) option \<Rightarrow> (int \<times> int) option" where
  "closer v best = (let shortest = (case best of None \<Rightarrow> INT32_MAX | Some b \<Rightarrow> snd b) in if snd v < shortest then Some v else best)"

definition closest :: "(int \<times> int) list \<Rightarrow> (int \<times> int) option" where
  "closest m = fold closer m None"

lemma relax_keys: "map fst (relax es c d m) = map fst m"
proof -
  have "map fst (fold (relax_one d) vs m) = map fst m" for vs
    by (induction vs arbitrary: m) (auto simp: relax_one_def o_def intro!: map_cong)
  then show ?thesis by (simp add: relax_def)
qed

lemma length_relax: "length (relax es c d m) = length m"
  using relax_keys [of es c d m] by (metis length_map)

lemma closer_None [simp]: "closer e None = (if snd e < INT32_MAX then Some e else None)"
  by (simp add: closer_def)

lemma closer_Some [simp]: "closer e (Some b) = Some (if snd e < snd b then e else b)"
  by (simp add: closer_def)

lemma fold_closer_Some:
  "\<exists>r. fold closer m (Some b) = Some r \<and> (r = b \<or> r \<in> set m) \<and> snd r \<le> snd b \<and> (\<forall>e \<in> set m. snd r \<le> snd e)"
proof (induction m arbitrary: b)
  case (Cons e m)
  from Cons.IH [of "if snd e < snd b then e else b"] show ?case by (force split: if_splits)
qed simp

lemma closest_min:
  "closest m = Some r \<Longrightarrow> r \<in> set m \<and> (\<forall>e \<in> set m. snd r \<le> snd e)"
proof (induction m)
  case (Cons a m)
  show ?case
  proof (cases "snd a < INT32_MAX")
    case True
    then show ?thesis using Cons.prems fold_closer_Some [of m a] by (auto simp: closest_def)
  next
    case False
    then have r: "closest m = Some r" using Cons.prems by (simp add: closest_def)
    have "snd r < INT32_MAX" using r
    proof (induction m)
      case (Cons b m)
      then show ?case using fold_closer_Some [of m b] by (auto simp: closest_def split: if_splits)
    qed (simp add: closest_def)
    then show ?thesis using Cons.IH [OF r] False by auto
  qed
qed (simp add: closest_def)

lemma closest_Some:
  "e \<in> set m \<Longrightarrow> snd e < INT32_MAX \<Longrightarrow> \<exists>r. closest m = Some r"
proof (induction m)
  case (Cons a m)
  then show ?case using fold_closer_Some [of m a] by (auto simp: closest_def)
qed simp

lemma filter_key_less: "(k, x) \<in> set (relax es c d m) \<Longrightarrow> length (filter (\<lambda>e. fst e \<noteq> k) (relax es c d m)) < length m"
  using length_filter_less [of "(k, x)" "relax es c d m" "\<lambda>e. fst e \<noteq> k"] by (simp add: length_relax)

lemma set_traverse: "set (traverse rank m) = set m"
  by (simp add: traverse_def)

function visit :: "ranking \<Rightarrow> (int \<times> int) list \<Rightarrow> int \<Rightarrow> (int \<times> int) list \<Rightarrow> (int \<times> int) list \<Rightarrow> (int \<times> int) list option" where
  "visit rank es current unvisited distances =
     (if unvisited = [] then Some distances
      else let unvisited' = relax es current (the (map_of distances current)) unvisited in
        case closest (traverse rank unvisited') of
          None \<Rightarrow> None
        | Some (next, shortest) \<Rightarrow>
            visit rank es next (filter (\<lambda>e. fst e \<noteq> next) unvisited') ((next, shortest) # distances))"
  by pat_completeness auto
termination
  by (relation "measure (\<lambda>(rank, es, current, unvisited, distances). length unvisited)")
    (auto dest!: closest_min simp: set_traverse intro: filter_key_less)

declare visit.simps [simp del]

definition shortest_paths :: "ranking \<Rightarrow> (int \<times> int) list \<Rightarrow> int \<Rightarrow> (int \<times> int) list option" where
  "shortest_paths rank es root =
     visit rank es root (map (\<lambda>k. (k, far es)) (filter (\<lambda>k. k \<noteq> root) (graph_keys es))) [(root, 0)]"

text \<open>A sum that leaves the range of \<^verbatim>\<open>int\<close> is undefined; \<^verbatim>\<open>average * 1.5\<close> is cut to an integer. A node without a label
  has the empty one.\<close>

definition find_root :: "(string \<rightharpoonup> int) \<Rightarrow> int" where
  "find_root ids = (case ids ''LLVMFuzzerTestOneInput'' of None \<Rightarrow> -1 | Some n \<Rightarrow> n)"

definition deep_threshold :: "(int \<times> int) list \<Rightarrow> int" where
  "deep_threshold distances = (sum_list (map snd distances) div int (length distances)) * 3 div 2"

definition find_deep_functions :: "ranking \<Rightarrow> (string \<rightharpoonup> int) \<Rightarrow> (int \<rightharpoonup> string) \<Rightarrow> (int \<times> int) list \<Rightarrow> string list option" where
  "find_deep_functions rank ids labels es = do {
     distances \<leftarrow> shortest_paths rank es (find_root ids);
     (if sum_list (map snd distances) > INT32_MAX then None
      else Some (map (\<lambda>(k, d). case labels k of None \<Rightarrow> [] | Some l \<Rightarrow> l)
                  (filter (\<lambda>(k, d). d > deep_threshold distances) (traverse rank distances)))) }"

section \<open>Distances\<close>

text \<open>\<open>hop E r n v\<close>: the shortest path from \<open>r\<close> to \<open>v\<close> has \<open>n\<close> edges.\<close>

definition hop :: "(int \<times> int) set \<Rightarrow> int \<Rightarrow> nat \<Rightarrow> int \<Rightarrow> bool" where
  "hop E r n v \<longleftrightarrow> (r, v) \<in> E ^^ n \<and> (\<forall>m < n. (r, v) \<notin> E ^^ m)"

lemma hop_unique: "hop E r n v \<Longrightarrow> hop E r m v \<Longrightarrow> n = m"
  by (metis hop_def linorder_neqE_nat)

lemma hop_Least: "hop E r n v \<Longrightarrow> n = (LEAST n. (r, v) \<in> E ^^ n)"
  unfolding hop_def by (metis (mono_tags, lifting) LeastI Least_le linorder_neqE_nat not_less)

lemma hop_exists:
  assumes "(r, v) \<in> E ^^ n"
  shows "\<exists>m \<le> n. hop E r m v"
proof -
  let ?m = "LEAST m. (r, v) \<in> E ^^ m"
  have "(r, v) \<in> E ^^ ?m" "?m \<le> n" using assms by (auto intro: LeastI Least_le)
  moreover have "\<forall>m < ?m. (r, v) \<notin> E ^^ m" by (auto dest: not_less_Least)
  ultimately show ?thesis by (auto simp: hop_def)
qed

lemma hop_reach: "(\<exists>n. hop E r n v) \<longleftrightarrow> (r, v) \<in> E\<^sup>*"
  using hop_exists by (fastforce simp: rtrancl_power hop_def)

lemma hop_root: "hop E r 0 r"
  by (simp add: hop_def)

lemma hop_0: "hop E r 0 v \<Longrightarrow> v = r"
  by (simp add: hop_def)

lemma hop_step: "hop E r n w \<Longrightarrow> (w, u) \<in> E \<Longrightarrow> \<exists>m \<le> Suc n. hop E r m u"
  by (rule hop_exists) (auto simp: hop_def)

lemma hop_pred:
  assumes "hop E r (Suc n) u"
  shows "\<exists>w. hop E r n w \<and> (w, u) \<in> E"
proof -
  from assms obtain w where w: "(r, w) \<in> E ^^ n" "(w, u) \<in> E" by (auto simp: hop_def)
  have "(r, w) \<notin> E ^^ m" if "m < n" for m
  proof
    assume "(r, w) \<in> E ^^ m"
    then have "(r, u) \<in> E ^^ Suc m" using w(2) by auto
    then show False using assms that unfolding hop_def by blast
  qed
  then show ?thesis using w by (auto simp: hop_def)
qed

text \<open>A shortest path from inside to outside of a set crosses its border on a node with an outgoing edge, or at its end.\<close>

lemma hop_border:
  assumes "hop E r n u" "u \<notin> V" "r \<in> V" "u \<in> Domain E"
  shows "\<exists>w y m. hop E r m w \<and> w \<in> V \<and> (w, y) \<in> E \<and> y \<notin> V \<and> y \<in> Domain E \<and> Suc m \<le> n"
  using assms
proof (induction n arbitrary: u)
  case 0
  then show ?case using hop_0 by metis
next
  case (Suc n)
  from hop_pred [OF Suc.prems(1)] obtain w where w: "hop E r n w" "(w, u) \<in> E" by blast
  show ?case
  proof (cases "w \<in> V")
    case True
    then show ?thesis using w Suc.prems by blast
  next
    case False
    from Suc.IH [OF w(1) False Suc.prems(3)] w(2) show ?thesis by (meson Domain.DomainI le_SucI)
  qed
qed

section \<open>Correctness\<close>

lemma set_graph_keys: "set (graph_keys es) = Domain (set es)"
  by (force simp: graph_keys_def)

lemma set_adjacent: "set (adjacent es u) = {v. (u, v) \<in> set es}"
  by (force simp: adjacent_def)

lemma relax_map: "relax es c d m = map (\<lambda>(k, x). (k, if (c, k) \<in> set es \<and> x > d + 1 then d + 1 else x)) m"
proof -
  have "fold (relax_one d) vs m = map (\<lambda>(k, x). (k, if k \<in> set vs \<and> x > d + 1 then d + 1 else x)) m" for vs
    by (induction vs arbitrary: m) (auto simp: relax_one_def intro!: map_idI)
  then show ?thesis by (simp add: relax_def set_adjacent)
qed

text \<open>The invariant at the head of the loop. \<open>V\<close> are the visited nodes; the labels of the others account for all visited nodes
  but the current one.\<close>

definition dist_of :: "(int \<times> int) list \<Rightarrow> int \<Rightarrow> int \<Rightarrow> int \<Rightarrow> bool" where
  "dist_of es r v d \<longleftrightarrow> (if (r, v) \<in> (set es)\<^sup>* then \<exists>n. d = int n \<and> hop (set es) r n v else d = far es)"

definition labels_ok :: "(int \<times> int) list \<Rightarrow> int \<Rightarrow> int set \<Rightarrow> (int \<times> int) list \<Rightarrow> bool" where
  "labels_ok es r W m \<longleftrightarrow> (\<forall>(u, x) \<in> set m.
     (x = far es \<or> (\<exists>w n. w \<in> W \<and> hop (set es) r n w \<and> (w, u) \<in> set es \<and> x = int n + 1)) \<and> x \<le> far es \<and>
     (\<forall>w n. w \<in> W \<longrightarrow> hop (set es) r n w \<longrightarrow> (w, u) \<in> set es \<longrightarrow> x \<le> int n + 1))"

definition visit_inv :: "(int \<times> int) list \<Rightarrow> int \<Rightarrow> int \<Rightarrow> (int \<times> int) list \<Rightarrow> (int \<rightharpoonup> int) \<Rightarrow> bool" where
  "visit_inv es r c m D \<longleftrightarrow> r \<in> dom D \<and> c \<in> dom D \<and> finite (dom D) \<and>
     fst ` set m = Domain (set es) - dom D \<and> dom D \<subseteq> insert r (Domain (set es)) \<and>
     (\<forall>v d. D v = Some d \<longrightarrow> dist_of es r v d) \<and>
     (\<forall>v n. v \<in> dom D \<longrightarrow> hop (set es) r n v \<longrightarrow> n < card (dom D)) \<and>
     labels_ok es r (dom D - {c}) m"

lemma far_card: "far es = int (card (Domain (set es))) + 10"
proof -
  have "length (graph_keys es) = card (Domain (set es))"
    using distinct_card [of "graph_keys es"] set_graph_keys by (simp add: graph_keys_def)
  then show ?thesis by (simp add: far_def)
qed

lemma card_visited: "visit_inv es r c m D \<Longrightarrow> int (card (dom D)) < far es"
proof -
  assume inv: "visit_inv es r c m D"
  have "finite (Domain (set es))" by (simp add: finite_Domain)
  then have "card (dom D) \<le> card (insert r (Domain (set es)))" using inv by (intro card_mono) (auto simp: visit_inv_def)
  also have "\<dots> \<le> card (Domain (set es)) + 1" by (simp add: card_insert_if finite_Domain)
  finally show ?thesis by (simp add: far_card)
qed

lemma labels_okD:
  assumes "labels_ok es r W m" "(u, x) \<in> set m"
  shows "x = far es \<or> (\<exists>w n. w \<in> W \<and> hop (set es) r n w \<and> (w, u) \<in> set es \<and> x = int n + 1)" "x \<le> far es"
    "w \<in> W \<Longrightarrow> hop (set es) r n w \<Longrightarrow> (w, u) \<in> set es \<Longrightarrow> x \<le> int n + 1"
  using bspec [OF assms(1) [unfolded labels_ok_def] assms(2)] by simp_all

lemma labels_relax:
  assumes inv: "visit_inv es r c m D" and D: "D c = Some d"
  shows "labels_ok es r (dom D) (relax es c d m)"
  unfolding labels_ok_def
proof (clarify)
  fix u x'
  assume "(u, x') \<in> set (relax es c d m)"
  then obtain x where x: "(u, x) \<in> set m" "x' = (if (c, u) \<in> set es \<and> x > d + 1 then d + 1 else x)" by (auto simp: relax_map)
  have lab: "labels_ok es r (dom D - {c}) m" using inv by (simp add: visit_inv_def)
  have old: "x = far es \<or> (\<exists>w n. w \<in> dom D - {c} \<and> hop (set es) r n w \<and> (w, u) \<in> set es \<and> x = int n + 1)" "x \<le> far es"
    "\<And>w n. w \<in> dom D - {c} \<Longrightarrow> hop (set es) r n w \<Longrightarrow> (w, u) \<in> set es \<Longrightarrow> x \<le> int n + 1"
    by (rule labels_okD [OF lab x(1)]; assumption)+
  have dc: "dist_of es r c d" using inv D by (auto simp: visit_inv_def)
  have c_hop: "d = int n" if n: "hop (set es) r n c" for n
  proof -
    have "(r, c) \<in> (set es)\<^sup>*" using n hop_reach [of "set es" r c] by blast
    then obtain k where "d = int k" "hop (set es) r k c" using dc by (auto simp: dist_of_def)
    then show ?thesis using hop_unique [OF n] by simp
  qed
  have "x' = far es \<or> (\<exists>w n. w \<in> dom D \<and> hop (set es) r n w \<and> (w, u) \<in> set es \<and> x' = int n + 1)"
  proof (cases "(c, u) \<in> set es \<and> x > d + 1")
    case True
    then have "d \<noteq> far es" using old(2) by auto
    then obtain n where "d = int n" "hop (set es) r n c" using dc by (auto simp: dist_of_def split: if_splits)
    then show ?thesis using True x(2) D by auto
  qed (use old(1) x(2) in auto)
  moreover have "x' \<le> int n + 1" if "w \<in> dom D" "hop (set es) r n w" "(w, u) \<in> set es" for w n
    using old(3) [of w n] c_hop [of n] that x(2) by (cases "w = c") auto
  moreover have "x' \<le> far es" using old(2) x(2) by auto
  ultimately show "(x' = far es \<or> (\<exists>w n. w \<in> dom D \<and> hop (set es) r n w \<and> (w, u) \<in> set es \<and> x' = int n + 1)) \<and> x' \<le> far es \<and>
    (\<forall>w n. w \<in> dom D \<longrightarrow> hop (set es) r n w \<longrightarrow> (w, u) \<in> set es \<longrightarrow> x' \<le> int n + 1)" by blast
qed

lemma keys_relax: "fst ` set (relax es c d m) = fst ` set m"
  by (metis relax_keys set_map)

lemma closest_is_near:
  assumes inv: "visit_inv es r c m D" and labels: "labels_ok es r (dom D) m'" and keys: "fst ` set m' = Domain (set es) - dom D"
    and k: "(k, x) \<in> set m'" and least: "\<forall>e \<in> set m'. x \<le> snd e"
  shows "dist_of es r k x \<and> (\<forall>n. hop (set es) r n k \<longrightarrow> n \<le> card (dom D))"
proof -
  let ?E = "set es"
  have kd: "k \<in> Domain ?E" "k \<notin> dom D" using k keys by force+
  have lab: "x = far es \<or> (\<exists>w n. w \<in> dom D \<and> hop ?E r n w \<and> (w, k) \<in> ?E \<and> x = int n + 1)"
    by (rule labels_okD(1) [OF labels k])
  have near: "x = int n \<and> n \<le> card (dom D)" if n: "hop ?E r n k" for n
  proof -
    have "r \<in> dom D" using inv by (simp add: visit_inv_def)
    from hop_border [OF n kd(2) this kd(1)] obtain w y j where w: "hop ?E r j w" "w \<in> dom D" "(w, y) \<in> ?E"
      "y \<notin> dom D" "y \<in> Domain ?E" "Suc j \<le> n" by blast
    then obtain z where z: "(y, z) \<in> set m'" using keys by (metis DiffI fst_conv imageE prod.collapse)
    then have "z \<le> int j + 1" by (rule labels_okD(3) [OF labels _ w(2,1,3)])
    then have xj: "x \<le> int j + 1" using least z by force
    have "j < card (dom D)" using inv w by (simp add: visit_inv_def)
    then have "x \<noteq> far es" using card_visited [OF inv] xj by simp
    then obtain w' n' where w': "hop ?E r n' w'" "(w', k) \<in> ?E" "x = int n' + 1" using lab by blast
    then have "n \<le> Suc n'" using hop_step [OF w'(1,2)] hop_unique [OF n] by blast
    then show ?thesis using xj w(6) w'(3) \<open>j < card (dom D)\<close> by simp
  qed
  moreover have "x = far es" if "(r, k) \<notin> ?E\<^sup>*"
    using lab that hop_reach [of ?E r] by (meson rtrancl.rtrancl_into_rtrancl)
  ultimately show ?thesis using hop_reach [of ?E r k] by (auto simp: dist_of_def)
qed

lemma visit_step:
  assumes inv: "visit_inv es r c m D" and D: "D c = Some d"
    and cl: "closest (traverse rank (relax es c d m)) = Some (k, x)"
  shows "visit_inv es r k (filter (\<lambda>e. fst e \<noteq> k) (relax es c d m)) (D(k \<mapsto> x))"
proof -
  let ?m = "relax es c d m"
  have keys: "fst ` set ?m = Domain (set es) - dom D" using inv by (simp add: keys_relax visit_inv_def)
  have k: "(k, x) \<in> set ?m" "\<forall>e \<in> set ?m. x \<le> snd e" using closest_min [OF cl] by (simp_all add: set_traverse)
  note labels = labels_relax [OF inv D]
  note near = closest_is_near [OF inv labels keys k]
  have kd: "k \<in> Domain (set es)" "k \<notin> dom D" using k keys by force+
  have card: "card (insert k (dom D)) = Suc (card (dom D))" using inv kd by (simp add: visit_inv_def)
  have "labels_ok es r (insert k (dom D) - {k}) (filter (\<lambda>e. fst e \<noteq> k) ?m)"
    using labels kd(2) by (auto simp: labels_ok_def)
  moreover have "fst ` set (filter (\<lambda>e. fst e \<noteq> k) ?m) = Domain (set es) - insert k (dom D)"
  proof -
    have "fst ` set (filter (\<lambda>e. fst e \<noteq> k) ?m) = fst ` set ?m - {k}" by auto
    then show ?thesis using keys by auto
  qed
  moreover have "\<forall>v n. v \<in> insert k (dom D) \<longrightarrow> hop (set es) r n v \<longrightarrow> n < card (insert k (dom D))"
  proof (intro allI impI)
    fix v n assume v: "v \<in> insert k (dom D)" "hop (set es) r n v"
    have "v \<in> dom D \<Longrightarrow> n < card (dom D)" using inv v(2) unfolding visit_inv_def by blast
    then show "n < card (insert k (dom D))" using near v unfolding card by (cases "v = k") (simp_all add: less_Suc_eq_le)
  qed
  ultimately show ?thesis using inv near kd by (auto simp: visit_inv_def)
qed

lemma visit_ok:
  assumes "visit_inv es r c m (map_of D)" "distinct (map fst D)" "far es < INT32_MAX"
  shows "\<exists>D'. visit rank es c m D = Some D' \<and> distinct (map fst D') \<and> fst ` set D' = insert r (Domain (set es)) \<and>
    (\<forall>(v, d) \<in> set D'. dist_of es r v d)"
  using assms(1,2)
proof (induction "length m" arbitrary: c m D rule: less_induct)
  case less
  show ?case
  proof (cases "m = []")
    case True
    then have "fst ` set D = insert r (Domain (set es))" using less.prems(1) by (auto simp: visit_inv_def dom_map_of_conv_image_fst)
    moreover have "\<forall>(v, d) \<in> set D. dist_of es r v d" using less.prems by (auto simp: visit_inv_def map_of_eq_Some_iff)
    ultimately show ?thesis using True less.prems(2) by (auto simp: visit.simps)
  next
    case False
    from less.prems(1) obtain d where d: "map_of D c = Some d" by (auto simp: visit_inv_def)
    let ?m = "relax es c d m"
    have "?m \<noteq> []" using False length_relax [of es c d m] by auto
    then obtain u z where e: "(u, z) \<in> set ?m" by (metis list.set_intros(1) neq_Nil_conv surj_pair)
    then have "z \<le> far es" by (rule labels_okD(2) [OF labels_relax [OF less.prems(1) d]])
    then obtain k x where cl: "closest (traverse rank ?m) = Some (k, x)"
      using closest_Some [of "(u, z)" "traverse rank ?m"] e assms(3) by (auto simp: set_traverse)
    have k: "(k, x) \<in> set ?m" using closest_min [OF cl] by (simp add: set_traverse)
    have "k \<in> fst ` set m" using imageI [OF k, of fst] keys_relax [of es c d m] by simp
    moreover have "fst ` set m = Domain (set es) - fst ` set D" using less.prems(1) by (simp add: visit_inv_def dom_map_of_conv_image_fst)
    ultimately have "k \<notin> fst ` set D" by blast
    then have "distinct (map fst ((k, x) # D))" using less.prems(2) by simp
    from less.hyps [OF filter_key_less [OF k] _ this] visit_step [OF less.prems(1) d cl]
    show ?thesis using False cl d by (subst visit.simps) (simp add: Let_def)
  qed
qed

lemma shortest_paths_ok:
  assumes "far es < INT32_MAX"
  shows "\<exists>D. shortest_paths rank es root = Some D \<and> distinct (map fst D) \<and> fst ` set D = insert root (Domain (set es)) \<and>
    (\<forall>(v, d) \<in> set D. dist_of es root v d)"
  unfolding shortest_paths_def
proof (rule visit_ok [OF _ _ assms])
  have "dist_of es root root 0" using hop_root [of "set es" root] by (auto simp: dist_of_def)
  then show "visit_inv es root root (map (\<lambda>k. (k, far es)) (filter (\<lambda>k. k \<noteq> root) (graph_keys es))) (map_of [(root, 0)])"
    using hop_unique [OF hop_root [of "set es" root]]
    by (auto simp: visit_inv_def labels_ok_def set_graph_keys image_image)
qed simp

lemma deep_functions_distances:
  assumes "far es < INT32_MAX" "find_deep_functions rank ids labels es = Some fs"
  shows "\<exists>D. shortest_paths rank es (find_root ids) = Some D \<and> (\<forall>l \<in> set fs. \<exists>v d.
    l = (case labels v of None \<Rightarrow> [] | Some l \<Rightarrow> l) \<and> v \<in> insert (find_root ids) (Domain (set es)) \<and>
    dist_of es (find_root ids) v d \<and> d > deep_threshold D)"
proof -
  from shortest_paths_ok [OF assms(1), of rank "find_root ids"] obtain D where
    D: "shortest_paths rank es (find_root ids) = Some D" "fst ` set D = insert (find_root ids) (Domain (set es))"
    "\<forall>(v, d) \<in> set D. dist_of es (find_root ids) v d" by blast
  have fs: "fs = map (\<lambda>(k, d). case labels k of None \<Rightarrow> [] | Some l \<Rightarrow> l) (filter (\<lambda>(k, d). d > deep_threshold D) (traverse rank D))"
    using assms(2) D(1) by (auto simp: find_deep_functions_def split: if_splits)
  have "\<exists>v d. l = (case labels v of None \<Rightarrow> [] | Some l \<Rightarrow> l) \<and> v \<in> insert (find_root ids) (Domain (set es)) \<and>
    dist_of es (find_root ids) v d \<and> d > deep_threshold D" if l: "l \<in> set fs" for l
  proof -
    from l obtain v d where v: "(v, d) \<in> set D" "l = (case labels v of None \<Rightarrow> [] | Some l \<Rightarrow> l)" "d > deep_threshold D"
      by (auto simp: fs set_traverse)
    moreover have "v \<in> insert (find_root ids) (Domain (set es))" using imageI [OF v(1), of fst] D(2) by simp
    ultimately show ?thesis using D(3) by blast
  qed
  then show ?thesis using D(1) by blast
qed

text \<open>A function that calls another one is reported as deep when the driver cannot reach it: \<open>h\<close> below is called by nobody.\<close>

lemma unreachable_is_deep:
  "find_deep_functions (\<lambda>n k. nat k) [''LLVMFuzzerTestOneInput'' \<mapsto> 0] [0 \<mapsto> ''LLVMFuzzerTestOneInput'', 1 \<mapsto> ''f'', 2 \<mapsto> ''g'', 5 \<mapsto> ''h'']
     [(0, 1), (1, 2), (2, 0), (5, 6)] = Some [''h'']"
  by code_simp

end
