(* ===== verification/Legion_Text.thy ===== *)
theory Legion_Text
  imports Prelude
begin

text \<open>
  Reading of numbers and lines as the reports of the replay tool are read: \<^verbatim>\<open>strtoul\<close>, \<^verbatim>\<open>sscanf\<close> with \<^verbatim>\<open>%lu %lu\<close>,
  extraction of an \<^verbatim>\<open>unsigned long\<close> from a stream, \<^verbatim>\<open>std::stoul\<close>, \<^verbatim>\<open>getline\<close>, and the trimming of blanks. The lemmas say
  that what \<^verbatim>\<open>operator<<\<close> prints is read back.
\<close>

section \<open>Numbers\<close>

definition is_space :: "char \<Rightarrow> bool" where
  "is_space c \<longleftrightarrow> of_char c = (32 :: nat) \<or> (9 :: nat) \<le> of_char c \<and> of_char c \<le> (13 :: nat)"

definition newline :: char where "newline = CHR 0x0A"

text \<open>The value, whether it was out of range, and the rest of the text; \<^const>\<open>None\<close> if there is no number.\<close>

definition strtoul :: "string \<Rightarrow> (u64 \<times> bool \<times> string) option" where
  "strtoul s =
     (let s1 = dropWhile is_space s;
          signed = (s1 \<noteq> [] \<and> hd s1 \<in> {CHR ''+'', CHR ''-''});
          s2 = (if signed then tl s1 else s1);
          n = digits_value (takeWhile is_digit s2)
      in if takeWhile is_digit s2 = [] then None
         else Some (if n \<ge> 2 ^ 64 then - 1 else if signed \<and> hd s1 = CHR ''-'' then - of_nat n else of_nat n,
                    n \<ge> 2 ^ 64, dropWhile is_digit s2))"

text \<open>The values that \<^verbatim>\<open>sscanf(line, "%lu %lu", ...)\<close> assigns.\<close>

definition sscanf_lu_lu :: "string \<Rightarrow> u64 list" where
  "sscanf_lu_lu s =
     (case strtoul s of
        None \<Rightarrow> []
      | Some (a, over, r) \<Rightarrow> a # (case strtoul r of None \<Rightarrow> [] | Some (b, over', r') \<Rightarrow> [b]))"

text \<open>\<^verbatim>\<open>iss >> h\<close> fails on a value out of range; \<^verbatim>\<open>stoul\<close> throws.\<close>

definition in_range :: "string \<Rightarrow> (u64 \<times> string) option" where
  "in_range s = (case strtoul s of None \<Rightarrow> None | Some (a, over, r) \<Rightarrow> if over then None else Some (a, r))"

section \<open>Lines\<close>

function getlines :: "string \<Rightarrow> string list" where
  "getlines [] = []"
| "getlines (c # cs) = takeWhile (\<lambda>c. c \<noteq> newline) (c # cs) # getlines (drop 1 (dropWhile (\<lambda>c. c \<noteq> newline) (c # cs)))"
  by pat_completeness auto
termination
proof (relation "measure length")
  fix c cs
  show "(drop 1 (dropWhile (\<lambda>c. c \<noteq> newline) (c # cs)), c # cs) \<in> measure length"
    using length_dropWhile_le [of "\<lambda>c. c \<noteq> newline" "c # cs"] by (simp del: dropWhile.simps)
qed simp

definition chomp :: "string \<Rightarrow> string" where
  "chomp l = rev (dropWhile (\<lambda>c. c = newline \<or> c = CHR 0x0D) (rev l))"

definition is_blank :: "char \<Rightarrow> bool" where
  "is_blank c \<longleftrightarrow> c = CHR '' '' \<or> c = CHR 0x09"

definition trim_blanks :: "string \<Rightarrow> string" where
  "trim_blanks s = rev (dropWhile is_blank (rev (dropWhile is_blank s)))"

definition starts_with :: "string \<Rightarrow> string \<Rightarrow> bool" where
  "starts_with p s \<longleftrightarrow> take (length p) s = p"

section \<open>What is printed is read back\<close>

lemma digit_facts: "is_digit c \<Longrightarrow> \<not> is_space c \<and> c \<noteq> CHR ''+'' \<and> c \<noteq> CHR ''-'' \<and> c \<noteq> newline \<and> c \<noteq> CHR 0x0D \<and> \<not> is_blank c \<and> c \<noteq> CHR ''[''"
  by (auto simp: is_digit_def is_space_def newline_def is_blank_def)

lemma takeWhile_digits:
  assumes "\<forall>c \<in> set ds. is_digit c" "r = [] \<or> \<not> is_digit (hd r)"
  shows "takeWhile is_digit (ds @ r) = ds" "dropWhile is_digit (ds @ r) = r"
  using assms by (induction ds) (cases r; auto)+

lemma strtoul_show:
  assumes "n < 2 ^ 64" "r = [] \<or> \<not> is_digit (hd r)"
  shows "strtoul (show_nat n @ r) = Some (of_nat n, False, r)"
proof -
  obtain c cs where c: "show_nat n = c # cs" using show_nat_digits [of n] by (cases "show_nat n") auto
  have d: "\<forall>c \<in> set (show_nat n). is_digit c" using show_nat_digits by blast
  have "is_digit c" using d c by simp
  then have s: "dropWhile is_space (show_nat n @ r) = show_nat n @ r" "hd (show_nat n @ r) \<notin> {CHR ''+'', CHR ''-''}"
    using digit_facts [of c] by (simp_all add: c)
  show ?thesis
    using assms(1) show_nat_digits [of n] s(2)
    by (simp add: strtoul_def s(1) Let_def takeWhile_digits [OF d assms(2)] digits_value_show_nat)
qed

lemma strtoul_space: "strtoul (CHR '' '' # s) = strtoul s"
  by (simp add: strtoul_def is_space_def)

lemma sscanf_show_two:
  assumes "a < 2 ^ 64" "b < 2 ^ 64"
  shows "sscanf_lu_lu (show_nat a @ CHR '' '' # show_nat b) = [of_nat a, of_nat b]"
  using strtoul_show [OF assms(1), of "CHR '' '' # show_nat b"] strtoul_show [OF assms(2), of "[]"]
  by (simp add: sscanf_lu_lu_def strtoul_space is_digit_def)

lemma in_range_show:
  assumes "n < 2 ^ 64" "r = [] \<or> \<not> is_digit (hd r)"
  shows "in_range (show_nat n @ r) = Some (of_nat n, r)"
  by (simp add: in_range_def strtoul_show [OF assms])

lemma takeWhile_line: "newline \<notin> set l \<Longrightarrow> takeWhile (\<lambda>c. c \<noteq> newline) (l @ newline # r) = l \<and> dropWhile (\<lambda>c. c \<noteq> newline) (l @ newline # r) = newline # r"
  by (induction l) auto

lemma getlines_line: "newline \<notin> set l \<Longrightarrow> getlines (l @ newline # r) = l # getlines r"
  using takeWhile_line [of l r] by (cases l) auto

lemma getlines_unlines:
  "\<forall>l \<in> set ls. newline \<notin> set l \<Longrightarrow> getlines (concat (map (\<lambda>l. l @ [newline]) ls)) = ls"
  by (induction ls) (simp_all add: getlines_line)

lemma chomp_id: "l = [] \<or> (last l \<noteq> newline \<and> last l \<noteq> CHR 0x0D) \<Longrightarrow> chomp l = l"
  by (cases l rule: rev_cases) (auto simp: chomp_def)

lemma trim_blanks_id: "l = [] \<or> (\<not> is_blank (hd l) \<and> \<not> is_blank (last l)) \<Longrightarrow> trim_blanks l = l"
proof (elim disjE conjE)
  assume "\<not> is_blank (hd l)" "\<not> is_blank (last l)"
  moreover have "dropWhile is_blank l = l" using \<open>\<not> is_blank (hd l)\<close> by (cases l) auto
  ultimately show "trim_blanks l = l" by (cases l rule: rev_cases) (auto simp: trim_blanks_def)
qed (simp add: trim_blanks_def)

end
