(* ===== verification/Legion_Hash_Set.thy ===== *)
theory Legion_Hash_Set
  imports Prelude "HOL-Library.Multiset"
begin

text \<open>
  The set of path hashes of the replay tool, \<^verbatim>\<open>src/instrumentor/hash_set.cc\<close>: a table of chains that
  counts how often each key was inserted and doubles when it is three quarters full. The
  chains are lists; the flag of a failed allocation or of an index outside the table is \<^const>\<open>None\<close>. The lemmas
  show that the table refines a finite map from keys to counts, whatever was inserted and however often it grew.
\<close>

section \<open>Data and operations\<close>

record hash_code =
  key :: u32
  hits :: u32
  hash_code_raw :: u32

record hash_set =
  nodes :: "hash_code list list"
  filled :: u32
  capacity :: u32

definition INITIAL_CAPACITY :: nat where "INITIAL_CAPACITY = 16"

definition create_hash_set :: hash_set where
  "create_hash_set = \<lparr>nodes = replicate INITIAL_CAPACITY [], filled = 0, capacity = of_nat INITIAL_CAPACITY\<rparr>"

definition hash :: "u32 \<Rightarrow> u32" where
  "hash k =
     (let h1 = k XOR drop_bit 16 k; h2 = h1 * 0x85ebca6b;
          h3 = h2 XOR drop_bit 13 h2; h4 = h3 * 0xc2b2ae35
      in h4 XOR drop_bit 16 h4)"

text \<open>The walk along a chain that increments the count of the key, if it is there.\<close>

fun bump_chain :: "u32 \<Rightarrow> hash_code list \<Rightarrow> hash_code list option" where
  "bump_chain k [] = None"
| "bump_chain k (c # cs) =
     (if key c = k then Some (c\<lparr>hits := hits c + 1\<rparr> # cs) else map_option ((#) c) (bump_chain k cs))"

text \<open>Doubling: every node is moved to the front of its chain in the new table. A capacity of \<open>2\<^sup>3\<^sup>1\<close>
  is negative as the \<^verbatim>\<open>int new_capacity\<close>, for which \<^verbatim>\<open>calloc\<close> fails.\<close>

definition move_node :: "u32 \<Rightarrow> nat \<Rightarrow> hash_code \<Rightarrow> hash_code list list \<Rightarrow> hash_code list list option" where
  "move_node cap i c new =
     (let j = unat ((hash_code_raw c AND cap) OR of_nat i)
      in if j < length new then Some (new[j := c # new ! j]) else None)"

definition grow_table :: "hash_set \<Rightarrow> hash_set option" where
  "grow_table s =
     (let cap = capacity s; new_capacity = 2 * unat cap in
      if new_capacity \<ge> 2 ^ 31 then None
      else do {
        new \<leftarrow> foldM (\<lambda>i new. if i < length (nodes s) then foldM (move_node cap i) (nodes s ! i) new else None)
                 [0 ..< unat cap] (replicate new_capacity []);
        Some (s\<lparr>nodes := new, capacity := of_nat new_capacity\<rparr>) })"

definition insert_key :: "u32 \<Rightarrow> hash_set \<Rightarrow> hash_set option" where
  "insert_key k s =
     (let code = hash k; i = unat (code AND (capacity s - 1)) in
      if i < length (nodes s)
      then (case bump_chain k (nodes s ! i) of
              Some ch \<Rightarrow> Some (s\<lparr>nodes := (nodes s)[i := ch]\<rparr>)
            | None \<Rightarrow>
                (let s1 = s\<lparr>nodes := (nodes s)[i := \<lparr>key = k, hits = 1, hash_code_raw = code\<rparr> # nodes s ! i],
                             filled := filled s + 1\<rparr>
                 in if 4 * unat (filled s1) \<ge> 3 * unat (capacity s1) then grow_table s1 else Some s1))
      else None)"

definition contains :: "hash_set \<Rightarrow> u32 \<Rightarrow> bool option" where
  "contains s k =
     (let i = unat (hash k AND (capacity s - 1))
      in if i < length (nodes s) then Some (list_ex (\<lambda>c. key c = k) (nodes s ! i)) else None)"

text \<open>The two result arrays have \<^verbatim>\<open>size\<close> cells each; writing past them is \<^const>\<open>None\<close>.\<close>

definition hashset_to_array :: "hash_set \<Rightarrow> (u32 \<times> u32) list option" where
  "hashset_to_array s =
     (let cs = concat (take (unat (capacity s)) (nodes s))
      in if length cs \<le> unat (filled s)
         then Some (map (\<lambda>c. (key c, hits c)) cs @ replicate (unat (filled s) - length cs) (0, 0)) else None)"

section \<open>The invariant\<close>

text \<open>Where a node belongs in a table of \<open>2\<^sup>m\<close> chains.\<close>

definition home :: "nat \<Rightarrow> u32 \<Rightarrow> nat" where
  "home m h = unat (h AND mask m)"

definition at_home :: "nat \<Rightarrow> nat \<Rightarrow> hash_code \<Rightarrow> bool" where
  "at_home m i c \<longleftrightarrow> hash_code_raw c = hash (key c) \<and> home m (hash_code_raw c) = i"

definition chains_ok :: "nat \<Rightarrow> hash_code list list \<Rightarrow> bool" where
  "chains_ok m t \<longleftrightarrow> length t = 2 ^ m \<and>
     (\<forall>i < 2 ^ m. \<forall>c \<in> set (t ! i). at_home m i c)"

definition table_ok :: "hash_set \<Rightarrow> bool" where
  "table_ok s \<longleftrightarrow> (\<exists>m. 4 \<le> m \<and> m \<le> 30 \<and> capacity s = 2 ^ m \<and> chains_ok m (nodes s)) \<and>
     distinct (map key (concat (nodes s))) \<and> unat (filled s) = length (concat (nodes s)) \<and>
     4 * unat (filled s) < 3 * unat (capacity s)"

text \<open>The finite map that the table stands for.\<close>

definition table_map :: "hash_set \<Rightarrow> u32 \<rightharpoonup> u32" where
  "table_map s = map_of (map (\<lambda>c. (key c, hits c)) (concat (nodes s)))"

lemma home_less: "m \<le> 31 \<Longrightarrow> home m h < 2 ^ m"
  by (simp add: home_def take_bit_eq_mask [symmetric] unsigned_take_bit_eq)

lemma unat_cap: "m \<le> 31 \<Longrightarrow> unat (2 ^ m :: u32) = 2 ^ m"
  by (rule unat_two_power) simp

lemma home_index: "m \<le> 31 \<Longrightarrow> unat (h AND ((2 ^ m :: u32) - 1)) = home m h"
  by (simp add: home_def mask_eq_decr_exp)

lemma home_Suc: "unat ((h AND 2 ^ m) OR (of_nat (home m h) :: u32)) = home (Suc m) h"
  by (simp add: home_def mask_Suc_exp bit.conj_disj_distrib)

lemma concat_nth_update:
  assumes "j < length t"
  shows "mset (concat (t[j := xs])) + mset (t ! j) = mset (concat t) + mset xs"
  using assms
proof (induction t arbitrary: j)
  case (Cons a t)
  then show ?case by (cases j) (auto simp: ac_simps)
qed simp


subsection \<open>Growing\<close>

lemma chains_okD: "chains_ok m t \<Longrightarrow> i < 2 ^ m \<Longrightarrow> c \<in> set (t ! i) \<Longrightarrow> at_home m i c"
  by (simp add: chains_ok_def)

lemma chains_ok_length: "chains_ok m t \<Longrightarrow> length t = 2 ^ m"
  by (simp add: chains_ok_def)

lemma chains_ok_update:
  assumes "chains_ok m t" "\<And>c. c \<in> set xs \<Longrightarrow> at_home m j c"
  shows "chains_ok m (t[j := xs])"
  using assms by (auto simp: chains_ok_def nth_upd split: if_splits)

lemma move_nodes:
  assumes "m \<le> 30" "chains_ok (Suc m) new" "\<forall>c \<in> set cs. at_home m i c"
  shows "\<exists>new'. foldM (move_node (2 ^ m) i) cs new = Some new' \<and> chains_ok (Suc m) new' \<and>
    mset (concat new') = mset (concat new) + mset cs"
  using assms(2,3)
proof (induction cs arbitrary: new)
  case (Cons c cs)
  let ?j = "home (Suc m) (hash_code_raw c)"
  let ?new = "new[?j := c # new ! ?j]"
  have j: "?j < length new" using home_less [of "Suc m"] assms(1) Cons.prems(1) by (simp add: chains_ok_def)
  have "unat (hash_code_raw c AND 2 ^ m OR of_nat i) = ?j" using home_Suc [of "hash_code_raw c" m] Cons.prems(2) by (auto simp: at_home_def)
  then have "move_node (2 ^ m) i c new = Some ?new" using j by (simp add: move_node_def Let_def)
  moreover have "chains_ok (Suc m) ?new"
  proof (rule chains_ok_update [OF Cons.prems(1)])
    fix x assume "x \<in> set (c # new ! ?j)"
    then show "at_home (Suc m) ?j x"
      using Cons.prems j chains_okD [OF Cons.prems(1), of ?j x] by (auto simp: chains_ok_length at_home_def)
  qed
  ultimately show ?case
    using Cons.IH [of ?new] Cons.prems concat_nth_update [OF j, of "c # new ! ?j"] by auto
qed simp

lemma grow_table_ok:
  assumes "m \<le> 29" "capacity s = 2 ^ m" "chains_ok m (nodes s)"
  shows "\<exists>t. grow_table s = Some t \<and> capacity t = 2 ^ Suc m \<and> chains_ok (Suc m) (nodes t) \<and>
    mset (concat (nodes t)) = mset (concat (nodes s)) \<and> filled t = filled s"
proof -
  have len: "length (nodes s) = 2 ^ m" using assms(3) by (rule chains_ok_length)
  have cap: "unat (capacity s) = 2 ^ m" using assms(1,2) by (simp add: unat_cap)
  have small: "(2 :: nat) ^ Suc m < 2 ^ 31" using assms(1) by (intro power_strict_increasing) auto
  let ?step = "\<lambda>i new. if i < length (nodes s) then foldM (move_node (2 ^ m) i) (nodes s ! i) new else None"
  have "\<exists>b'. foldM ?step [0 ..< 2 ^ m] (replicate (2 ^ Suc m) []) = Some b' \<and>
     (chains_ok (Suc m) b' \<and> mset (concat b') = mset (concat (take (2 ^ m) (nodes s))))"
  proof (rule foldM_upt)
    show "chains_ok (Suc m) (replicate (2 ^ Suc m) []) \<and> mset (concat (replicate (2 ^ Suc m) [])) = mset (concat (take 0 (nodes s)))"
      by (simp add: chains_ok_def)
  next
    fix i b
    assume i: "i < 2 ^ m" and b: "chains_ok (Suc m) b \<and> mset (concat b) = mset (concat (take i (nodes s)))"
    have "\<forall>c \<in> set (nodes s ! i). at_home m i c"
      using i assms(3) by (auto dest: chains_okD)
    then show "\<exists>b'. ?step i b = Some b' \<and> chains_ok (Suc m) b' \<and> mset (concat b') = mset (concat (take (Suc i) (nodes s)))"
      using move_nodes [of m b "nodes s ! i" i] i b assms(1) by (auto simp: len take_Suc_conv_app_nth)
  qed
  then obtain new where "foldM ?step [0 ..< 2 ^ m] (replicate (2 ^ Suc m) []) = Some new"
    "chains_ok (Suc m) new" "mset (concat new) = mset (concat (nodes s))" by (auto simp: len)
  then show ?thesis using small cap assms(2) by (auto simp: grow_table_def Let_def)
qed

subsection \<open>Inserting\<close>

lemma bump_chain_None: "bump_chain k cs = None \<longleftrightarrow> k \<notin> key ` set cs"
  by (induction cs) auto

lemma bump_chain_Some:
  "bump_chain k cs = Some cs' \<Longrightarrow>
    \<exists>pre c post. cs = pre @ c # post \<and> key c = k \<and> k \<notin> key ` set pre \<and> cs' = pre @ c\<lparr>hits := hits c + 1\<rparr> # post"
proof (induction cs arbitrary: cs')
  case (Cons a cs)
  show ?case
  proof (cases "key a = k")
    case True
    then show ?thesis using Cons.prems by (intro exI [of _ "[]"]) auto
  next
    case False
    then obtain ds where ds: "bump_chain k cs = Some ds" "cs' = a # ds" using Cons.prems by auto
    from Cons.IH [OF ds(1)] obtain pre c post where
      "cs = pre @ c # post \<and> key c = k \<and> k \<notin> key ` set pre \<and> ds = pre @ c\<lparr>hits := hits c + 1\<rparr> # post" by blast
    then have "a # cs = (a # pre) @ c # post \<and> key c = k \<and> k \<notin> key ` set (a # pre) \<and> cs' = (a # pre) @ c\<lparr>hits := hits c + 1\<rparr> # post"
      using False ds(2) by auto
    then show ?thesis by blast
  qed
qed simp

lemma concat_split: "i < length t \<Longrightarrow> concat (t[i := xs]) = concat (take i t) @ xs @ concat (drop (Suc i) t)"
  by (simp add: upd_conv_take_nth_drop)

lemma concat_split_nth: "i < length t \<Longrightarrow> concat t = concat (take i t) @ t ! i @ concat (drop (Suc i) t)"
  using concat_split [of i t "t ! i"] by simp

lemma table_map_perm:
  assumes "mset (concat (nodes s)) = mset (concat (nodes t))" "distinct (map key (concat (nodes s)))"
  shows "table_map t = table_map s \<and> distinct (map key (concat (nodes t))) \<and> length (concat (nodes t)) = length (concat (nodes s))"
proof -
  let ?kv = "\<lambda>c. (key c, hits c)"
  have "mset (map key (concat (nodes t))) = mset (map key (concat (nodes s)))" using assms(1) by simp
  then have d: "distinct (map key (concat (nodes t)))" using assms(2) mset_eq_imp_distinct_iff by blast
  have "set (map ?kv (concat (nodes t))) = set (map ?kv (concat (nodes s)))" using mset_eq_setD [OF assms(1)] by simp
  then have "table_map t = table_map s"
    unfolding table_map_def using d assms(2) by (subst map_of_inject_set) (simp_all add: o_def)
  then show ?thesis using d mset_eq_length [OF assms(1)] by simp
qed

text \<open>The table where a key belongs is the only place where it can be.\<close>

lemma key_in_home:
  assumes "m \<le> 31" "chains_ok m t"
  shows "k \<in> key ` set (concat t) \<longleftrightarrow> k \<in> key ` set (t ! home m (hash k))"
proof
  assume "k \<in> key ` set (concat t)"
  then obtain ch c where "ch \<in> set t" "c \<in> set ch" "key c = k" by auto
  then obtain i where ic: "i < length t" "c \<in> set (t ! i)" "key c = k" by (auto simp: in_set_conv_nth [of ch])
  then have "at_home m i c" using assms(2) by (auto simp: chains_ok_length intro: chains_okD)
  then have "home m (hash k) = i" using ic(3) by (auto simp: at_home_def)
  then show "k \<in> key ` set (t ! home m (hash k))" using ic by auto
next
  assume "k \<in> key ` set (t ! home m (hash k))"
  then show "k \<in> key ` set (concat t)" using home_less [OF assms(1), of "hash k"] assms(2) by (force simp: chains_ok_def)
qed

lemma dom_table_map: "dom (table_map s) = key ` set (concat (nodes s))"
  by (auto simp: table_map_def dom_map_of_conv_image_fst image_image)

lemma contains_spec:
  assumes "table_ok s"
  shows "contains s k = Some (table_map s k \<noteq> None)"
proof -
  from assms obtain m where m: "m \<le> 30" "capacity s = 2 ^ m" "chains_ok m (nodes s)" by (auto simp: table_ok_def)
  then have "home m (hash k) < length (nodes s)" using home_less [of m "hash k"] by (simp add: chains_ok_length)
  moreover have "k \<in> dom (table_map s) \<longleftrightarrow> k \<in> key ` set (nodes s ! home m (hash k))"
    using key_in_home [OF _ m(3), of k] m(1) by (simp add: dom_table_map)
  ultimately show ?thesis using m by (auto simp: contains_def home_index Let_def list_ex_iff dom_def)
qed

definition tick :: "(u32 \<rightharpoonup> u32) \<Rightarrow> u32 \<Rightarrow> (u32 \<rightharpoonup> u32)" where
  "tick f k = f(k \<mapsto> (case f k of None \<Rightarrow> 1 | Some n \<Rightarrow> n + 1))"

lemma insert_present:
  assumes "table_ok s" "table_map s k \<noteq> None"
  shows "\<exists>t. insert_key k s = Some t \<and> table_ok t \<and> table_map t = tick (table_map s) k \<and> filled t = filled s \<and> capacity t = capacity s"
proof -
  from assms(1) obtain m where m: "4 \<le> m" "m \<le> 30" "capacity s = 2 ^ m" "chains_ok m (nodes s)" by (auto simp: table_ok_def)
  let ?i = "home m (hash k)" and ?N = "nodes s"
  have i: "?i < length ?N" using home_less [of m "hash k"] m by (simp add: chains_ok_length)
  have "k \<in> key ` set (?N ! ?i)" using assms(2) key_in_home [OF _ m(4), of k] m(2) dom_table_map [of s] by auto
  then obtain ch where ch: "bump_chain k (?N ! ?i) = Some ch" using bump_chain_None [of k] by fastforce
  from bump_chain_Some [OF this] obtain pre c post where c: "?N ! ?i = pre @ c # post" "key c = k" "k \<notin> key ` set pre"
    "ch = pre @ c\<lparr>hits := hits c + 1\<rparr> # post" by blast
  let ?A = "concat (take ?i ?N) @ pre" and ?B = "post @ concat (drop (Suc ?i) ?N)"
  have old: "concat ?N = ?A @ c # ?B" using concat_split_nth [OF i] c(1) by simp
  have new: "concat (?N[?i := ch]) = ?A @ c\<lparr>hits := hits c + 1\<rparr> # ?B" using concat_split [OF i, of ch] c(4) by simp
  have d: "distinct (map key (?A @ c # ?B))" using assms(1) old by (simp add: table_ok_def)
  then have kA: "map_of (map (\<lambda>c. (key c, hits c)) ?A) k = None" using c(2) by (auto simp: map_of_eq_None_iff)
  let ?t = "s\<lparr>nodes := ?N[?i := ch]\<rparr>"
  have keys: "map key (concat (nodes ?t)) = map key (concat ?N)" "length (concat (nodes ?t)) = length (concat ?N)"
    using old new by simp_all
  have "chains_ok m (nodes ?t)"
  proof (simp, rule chains_ok_update [OF m(4)])
    fix x assume "x \<in> set ch"
    then consider "x \<in> set (?N ! ?i)" | "x = c\<lparr>hits := hits c + 1\<rparr>" using c by auto
    moreover have "at_home m ?i c" using chains_okD [OF m(4) _, of ?i c] i m c(1) by (simp add: chains_ok_length)
    ultimately show "at_home m ?i x" using chains_okD [OF m(4), of ?i x] i m(4) by (cases; simp add: chains_ok_length at_home_def)
  qed
  then have "table_ok ?t" using assms(1) m keys by (auto simp: table_ok_def)
  moreover have "table_map ?t = tick (table_map s) k"
    using kA c(2) by (auto simp: table_map_def old new tick_def map_of_append map_add_def fun_eq_iff split: option.splits)
  moreover have "insert_key k s = Some ?t" using i ch m by (simp add: insert_key_def home_index Let_def)
  ultimately show ?thesis by auto
qed

lemma insert_absent:
  assumes "table_ok s" "table_map s k = None" "unat (filled s) + 1 < 3 * 2 ^ 28"
  shows "\<exists>t. insert_key k s = Some t \<and> table_ok t \<and> table_map t = tick (table_map s) k \<and> filled t = filled s + 1"
proof -
  from assms(1) obtain m where m: "4 \<le> m" "m \<le> 30" "capacity s = 2 ^ m" "chains_ok m (nodes s)" by (auto simp: table_ok_def)
  let ?i = "home m (hash k)" and ?N = "nodes s" and ?c = "\<lparr>key = k, hits = 1, hash_code_raw = hash k\<rparr>"
  have i: "?i < length ?N" using home_less [of m "hash k"] m by (simp add: chains_ok_length)
  have fresh: "k \<notin> key ` set (concat ?N)" using assms(2) dom_table_map [of s] by blast
  then have "k \<notin> key ` set (?N ! ?i)" using nth_mem [OF i] by (auto simp del: nth_mem)
  then have none: "bump_chain k (?N ! ?i) = None" by (simp add: bump_chain_None)
  let ?t = "s\<lparr>nodes := ?N[?i := ?c # ?N ! ?i], filled := filled s + 1\<rparr>"
  have ms: "mset (concat (nodes ?t)) = mset (?c # concat ?N)" using concat_nth_update [OF i, of "?c # ?N ! ?i"] by simp
  have f: "unat (filled ?t) = unat (filled s) + 1" using assms(3) by (simp add: unat_word_ariths)
  have ok: "chains_ok m (nodes ?t)"
  proof (simp, rule chains_ok_update [OF m(4)])
    fix x assume "x \<in> set (?c # ?N ! ?i)"
    then show "at_home m ?i x" using chains_okD [OF m(4), of ?i x] i m(4) by (auto simp: at_home_def chains_ok_length)
  qed
  let ?s' = "s\<lparr>nodes := [?c # concat ?N]\<rparr>"
  have tm: "table_map ?s' = tick (table_map s) k" using assms(2) by (simp add: table_map_def tick_def)
  have ds: "distinct (map key (concat (nodes ?s')))" using assms(1) fresh by (auto simp: table_ok_def)
  have perm: "table_map u = tick (table_map s) k \<and> distinct (map key (concat (nodes u))) \<and> length (concat (nodes u)) = Suc (length (concat ?N))"
    if "mset (concat (nodes u)) = mset (concat (nodes ?t))" for u
    using table_map_perm [of ?s' u] that ms ds tm by simp
  have len: "unat (filled s) = length (concat ?N)" using assms(1) by (simp add: table_ok_def)
  show ?thesis
  proof (cases "4 * unat (filled ?t) \<ge> 3 * unat (capacity ?t)")
    case False
    then have "insert_key k s = Some ?t" using i none m by (simp add: insert_key_def home_index Let_def)
    moreover have "table_ok ?t" using False m ok perm [of ?t] f len by (auto simp: table_ok_def)
    ultimately show ?thesis using perm [of ?t] by auto
  next
    case True
    have "4 * (unat (filled s) + 1) < 3 * 2 ^ 30" using assms(3) by simp
    then have "(2 :: nat) ^ m < 2 ^ 30" using True f m by (simp add: unat_cap)
    then have m29: "m \<le> 29" using power_less_imp_less_exp [of "2 :: nat" m 30] by simp
    from grow_table_ok [OF m29, of ?t] m ok obtain u where u: "grow_table ?t = Some u" "capacity u = 2 ^ Suc m" "chains_ok (Suc m) (nodes u)"
      "mset (concat (nodes u)) = mset (concat (nodes ?t))" "filled u = filled ?t" by auto
    have "unat (filled s) * 4 < 3 * 2 ^ m" using assms(1) m by (auto simp: table_ok_def unat_cap)
    moreover have "(16 :: nat) \<le> 2 ^ m" using power_increasing [OF m(1), of "2 :: nat"] by simp
    ultimately have "4 * unat (filled u) < 3 * 2 ^ Suc m" using u(5) f by simp
    then have "table_ok u" using u perm [of u] f len m m29 unat_cap [of "Suc m"] by (auto simp: table_ok_def intro!: exI [of _ "Suc m"])
    moreover have "insert_key k s = Some u" using i none m True u(1) by (simp add: insert_key_def home_index Let_def)
    ultimately show ?thesis using perm [of u] u by auto
  qed
qed

lemma table_card: "table_ok s \<Longrightarrow> card (dom (table_map s)) = unat (filled s)"
  using distinct_card [of "map key (concat (nodes s))"] by (simp add: dom_table_map table_ok_def del: set_concat)

lemma hashset_to_array_spec:
  assumes "table_ok s"
  shows "\<exists>a. hashset_to_array s = Some a \<and> distinct (map fst a) \<and> map_of a = table_map s \<and> length a = unat (filled s)"
proof -
  have "length (nodes s) \<le> unat (capacity s)" using assms by (auto simp: table_ok_def chains_ok_length unat_cap)
  then show ?thesis using assms by (auto simp: hashset_to_array_def table_ok_def table_map_def o_def)
qed

section \<open>The interface\<close>

text \<open>What the replay tool relies on: a set that counts insertions. \<open>room\<close> bounds the number of different
  keys up to which insertion cannot fail.\<close>

locale counting_set =
  fixes empty :: 's and ins :: "'k \<Rightarrow> 's \<Rightarrow> 's option" and mem :: "'s \<Rightarrow> 'k \<Rightarrow> bool option"
    and arr :: "'s \<Rightarrow> ('k \<times> 'c :: comm_semiring_1) list option"
    and ok :: "'s \<Rightarrow> bool" and sem :: "'s \<Rightarrow> 'k \<rightharpoonup> 'c" and room :: nat
  assumes empty_ok: "ok empty" and empty_sem: "sem empty = Map.empty"
    and sem_finite: "ok s \<Longrightarrow> finite (dom (sem s))"
    and ins_ok: "ok s \<Longrightarrow> card (insert k (dom (sem s))) < room \<Longrightarrow>
      \<exists>t. ins k s = Some t \<and> ok t \<and> sem t = (sem s)(k \<mapsto> (case sem s k of None \<Rightarrow> 1 | Some n \<Rightarrow> n + 1))"
    and mem_sem: "ok s \<Longrightarrow> mem s k = Some (sem s k \<noteq> None)"
    and arr_sem: "ok s \<Longrightarrow> \<exists>a. arr s = Some a \<and> distinct (map fst a) \<and> map_of a = sem s"
begin

definition tally :: "'k list \<Rightarrow> 'k \<rightharpoonup> 'c" where
  "tally ks k = (if k \<in> set ks then Some (of_nat (count_list ks k)) else None)"

lemma tally_snoc: "tally (ks @ [k]) = (tally ks)(k \<mapsto> (case tally ks k of None \<Rightarrow> 1 | Some n \<Rightarrow> n + 1))"
proof
  fix x
  have "k \<notin> set ks \<Longrightarrow> count_list ks k = 0" by simp
  then show "tally (ks @ [k]) x = ((tally ks)(k \<mapsto> (case tally ks k of None \<Rightarrow> 1 | Some n \<Rightarrow> n + 1))) x"
    by (auto simp: tally_def add.commute split: option.splits)
qed

lemma dom_tally: "dom (tally ks) = set ks"
  by (auto simp: tally_def dom_def split: if_splits)

lemma insert_all:
  assumes "card (set ks) < room"
  shows "\<exists>s. foldM ins ks empty = Some s \<and> ok s \<and> sem s = tally ks"
  using assms
proof (induction ks rule: rev_induct)
  case Nil
  then show ?case by (auto simp: empty_ok empty_sem tally_def)
next
  case (snoc k ks)
  have "card (set ks) \<le> card (set (ks @ [k]))" by (intro card_mono) auto
  then obtain s where s: "foldM ins ks empty = Some s" "ok s" "sem s = tally ks" using snoc by fastforce
  have "card (insert k (dom (sem s))) < room" using snoc.prems by (simp add: s(3) dom_tally)
  from ins_ok [OF s(2) this] s show ?case by (auto simp: foldM_append tally_snoc)
qed

lemma insert_all_spec:
  assumes "card (set ks) < room"
  shows "\<exists>s a. foldM ins ks empty = Some s \<and> (\<forall>k. mem s k = Some (k \<in> set ks)) \<and>
    arr s = Some a \<and> distinct (map fst a) \<and> set a = (\<lambda>k. (k, of_nat (count_list ks k))) ` set ks"
proof -
  from insert_all [OF assms] obtain s where s: "foldM ins ks empty = Some s" "ok s" "sem s = tally ks" by blast
  from arr_sem [OF s(2)] obtain a where a: "arr s = Some a" "distinct (map fst a)" "map_of a = tally ks" using s(3) by auto
  have "mem s k = Some (k \<in> set ks)" for k using mem_sem [OF s(2), of k] s(3) by (simp add: tally_def)
  moreover have "(k, v) \<in> set a \<longleftrightarrow> tally ks k = Some v" for k v using a(2,3) by (metis map_of_eq_Some_iff)
  then have "set a = (\<lambda>k. (k, of_nat (count_list ks k))) ` set ks" by (auto simp: tally_def split: if_splits)
  ultimately show ?thesis using s(1) a(1,2) by blast
qed

end

lemma create_table: "table_ok create_hash_set \<and> table_map create_hash_set = Map.empty"
  by (auto simp: table_ok_def create_hash_set_def INITIAL_CAPACITY_def chains_ok_def table_map_def intro!: exI [of _ 4])

interpretation hs: counting_set create_hash_set insert_key contains hashset_to_array table_ok table_map "3 * 2 ^ 28"
proof unfold_locales
  fix s k
  assume ok: "table_ok s" and room: "card (insert k (dom (table_map s))) < 3 * 2 ^ 28"
  have fin: "finite (dom (table_map s))" by (simp add: dom_table_map)
  show "\<exists>t. insert_key k s = Some t \<and> table_ok t \<and> table_map t = (table_map s)(k \<mapsto> (case table_map s k of None \<Rightarrow> 1 | Some n \<Rightarrow> n + 1))"
  proof (cases "table_map s k = None")
    case True
    then have "unat (filled s) + 1 < 3 * 2 ^ 28" using room fin table_card [OF ok] by (simp add: domIff)
    from insert_absent [OF ok True this] show ?thesis by (auto simp: tick_def)
  next
    case False
    from insert_present [OF ok False] show ?thesis by (auto simp: tick_def)
  qed
next
  show "table_ok s \<Longrightarrow> \<exists>a. hashset_to_array s = Some a \<and> distinct (map fst a) \<and> map_of a = table_map s" for s
    using hashset_to_array_spec by blast
qed (simp_all add: create_table contains_spec dom_table_map)

end
