(* ===== verification/Legion_Trace.thy ===== *)
theory Legion_Trace
  imports Legion_Hash_Set
begin

text \<open>
  The run-time part of the instrumentor, \<^verbatim>\<open>src/instrumentor/murmur3.cc\<close> and \<^verbatim>\<open>trace.cc\<close>, with \<open>run_single_test\<close> of
  \<^verbatim>\<open>entry.cc\<close>: numbering of the edge guards, the callback on every edge, which counts the edge and folds it into
  the path hash, and the recording of a path. The guards of the target's modules are a list; the symbolizer of the
  sanitizer run-time, which delivers the description of the calling address, is a parameter of the callback.
\<close>

section \<open>The path hash\<close>

definition rotl32 :: "u32 \<Rightarrow> nat \<Rightarrow> u32" where
  "rotl32 x r = push_bit r x OR drop_bit (32 - r) x"

definition fmix32 :: "u32 \<Rightarrow> u32" where
  "fmix32 h =
     (let h1 = (h XOR drop_bit 16 h) * 0x85ebca6b;
          h2 = (h1 XOR drop_bit 13 h1) * 0xc2b2ae35
      in h2 XOR drop_bit 16 h2)"

definition murmur3_hash :: "u32 \<Rightarrow> u32 \<Rightarrow> u32" where
  "murmur3_hash k sd =
     (let k1 = rotl32 (k * 0xcc9e2d51) 15 * 0x1b873593;
          h1 = rotl32 (sd XOR k1) 13 * 5 + 0xe6546b64
      in fmix32 h1)"

section \<open>The callbacks\<close>

text \<open>\<open>marks\<close> and \<open>names\<close> are the two arrays, which exist once a module was registered.\<close>

record trace_state =
  marks :: "u32 list option"
  names :: "string list option"
  tracing_array_size :: nat
  symbolize_edges :: bool
  seed :: u32
  guard_cnt :: u64

definition legion_set_symbolize_edges :: "int \<Rightarrow> trace_state \<Rightarrow> trace_state" where
  "legion_set_symbolize_edges enabled s = s\<lparr>symbolize_edges := (enabled \<noteq> 0)\<rparr>"

definition legion_reset_trace_state :: "trace_state \<Rightarrow> trace_state" where
  "legion_reset_trace_state s =
     (if marks s = None \<or> names s = None then s
      else s\<lparr>marks := Some (replicate (tracing_array_size s + 1) 0), names := Some (replicate (tracing_array_size s + 1) [])\<rparr>)"

text \<open>The module constructor: number the guards of the module consecutively from the next number, and allocate new
  arrays for all guards so far.\<close>

definition trace_pc_guard_init :: "u32 list \<Rightarrow> trace_state \<Rightarrow> u32 list \<times> trace_state" where
  "trace_pc_guard_init guards s =
     (if guards = [] \<or> hd guards \<noteq> 0 then (guards, s)
      else let n = unat (guard_cnt s + of_nat (length guards)) in
        (map (\<lambda>i. ucast (guard_cnt s + of_nat (i + 1))) [0 ..< length guards],
         s\<lparr>guard_cnt := of_nat n, marks := Some (replicate (n + 1) 0), names := Some (replicate (n + 1) []),
           tracing_array_size := n\<rparr>))"

text \<open>\<^verbatim>\<open>strtok\<close> with a single delimiter: the token and what follows it.\<close>

definition strtok :: "char \<Rightarrow> string \<Rightarrow> (string \<times> string) option" where
  "strtok d s =
     (let r = dropWhile (\<lambda>c. c = d) s
      in if r = [] then None else Some (takeWhile (\<lambda>c. c \<noteq> d) r, drop 1 (dropWhile (\<lambda>c. c \<noteq> d) r)))"

definition function_of :: "string \<Rightarrow> string option" where
  "function_of descr = do {
     (t1, r1) \<leftarrow> strtok (CHR '' '') descr;
     (t2, r2) \<leftarrow> strtok (CHR '' '') r1;
     (token, r3) \<leftarrow> strtok (CHR '' '') r2;
     (name, r4) \<leftarrow> strtok (CHR ''<'') token;
     (name', r5) \<leftarrow> strtok (CHR ''('') name;
     Some name' }"

text \<open>The callback on an edge; \<open>descr\<close> is the description of the calling address, if the run-time has a symbolizer.\<close>

definition trace_pc_guard :: "string option \<Rightarrow> u32 \<Rightarrow> trace_state \<Rightarrow> trace_state" where
  "trace_pc_guard descr guard s =
     (case marks s of
        None \<Rightarrow> s
      | Some ms \<Rightarrow>
          (if guard = 0 \<or> unat guard > tracing_array_size s then s
           else let
             s1 = (case (descr, names s) of
                     (Some d, Some ns) \<Rightarrow>
                       (if symbolize_edges s \<and> ms ! unat guard = 0
                        then (case function_of d of None \<Rightarrow> s | Some f \<Rightarrow> s\<lparr>names := Some (ns[unat guard := f])\<rparr>) else s)
                   | _ \<Rightarrow> s)
           in s1\<lparr>marks := Some (ms[unat guard := ms ! unat guard + 1]), seed := murmur3_hash guard (seed s1)\<rparr>))"

text \<open>A run of the target is the sequence of edges it takes, each with the description of its address.\<close>

definition INITIAL_SEED :: u32 where "INITIAL_SEED = 14"

definition take_edges :: "(string option \<times> u32) list \<Rightarrow> trace_state \<Rightarrow> trace_state" where
  "take_edges es s = fold (\<lambda>(d, g). trace_pc_guard d g) es s"

definition run_single_test :: "(u8 list \<Rightarrow> (string option \<times> u32) list) \<Rightarrow> u8 list option \<Rightarrow>
    hash_set option \<times> trace_state \<Rightarrow> (bool \<times> hash_set option \<times> trace_state) option" where
  "run_single_test target file = (\<lambda>(paths, s).
     case file of
       None \<Rightarrow> Some (False, paths, s)
     | Some buffer \<Rightarrow>
         (let s1 = take_edges (target buffer) (s\<lparr>seed := INITIAL_SEED\<rparr>)
          in case paths of
               None \<Rightarrow> Some (True, None, s1)
             | Some p \<Rightarrow> map_option (\<lambda>p'. (True, Some p', s1)) (insert_key (seed s1) p)))"

section \<open>The hash loses nothing\<close>

lemma xor_shift_inj:
  fixes x y :: "'a::len word"
  assumes "0 < n" "x XOR drop_bit n x = y XOR drop_bit n y"
  shows "x = y"
proof (rule bit_word_eqI)
  fix i
  show "bit x i = bit y i"
  proof (induction "LENGTH('a) - i" arbitrary: i rule: less_induct)
    case less
    show ?case
    proof (cases "i < LENGTH('a)")
      case True
      then have "bit x (i + n) = bit y (i + n)" using less assms(1) by simp
      moreover have "bit (x XOR drop_bit n x) i = bit (y XOR drop_bit n y) i" using assms(2) by simp
      ultimately show ?thesis by (simp add: bit_simps add.commute) blast
    qed (simp add: bit_word.rep_eq)
  qed
qed

lemma mult_inj:
  fixes x y c d :: "'a::len word"
  assumes "c * d = 1" "x * c = y * c"
  shows "x = y"
  using arg_cong [OF assms(2), of "\<lambda>z. z * d"] by (simp add: mult.assoc assms(1))

lemma rotl32_inj:
  assumes "0 < r" "r < 32" "rotl32 x r = rotl32 y r"
  shows "x = y"
proof (rule bit_word_eqI)
  fix i assume "i < LENGTH(32)"
  then have i: "i < 32" by simp
  have out: "\<not> bit w j" if "32 \<le> j" for w :: u32 and j using that bit_imp_le_length [of w j] by auto
  have b: "bit x i = bit (rotl32 x r) (if i < 32 - r then i + r else i + r - 32)" for x :: u32
    using i assms(1,2) by (auto simp: rotl32_def bit_simps out)
  show "bit x i = bit y i" using b [of x] b [of y] assms(3) by simp
qed

lemma fmix32_inj: "fmix32 x = fmix32 y \<Longrightarrow> x = y"
proof -
  assume "fmix32 x = fmix32 y"
  then have "((x XOR drop_bit 16 x) * 0x85ebca6b XOR drop_bit 13 ((x XOR drop_bit 16 x) * 0x85ebca6b)) * 0xc2b2ae35 =
     ((y XOR drop_bit 16 y) * 0x85ebca6b XOR drop_bit 13 ((y XOR drop_bit 16 y) * 0x85ebca6b)) * 0xc2b2ae35"
    unfolding fmix32_def Let_def by (rule xor_shift_inj [rotated]) simp
  then have "(x XOR drop_bit 16 x) * 0x85ebca6b XOR drop_bit 13 ((x XOR drop_bit 16 x) * 0x85ebca6b) =
     (y XOR drop_bit 16 y) * 0x85ebca6b XOR drop_bit 13 ((y XOR drop_bit 16 y) * 0x85ebca6b)"
    by (rule mult_inj [where d = "0x7ed1b41d", rotated]) simp
  then have "(x XOR drop_bit 16 x) * 0x85ebca6b = (y XOR drop_bit 16 y) * 0x85ebca6b"
    by (rule xor_shift_inj [rotated]) simp
  then have "x XOR drop_bit 16 x = y XOR drop_bit 16 y"
    by (rule mult_inj [where d = "0xa5cb9243", rotated]) simp
  then show "x = y" by (rule xor_shift_inj [rotated]) simp
qed

lemma murmur3_state_inj:
  assumes "fmix32 (rotl32 a 13 * 5 + 0xe6546b64) = fmix32 (rotl32 b 13 * 5 + 0xe6546b64)"
  shows "a = b"
proof -
  have "rotl32 a 13 * 5 = rotl32 b 13 * 5" using fmix32_inj [OF assms] by simp
  then have "rotl32 a 13 = rotl32 b 13" by (rule mult_inj [where d = "0xcccccccd", rotated]) simp
  then show ?thesis by (rule rotl32_inj [rotated 2]) simp_all
qed

lemma xor_cancel:
  fixes a b c :: "'a::len word"
  shows "a XOR b = a XOR c \<longleftrightarrow> b = c" "b XOR a = c XOR a \<longleftrightarrow> b = c"
  by (metis bit.xor_left_self) (metis bit.xor_left_self xor.commute)

lemma murmur3_seed_inj: "murmur3_hash k sd = murmur3_hash k sd' \<longleftrightarrow> sd = sd'"
  by (auto simp: murmur3_hash_def Let_def xor_cancel dest!: murmur3_state_inj)

lemma murmur3_key_inj: "murmur3_hash k sd = murmur3_hash k' sd \<longleftrightarrow> k = k'"
proof
  assume "murmur3_hash k sd = murmur3_hash k' sd"
  then have "rotl32 (k * 0xcc9e2d51) 15 * 0x1b873593 = rotl32 (k' * 0xcc9e2d51) 15 * 0x1b873593"
    by (auto simp: murmur3_hash_def Let_def xor_cancel dest!: murmur3_state_inj)
  then have "rotl32 (k * 0xcc9e2d51) 15 = rotl32 (k' * 0xcc9e2d51) 15"
    by (rule mult_inj [where d = "0x56ed309b", rotated]) simp
  then have "k * 0xcc9e2d51 = k' * 0xcc9e2d51" by (rule rotl32_inj [rotated 2]) simp_all
  then show "k = k'" by (rule mult_inj [where d = "0xdee13bb1", rotated]) simp
qed simp

section \<open>What a run records\<close>

definition trace_ok :: "trace_state \<Rightarrow> bool" where
  "trace_ok s \<longleftrightarrow> (case marks s of None \<Rightarrow> False | Some ms \<Rightarrow> length ms = tracing_array_size s + 1) \<and>
     (case names s of None \<Rightarrow> False | Some ns \<Rightarrow> length ns = tracing_array_size s + 1)"

text \<open>The guards that the callback counts.\<close>

definition counted :: "trace_state \<Rightarrow> (string option \<times> u32) list \<Rightarrow> u32 list" where
  "counted s es = filter (\<lambda>g. g \<noteq> 0 \<and> unat g \<le> tracing_array_size s) (map snd es)"

lemma trace_pc_guard_step:
  fixes d g
  assumes "trace_ok s"
  defines "t \<equiv> trace_pc_guard d g s"
  shows "trace_ok t" "tracing_array_size t = tracing_array_size s" "symbolize_edges t = symbolize_edges s"
    "seed t = (if g \<noteq> 0 \<and> unat g \<le> tracing_array_size s then murmur3_hash g (seed s) else seed s)"
    "the (marks t) = (if g \<noteq> 0 \<and> unat g \<le> tracing_array_size s
       then (the (marks s))[unat g := the (marks s) ! unat g + 1] else the (marks s))"
  using assms(1) unfolding t_def
  by (auto simp: trace_ok_def trace_pc_guard_def Let_def split: option.splits if_splits)

lemma take_edges_Cons: "take_edges ((d, g) # es) s = take_edges es (trace_pc_guard d g s)"
  by (simp add: take_edges_def)

lemma take_edges_spec:
  assumes "trace_ok s"
  shows "trace_ok (take_edges es s) \<and> tracing_array_size (take_edges es s) = tracing_array_size s \<and>
    seed (take_edges es s) = fold murmur3_hash (counted s es) (seed s) \<and>
    (\<forall>i \<le> tracing_array_size s. the (marks (take_edges es s)) ! i =
       the (marks s) ! i + of_nat (count_list (map unat (counted s es)) i))"
  using assms
proof (induction es arbitrary: s)
  case Nil
  then show ?case by (simp add: take_edges_def counted_def)
next
  case (Cons e es)
  obtain d g where e: "e = (d, g)" by fastforce
  let ?t = "trace_pc_guard d g s"
  note st = trace_pc_guard_step [OF Cons.prems, of d g]
  have c: "counted s (e # es) = (if g \<noteq> 0 \<and> unat g \<le> tracing_array_size s then [g] else []) @ counted ?t es"
    using st(2) by (simp add: counted_def e)
  have len: "length (the (marks s)) = tracing_array_size s + 1" using Cons.prems by (auto simp: trace_ok_def split: option.splits)
  show ?case
    using Cons.IH [OF st(1)] st(2,4,5) len unfolding e take_edges_Cons c [unfolded e]
    by (auto simp: nth_list_update)
qed

text \<open>Replacing one edge of a run by another changes the path hash.\<close>

lemma fold_murmur_inj: "fold murmur3_hash gs a = fold murmur3_hash gs b \<longleftrightarrow> a = b"
  by (induction gs arbitrary: a b) (simp_all add: murmur3_seed_inj)

lemma one_edge_changes_hash:
  assumes "g \<noteq> g'"
  shows "fold murmur3_hash (pre @ g # post) sd \<noteq> fold murmur3_hash (pre @ g' # post) sd"
  using assms by (simp add: fold_murmur_inj murmur3_key_inj)

text \<open>Modules registered one after the other get disjoint ranges of guard numbers.\<close>

lemma trace_pc_guard_init_spec:
  assumes "guards \<noteq> []" "hd guards = 0" "unat (guard_cnt s) + length guards < 2 ^ 32"
  shows "case trace_pc_guard_init guards s of (gs, t) \<Rightarrow>
    map unat gs = [unat (guard_cnt s) + 1 ..< unat (guard_cnt s) + length guards + 1] \<and>
    unat (guard_cnt t) = unat (guard_cnt s) + length guards \<and> tracing_array_size t = unat (guard_cnt t) \<and> trace_ok t"
proof -
  let ?n = "unat (guard_cnt s)"
  have add: "unat (guard_cnt s + of_nat k) = ?n + k" if "k \<le> length guards" for k
    using that assms(3) by (simp add: unat_word_ariths unat_of_nat take_bit_nat_eq_self)
  have "unat (ucast (guard_cnt s + of_nat (i + 1)) :: u32) = ?n + i + 1" if "i < length guards" for i
    using add [of "i + 1"] that assms(3) by (simp add: unsigned_ucast_eq take_bit_nat_eq_self)
  then have "map unat (map (\<lambda>i. ucast (guard_cnt s + of_nat (i + 1)) :: u32) [0 ..< length guards]) =
    [?n + 1 ..< ?n + length guards + 1]" by (intro nth_equalityI) (simp_all del: upt_Suc)
  then show ?thesis using assms(1,2) add [of "length guards"]
    by (simp add: trace_pc_guard_init_def Let_def trace_ok_def)
qed

end
