(* ===== verification/Legion_Batch.thy ===== *)
theory Legion_Batch
  imports Legion_Text Legion_Trace
begin

text \<open>
  The batch replay of \<^verbatim>\<open>src/instrumentor/entry.cc\<close>: the report of one seed, which a forked child writes, the merging of
  these reports, the choice of seeds for symbolization, the second pass that names the functions of the edges, and the
  report of the batch. The children run in parallel and may end in any order, so the loop of \<open>run_batch\<close> is a step relation. A
  file is its contents; the target is the function from inputs to the edges taken.
\<close>

section \<open>Reports of single seeds\<close>

definition unlines :: "string list \<Rightarrow> string" where
  "unlines ls = concat (map (\<lambda>l. l @ [newline]) ls)"

definition count_line :: "nat \<Rightarrow> nat \<Rightarrow> string" where
  "count_line i n = show_nat i @ CHR '' '' # show_nat n"

definition name_line :: "nat \<Rightarrow> string \<Rightarrow> string" where
  "name_line i f = show_nat i @ CHR '' '' # f"

text \<open>The arrays are only read if there are guards; reading a null pointer is \<^const>\<open>None\<close>.\<close>

definition write_sparse_report :: "bool \<Rightarrow> hash_set \<Rightarrow> trace_state \<Rightarrow> string option" where
  "write_sparse_report include_edge_to_func paths s = do {
     ms \<leftarrow> (if tracing_array_size s = 0 then Some [] else marks s);
     array \<leftarrow> hashset_to_array paths;
     ns \<leftarrow> (if include_edge_to_func \<and> 1 < tracing_array_size s then names s else Some []);
     Some (unlines
       (''[EDGE]'' # map (\<lambda>i. count_line i (unat (ms ! i))) (filter (\<lambda>i. ms ! i > 0) [1 ..< tracing_array_size s + 1]) @
        ''[PATH]'' # map (\<lambda>(k, n). count_line (unat k) (unat n)) array @
        ''[EDGE TO FUNC]'' #
          (if include_edge_to_func
           then map (\<lambda>i. name_line i (ns ! i)) (filter (\<lambda>i. ns ! i \<noteq> []) [1 ..< tracing_array_size s]) else []))) }"

text \<open>The child: a clean trace, one run, one report. \<^const>\<open>None\<close> is an exit with an error.\<close>

definition seed_report :: "(u8 list \<Rightarrow> (string option \<times> u32) list) \<Rightarrow> trace_state \<Rightarrow> u8 list option \<Rightarrow> string option" where
  "seed_report target s file = do {
     (ok, paths, s1) \<leftarrow> run_single_test target file (Some create_hash_set, legion_reset_trace_state (legion_set_symbolize_edges 0 s));
     p \<leftarrow> paths;
     (if ok then write_sparse_report False p s1 else None) }"

section \<open>Merging\<close>

datatype report_section = REPORT_NONE | REPORT_EDGE | REPORT_PATH | REPORT_EDGE_TO_FUNC

record batch =
  edge_counts :: "u64 list"
  path_counts :: "u32 \<rightharpoonup> u64"
  edge_to_func :: "string list"
  selected_edge_seen :: "bool list"
  mapping_seed_files :: "nat list"
  processed :: nat
  timed_out :: nat
  failed :: nat

definition merge_section :: "string \<Rightarrow> report_section" where
  "merge_section line =
     (if starts_with ''[EDGE]'' line then REPORT_EDGE
      else if starts_with ''[PATH]'' line then REPORT_PATH
      else if starts_with ''[EDGE TO FUNC]'' line then REPORT_EDGE_TO_FUNC else REPORT_NONE)"

definition parse_positive_uint :: "string \<Rightarrow> u32 option" where
  "parse_positive_uint t = (case in_range t of Some (v, []) \<Rightarrow> Some (ucast v) | _ \<Rightarrow> None)"

definition merge_edge :: "string \<Rightarrow> u32 list \<times> batch \<Rightarrow> u32 list \<times> batch" where
  "merge_edge line = (\<lambda>(seed_edges, b).
     case sscanf_lu_lu line of
       [edge, cnt] \<Rightarrow>
         (if unat edge < length (edge_counts b) \<and> cnt > 0
          then (seed_edges @ [ucast edge], b\<lparr>edge_counts := (edge_counts b)[unat edge := edge_counts b ! unat edge + 1]\<rparr>)
          else (seed_edges, b))
     | _ \<Rightarrow> (seed_edges, b))"

definition merge_path :: "string \<Rightarrow> batch \<Rightarrow> batch" where
  "merge_path line b =
     (case sscanf_lu_lu line of
        [h, cnt] \<Rightarrow> b\<lparr>path_counts := (path_counts b)(ucast h \<mapsto>
                          (case path_counts b (ucast h) of None \<Rightarrow> 0 | Some n \<Rightarrow> n) + cnt)\<rparr>
      | _ \<Rightarrow> b)"

definition merge_func :: "string \<Rightarrow> batch \<Rightarrow> batch" where
  "merge_func line b =
     (let id_text = takeWhile (\<lambda>c. \<not> is_blank c) line;
          function_name = dropWhile is_blank (drop (length id_text) line)
      in if function_name = [] then b
         else case parse_positive_uint id_text of
           None \<Rightarrow> b
         | Some edge_id \<Rightarrow>
             (if unat edge_id < length (edge_to_func b) \<and> edge_to_func b ! unat edge_id = []
              then b\<lparr>edge_to_func := (edge_to_func b)[unat edge_id := function_name]\<rparr> else b))"

definition merge_line :: "string \<Rightarrow> report_section \<times> u32 list \<times> batch \<Rightarrow> report_section \<times> u32 list \<times> batch" where
  "merge_line raw = (\<lambda>(section, seed_edges, b).
     let line = chomp raw in
     if line = [] then (section, seed_edges, b)
     else if hd line = CHR ''['' then (merge_section line, seed_edges, b)
     else case section of
       REPORT_EDGE \<Rightarrow> (section, merge_edge line (seed_edges, b))
     | REPORT_PATH \<Rightarrow> (section, seed_edges, merge_path line b)
     | REPORT_EDGE_TO_FUNC \<Rightarrow> (section, seed_edges, merge_func line b)
     | REPORT_NONE \<Rightarrow> (section, seed_edges, b))"

definition merge_seed_report :: "string \<Rightarrow> batch \<Rightarrow> u32 list \<times> batch" where
  "merge_seed_report report b = snd (fold merge_line (getlines report) (REPORT_NONE, [], b))"

section \<open>The batch\<close>

definition select_seed_for_symbolization :: "u32 list \<Rightarrow> bool list \<Rightarrow> bool \<times> bool list" where
  "select_seed_for_symbolization seed_edges seen =
     fold (\<lambda>edge (chosen, seen). if unat edge < length seen \<and> \<not> seen ! unat edge then (True, seen[unat edge := True]) else (chosen, seen))
       seed_edges (False, seen)"

datatype outcome = Exited_ok string | Timed_out | Failed

definition finalize_task :: "nat \<Rightarrow> outcome \<Rightarrow> batch \<Rightarrow> batch" where
  "finalize_task seed_index out b =
     (case out of
        Exited_ok report \<Rightarrow>
          (let (seed_edges, b1) = merge_seed_report report b;
               (chosen, seen) = select_seed_for_symbolization seed_edges (selected_edge_seen b1)
           in b1\<lparr>selected_edge_seen := seen, processed := processed b1 + 1,
                 mapping_seed_files := mapping_seed_files b1 @ (if chosen then [seed_index] else [])\<rparr>)
      | Timed_out \<Rightarrow> b\<lparr>timed_out := timed_out b + 1\<rparr>
      | Failed \<Rightarrow> b\<lparr>failed := failed b + 1\<rparr>)"

definition empty_batch :: "trace_state \<Rightarrow> batch" where
  "empty_batch s = \<lparr>edge_counts = replicate (tracing_array_size s + 1) 0, path_counts = Map.empty,
     edge_to_func = replicate (tracing_array_size s + 1) [], selected_edge_seen = replicate (tracing_array_size s + 1) False,
     mapping_seed_files = [], processed = 0, timed_out = 0, failed = 0\<rparr>"

text \<open>The loop of \<open>run_batch\<close>. A child is launched when there is a free slot, the launch may fail, and any running child may
  be collected next, whether it succeeded, failed or ran out of time. \<open>active_tasks\<close> are the indices of the seeds.\<close>

record replay =
  next_seed_index :: nat
  active_tasks :: "nat list"
  collected :: batch

definition task_slots :: "nat \<Rightarrow> nat" where
  "task_slots jobs = (if jobs = 0 then 1 else jobs)"

definition erase_at :: "nat \<Rightarrow> 'a list \<Rightarrow> 'a list" where
  "erase_at i xs = take i xs @ drop (Suc i) xs"

inductive batch_step :: "(nat \<Rightarrow> string option) \<Rightarrow> nat \<Rightarrow> nat \<Rightarrow> replay \<Rightarrow> replay \<Rightarrow> bool" for reports seeds jobs where
  launch: "next_seed_index r < seeds \<Longrightarrow> length (active_tasks r) < task_slots jobs \<Longrightarrow>
    batch_step reports seeds jobs r
      (r\<lparr>active_tasks := active_tasks r @ [next_seed_index r], next_seed_index := next_seed_index r + 1\<rparr>)"
| launch_fails: "next_seed_index r < seeds \<Longrightarrow> length (active_tasks r) < task_slots jobs \<Longrightarrow>
    batch_step reports seeds jobs r
      (r\<lparr>collected := finalize_task (next_seed_index r) Failed (collected r), next_seed_index := next_seed_index r + 1\<rparr>)"
| collect_ok: "i < length (active_tasks r) \<Longrightarrow> reports (active_tasks r ! i) = Some report \<Longrightarrow>
    batch_step reports seeds jobs r
      (r\<lparr>collected := finalize_task (active_tasks r ! i) (Exited_ok report) (collected r), active_tasks := erase_at i (active_tasks r)\<rparr>)"
| collect_other: "i < length (active_tasks r) \<Longrightarrow> out = Timed_out \<or> out = Failed \<Longrightarrow>
    batch_step reports seeds jobs r
      (r\<lparr>collected := finalize_task (active_tasks r ! i) out (collected r), active_tasks := erase_at i (active_tasks r)\<rparr>)"

definition start_replay :: "trace_state \<Rightarrow> replay" where
  "start_replay s = \<lparr>next_seed_index = 0, active_tasks = [], collected = empty_batch s\<rparr>"

definition replay_done :: "nat \<Rightarrow> replay \<Rightarrow> bool" where
  "replay_done seeds r \<longleftrightarrow> \<not> next_seed_index r < seeds \<and> active_tasks r = []"

section \<open>Symbolization and the report of the batch\<close>

definition harvest_edge_to_func :: "trace_state \<Rightarrow> string list \<Rightarrow> string list" where
  "harvest_edge_to_func s fs =
     fold (\<lambda>i fs. case names s of None \<Rightarrow> fs | Some ns \<Rightarrow> if fs ! i = [] \<and> ns ! i \<noteq> [] then fs[i := ns ! i] else fs)
       [1 ..< min (length fs) (tracing_array_size s)] fs"

definition run_symbolization_pass :: "(u8 list \<Rightarrow> (string option \<times> u32) list) \<Rightarrow> u8 list option list \<Rightarrow>
    string list \<times> trace_state \<Rightarrow> string list \<times> trace_state" where
  "run_symbolization_pass target files = (\<lambda>(fs, s).
     if files = [] then (fs, s)
     else let
       s1 = legion_set_symbolize_edges 1 (legion_reset_trace_state s);
       s2 = fold (\<lambda>file s. case run_single_test target file (None, s) of None \<Rightarrow> s | Some (ok, paths, s') \<Rightarrow> s') files s1
     in (harvest_edge_to_func s2 fs, legion_reset_trace_state (legion_set_symbolize_edges 0 s2)))"

text \<open>\<open>entries\<close> are the path counts in the order in which the unordered map is traversed.\<close>

definition write_batch_report :: "u64 list \<Rightarrow> (u32 \<times> u64) list \<Rightarrow> string list \<Rightarrow> string" where
  "write_batch_report ec entries fs = unlines
     (''[EDGE]'' # map (\<lambda>i. count_line i (unat (ec ! i))) [1 ..< length ec] @
      ''[PATH]'' # map (\<lambda>(h, n). count_line (unat h) (unat n)) entries @
      ''[EDGE TO FUNC]'' # map (\<lambda>i. name_line i (fs ! i)) (filter (\<lambda>i. fs ! i \<noteq> []) [1 ..< length fs]))"

definition finish_batch :: "(u8 list \<Rightarrow> (string option \<times> u32) list) \<Rightarrow> u8 list option list \<Rightarrow> (u32 \<times> u64) list \<Rightarrow> trace_state \<Rightarrow> batch \<Rightarrow> string" where
  "finish_batch target files entries s b =
     write_batch_report (edge_counts b) entries
       (fst (run_symbolization_pass target (map (\<lambda>i. files ! i) (mapping_seed_files b)) (edge_to_func b, s)))"

end
