(* ===== verification/Legion_Batch_Laws.thy ===== *)
theory Legion_Batch_Laws
  imports Legion_Batch
begin

text \<open>
  What a batch replay collects: the report of a seed names exactly the edges of its run and its path; merging counts, for every
  edge and every path, the seeds that take it; and this is so whatever the order in which the children end.
\<close>

section \<open>Lines of a report\<close>

lemma count_line_plain:
  "chomp (count_line i n) = count_line i n \<and> count_line i n \<noteq> [] \<and> hd (count_line i n) \<noteq> CHR ''['' \<and> newline \<notin> set (count_line i n)"
proof -
  have d: "\<forall>c \<in> set (show_nat k). is_digit c" "show_nat k \<noteq> []" for k using show_nat_digits by blast+
  have "is_digit (last (show_nat n))" "is_digit (hd (show_nat i))" using d last_in_set hd_in_set by metis+
  moreover have "last (count_line i n) = last (show_nat n)" "hd (count_line i n) = hd (show_nat i)"
    using d(2) by (simp_all add: count_line_def)
  ultimately show ?thesis using d digit_facts by (auto simp: count_line_def chomp_id newline_def)
qed

lemma header_plain:
  "chomp ''[EDGE]'' = ''[EDGE]''" "chomp ''[PATH]'' = ''[PATH]''" "chomp ''[EDGE TO FUNC]'' = ''[EDGE TO FUNC]''"
  by (simp_all add: chomp_def newline_def)

lemma getlines_unlines': "\<forall>l \<in> set ls. newline \<notin> set l \<Longrightarrow> getlines (unlines ls) = ls"
  by (simp add: unlines_def getlines_unlines)

lemma merge_header:
  "merge_line ''[EDGE]'' (sec, se, b) = (REPORT_EDGE, se, b)"
  "merge_line ''[PATH]'' (sec, se, b) = (REPORT_PATH, se, b)"
  "merge_line ''[EDGE TO FUNC]'' (sec, se, b) = (REPORT_EDGE_TO_FUNC, se, b)"
  by (simp_all add: merge_line_def header_plain merge_section_def starts_with_def)

lemma of_nat_pos: "0 < n \<Longrightarrow> n < 2 ^ 64 \<Longrightarrow> (0 :: u64) < of_nat n"
  by (simp add: word_less_nat_alt unat_of_nat take_bit_nat_eq_self)

lemma unat_of_nat64: "n < 2 ^ 64 \<Longrightarrow> unat (of_nat n :: u64) = n"
  by (simp add: unat_of_nat take_bit_nat_eq_self)

lemma ucast_of_nat64: "n < 2 ^ 64 \<Longrightarrow> (ucast (of_nat n :: u64) :: u32) = of_nat n"
  by (simp add: unsigned_of_nat take_bit_nat_eq_self)

lemma sscanf_count_line: "i < 2 ^ 64 \<Longrightarrow> n < 2 ^ 64 \<Longrightarrow> sscanf_lu_lu (count_line i n) = [of_nat i, of_nat n]"
  by (simp add: count_line_def sscanf_show_two)

definition count_edges :: "nat list \<Rightarrow> u64 list \<Rightarrow> u64 list" where
  "count_edges is ec = fold (\<lambda>i ec. ec[i := ec ! i + 1]) is ec"

lemma length_count_edges [simp]: "length (count_edges is ec) = length ec"
  by (induction "is" arbitrary: ec) (simp_all add: count_edges_def)

lemma nth_count_edges: "distinct is \<Longrightarrow> i < length ec \<Longrightarrow> count_edges is ec ! i = ec ! i + (if i \<in> set is then 1 else 0)"
proof (induction "is" arbitrary: ec)
  case (Cons j "is")
  have "count_edges (j # is) ec ! i = count_edges is (ec[j := ec ! j + 1]) ! i" by (simp add: count_edges_def)
  also have "\<dots> = ec[j := ec ! j + 1] ! i + (if i \<in> set is then 1 else 0)" using Cons by simp
  finally show ?case using Cons.prems by (cases "i = j") simp_all
qed (simp add: count_edges_def)

lemma merge_edge_line:
  assumes "i < length (edge_counts b)" "length (edge_counts b) \<le> 2 ^ 64" "0 < n" "n < 2 ^ 64"
  shows "merge_line (count_line i n) (REPORT_EDGE, se, b) =
    (REPORT_EDGE, se @ [of_nat i], b\<lparr>edge_counts := (edge_counts b)[i := edge_counts b ! i + 1]\<rparr>)"
proof -
  have i: "i < 2 ^ 64" using assms(1,2) by linarith
  show ?thesis using assms count_line_plain [of i n]
    by (simp add: merge_line_def merge_edge_def Let_def sscanf_count_line [OF i assms(4)] of_nat_pos unat_of_nat64 [OF i] ucast_of_nat64 [OF i])
qed

lemma merge_edge_lines:
  assumes "\<forall>i \<in> set is. i < length (edge_counts b) \<and> 0 < f i \<and> f i < 2 ^ 64" "length (edge_counts b) \<le> 2 ^ 64"
  shows "fold merge_line (map (\<lambda>i. count_line i (f i)) is) (REPORT_EDGE, se, b) =
    (REPORT_EDGE, se @ map of_nat is, b\<lparr>edge_counts := count_edges is (edge_counts b)\<rparr>)"
  using assms
proof (induction "is" arbitrary: se b)
  case (Cons i "is")
  then show ?case using merge_edge_line [of i b "f i" se] by (simp add: count_edges_def)
qed (simp add: count_edges_def)

lemma merge_path_line:
  assumes "n < 2 ^ 64"
  shows "merge_line (count_line (unat (h :: u32)) n) (REPORT_PATH, se, b) =
    (REPORT_PATH, se, b\<lparr>path_counts := (path_counts b)(h \<mapsto> (case path_counts b h of None \<Rightarrow> 0 | Some n \<Rightarrow> n) + of_nat n)\<rparr>)"
proof -
  have h: "unat h < 2 ^ 64" using unsigned_less [of h, where 'a = nat] by simp
  have "(ucast (ucast h :: u64) :: u32) = h" by (rule bit_word_eqI) (simp add: bit_simps)
  then show ?thesis using assms count_line_plain [of "unat h" n]
    by (simp add: merge_line_def merge_path_def Let_def sscanf_count_line [OF h assms] ucast_of_nat64 [OF h])
qed

section \<open>The report of a seed\<close>

definition edge_hits :: "(u8 list \<Rightarrow> (string option \<times> u32) list) \<Rightarrow> trace_state \<Rightarrow> u8 list \<Rightarrow> nat \<Rightarrow> u32" where
  "edge_hits target s buf i = of_nat (count_list (map unat (counted s (target buf))) i)"

definition edges_of :: "(u8 list \<Rightarrow> (string option \<times> u32) list) \<Rightarrow> trace_state \<Rightarrow> u8 list \<Rightarrow> nat list" where
  "edges_of target s buf = filter (\<lambda>i. edge_hits target s buf i > 0) [1 ..< tracing_array_size s + 1]"

definition path_of :: "(u8 list \<Rightarrow> (string option \<times> u32) list) \<Rightarrow> trace_state \<Rightarrow> u8 list \<Rightarrow> u32" where
  "path_of target s buf = fold murmur3_hash (counted s (target buf)) INITIAL_SEED"

definition run_lines :: "(u8 list \<Rightarrow> (string option \<times> u32) list) \<Rightarrow> trace_state \<Rightarrow> u8 list \<Rightarrow> string list" where
  "run_lines target s buf = ''[EDGE]'' # map (\<lambda>i. count_line i (unat (edge_hits target s buf i))) (edges_of target s buf) @
     [''[PATH]'', count_line (unat (path_of target s buf)) 1, ''[EDGE TO FUNC]'']"

lemma singleton_list: "distinct (map fst a) \<Longrightarrow> set a = {x} \<Longrightarrow> a = [x]"
proof (cases a)
  fix y ys
  assume d: "distinct (map fst a)" "set a = {x}" and a: "a = y # ys"
  then have "y = x" "set ys \<subseteq> {x}" by auto
  moreover have "x \<notin> set ys" using d a \<open>y = x\<close> by force
  ultimately show "a = [x]" using a by (cases ys) auto
qed simp

lemma seed_report_spec:
  assumes "trace_ok s"
  shows "seed_report target s (Some buf) = Some (unlines (run_lines target s buf))"
proof -
  define s0 where "s0 = (legion_reset_trace_state (legion_set_symbolize_edges 0 s))\<lparr>seed := INITIAL_SEED\<rparr>"
  define s1 where "s1 = take_edges (target buf) s0"
  have s0: "trace_ok s0" "tracing_array_size s0 = tracing_array_size s" "the (marks s0) = replicate (tracing_array_size s + 1) 0" "seed s0 = INITIAL_SEED"
    using assms by (auto simp: s0_def legion_reset_trace_state_def legion_set_symbolize_edges_def trace_ok_def split: option.splits)
  have c: "counted s0 (target buf) = counted s (target buf)" by (simp add: counted_def s0)
  have s1: "trace_ok s1" "tracing_array_size s1 = tracing_array_size s" "seed s1 = path_of target s buf"
    "\<And>i. i \<le> tracing_array_size s \<Longrightarrow> the (marks s1) ! i = edge_hits target s buf i"
    using take_edges_spec [OF s0(1), of "target buf"] s0 c by (simp_all add: s1_def path_of_def edge_hits_def del: replicate_Suc)
  obtain ms where ms: "marks s1 = Some ms" using s1(1) by (auto simp: trace_ok_def split: option.splits)
  have "card (set [seed s1]) < 3 * 2 ^ 28" by simp
  from hs.insert_all_spec [OF this] obtain h a where h: "insert_key (seed s1) create_hash_set = Some h" "hashset_to_array h = Some a"
    "distinct (map fst a)" "set a = {(seed s1, 1)}" by (auto split: option.splits)
  have a: "a = [(path_of target s buf, 1)]" using singleton_list [OF h(3,4)] s1(3) by simp
  have e: "filter (\<lambda>i. ms ! i > 0) [Suc 0 ..< Suc (tracing_array_size s)] = edges_of target s buf"
    unfolding edges_of_def using s1(4) ms by (intro filter_cong) (auto simp del: upt_Suc)
  have m: "map (\<lambda>i. count_line i (unat (ms ! i))) (edges_of target s buf) = map (\<lambda>i. count_line i (unat (edge_hits target s buf i))) (edges_of target s buf)"
    using s1(4) ms by (intro map_cong) (auto simp: edges_of_def simp del: upt_Suc)
  have "write_sparse_report False h s1 = Some (unlines (''[EDGE]'' # map (\<lambda>i. count_line i (unat (ms ! i))) (edges_of target s buf) @
      [''[PATH]'', count_line (unat (path_of target s buf)) 1, ''[EDGE TO FUNC]'']))"
  proof (cases "tracing_array_size s = 0")
    case True
    then have "edges_of target s buf = []" by (simp add: edges_of_def)
    then show ?thesis using True h(2) a s1(2) by (simp add: write_sparse_report_def)
  next
    case False
    then show ?thesis using ms h(2) a e s1(2) by (simp add: write_sparse_report_def del: upt_Suc)
  qed
  then have "write_sparse_report False h s1 = Some (unlines (run_lines target s buf))" unfolding m run_lines_def .
  then show ?thesis using h(1) by (simp add: seed_report_def run_single_test_def s0_def s1_def Let_def)
qed

lemma edges_of_props: "distinct (edges_of target s buf)" "i \<in> set (edges_of target s buf) \<Longrightarrow> 1 \<le> i \<and> i \<le> tracing_array_size s"
  by (auto simp: edges_of_def)

lemma merge_run:
  assumes "length (edge_counts b) = tracing_array_size s + 1" "tracing_array_size s < 2 ^ 32"
  shows "merge_seed_report (unlines (run_lines target s buf)) b =
    (map of_nat (edges_of target s buf),
     b\<lparr>edge_counts := count_edges (edges_of target s buf) (edge_counts b),
       path_counts := (path_counts b)(path_of target s buf \<mapsto> (case path_counts b (path_of target s buf) of None \<Rightarrow> 0 | Some n \<Rightarrow> n) + 1)\<rparr>)"
proof -
  let ?es = "edges_of target s buf"
  have "\<forall>l \<in> set (run_lines target s buf). newline \<notin> set l"
    using count_line_plain by (auto simp: run_lines_def newline_def)
  then have g: "getlines (unlines (run_lines target s buf)) = run_lines target s buf" by (rule getlines_unlines')
  have "\<forall>i \<in> set ?es. i < length (edge_counts b) \<and> 0 < unat (edge_hits target s buf i) \<and> unat (edge_hits target s buf i) < 2 ^ 64"
  proof
    fix i assume "i \<in> set ?es"
    moreover have "unat (edge_hits target s buf i) < 2 ^ 32" using unsigned_less [of "edge_hits target s buf i", where 'a = nat] by simp
    ultimately show "i < length (edge_counts b) \<and> 0 < unat (edge_hits target s buf i) \<and> unat (edge_hits target s buf i) < 2 ^ 64"
      using assms(1) by (auto simp: edges_of_def word_less_nat_alt)
  qed
  from merge_edge_lines [OF this] assms
  have "fold merge_line (map (\<lambda>i. count_line i (unat (edge_hits target s buf i))) ?es) (REPORT_EDGE, [], b) =
    (REPORT_EDGE, map of_nat ?es, b\<lparr>edge_counts := count_edges ?es (edge_counts b)\<rparr>)" by simp
  then show ?thesis unfolding merge_seed_report_def g unfolding run_lines_def using merge_path_line [of 1] by (simp add: merge_header)
qed

section \<open>The loop\<close>

text \<open>What a report adds to the batch, and what the batch holds after the seeds \<open>dn\<close>. \<open>E\<close> and \<open>P\<close> are the edges and the path of
  each seed.\<close>

definition merges_as :: "nat \<Rightarrow> string \<Rightarrow> nat list \<Rightarrow> u32 \<Rightarrow> bool" where
  "merges_as N report es p \<longleftrightarrow> distinct es \<and> set es \<subseteq> {..N} \<and> (\<forall>b. length (edge_counts b) = N + 1 \<longrightarrow>
     merge_seed_report report b = (map of_nat es,
       b\<lparr>edge_counts := count_edges es (edge_counts b),
         path_counts := (path_counts b)(p \<mapsto> (case path_counts b p of None \<Rightarrow> 0 | Some n \<Rightarrow> n) + 1)\<rparr>))"

definition seeds_with :: "('a \<Rightarrow> bool) \<Rightarrow> 'a list \<Rightarrow> u64" where
  "seeds_with P js = of_nat (length (filter P js))"

definition tally_ok :: "nat \<Rightarrow> (nat \<Rightarrow> nat list) \<Rightarrow> (nat \<Rightarrow> u32) \<Rightarrow> nat list \<Rightarrow> batch \<Rightarrow> bool" where
  "tally_ok N E P dn b \<longleftrightarrow>
     length (edge_counts b) = N + 1 \<and> (\<forall>i \<le> N. edge_counts b ! i = seeds_with (\<lambda>j. i \<in> set (E j)) dn) \<and>
     (\<forall>p. path_counts b p = (if p \<in> P ` set dn then Some (seeds_with (\<lambda>j. P j = p) dn) else None)) \<and>
     length (selected_edge_seen b) = N + 1 \<and> set (mapping_seed_files b) \<subseteq> set dn \<and>
     (\<forall>i \<le> N. selected_edge_seen b ! i \<longleftrightarrow> (\<exists>j \<in> set (mapping_seed_files b). i \<in> set (E j))) \<and>
     (\<forall>i \<le> N. selected_edge_seen b ! i \<longleftrightarrow> (\<exists>j \<in> set dn. i \<in> set (E j))) \<and>
     edge_to_func b = replicate (N + 1) [] \<and> processed b = length dn"

lemma select_spec:
  assumes "\<forall>i \<in> set es. i < length seen" "length seen \<le> 2 ^ 32"
  shows "\<exists>seen'. select_seed_for_symbolization (map of_nat es) seen = (\<exists>i \<in> set es. \<not> seen ! i, seen') \<and> length seen' = length seen \<and>
    (\<forall>i < length seen. seen' ! i \<longleftrightarrow> seen ! i \<or> i \<in> set es)"
proof -
  let ?f = "\<lambda>edge (chosen, seen). if unat (edge :: u32) < length seen \<and> \<not> seen ! unat edge then (True, seen[unat edge := True]) else (chosen, seen)"
  have "\<exists>seen'. fold ?f (map of_nat es) (c, seen) = (c \<or> (\<exists>i \<in> set es. \<not> seen ! i), seen') \<and> length seen' = length seen \<and>
    (\<forall>i < length seen. seen' ! i \<longleftrightarrow> seen ! i \<or> i \<in> set es)" for c
    using assms
  proof (induction es arbitrary: c seen)
    case (Cons e es)
    have e: "unat (of_nat e :: u32) = e" using Cons.prems by (simp add: unat_of_nat take_bit_nat_eq_self)
    show ?case
    proof (cases "seen ! e")
      case True
      then show ?thesis using Cons.IH [of seen c] Cons.prems e by (auto 0 3)
    next
      case False
      then show ?thesis using Cons.IH [of "seen[e := True]" True] Cons.prems e by (fastforce simp: nth_list_update)
    qed
  qed simp
  from this [of False] show ?thesis by (simp add: select_seed_for_symbolization_def)
qed

lemma filter_image_none: "y \<notin> f ` set xs \<Longrightarrow> filter (\<lambda>x. f x = y) xs = []"
  by (induction xs) auto

lemma finalize_ok:
  assumes "merges_as N report (E j) (P j)" "tally_ok N E P dn b" "N < 2 ^ 32"
  shows "tally_ok N E P (dn @ [j]) (finalize_task j (Exited_ok report) b) \<and>
    timed_out (finalize_task j (Exited_ok report) b) = timed_out b \<and> failed (finalize_task j (Exited_ok report) b) = failed b"
proof -
  note t = assms(2) [unfolded tally_ok_def]
  let ?b = "b\<lparr>edge_counts := count_edges (E j) (edge_counts b),
    path_counts := (path_counts b)(P j \<mapsto> (case path_counts b (P j) of None \<Rightarrow> 0 | Some n \<Rightarrow> n) + 1)\<rparr>"
  have m: "merge_seed_report report b = (map of_nat (E j), ?b)" and E: "distinct (E j)" "set (E j) \<subseteq> {..N}"
    using assms(1) t by (simp_all add: merges_as_def)
  have len: "length (selected_edge_seen b) = N + 1" using t by simp
  obtain seen where s: "select_seed_for_symbolization (map of_nat (E j)) (selected_edge_seen b) = (\<exists>i \<in> set (E j). \<not> selected_edge_seen b ! i, seen)"
    "length seen = N + 1" "\<forall>i < N + 1. seen ! i \<longleftrightarrow> selected_edge_seen b ! i \<or> i \<in> set (E j)"
    using select_spec [of "E j" "selected_edge_seen b"] E(2) len assms(3) by (auto simp: less_Suc_eq_le)
  have edges: "count_edges (E j) (edge_counts b) ! i = seeds_with (\<lambda>j. i \<in> set (E j)) (dn @ [j])" if "i \<le> N" for i
    using nth_count_edges [OF E(1), of i "edge_counts b"] t that by (simp add: seeds_with_def add.commute)
  have paths: "((path_counts b)(P j \<mapsto> (case path_counts b (P j) of None \<Rightarrow> 0 | Some n \<Rightarrow> n) + 1)) p =
    (if p \<in> P ` set (dn @ [j]) then Some (seeds_with (\<lambda>j. P j = p) (dn @ [j])) else None)" for p
  proof -
    have "P j \<notin> P ` set dn \<Longrightarrow> filter (\<lambda>k. P k = P j) dn = []" by (rule filter_image_none)
    then show ?thesis using t by (auto simp: seeds_with_def add.commute)
  qed
  let ?chosen = "\<exists>i \<in> set (E j). \<not> selected_edge_seen b ! i" and ?m = "mapping_seed_files b"
  have fin: "finalize_task j (Exited_ok report) b = ?b\<lparr>selected_edge_seen := seen, processed := processed b + 1,
    mapping_seed_files := ?m @ (if ?chosen then [j] else [])\<rparr>" by (simp add: finalize_task_def m s(1))
  have dn: "seen ! i \<longleftrightarrow> (\<exists>k \<in> set (dn @ [j]). i \<in> set (E k))" if "i \<le> N" for i
  proof -
    have "selected_edge_seen b ! i \<longleftrightarrow> (\<exists>k \<in> set dn. i \<in> set (E k))" "seen ! i \<longleftrightarrow> selected_edge_seen b ! i \<or> i \<in> set (E j)"
      using t s(3) that by (blast, simp)
    then show ?thesis by auto
  qed
  have map: "seen ! i \<longleftrightarrow> (\<exists>k \<in> set (?m @ (if ?chosen then [j] else [])). i \<in> set (E k))" if "i \<le> N" for i
  proof -
    have "selected_edge_seen b ! i \<longleftrightarrow> (\<exists>k \<in> set ?m. i \<in> set (E k))" "seen ! i \<longleftrightarrow> selected_edge_seen b ! i \<or> i \<in> set (E j)"
      using t s(3) that by (blast, simp)
    then show ?thesis by auto
  qed
  have "set (?m @ (if ?chosen then [j] else [])) \<subseteq> set (dn @ [j])" using t by auto
  moreover have "edge_to_func b = replicate (N + 1) []" "processed b = length dn" "length (edge_counts b) = N + 1" using t by blast+
  ultimately have "tally_ok N E P (dn @ [j]) (finalize_task j (Exited_ok report) b)"
    unfolding tally_ok_def fin using edges paths s(2) dn map by simp
  then show ?thesis by (simp add: fin)
qed

lemma finalize_other:
  assumes "out = Timed_out \<or> out = Failed" "tally_ok N E P dn b"
  shows "tally_ok N E P dn (finalize_task j out b) \<and>
    timed_out (finalize_task j out b) + failed (finalize_task j out b) = Suc (timed_out b + failed b)"
  using assms by (auto simp: finalize_task_def tally_ok_def)

definition replay_inv :: "nat \<Rightarrow> (nat \<Rightarrow> nat list) \<Rightarrow> (nat \<Rightarrow> u32) \<Rightarrow> nat \<Rightarrow> nat \<Rightarrow> replay \<Rightarrow> bool" where
  "replay_inv N E P seeds jobs r \<longleftrightarrow> (\<exists>dn. tally_ok N E P dn (collected r) \<and> distinct (dn @ active_tasks r) \<and>
     set (dn @ active_tasks r) \<subseteq> {..<next_seed_index r} \<and> next_seed_index r \<le> seeds \<and> length (active_tasks r) \<le> task_slots jobs \<and>
     processed (collected r) + timed_out (collected r) + failed (collected r) + length (active_tasks r) = next_seed_index r)"

lemma replay_invI:
  assumes "tally_ok N E P dn (collected r)" "distinct (dn @ active_tasks r)" "set (dn @ active_tasks r) \<subseteq> {..<next_seed_index r}"
    "next_seed_index r \<le> seeds" "length (active_tasks r) \<le> task_slots jobs"
    "length dn + (timed_out (collected r) + failed (collected r)) + length (active_tasks r) = next_seed_index r"
  shows "replay_inv N E P seeds jobs r"
proof -
  have "processed (collected r) = length dn" using assms(1) by (simp add: tally_ok_def)
  then show ?thesis using assms unfolding replay_inv_def by (intro exI [of _ dn]) simp
qed

lemma erase_at_props:
  assumes "i < length xs" "distinct xs"
  shows "set (erase_at i xs) = set xs - {xs ! i}" "length (erase_at i xs) = length xs - 1" "distinct (erase_at i xs)"
proof -
  have x: "xs = take i xs @ xs ! i # drop (Suc i) xs" using assms(1) by (simp add: id_take_nth_drop)
  then have "distinct (take i xs @ xs ! i # drop (Suc i) xs)" using assms(2) by simp
  then have d: "xs ! i \<notin> set (take i xs)" "xs ! i \<notin> set (drop (Suc i) xs)" "distinct (take i xs @ drop (Suc i) xs)" by simp_all
  show "set (erase_at i xs) = set xs - {xs ! i}" using d arg_cong [OF x, of set] by (auto simp: erase_at_def)
  show "distinct (erase_at i xs)" using d by (simp add: erase_at_def)
  show "length (erase_at i xs) = length xs - 1" using assms(1) by (simp add: erase_at_def)
qed

lemma batch_step_inv:
  assumes "batch_step reports seeds jobs r r'" "replay_inv N E P seeds jobs r" "N < 2 ^ 32"
    "\<And>j report. reports j = Some report \<Longrightarrow> merges_as N report (E j) (P j)"
  shows "replay_inv N E P seeds jobs r'"
proof -
  from assms(2) obtain dn where dn: "tally_ok N E P dn (collected r)" "distinct (dn @ active_tasks r)"
    "set (dn @ active_tasks r) \<subseteq> {..<next_seed_index r}" "next_seed_index r \<le> seeds" "length (active_tasks r) \<le> task_slots jobs"
    "processed (collected r) + timed_out (collected r) + failed (collected r) + length (active_tasks r) = next_seed_index r"
    by (auto simp: replay_inv_def)
  have len: "processed (collected r) = length dn" using dn(1) by (simp add: tally_ok_def)
  have d: "distinct (active_tasks r)" using dn(2) by simp
  from assms(1) show ?thesis
  proof cases
    case launch
    have "set (dn @ active_tasks r') \<subseteq> {..<next_seed_index r'}" "distinct (dn @ active_tasks r')" using dn(2,3) launch(1) by force+
    then show ?thesis using launch dn len by (intro replay_invI [of N E P dn]) simp_all
  next
    case launch_fails
    have "set (dn @ active_tasks r') \<subseteq> {..<next_seed_index r'}" using dn(3) launch_fails(1) by force
    then show ?thesis using launch_fails dn len finalize_other [of Failed N E P dn "collected r" "next_seed_index r"]
      by (intro replay_invI [of N E P dn]) simp_all
  next
    case (collect_ok i report)
    let ?j = "active_tasks r ! i"
    note e = erase_at_props [OF collect_ok(2) d] and f = finalize_ok [OF assms(4) [OF collect_ok(3)] dn(1) assms(3)]
    have j: "?j \<in> set (active_tasks r)" using collect_ok(2) by simp
    have "distinct ((dn @ [?j]) @ erase_at i (active_tasks r))" "set ((dn @ [?j]) @ erase_at i (active_tasks r)) \<subseteq> {..<next_seed_index r}"
      using dn(2,3) e(1,3) j by auto
    then show ?thesis using collect_ok dn(4-6) len e(2) f by (intro replay_invI [of N E P "dn @ [?j]"]) simp_all
  next
    case (collect_other i out)
    note e = erase_at_props [OF collect_other(2) d] and f = finalize_other [OF collect_other(3) dn(1), of "active_tasks r ! i"]
    have "distinct (dn @ erase_at i (active_tasks r))" "set (dn @ erase_at i (active_tasks r)) \<subseteq> {..<next_seed_index r}"
      using dn(2,3) e by auto
    then show ?thesis using collect_other(1,2) dn(4-6) len e(2) f by (intro replay_invI [of N E P dn]) simp_all
  qed
qed

lemma start_inv: "replay_inv (tracing_array_size s) E P seeds jobs (start_replay s)"
  unfolding replay_inv_def
  by (intro exI [of _ "[]"])
    (auto simp: start_replay_def empty_batch_def tally_ok_def seeds_with_def task_slots_def simp del: replicate_Suc)

text \<open>Runs, and that a run always can go on until it is done.\<close>

inductive reaches_batch :: "(nat \<Rightarrow> string option) \<Rightarrow> nat \<Rightarrow> nat \<Rightarrow> replay \<Rightarrow> replay \<Rightarrow> bool" for reports seeds jobs r where
  here: "reaches_batch reports seeds jobs r r"
| more: "reaches_batch reports seeds jobs r r' \<Longrightarrow> batch_step reports seeds jobs r' r'' \<Longrightarrow> reaches_batch reports seeds jobs r r''"

lemma reaches_inv:
  assumes "reaches_batch reports seeds jobs r r'" "replay_inv N E P seeds jobs r" "N < 2 ^ 32"
    "\<And>j report. reports j = Some report \<Longrightarrow> merges_as N report (E j) (P j)"
  shows "replay_inv N E P seeds jobs r'"
  using assms by (induction rule: reaches_batch.induct) (blast intro: batch_step_inv)+

text \<open>Every step shortens what is left to launch or to collect.\<close>

definition work_left :: "nat \<Rightarrow> replay \<Rightarrow> nat" where
  "work_left seeds r = 2 * (seeds - next_seed_index r) + length (active_tasks r)"

lemma batch_step_progress: "batch_step reports seeds jobs r r' \<Longrightarrow> work_left seeds r' < work_left seeds r"
  by (induction rule: batch_step.induct) (auto simp: work_left_def erase_at_def)

lemma batch_step_exists: "\<not> replay_done seeds r \<Longrightarrow> \<exists>r'. batch_step reports seeds jobs r r'"
proof (cases "active_tasks r = []")
  case True
  assume "\<not> replay_done seeds r"
  then have "next_seed_index r < seeds" "length (active_tasks r) < task_slots jobs" using True by (auto simp: replay_done_def task_slots_def)
  then show ?thesis by (blast intro: batch_step.launch)
next
  case False
  then have "0 < length (active_tasks r)" by simp
  then show ?thesis using batch_step.collect_other [of 0 r Failed] by blast
qed

end
