(* ===== verification/Legion_Workers.thy ===== *)
theory Legion_Workers
  imports Prelude
begin

text \<open>
  The worker processes of a fuzzer during a round, from \<^verbatim>\<open>src/legion/legion.cc\<close>: the table of process groups with
  their resource units, dropping of finished groups, pausing and resuming down or up to a number of units, starting
  and appending of workers, and \<open>ensure_active_round_fuzzer_units\<close>, which brings a fuzzer to its share. What the operating
  system answers (whether a process has ended, whether a signal was delivered, the process id of a new worker,
  whether the run directory could be prepared) is a sequence of answers in the environment. The seed directories
  are not part of this model.
\<close>

section \<open>State\<close>

record worker_process_group =
  pid :: int
  units :: nat
  mode :: string
  paused :: bool

record active_round_fuzzer =
  label :: string
  accounting_units :: nat
  scheduled_units :: nat
  next_worker_index :: nat
  active :: bool
  groups :: "worker_process_group list"

record os =
  now :: nat
  reaped :: "nat \<Rightarrow> int \<Rightarrow> bool"
  kill_ok :: "nat \<Rightarrow> bool"
  spawned :: "nat \<Rightarrow> int"
  dir_ready :: "nat \<Rightarrow> bool"
  stats_seen :: "nat \<Rightarrow> bool"

definition later :: "os \<Rightarrow> os" where
  "later e = e\<lparr>now := now e + 1\<rparr>"

section \<open>Kinds of fuzzers\<close>

definition supports_runtime_append :: "string \<Rightarrow> bool" where
  "supports_runtime_append l \<longleftrightarrow> l \<in> {''AFL++'', ''AFL'', ''AFLFast'', ''FairFuzz'', ''QSYM'', ''LibFuzzer'', ''Angora'', ''Radamsa''}"

definition uses_fresh_round_process :: "string \<Rightarrow> bool" where
  "uses_fresh_round_process l \<longleftrightarrow> l = ''Radamsa''"

definition uses_autofz_afl_process_pool :: "string \<Rightarrow> bool" where
  "uses_autofz_afl_process_pool l \<longleftrightarrow> l \<in> {''AFL++'', ''AFL'', ''AFLFast'', ''FairFuzz''}"

definition uses_autofz_qsym_process_pool :: "string \<Rightarrow> bool" where
  "uses_autofz_qsym_process_pool l \<longleftrightarrow> l = ''QSYM''"

definition uses_direct_persistent_worker :: "string \<Rightarrow> bool" where
  "uses_direct_persistent_worker l \<longleftrightarrow> uses_autofz_afl_process_pool l \<or> uses_autofz_qsym_process_pool l \<or> l = ''LibFuzzer''"

definition runtime_resource_units_for_fuzzer :: "string \<Rightarrow> nat \<Rightarrow> nat" where
  "runtime_resource_units_for_fuzzer l n = (if uses_autofz_qsym_process_pool l \<and> n > 0 then n + 1 else n)"

section \<open>Processes\<close>

definition reap_finished_process_group :: "int \<Rightarrow> os \<Rightarrow> bool \<times> os" where
  "reap_finished_process_group p e = (if p \<le> 0 then (True, e) else (reaped e (now e) p, later e))"

text \<open>\<open>pause_process_group\<close> and \<open>resume_process_group\<close> differ in the signal only.\<close>

definition signal_process_group :: "int \<Rightarrow> os \<Rightarrow> bool \<times> os" where
  "signal_process_group p e =
     (let (finished, e1) = reap_finished_process_group p e
      in if finished then (False, e1) else (kill_ok e1 (now e1), later e1))"

fun survivors :: "worker_process_group list \<Rightarrow> os \<Rightarrow> worker_process_group list \<times> os" where
  "survivors [] e = ([], e)"
| "survivors (g # gs) e =
     (let (finished, e1) = reap_finished_process_group (pid g) e; (ss, e2) = survivors gs e1
      in (if finished then ss else g # ss, e2))"

definition active_units :: "worker_process_group list \<Rightarrow> nat" where
  "active_units gs = sum_list (map units (filter (\<lambda>g. \<not> paused g) gs))"

definition total_round_fuzzer_units :: "active_round_fuzzer \<Rightarrow> nat" where
  "total_round_fuzzer_units s = sum_list (map units (groups s))"

definition compact_active_round_fuzzer_groups :: "active_round_fuzzer \<Rightarrow> os \<Rightarrow> nat \<times> active_round_fuzzer \<times> os" where
  "compact_active_round_fuzzer_groups s e =
     (let (ss, e1) = survivors (groups s) e; n = active_units ss
      in (n, s\<lparr>groups := ss, scheduled_units := n, active := (n > 0)\<rparr>, e1))"

text \<open>The loop that pauses, over the groups from the last one on.\<close>

fun pause_loop :: "nat \<Rightarrow> worker_process_group list \<Rightarrow> nat \<Rightarrow> os \<Rightarrow> worker_process_group list \<times> os" where
  "pause_loop target [] n e = ([], e)"
| "pause_loop target (g # gs) n e =
     (if n \<le> target then (g # gs, e)
      else if paused g \<or> (units g > n - target \<and> target \<noteq> 0)
      then (let (gs', e') = pause_loop target gs n e in (g # gs', e'))
      else (let (ok, e1) = signal_process_group (pid g) e;
                (gs', e') = pause_loop target gs (if ok then n - units g else n) e1
            in ((if ok then g\<lparr>paused := True\<rparr> else g) # gs', e')))"

definition pause_round_fuzzer_to_units :: "nat \<Rightarrow> active_round_fuzzer \<times> os \<Rightarrow> active_round_fuzzer \<times> os" where
  "pause_round_fuzzer_to_units target = (\<lambda>(s, e).
     let (n, s1, e1) = compact_active_round_fuzzer_groups s e in
     if n \<le> target then (s1, e1)
     else let (gs, e2) = pause_loop target (rev (groups s1)) n e1
          in snd (compact_active_round_fuzzer_groups (s1\<lparr>groups := rev gs\<rparr>) e2))"

fun resume_loop :: "nat \<Rightarrow> worker_process_group list \<Rightarrow> nat \<Rightarrow> os \<Rightarrow> worker_process_group list \<times> os" where
  "resume_loop target [] n e = ([], e)"
| "resume_loop target (g # gs) n e =
     (if \<not> paused g then (let (gs', e') = resume_loop target gs n e in (g # gs', e'))
      else (let (ok, e1) = signal_process_group (pid g) e;
                g' = (if ok then g\<lparr>paused := False\<rparr> else g); n' = (if ok then n + units g else n)
            in if n' \<ge> target then (g' # gs, e1)
               else (let (gs', e') = resume_loop target gs n' e1 in (g' # gs', e'))))"

definition resume_round_fuzzer_to_units :: "nat \<Rightarrow> active_round_fuzzer \<times> os \<Rightarrow> active_round_fuzzer \<times> os" where
  "resume_round_fuzzer_to_units target = (\<lambda>(s, e).
     let (n, s1, e1) = compact_active_round_fuzzer_groups s e in
     if n \<ge> target then (s1, e1)
     else let (gs, e2) = resume_loop target (groups s1) n e1
          in snd (compact_active_round_fuzzer_groups (s1\<lparr>groups := gs\<rparr>) e2))"

fun pause_all :: "worker_process_group list \<Rightarrow> os \<Rightarrow> worker_process_group list \<times> os" where
  "pause_all [] e = ([], e)"
| "pause_all (g # gs) e =
     (let (ok, e1) = (if paused g then (False, e) else signal_process_group (pid g) e); (gs', e') = pause_all gs e1
      in ((if ok then g\<lparr>paused := True\<rparr> else g) # gs', e'))"

definition pause_active_round_fuzzer :: "active_round_fuzzer \<times> os \<Rightarrow> active_round_fuzzer \<times> os" where
  "pause_active_round_fuzzer = (\<lambda>(s, e).
     let (n, s1, e1) = compact_active_round_fuzzer_groups s e; (gs, e2) = pause_all (groups s1) e1
     in (s1\<lparr>groups := gs, scheduled_units := 0, accounting_units := 0, active := False\<rparr>, e2))"

definition stop_persistent_round_fuzzer :: "active_round_fuzzer \<Rightarrow> active_round_fuzzer" where
  "stop_persistent_round_fuzzer s = s\<lparr>groups := [], scheduled_units := 0, accounting_units := 0, active := False\<rparr>"

definition stop_active_round_fuzzer :: "bool \<Rightarrow> active_round_fuzzer \<times> os \<Rightarrow> active_round_fuzzer \<times> os" where
  "stop_active_round_fuzzer force_stop = (\<lambda>(s, e).
     if \<not> active s \<and> groups s = [] then (s, e)
     else if force_stop then (s\<lparr>groups := [], scheduled_units := 0, active := False\<rparr>, e)
     else snd (compact_active_round_fuzzer_groups s e))"

section \<open>Starting workers\<close>

definition new_group :: "int \<Rightarrow> nat \<Rightarrow> string \<Rightarrow> worker_process_group" where
  "new_group p n m = \<lparr>pid = p, units = n, mode = m, paused = False\<rparr>"

definition start_qsym :: "active_round_fuzzer \<times> os \<Rightarrow> bool \<times> active_round_fuzzer \<times> os" where
  "start_qsym = (\<lambda>(s, e).
     let afl = spawned e (now e); e1 = later e in
     if afl \<le> 0 then (False, s, e1)
     else let s1 = s\<lparr>groups := [new_group afl 1 ''qsym-afl-master'']\<rparr> in
       if \<not> stats_seen e1 (now e1) then (False, stop_persistent_round_fuzzer s1, later e1)
       else let e2 = later e1; q = spawned e2 (now e2); e3 = later e2 in
         if q \<le> 0 then (False, stop_persistent_round_fuzzer s1, e3)
         else (True, s1\<lparr>groups := groups s1 @ [new_group q 1 ''qsym''], scheduled_units := 2, next_worker_index := 1, active := True\<rparr>, e3))"

definition start_active_round_fuzzer :: "string \<Rightarrow> nat \<Rightarrow> active_round_fuzzer \<times> os \<Rightarrow> bool \<times> active_round_fuzzer \<times> os" where
  "start_active_round_fuzzer l execution_time = (\<lambda>(s, e).
     if scheduled_units s = 0 \<or> execution_time = 0 then (False, s, e)
     else if uses_direct_persistent_worker l
     then (let ready = dir_ready e (now e); e1 = later e in
           if \<not> ready then (False, s, e1)
           else let s1 = s\<lparr>groups := [], next_worker_index := 1\<rparr> in
             if uses_autofz_qsym_process_pool l then start_qsym (s1, e1)
             else let p = spawned e1 (now e1); e2 = later e1 in
               if p \<le> 0 then (False, s1, e2)
               else (True, s1\<lparr>groups := [new_group p 1 (if l = ''LibFuzzer'' then ''libfuzzer'' else ''master'')],
                              scheduled_units := 1, next_worker_index := 1, active := True\<rparr>, e2))
     else let p = spawned e (now e); e1 = later e in
       if p \<le> 0 then (False, s, e1)
       else (True, s\<lparr>groups := [new_group p (scheduled_units s) ''run''], next_worker_index := 1, active := True\<rparr>, e1))"

text \<open>The workers of one append, one after the other; those that do not start are left out.\<close>

fun spawn_workers :: "string \<Rightarrow> nat \<Rightarrow> os \<Rightarrow> worker_process_group list \<times> os" where
  "spawn_workers m 0 e = ([], e)"
| "spawn_workers m (Suc n) e =
     (let p = spawned e (now e); (gs, e') = spawn_workers m n (later e)
      in (if p \<le> 0 then gs else new_group p 1 m # gs, e'))"

definition append_mode :: "string \<Rightarrow> string" where
  "append_mode l = (if uses_autofz_qsym_process_pool l then ''qsym-afl-slave'' else if l = ''LibFuzzer'' then ''libfuzzer'' else ''slave'')"

definition append_active_round_fuzzer :: "string \<Rightarrow> nat \<Rightarrow> nat \<Rightarrow> active_round_fuzzer \<times> os \<Rightarrow> bool \<times> active_round_fuzzer \<times> os" where
  "append_active_round_fuzzer l execution_time additional_units = (\<lambda>(s, e).
     if additional_units = 0 \<or> execution_time = 0 \<or> \<not> supports_runtime_append l then (False, s, e)
     else if uses_direct_persistent_worker l
     then (let ready = dir_ready e (now e); e1 = later e in
           if \<not> ready then (False, s, e1)
           else let (gs, e2) = spawn_workers (append_mode l) additional_units e1 in
             if gs = [] then (False, s, e2)
             else (True, s\<lparr>groups := groups s @ gs, scheduled_units := scheduled_units s + length gs,
                           next_worker_index := next_worker_index s + length gs, active := True\<rparr>, e2))
     else let p = spawned e (now e); e1 = later e in
       if p \<le> 0 then (False, s, e1)
       else (True, s\<lparr>groups := groups s @ [new_group p additional_units ''append''],
                     scheduled_units := scheduled_units s + additional_units,
                     next_worker_index := next_worker_index s + additional_units, active := True\<rparr>, e1))"

section \<open>Reaching a share\<close>

definition persistent_worker_timeout :: "nat \<Rightarrow> nat \<Rightarrow> nat \<Rightarrow> nat" where
  "persistent_worker_timeout round_number round_time round =
     (let remaining_rounds = (if round_number > round then round_number - round else 1);
          timeout = remaining_rounds * round_time + max 86400 (round_time * 2)
      in min timeout 2000000000)"

text \<open>The loops that append one worker at a time may go on for ever, when workers keep dying.\<close>

partial_function (option) fill_pool :: "string \<Rightarrow> nat \<Rightarrow> nat \<Rightarrow> nat \<Rightarrow> active_round_fuzzer \<times> os \<Rightarrow> (active_round_fuzzer \<times> os) option" where
  "fill_pool l timeout pool_units target se =
     (if total_round_fuzzer_units (fst se) < pool_units
      then (case append_active_round_fuzzer l timeout 1 se of
              (ok, se1) \<Rightarrow> if ok then fill_pool l timeout pool_units target (pause_round_fuzzer_to_units target se1) else Some se1)
      else Some se)"

partial_function (option) append_until :: "string \<Rightarrow> nat \<Rightarrow> nat \<Rightarrow> active_round_fuzzer \<times> os \<Rightarrow> (active_round_fuzzer \<times> os) option" where
  "append_until l timeout target se =
     (case compact_active_round_fuzzer_groups (fst se) (snd se) of (n, se1) \<Rightarrow>
        if n < target
        then (case append_active_round_fuzzer l timeout 1 se1 of (ok, se2) \<Rightarrow> if ok then append_until l timeout target se2 else Some se2)
        else Some se1)"

declare fill_pool.simps [code] append_until.simps [code]

definition ensure_pool :: "string \<Rightarrow> nat \<Rightarrow> nat \<Rightarrow> nat \<Rightarrow> active_round_fuzzer \<times> os \<Rightarrow> (bool \<times> active_round_fuzzer \<times> os) option" where
  "ensure_pool l timeout pool_units target = (\<lambda>(s, e).
     let (ok, s1, e1) = (if groups s = [] then start_active_round_fuzzer l timeout (s\<lparr>scheduled_units := 1\<rparr>, e) else (True, s, e)) in
     if \<not> ok then Some (False, s1\<lparr>scheduled_units := 0\<rparr>, e1)
     else do {
       se2 \<leftarrow> fill_pool l timeout pool_units target (s1, e1);
       let (s3, e3) = pause_round_fuzzer_to_units target (resume_round_fuzzer_to_units target se2);
       let (n, s4, e4) = compact_active_round_fuzzer_groups s3 e3;
       Some (n > 0, s4, e4) })"

definition ensure_appended :: "string \<Rightarrow> nat \<Rightarrow> nat \<Rightarrow> nat \<Rightarrow> active_round_fuzzer \<times> os \<Rightarrow> (bool \<times> active_round_fuzzer \<times> os) option" where
  "ensure_appended l timeout first target = (\<lambda>(s, e).
     let (ok, s1, e1) = (if groups s = [] then start_active_round_fuzzer l timeout (s\<lparr>scheduled_units := first\<rparr>, e) else (True, s, e)) in
     if \<not> ok then Some (False, s1\<lparr>scheduled_units := 0\<rparr>, e1)
     else do {
       se2 \<leftarrow> append_until l timeout target (resume_round_fuzzer_to_units target (s1, e1));
       let (s3, e3) = pause_round_fuzzer_to_units target se2;
       let (n, s4, e4) = compact_active_round_fuzzer_groups s3 e3;
       Some (n > 0, s4, e4) })"

definition ensure_active_round_fuzzer_units :: "nat \<Rightarrow> nat \<Rightarrow> nat \<Rightarrow> string \<Rightarrow> nat \<Rightarrow> nat \<Rightarrow> active_round_fuzzer \<times> os \<Rightarrow>
    (bool \<times> active_round_fuzzer \<times> os) option" where
  "ensure_active_round_fuzzer_units resource_unit_number round_number round_time l round target = (\<lambda>(s, e).
     if target = 0 then Some (False, pause_active_round_fuzzer (s, e))
     else let
       timeout = (if uses_fresh_round_process l then round_time else persistent_worker_timeout round_number round_time round);
       (n, s1, e1) = compact_active_round_fuzzer_groups s e
     in if uses_autofz_afl_process_pool l then ensure_pool l timeout (max 1 resource_unit_number) target (s1, e1)
        else ensure_appended l timeout
               (if uses_autofz_qsym_process_pool l then 2 else if uses_fresh_round_process l then target else 1) target (s1, e1))"

section \<open>Accounts\<close>

lemma compact_accounts:
  assumes "compact_active_round_fuzzer_groups s e = (n, t, e')"
  shows "n = active_units (groups t) \<and> scheduled_units t = n \<and> active t = (n > 0)"
  using assms by (auto simp: compact_active_round_fuzzer_groups_def Let_def split: prod.splits)

lemma ensure_accounts:
  assumes "ensure_active_round_fuzzer_units res rn rt l round target (s, e) = Some (True, t, e')"
  shows "active t \<and> scheduled_units t = active_units (groups t) \<and> 0 < scheduled_units t"
  using assms
  by (auto simp: ensure_active_round_fuzzer_units_def ensure_pool_def ensure_appended_def Let_def
      split: prod.splits if_splits bind_splits dest!: compact_accounts)

section \<open>A steady environment\<close>

text \<open>No worker ends, signals arrive, workers start. Every group is one unit, as the pools create them.\<close>

definition steady :: "os \<Rightarrow> bool" where
  "steady e \<longleftrightarrow> (\<forall>t p. 0 < p \<longrightarrow> \<not> reaped e t p) \<and> (\<forall>t. kill_ok e t) \<and> (\<forall>t. 0 < spawned e t) \<and> (\<forall>t. dir_ready e t)"

definition single_groups :: "worker_process_group list \<Rightarrow> bool" where
  "single_groups gs \<longleftrightarrow> (\<forall>g \<in> set gs. 0 < pid g \<and> units g = 1)"

lemma steady_later [simp]: "steady (later e) = steady e"
  by (simp add: steady_def later_def)

lemma single_Cons [simp]: "single_groups (g # gs) \<longleftrightarrow> 0 < pid g \<and> units g = 1 \<and> single_groups gs"
  by (auto simp: single_groups_def)

lemma single_Nil [simp]: "single_groups []"
  by (simp add: single_groups_def)

lemma single_append [simp]: "single_groups (xs @ ys) \<longleftrightarrow> single_groups xs \<and> single_groups ys"
  by (auto simp: single_groups_def)

lemma single_rev [simp]: "single_groups (rev gs) = single_groups gs"
  by (simp add: single_groups_def)

lemma active_units_Cons [simp]: "active_units (g # gs) = (if paused g then active_units gs else units g + active_units gs)"
  by (simp add: active_units_def)

lemma active_units_Nil [simp]: "active_units [] = 0"
  by (simp add: active_units_def)

lemma active_units_append [simp]: "active_units (xs @ ys) = active_units xs + active_units ys"
  by (simp add: active_units_def)

lemma active_units_rev [simp]: "active_units (rev gs) = active_units gs"
  by (induction gs) auto

lemma single_total: "single_groups gs \<Longrightarrow> sum_list (map units gs) = length gs"
  by (induction gs) auto

lemma active_le_length: "single_groups gs \<Longrightarrow> active_units gs \<le> length gs"
  by (induction gs) auto

lemma reap_steady: "steady e \<Longrightarrow> 0 < p \<Longrightarrow> \<exists>e'. reap_finished_process_group p e = (False, e') \<and> steady e'"
  by (auto simp: reap_finished_process_group_def steady_def later_def)

lemma signal_steady: "steady e \<Longrightarrow> 0 < p \<Longrightarrow> \<exists>e'. signal_process_group p e = (True, e') \<and> steady e'"
  by (auto simp: signal_process_group_def reap_finished_process_group_def steady_def later_def)

lemma survivors_steady:
  assumes "steady e" "single_groups gs"
  shows "\<exists>e'. survivors gs e = (gs, e') \<and> steady e'"
  using assms
proof (induction gs arbitrary: e)
  case (Cons g gs)
  then obtain e1 where e1: "reap_finished_process_group (pid g) e = (False, e1)" "steady e1" using reap_steady by fastforce
  with Cons.IH [of e1] Cons.prems(2) show ?case by auto
qed simp

lemma compact_steady:
  assumes "steady e" "single_groups (groups s)"
  shows "\<exists>e'. compact_active_round_fuzzer_groups s e =
    (active_units (groups s), s\<lparr>scheduled_units := active_units (groups s), active := (active_units (groups s) > 0)\<rparr>, e') \<and> steady e'"
  using survivors_steady [OF assms] by (auto simp: compact_active_round_fuzzer_groups_def Let_def)

lemma pause_loop_steady:
  assumes "steady e" "single_groups gs"
  shows "\<exists>gs' e'. pause_loop target gs (active_units gs) e = (gs', e') \<and> steady e' \<and> single_groups gs' \<and>
    length gs' = length gs \<and> active_units gs' = min target (active_units gs)"
  using assms
proof (induction gs arbitrary: e)
  case (Cons g gs)
  show ?case
  proof (cases "active_units (g # gs) \<le> target")
    case True
    then show ?thesis using Cons.prems by simp
  next
    case False
    obtain e1 where e1: "signal_process_group (pid g) e = (True, e1)" "steady e1" using signal_steady [of e "pid g"] Cons.prems by auto
    show ?thesis
    proof (cases "paused g")
      case True
      then show ?thesis using Cons.IH [of e] Cons.prems False by auto
    next
      case unpaused: False
      then show ?thesis using Cons.IH [of e1] Cons.prems False e1 by auto
    qed
  qed
qed simp

definition waiting :: "worker_process_group list \<Rightarrow> nat" where
  "waiting gs = length (filter paused gs)"

lemma single_split: "single_groups gs \<Longrightarrow> active_units gs + waiting gs = length gs"
  by (induction gs) (auto simp: waiting_def)

lemma resume_loop_steady:
  assumes "steady e" "single_groups gs" "n < target"
  shows "\<exists>gs' e'. resume_loop target gs n e = (gs', e') \<and> steady e' \<and> single_groups gs' \<and>
    length gs' = length gs \<and> active_units gs' = active_units gs + min (waiting gs) (target - n)"
  using assms
proof (induction gs arbitrary: e n)
  case Nil
  then show ?case by (simp add: waiting_def)
next
  case (Cons g gs)
  obtain e1 where e1: "signal_process_group (pid g) e = (True, e1)" "steady e1" using signal_steady [of e "pid g"] Cons.prems by auto
  consider "\<not> paused g" | "paused g" "Suc n \<ge> target" | "paused g" "Suc n < target" by linarith
  then show ?case
  proof cases
    case 1
    then show ?thesis using Cons.IH [of e n] Cons.prems by (auto simp: waiting_def)
  next
    case 2
    then have "target - n = 1" using Cons.prems(3) by simp
    then show ?thesis using 2 e1 Cons.prems by (auto simp: waiting_def)
  next
    case 3
    then show ?thesis using Cons.IH [of e1 "Suc n"] Cons.prems e1 by (auto simp: waiting_def)
  qed
qed

text \<open>What pausing and resuming reach: the state has the same number of groups and the active units indicated.\<close>

definition reaches :: "nat \<Rightarrow> nat \<Rightarrow> active_round_fuzzer \<times> os \<Rightarrow> bool" where
  "reaches len n se \<longleftrightarrow> (case se of (s, e) \<Rightarrow> steady e \<and> single_groups (groups s) \<and> length (groups s) = len \<and>
     active_units (groups s) = n \<and> scheduled_units s = n \<and> active s = (n > 0))"

lemma compact_reaches:
  assumes "steady e" "single_groups (groups s)"
  shows "reaches (length (groups s)) (active_units (groups s)) (snd (compact_active_round_fuzzer_groups s e))"
  using compact_steady [OF assms] assms(2) by (auto simp: reaches_def)

lemma pause_reaches:
  assumes "steady e" "single_groups (groups s)"
  shows "reaches (length (groups s)) (min target (active_units (groups s))) (pause_round_fuzzer_to_units target (s, e))"
proof -
  let ?n = "active_units (groups s)"
  obtain e1 where c: "compact_active_round_fuzzer_groups s e = (?n, s\<lparr>scheduled_units := ?n, active := (?n > 0)\<rparr>, e1)" "steady e1"
    using compact_steady [OF assms] by blast
  obtain gs e2 where p: "pause_loop target (rev (groups s)) ?n e1 = (gs, e2)" "steady e2" "single_groups gs"
    "length gs = length (groups s)" "active_units gs = min target ?n"
    using pause_loop_steady [of e1 "rev (groups s)" target] c(2) assms(2) by auto
  show ?thesis
  proof (cases "?n \<le> target")
    case True
    then show ?thesis using c assms(2) by (simp add: pause_round_fuzzer_to_units_def reaches_def)
  next
    case False
    have "reaches (length (groups s)) (min target ?n)
      (snd (compact_active_round_fuzzer_groups (s\<lparr>scheduled_units := ?n, active := (?n > 0), groups := rev gs\<rparr>) e2))"
      using compact_reaches [of e2 "s\<lparr>scheduled_units := ?n, active := (?n > 0), groups := rev gs\<rparr>"] p by simp
    then show ?thesis using c(1) p(1) False by (simp add: pause_round_fuzzer_to_units_def)
  qed
qed

lemma resume_reaches:
  assumes "steady e" "single_groups (groups s)"
  shows "reaches (length (groups s)) (max (active_units (groups s)) (min target (length (groups s)))) (resume_round_fuzzer_to_units target (s, e))"
proof -
  let ?n = "active_units (groups s)"
  obtain e1 where c: "compact_active_round_fuzzer_groups s e = (?n, s\<lparr>scheduled_units := ?n, active := (?n > 0)\<rparr>, e1)" "steady e1"
    using compact_steady [OF assms] by blast
  show ?thesis
  proof (cases "?n \<ge> target")
    case True
    then show ?thesis using c assms(2) by (simp add: resume_round_fuzzer_to_units_def reaches_def)
  next
    case False
    obtain gs e2 where p: "resume_loop target (groups s) ?n e1 = (gs, e2)" "steady e2" "single_groups gs"
      "length gs = length (groups s)" "active_units gs = ?n + min (waiting (groups s)) (target - ?n)"
      using resume_loop_steady [of e1 "groups s" ?n target] c(2) assms(2) False by auto
    have "active_units gs = max ?n (min target (length (groups s)))" using p(5) single_split [OF assms(2)] False by simp
    then have "reaches (length (groups s)) (max ?n (min target (length (groups s))))
      (snd (compact_active_round_fuzzer_groups (s\<lparr>scheduled_units := ?n, active := (?n > 0), groups := gs\<rparr>) e2))"
      using compact_reaches [of e2 "s\<lparr>scheduled_units := ?n, active := (?n > 0), groups := gs\<rparr>"] p by simp
    then show ?thesis using c(1) p(1) False by (simp add: resume_round_fuzzer_to_units_def)
  qed
qed

lemma pool_direct: "uses_autofz_afl_process_pool l \<Longrightarrow>
    uses_direct_persistent_worker l \<and> supports_runtime_append l \<and> \<not> uses_autofz_qsym_process_pool l"
  by (auto simp: uses_autofz_afl_process_pool_def uses_direct_persistent_worker_def supports_runtime_append_def uses_autofz_qsym_process_pool_def)

lemma append_one_steady:
  assumes "uses_autofz_afl_process_pool l" "steady e" "single_groups (groups s)" "0 < timeout"
  shows "\<exists>t e'. append_active_round_fuzzer l timeout 1 (s, e) = (True, t, e') \<and> steady e' \<and> single_groups (groups t) \<and>
    length (groups t) = Suc (length (groups s))"
proof -
  have e: "dir_ready e (now e)" "0 < spawned (later e) (now (later e))" "\<not> spawned (later e) (now (later e)) \<le> 0"
    using assms(2) by (simp_all add: steady_def later_def not_le)
  show ?thesis using pool_direct [OF assms(1)] assms(2-4) e
    by (simp add: append_active_round_fuzzer_def Let_def new_group_def)
qed

lemma fill_pool_steady:
  assumes "uses_autofz_afl_process_pool l" "0 < timeout" "steady e" "single_groups (groups s)"
  shows "\<exists>t e'. fill_pool l timeout pool target (s, e) = Some (t, e') \<and> steady e' \<and> single_groups (groups t) \<and>
    length (groups t) = max pool (length (groups s))"
  using assms(3,4)
proof (induction "pool - length (groups s)" arbitrary: s e)
  case 0
  then show ?case by (subst fill_pool.simps) (auto simp: total_round_fuzzer_units_def single_total)
next
  case (Suc k)
  from append_one_steady [OF assms(1) Suc.prems assms(2)] obtain t e1 where
    t: "append_active_round_fuzzer l timeout 1 (s, e) = (True, t, e1)" "steady e1" "single_groups (groups t)"
    "length (groups t) = Suc (length (groups s))" by blast
  obtain u e2 where u: "pause_round_fuzzer_to_units target (t, e1) = (u, e2)" by fastforce
  have r: "steady e2" "single_groups (groups u)" "length (groups u) = Suc (length (groups s))"
    using pause_reaches [OF t(2,3), of target] u t(4) by (simp_all add: reaches_def)
  have "k = pool - length (groups u)" using r(3) Suc.hyps(2) by simp
  from Suc.hyps(1) [OF this r(1,2)] obtain v e3 where
    "fill_pool l timeout pool target (u, e2) = Some (v, e3)" "steady e3" "single_groups (groups v)" "length (groups v) = max pool (length (groups u))"
    by blast
  then show ?case using Suc.hyps(2) Suc.prems r(3) t(1) u
    by (subst fill_pool.simps) (auto simp: total_round_fuzzer_units_def single_total)
qed

lemma start_pool_steady:
  assumes "uses_autofz_afl_process_pool l" "0 < timeout" "steady e"
  shows "\<exists>t e'. start_active_round_fuzzer l timeout (s\<lparr>scheduled_units := 1\<rparr>, e) = (True, t, e') \<and> steady e' \<and> single_groups (groups t) \<and>
    length (groups t) = 1"
proof -
  have e: "dir_ready e (now e)" "0 < spawned (later e) (now (later e))" "\<not> spawned (later e) (now (later e)) \<le> 0"
    using assms(3) by (simp_all add: steady_def later_def not_le)
  show ?thesis using pool_direct [OF assms(1)] assms(2,3) e by (simp add: start_active_round_fuzzer_def Let_def new_group_def)
qed

lemma ensure_pool_steady:
  assumes "uses_autofz_afl_process_pool l" "0 < timeout" "steady e" "single_groups (groups s)" "0 < pool" "0 < target"
  shows "\<exists>t e'. ensure_pool l timeout pool target (s, e) = Some (True, t, e') \<and>
    scheduled_units t = min target (max pool (length (groups s))) \<and> length (groups t) = max pool (length (groups s))"
proof -
  obtain s1 e1 where s1: "(if groups s = [] then start_active_round_fuzzer l timeout (s\<lparr>scheduled_units := 1\<rparr>, e) else (True, s, e)) = (True, s1, e1)"
    "steady e1" "single_groups (groups s1)" "length (groups s1) = max 1 (length (groups s))"
  proof (cases "groups s = []")
    case True
    then show thesis using start_pool_steady [OF assms(1-3), of s] that by auto
  next
    case False
    then show thesis using that [of s e] assms(3,4) by (cases "groups s") auto
  qed
  from fill_pool_steady [OF assms(1,2) s1(2,3)] obtain s2 e2 where
    s2: "fill_pool l timeout pool target (s1, e1) = Some (s2, e2)" "steady e2" "single_groups (groups s2)" "length (groups s2) = max pool (length (groups s1))" by blast
  obtain s3 e3 where s3: "resume_round_fuzzer_to_units target (s2, e2) = (s3, e3)" by fastforce
  then have r3: "reaches (length (groups s2)) (max (active_units (groups s2)) (min target (length (groups s2)))) (s3, e3)"
    using resume_reaches [OF s2(2,3), of target] by simp
  obtain s4 e4 where s4: "pause_round_fuzzer_to_units target (s3, e3) = (s4, e4)" by fastforce
  have "reaches (length (groups s3)) (min target (active_units (groups s3))) (s4, e4)"
    using pause_reaches [of e3 s3 target] r3 s4 by (simp add: reaches_def)
  then have r4: "reaches (length (groups s2)) (min target (length (groups s2))) (s4, e4)"
    using r3 active_le_length [OF s2(3)] by (auto simp: reaches_def min_def max_def split: if_splits)
  have "reaches (length (groups s4)) (active_units (groups s4)) (snd (compact_active_round_fuzzer_groups s4 e4))"
    using r4 by (intro compact_reaches) (simp_all add: reaches_def)
  moreover obtain n s5 e5 where s5: "compact_active_round_fuzzer_groups s4 e4 = (n, s5, e5)" by (rule prod_cases3)
  ultimately have r5: "reaches (length (groups s2)) (min target (length (groups s2))) (s5, e5)" using r4 by (simp add: reaches_def)
  have len: "length (groups s2) = max pool (length (groups s))" using s2(4) s1(4) assms(5) by simp
  then have "n > 0" using r5 compact_accounts [OF s5] assms(5,6) by (simp add: reaches_def)
  then have "ensure_pool l timeout pool target (s, e) = Some (True, s5, e5)"
    using s1(1) s2(1) s3 s4 s5 by (simp add: ensure_pool_def)
  then show ?thesis using r5 len by (simp add: reaches_def)
qed

lemma persistent_timeout_pos: "0 < persistent_worker_timeout rn rt round"
  by (simp add: persistent_worker_timeout_def Let_def max_def)

lemma pool_reaches_target:
  assumes "uses_autofz_afl_process_pool l" "steady e" "single_groups (groups s)" "0 < target"
  shows "\<exists>t e'. ensure_active_round_fuzzer_units res rn rt l round target (s, e) = Some (True, t, e') \<and>
    scheduled_units t = min target (max (max 1 res) (length (groups s))) \<and> length (groups t) = max (max 1 res) (length (groups s))"
proof -
  obtain n s1 e1 where c: "compact_active_round_fuzzer_groups s e = (n, s1, e1)" by (rule prod_cases3)
  then have s1: "steady e1" "groups s1 = groups s" using compact_steady [OF assms(2,3)] by auto
  have "\<not> uses_fresh_round_process l" using assms(1) by (auto simp: uses_autofz_afl_process_pool_def uses_fresh_round_process_def)
  moreover have "0 < max 1 res" by (simp add: less_max_iff_disj)
  moreover from ensure_pool_steady [OF assms(1) persistent_timeout_pos s1(1) _ this assms(4), of s1 rn rt round] s1(2) assms(3)
  obtain t e' where "ensure_pool l (persistent_worker_timeout rn rt round) (max 1 res) target (s1, e1) = Some (True, t, e')"
    "scheduled_units t = min target (max (max 1 res) (length (groups s)))" "length (groups t) = max (max 1 res) (length (groups s))" by auto
  ultimately show ?thesis using assms(1,4) c by (simp add: ensure_active_round_fuzzer_units_def)
qed

end
