(* ===== verification/Legion_Schedule.thy ===== *)
theory Legion_Schedule
  imports Complex_Main Legion_Workers "HOL-Library.Sublist"
begin

text \<open>
  How Legion distributes resource units, from \<^verbatim>\<open>src/legion/mab.cc\<close>, \<^verbatim>\<open>fuzzer_wrapper.cc\<close> and \<^verbatim>\<open>legion.cc\<close>: the
  registration of fuzzers, the choice of a fuzzer by probability, the allocation at the start of a round, the reassignment of
  units from stagnating fuzzers during a round, and the choice of the seeds that are synchronised after a round. Doubles are
  real numbers. The sampling of \<^verbatim>\<open>std::discrete_distribution\<close> is a parameter.
\<close>

section \<open>Fuzzers\<close>

record fuzzer_t =
  fuzzer_label :: string
  script :: string
  reward :: nat
  trail_number :: nat

definition check_binary :: "(string \<Rightarrow> bool) \<Rightarrow> string \<Rightarrow> bool" where
  "check_binary file_exists filename \<longleftrightarrow> filename = ''none'' \<or> file_exists filename"

definition add_fuzzer :: "(string \<Rightarrow> bool) \<Rightarrow> string \<Rightarrow> string \<Rightarrow> string \<Rightarrow> fuzzer_t list \<Rightarrow> fuzzer_t list" where
  "add_fuzzer file_exists l filename script_name scripts =
     (if check_binary file_exists filename
      then scripts @ [\<lparr>fuzzer_label = l, script = script_name, reward = 0, trail_number = 0\<rparr>] else scripts)"

section \<open>Allocation\<close>

text \<open>The first fuzzer without a recorded probability, or a draw by the probabilities.\<close>

definition select_fuzzer :: "(string \<rightharpoonup> real) \<Rightarrow> (real list \<Rightarrow> nat) \<Rightarrow> fuzzer_t list \<Rightarrow> nat option" where
  "select_fuzzer probabilities draw fuzzers =
     (case List.find (\<lambda>i. probabilities (fuzzer_label (fuzzers ! i)) = None) [0 ..< length fuzzers] of
        Some i \<Rightarrow> Some i
      | None \<Rightarrow>
          (let indices = [0 ..< length fuzzers]; k = draw (map (\<lambda>f. the (probabilities (fuzzer_label f))) fuzzers)
           in if k < length indices then Some (indices ! k) else None))"

definition count_up :: "nat \<Rightarrow> (nat \<rightharpoonup> nat) \<Rightarrow> (nat \<rightharpoonup> nat)" where
  "count_up i m = m(i \<mapsto> (case m i of None \<Rightarrow> 1 | Some n \<Rightarrow> n + 1))"

definition primed :: "nat \<Rightarrow> (nat \<rightharpoonup> nat)" where
  "primed k = fold (\<lambda>i m. m(i \<mapsto> 1)) [0 ..< k] Map.empty"

definition allocate_resource_units :: "(string \<rightharpoonup> real) \<Rightarrow> (nat \<Rightarrow> real list \<Rightarrow> nat) \<Rightarrow> nat \<Rightarrow> fuzzer_t list \<Rightarrow> nat \<Rightarrow> (nat \<rightharpoonup> nat) option" where
  "allocate_resource_units probabilities draws resource_unit_number fuzzers rnd =
     (if fuzzers = [] \<or> resource_unit_number = 0 then Some Map.empty
      else if rnd = 0
      then Some (primed (min resource_unit_number (length fuzzers)))
      else map_option snd (for_each (\<lambda>i m.
             case select_fuzzer probabilities (draws i) fuzzers of
               None \<Rightarrow> None
             | Some index \<Rightarrow> Some (if index \<ge> length fuzzers then (True, m) else (False, count_up index m)))
           [0 ..< resource_unit_number] Map.empty))"

section \<open>Reassignment\<close>

record monitored =
  accounting :: nat
  cumulative :: real

definition window_reward :: "(string \<rightharpoonup> real) \<Rightarrow> string \<Rightarrow> real" where
  "window_reward rewards l = (case rewards l of None \<Rightarrow> 0 | Some r \<Rightarrow> r)"

text \<open>The running best of the cumulative rewards; \<^verbatim>\<open>best_index = -1\<close> is \<^const>\<open>None\<close>.\<close>

record best_so_far =
  best_reward :: real
  best_index :: "nat option"
  any_window_reward :: bool
  monitor_states :: "nat \<Rightarrow> monitored"

definition note_reward :: "(nat \<Rightarrow> string) \<Rightarrow> (string \<rightharpoonup> real) \<Rightarrow> nat \<Rightarrow> best_so_far \<Rightarrow> best_so_far" where
  "note_reward labels rewards i b =
     (let w = window_reward rewards (labels i);
          st = (monitor_states b i)\<lparr>cumulative := cumulative (monitor_states b i) + w\<rparr>;
          b1 = b\<lparr>any_window_reward := any_window_reward b \<or> w > 0, monitor_states := (monitor_states b)(i := st)\<rparr>
      in if cumulative st > best_reward b1 then b1\<lparr>best_reward := cumulative st, best_index := Some i\<rparr> else b1)"

definition best_of :: "(nat \<Rightarrow> string) \<Rightarrow> (string \<rightharpoonup> real) \<Rightarrow> nat list \<Rightarrow> (nat \<Rightarrow> monitored) \<Rightarrow> best_so_far" where
  "best_of labels rewards act states =
     fold (note_reward labels rewards) act
       \<lparr>best_reward = 0, best_index = None, any_window_reward = False, monitor_states = states\<rparr>"

definition donors_of :: "(nat \<Rightarrow> string) \<Rightarrow> (string \<rightharpoonup> real) \<Rightarrow> nat list \<Rightarrow> nat option \<Rightarrow> (nat \<Rightarrow> monitored) \<Rightarrow> nat list" where
  "donors_of labels rewards act best states =
     filter (\<lambda>i. Some i \<noteq> best \<and> window_reward rewards (labels i) = 0 \<and> accounting (states i) > 0) act"

datatype window = Round_over | Unchanged | Reassigned nat "nat list"

text \<open>One monitor window. \<open>expand\<close> is whether the best fuzzer could be brought to the units asked for. A donor that is stopped
  (a fresh process) keeps its number of accounting units, one that is paused loses it.\<close>

definition monitor_window :: "(nat \<Rightarrow> string) \<Rightarrow> (string \<rightharpoonup> real) \<Rightarrow> nat \<Rightarrow> nat \<Rightarrow> (nat \<Rightarrow> nat \<Rightarrow> bool) \<Rightarrow> nat list \<Rightarrow>
    (nat \<Rightarrow> monitored) \<times> (nat \<Rightarrow> real) \<Rightarrow> (window \<times> (nat \<Rightarrow> monitored) \<times> (nat \<Rightarrow> real)) option" where
  "monitor_window labels rewards round_time elapsed expand act = (\<lambda>(states, accounted).
     let b = best_of labels rewards act states; states1 = monitor_states b in
     if \<not> any_window_reward b then Some (Round_over, states1, accounted)
     else let
       donors = donors_of labels rewards act (best_index b) states1;
       reclaimed = sum_list (map (\<lambda>i. accounting (states1 i)) donors)
     in if donors = [] \<or> reclaimed = 0 then Some (Unchanged, states1, accounted)
        else (case best_index b of
          None \<Rightarrow> None
        | Some best \<Rightarrow>
            (let remaining = (if elapsed \<ge> round_time then 0 else round_time - elapsed);
                 fraction = (if round_time > 0 then real remaining / real round_time else 0);
                 accounted1 = fold (\<lambda>i a. a(i := a i - real (accounting (states1 i)) * fraction)) donors accounted;
                 states2 = fold (\<lambda>i st. if uses_fresh_round_process (labels i) then st else st(i := (st i)\<lparr>accounting := 0\<rparr>)) donors states1;
                 accounted2 = accounted1(best := accounted1 best + real reclaimed * fraction);
                 boosted = accounting (states2 best) + reclaimed
             in Some (Reassigned best donors,
                  (if remaining \<noteq> 0 \<and> expand best (runtime_resource_units_for_fuzzer (labels best) boosted)
                   then states2(best := (states2 best)\<lparr>accounting := boosted\<rparr>) else states2),
                  accounted2))))"

section \<open>Seeds worth synchronising\<close>

record sync_seed_features =
  seed_edges :: "u64 set"
  seed_paths :: "u32 set"
  fingerprint :: string

record sync_metric_targets =
  c0_edges :: "u64 set"
  c1_paths :: "u32 set"
  c2_crashes :: "string set"
  c3_deep_edges :: "u64 set"
  c4_low_freq_edges :: "u64 set"

definition sync_metric_targets_empty :: "sync_metric_targets \<Rightarrow> bool" where
  "sync_metric_targets_empty t \<longleftrightarrow> c0_edges t = {} \<and> c1_paths t = {} \<and> c2_crashes t = {} \<and> c3_deep_edges t = {} \<and> c4_low_freq_edges t = {}"

definition sync_seed_has_metric_contribution :: "sync_seed_features \<Rightarrow> sync_metric_targets \<Rightarrow> bool" where
  "sync_seed_has_metric_contribution f t \<longleftrightarrow> fingerprint f \<in> c2_crashes t \<or>
     (\<exists>x \<in> seed_edges f. x \<in> c0_edges t \<or> x \<in> c3_deep_edges t \<or> x \<in> c4_low_freq_edges t) \<or>
     (\<exists>p \<in> seed_paths f. p \<in> c1_paths t)"

definition consume_sync_metric_targets :: "sync_seed_features \<Rightarrow> sync_metric_targets \<Rightarrow> sync_metric_targets" where
  "consume_sync_metric_targets f t =
     t\<lparr>c2_crashes := c2_crashes t - {fingerprint f},
       c0_edges := c0_edges t - seed_edges f, c3_deep_edges := c3_deep_edges t - seed_edges f,
       c4_low_freq_edges := c4_low_freq_edges t - seed_edges f, c1_paths := c1_paths t - seed_paths f\<rparr>"

fun select_seeds :: "sync_seed_features list \<Rightarrow> sync_metric_targets \<Rightarrow> sync_seed_features list \<times> sync_metric_targets" where
  "select_seeds [] remaining = ([], remaining)"
| "select_seeds (f # fs) remaining =
     (if sync_metric_targets_empty remaining then ([], remaining)
      else if sync_seed_has_metric_contribution f remaining
      then (let (sel, r) = select_seeds fs (consume_sync_metric_targets f remaining) in (f # sel, r))
      else select_seeds fs remaining)"

definition select_metric_contributing_sync_seeds :: "(string \<rightharpoonup> sync_metric_targets) \<Rightarrow> string \<Rightarrow> sync_seed_features list \<Rightarrow>
    (sync_seed_features list \<times> sync_metric_targets) option" where
  "select_metric_contributing_sync_seeds targets l seeds = map_option (select_seeds seeds) (targets l)"

section \<open>Every unit is allocated\<close>

definition allocated :: "nat \<Rightarrow> (nat \<rightharpoonup> nat) \<Rightarrow> nat" where
  "allocated n m = (\<Sum>i < n. case m i of None \<Rightarrow> 0 | Some k \<Rightarrow> k)"

definition shares_ok :: "nat \<Rightarrow> (nat \<rightharpoonup> nat) \<Rightarrow> bool" where
  "shares_ok n m \<longleftrightarrow> dom m \<subseteq> {..<n} \<and> (\<forall>i k. m i = Some k \<longrightarrow> 0 < k)"

lemma allocated_upd:
  assumes "i < n"
  shows "allocated n (m(i \<mapsto> k)) + (case m i of None \<Rightarrow> 0 | Some j \<Rightarrow> j) = allocated n m + k"
proof -
  have "{..<n} = insert i ({..<n} - {i})" using assms by auto
  then have s: "(\<Sum>j < n. f j) = f i + (\<Sum>j \<in> {..<n} - {i}. f j)" for f :: "nat \<Rightarrow> nat"
    by (metis finite_Diff finite_lessThan insert_Diff_single sum.insert_remove)
  have "(\<Sum>j \<in> {..<n} - {i}. case (m(i \<mapsto> k)) j of None \<Rightarrow> 0 | Some k \<Rightarrow> k) = (\<Sum>j \<in> {..<n} - {i}. case m j of None \<Rightarrow> 0 | Some k \<Rightarrow> k)"
    by (intro sum.cong) auto
  then show ?thesis unfolding allocated_def by (subst (1 2) s) simp
qed

lemma count_up_shares:
  assumes "shares_ok n m" "i < n"
  shows "shares_ok n (count_up i m)" "allocated n (count_up i m) = allocated n m + 1"
proof -
  show "shares_ok n (count_up i m)" using assms by (auto simp: shares_ok_def count_up_def split: if_splits option.splits)
  show "allocated n (count_up i m) = allocated n m + 1"
    using allocated_upd [OF assms(2), of m "case m i of None \<Rightarrow> 1 | Some n \<Rightarrow> n + 1"] by (auto simp: count_up_def split: option.splits)
qed

lemma find_upt: "List.find P [0 ..< n] = Some i \<Longrightarrow> i < n \<and> P i"
  by (auto simp: find_Some_iff)

lemma select_fuzzer_ok:
  assumes "fs \<noteq> []" "\<And>ps. ps \<noteq> [] \<Longrightarrow> draw ps < length ps"
  shows "\<exists>i < length fs. select_fuzzer probs draw fs = Some i"
proof (cases "List.find (\<lambda>i. probs (fuzzer_label (fs ! i)) = None) [0 ..< length fs]")
  case None
  then show ?thesis using assms(2) [of "map (\<lambda>f. the (probs (fuzzer_label f))) fs"] assms(1) by (simp add: select_fuzzer_def)
next
  case (Some i)
  then show ?thesis using find_upt [OF Some] by (simp add: select_fuzzer_def)
qed

lemma primed_Suc: "primed (Suc k) = (primed k)(k \<mapsto> 1)"
  by (simp add: primed_def)

lemma priming_shares: "k \<le> n \<Longrightarrow> shares_ok n (primed k) \<and> allocated n (primed k) = k \<and> dom (primed k) = {..<k}"
proof (induction k)
  case 0
  then show ?case by (simp add: shares_ok_def allocated_def primed_def)
next
  case (Suc k)
  then have "k \<notin> dom (primed k)" by simp
  then have "primed k k = None" by (simp only: domIff not_not)
  then have "allocated n (primed (Suc k)) = Suc k" using Suc allocated_upd [of k n "primed k" 1] by (simp add: primed_Suc)
  moreover have "dom (primed (Suc k)) = {..<Suc k}" using Suc by (simp add: primed_Suc lessThan_Suc)
  moreover have "\<forall>i j. primed (Suc k) i = Some j \<longrightarrow> 0 < j" using Suc by (simp add: primed_Suc shares_ok_def)
  ultimately show ?case using Suc.prems by (simp add: shares_ok_def lessThan_subset_iff)
qed

lemma allocate_total:
  assumes "\<And>i ps. ps \<noteq> [] \<Longrightarrow> draws i ps < length ps"
  shows "\<exists>m. allocate_resource_units probs draws res fs rnd = Some m \<and> shares_ok (length fs) m \<and>
    allocated (length fs) m = (if fs = [] then 0 else if rnd = 0 then min res (length fs) else res)"
proof -
  consider "fs = [] \<or> res = 0" | "fs \<noteq> []" "0 < res" "rnd = 0" | "fs \<noteq> []" "0 < res" "0 < rnd" by blast
  then show ?thesis
  proof cases
    case 1
    then show ?thesis by (auto simp: allocate_resource_units_def shares_ok_def allocated_def)
  next
    case 2
    then show ?thesis using priming_shares [of "min res (length fs)" "length fs"] by (auto simp: allocate_resource_units_def)
  next
    case 3
    let ?f = "\<lambda>i m. case select_fuzzer probs (draws i) fs of None \<Rightarrow> None
       | Some index \<Rightarrow> Some (if index \<ge> length fs then (True, m) else (False, count_up index m))"
    have step: "\<exists>m'. ?f i m = Some (False, m') \<and> shares_ok (length fs) m' \<and> allocated (length fs) m' = allocated (length fs) m + 1"
      if "shares_ok (length fs) m" for i m
    proof -
      obtain k where "k < length fs" "select_fuzzer probs (draws i) fs = Some k" using select_fuzzer_ok [OF 3(1), of "draws i" probs] assms by blast
      then show ?thesis using count_up_shares [OF that] by simp
    qed
    have "\<exists>m'. for_each ?f is m = Some (False, m') \<and> shares_ok (length fs) m' \<and> allocated (length fs) m' = allocated (length fs) m + length is"
      if "shares_ok (length fs) m" for "is" m
      using that
    proof (induction "is" arbitrary: m)
      case (Cons i "is")
      from step [OF Cons.prems, of i] obtain m1 where "?f i m = Some (False, m1)" "shares_ok (length fs) m1"
        "allocated (length fs) m1 = allocated (length fs) m + 1" by blast
      then show ?case using Cons.IH [of m1] by auto
    qed simp
    from this [of Map.empty "[0 ..< res]"] show ?thesis using 3
      by (auto simp: allocate_resource_units_def shares_ok_def allocated_def)
  qed
qed

section \<open>Reassignment conserves units\<close>

definition rewards_ok :: "(string \<rightharpoonup> real) \<Rightarrow> bool" where
  "rewards_ok rewards \<longleftrightarrow> (\<forall>l r. rewards l = Some r \<longrightarrow> 0 \<le> r)"

lemma window_reward_nonneg: "rewards_ok rewards \<Longrightarrow> 0 \<le> window_reward rewards l"
  by (auto simp: rewards_ok_def window_reward_def split: option.splits)

definition best_inv :: "best_so_far \<Rightarrow> bool" where
  "best_inv b \<longleftrightarrow> (\<forall>j. 0 \<le> cumulative (monitor_states b j)) \<and> 0 \<le> best_reward b \<and>
     (any_window_reward b \<longrightarrow> 0 < best_reward b) \<and> (0 < best_reward b \<longleftrightarrow> best_index b \<noteq> None)"

lemma note_reward_inv:
  assumes "rewards_ok rewards" "best_inv b"
  shows "best_inv (note_reward labels rewards i b)"
proof -
  let ?w = "window_reward rewards (labels i)" and ?c = "cumulative (monitor_states b i)"
  have "0 \<le> ?w" "0 \<le> ?c" using window_reward_nonneg [OF assms(1)] assms(2) by (auto simp: best_inv_def)
  then have "?c + ?w > best_reward b \<or> ?w \<le> best_reward b" by linarith
  then show ?thesis using assms(2) \<open>0 \<le> ?w\<close> by (cases "?c + ?w > best_reward b") (auto simp: best_inv_def note_reward_def Let_def)
qed

lemma note_reward_index: "best_index (note_reward labels rewards i b) \<in> {best_index b, Some i}"
  by (simp add: note_reward_def Let_def)

lemma note_reward_accounting: "accounting (monitor_states (note_reward labels rewards i b) j) = accounting (monitor_states b j)"
  by (simp add: note_reward_def Let_def)

lemma fold_note_reward:
  assumes "rewards_ok rewards" "best_inv b"
  shows "best_inv (fold (note_reward labels rewards) act b) \<and>
    best_index (fold (note_reward labels rewards) act b) \<in> insert (best_index b) (Some ` set act)"
  using assms(2)
proof (induction act arbitrary: b)
  case (Cons i act)
  from Cons.IH [OF note_reward_inv [OF assms(1) Cons.prems, of labels i]] note_reward_index [of labels rewards i b]
  show ?case by auto
qed simp

lemma best_of_spec:
  assumes "rewards_ok rewards" "\<forall>j. 0 \<le> cumulative (states j)" "any_window_reward (best_of labels rewards act states)"
  shows "\<exists>i \<in> set act. best_index (best_of labels rewards act states) = Some i"
proof -
  let ?b0 = "\<lparr>best_reward = 0, best_index = None, any_window_reward = False, monitor_states = states\<rparr>"
  have "best_inv ?b0" using assms(2) by (simp add: best_inv_def)
  from fold_note_reward [OF assms(1) this, of labels act] assms(3) show ?thesis by (auto simp: best_of_def best_inv_def)
qed

lemma fold_take_away:
  fixes a :: "nat \<Rightarrow> real"
  assumes "distinct ds" "set ds \<subseteq> I" "finite I"
  shows "(\<Sum>i \<in> I. fold (\<lambda>i a. a(i := a i - g i)) ds a i) = (\<Sum>i \<in> I. a i) - sum_list (map g ds)"
  using assms(1,2)
proof (induction ds arbitrary: a)
  case (Cons d ds)
  have "(\<Sum>i \<in> I. (a(d := a d - g d)) i) = (\<Sum>i \<in> I. a i) - g d"
    using Cons.prems(2) assms(3) by (simp add: sum.remove [of I d] fun_upd_def)
  then show ?case using Cons by simp
qed simp

lemma monitor_window_conserves:
  assumes "monitor_window labels rewards rt elapsed expand act (states, accounted) = Some (w, states', accounted')"
    "rewards_ok rewards" "\<forall>j. 0 \<le> cumulative (states j)" "distinct act" "finite I" "set act \<subseteq> I"
  shows "(\<Sum>i \<in> I. accounted' i) = (\<Sum>i \<in> I. accounted i)"
proof -
  define b where "b = best_of labels rewards act states"
  define ds where "ds = donors_of labels rewards act (best_index b) (monitor_states b)"
  define fr where "fr = (if rt > 0 then real (if elapsed \<ge> rt then 0 else rt - elapsed) / real rt else 0)"
  let ?g = "\<lambda>i. real (accounting (monitor_states b i)) * fr"
  have ds: "distinct ds" "set ds \<subseteq> I" using assms(4,6) by (auto simp: ds_def donors_of_def)
  consider "accounted' = accounted" | k where "best_index b = Some k" "any_window_reward b"
    "accounted' = (fold (\<lambda>i a. a(i := a i - ?g i)) ds accounted)
       (k := fold (\<lambda>i a. a(i := a i - ?g i)) ds accounted k + real (sum_list (map (\<lambda>i. accounting (monitor_states b i)) ds)) * fr)"
    using assms(1) by (auto simp: monitor_window_def Let_def b_def ds_def fr_def split: if_splits option.splits)
  then show ?thesis
  proof cases
    case (2 k)
    have "k \<in> I" using best_of_spec [OF assms(2,3) 2(2) [unfolded b_def]] 2(1) assms(6) unfolding b_def by auto
    moreover have "real (sum_list (map (\<lambda>i. accounting (monitor_states b i)) ds)) * fr = sum_list (map ?g ds)"
      by (induction ds) (simp_all add: distrib_right)
    ultimately show ?thesis
      using fold_take_away [OF ds assms(5), of ?g accounted] 2(3) assms(5) by (simp add: sum.remove [of I k] fun_upd_def)
  qed simp
qed

lemma monitor_window_total:
  assumes "rewards_ok rewards" "\<forall>j. 0 \<le> cumulative (states j)"
  shows "monitor_window labels rewards rt elapsed expand act (states, accounted) \<noteq> None"
proof -
  have "any_window_reward (best_of labels rewards act states) \<Longrightarrow> best_index (best_of labels rewards act states) \<noteq> None"
    using best_of_spec [OF assms] by auto
  then show ?thesis by (auto simp: monitor_window_def Let_def split: option.splits)
qed

section \<open>The selected seeds cover what can be covered\<close>

definition consume_all :: "sync_seed_features list \<Rightarrow> sync_metric_targets \<Rightarrow> sync_metric_targets" where
  "consume_all fs t = fold consume_sync_metric_targets fs t"

lemma no_contribution: "\<not> sync_seed_has_metric_contribution f t \<Longrightarrow> consume_sync_metric_targets f t = t"
  by (auto simp: sync_seed_has_metric_contribution_def consume_sync_metric_targets_def intro!: sync_metric_targets.equality)

lemma empty_no_contribution: "sync_metric_targets_empty t \<Longrightarrow> \<not> sync_seed_has_metric_contribution f t"
  by (auto simp: sync_seed_has_metric_contribution_def sync_metric_targets_empty_def)

lemma consume_all_empty: "sync_metric_targets_empty t \<Longrightarrow> consume_all fs t = t"
  by (induction fs) (simp_all add: consume_all_def no_contribution empty_no_contribution)

text \<open>Every selected seed contributes something that none selected before it does.\<close>

fun each_contributes :: "sync_seed_features list \<Rightarrow> sync_metric_targets \<Rightarrow> bool" where
  "each_contributes [] t = True"
| "each_contributes (f # fs) t = (sync_seed_has_metric_contribution f t \<and> each_contributes fs (consume_sync_metric_targets f t))"

lemma select_seeds_spec:
  assumes "select_seeds fs t = (sel, r)"
  shows "subseq sel fs \<and> r = consume_all fs t \<and> r = consume_all sel t \<and> each_contributes sel t"
  using assms
proof (induction fs t arbitrary: sel r rule: select_seeds.induct)
  case (2 f fs t)
  consider "sync_metric_targets_empty t" | "\<not> sync_metric_targets_empty t" "sync_seed_has_metric_contribution f t"
    | "\<not> sync_metric_targets_empty t" "\<not> sync_seed_has_metric_contribution f t" by blast
  then show ?case
  proof cases
    case 1
    then show ?thesis using 2(3) consume_all_empty [OF 1, of "f # fs"] consume_all_empty [OF 1, of "[]"] by auto
  next
    case c: 2
    then obtain sel' where "select_seeds fs (consume_sync_metric_targets f t) = (sel', r)" "sel = f # sel'"
      using 2(3) by (auto split: prod.splits)
    then show ?thesis using 2(1) [OF c, of sel' r] c by (auto simp: consume_all_def)
  next
    case 3
    then show ?thesis using 2(2) [OF 3, of sel r] 2(3) by (auto simp: consume_all_def no_contribution)
  qed
qed (simp add: consume_all_def)

lemma consume_all_sets:
  "c0_edges (consume_all fs t) = c0_edges t - (\<Union>f \<in> set fs. seed_edges f) \<and>
   c1_paths (consume_all fs t) = c1_paths t - (\<Union>f \<in> set fs. seed_paths f) \<and>
   c2_crashes (consume_all fs t) = c2_crashes t - fingerprint ` set fs \<and>
   c3_deep_edges (consume_all fs t) = c3_deep_edges t - (\<Union>f \<in> set fs. seed_edges f) \<and>
   c4_low_freq_edges (consume_all fs t) = c4_low_freq_edges t - (\<Union>f \<in> set fs. seed_edges f)"
  by (induction fs arbitrary: t) (auto simp: consume_all_def consume_sync_metric_targets_def)

end
