(* ===== verification/Legion_Bandit.thy ===== *)
theory Legion_Bandit
  imports Legion_Schedule
begin

text \<open>
  The evaluation of a round in \<^verbatim>\<open>src/legion/global_record.cc\<close>: the weights of the five metrics by their standard
  deviation over the fuzzers, the weighted rewards, the score of a fuzzer, and the probabilities of the next round. Doubles
  are real numbers, for which \<^verbatim>\<open>isfinite\<close> always holds. The metrics of each fuzzer, which the code parses from the reports of
  the replay tool, are given here and computed in \<open>Legion_Record\<close>.
\<close>

section \<open>State\<close>

record bandit =
  n_total :: real
  fuzzer_scores :: "string \<rightharpoonup> real"
  fuzzer_u :: "string \<rightharpoonup> real"
  fuzzer_probabilities :: "string \<rightharpoonup> real"
  fuzzer_cumulative_rewards :: "string \<rightharpoonup> real"
  fuzzer_last_rewards :: "string \<rightharpoonup> real"
  fuzzer_effective_units :: "string \<rightharpoonup> real"

record finfo =
  f_label :: string
  f_scheduled :: real
  f_metrics :: "nat list"

definition at0 :: "(string \<rightharpoonup> real) \<Rightarrow> string \<Rightarrow> real" where
  "at0 m l = (case m l of None \<Rightarrow> 0 | Some x \<Rightarrow> x)"

section \<open>Rewards\<close>

definition evaluate :: "string \<Rightarrow> real \<Rightarrow> real \<Rightarrow> 'a bandit_scheme \<Rightarrow> 'a bandit_scheme" where
  "evaluate l final_reward scheduled b =
     (let final_score = (if final_reward + scheduled > 0 then final_reward / (final_reward + scheduled) else 0)
      in b\<lparr>fuzzer_last_rewards := (fuzzer_last_rewards b)(l \<mapsto> final_reward), fuzzer_scores := (fuzzer_scores b)(l \<mapsto> final_score)\<rparr>)"

definition metric_mean :: "finfo list \<Rightarrow> nat \<Rightarrow> real" where
  "metric_mean fs i = sum_list (map (\<lambda>f. real (f_metrics f ! i)) fs) / real (length fs)"

definition metric_std :: "finfo list \<Rightarrow> nat \<Rightarrow> real" where
  "metric_std fs i = sqrt (sum_list (map (\<lambda>f. (real (f_metrics f ! i) - metric_mean fs i) * (real (f_metrics f ! i) - metric_mean fs i)) fs) / real (length fs))"

definition metric_weight :: "finfo list \<Rightarrow> nat \<Rightarrow> real" where
  "metric_weight fs i =
     (let sum_std = sum_list (map (metric_std fs) [0 ..< 5])
      in if sum_std > 0 then metric_std fs i / sum_std else 1 / 5)"

definition weighted_reward :: "finfo list \<Rightarrow> finfo \<Rightarrow> real" where
  "weighted_reward fs f = sum_list (map (\<lambda>i. metric_weight fs i * real (f_metrics f ! i)) [0 ..< 5])"

section \<open>Probabilities\<close>

definition quality :: "real \<Rightarrow> real \<Rightarrow> real" where
  "quality cumulative_reward eff = (if eff > 0 \<and> cumulative_reward + eff > 0 then cumulative_reward / (cumulative_reward + eff) else 0)"

definition exploration :: "real \<Rightarrow> real \<Rightarrow> real" where
  "exploration n_snapshot eff = (if eff > 0 \<and> n_snapshot > 1 then sqrt (2 * ln n_snapshot / eff) else 1)"

definition score_fuzzer :: "(string \<rightharpoonup> real) \<Rightarrow> real \<Rightarrow> string \<Rightarrow> 'a bandit_scheme \<times> real \<Rightarrow> 'a bandit_scheme \<times> real" where
  "score_fuzzer scheduled n_snapshot l = (\<lambda>(b, sum_exp).
     let eff = (case scheduled l of Some u \<Rightarrow> u | None \<Rightarrow> at0 (fuzzer_effective_units b) l);
         q = quality (at0 (fuzzer_cumulative_rewards b) l) eff;
         u = exploration n_snapshot eff
     in (b\<lparr>fuzzer_effective_units := (fuzzer_effective_units b)(l \<mapsto> eff),
           fuzzer_last_rewards := (fuzzer_last_rewards b)(l \<mapsto> at0 (fuzzer_last_rewards b) l),
           fuzzer_scores := (fuzzer_scores b)(l \<mapsto> q), fuzzer_u := (fuzzer_u b)(l \<mapsto> u)\<rparr>,
         sum_exp + exp (q + u)))"

definition recompute_round_probabilities :: "string list \<Rightarrow> (string \<rightharpoonup> real) \<Rightarrow> real \<Rightarrow> 'a bandit_scheme \<Rightarrow> 'a bandit_scheme" where
  "recompute_round_probabilities labels scheduled n_snapshot b =
     (let (b1, sum_exp) = fold (score_fuzzer scheduled n_snapshot) labels (b, 0) in
      if sum_exp = 0 then b1
      else fold (\<lambda>l b. b\<lparr>fuzzer_probabilities := (fuzzer_probabilities b)(l \<mapsto>
                     exp (at0 (fuzzer_scores b) l + at0 (fuzzer_u b) l) / sum_exp)\<rparr>) labels b1)"

definition reward_fuzzer :: "finfo list \<Rightarrow> finfo \<Rightarrow> 'a bandit_scheme \<Rightarrow> 'a bandit_scheme" where
  "reward_fuzzer fs f b =
     (let c = at0 (fuzzer_cumulative_rewards b) (f_label f) + weighted_reward fs f
      in evaluate (f_label f) c (f_scheduled f) (b\<lparr>fuzzer_cumulative_rewards := (fuzzer_cumulative_rewards b)(f_label f \<mapsto> c)\<rparr>))"

definition evaluate_metrics :: "string list \<Rightarrow> finfo list \<Rightarrow> 'a bandit_scheme \<Rightarrow> 'a bandit_scheme" where
  "evaluate_metrics labels fs b =
     (if fs = [] then b
      else let
        n_snapshot = n_total b + sum_list (map f_scheduled fs);
        b1 = fold (reward_fuzzer fs) fs (b\<lparr>n_total := n_snapshot\<rparr>)
      in recompute_round_probabilities labels (map_of (rev (map (\<lambda>f. (f_label f, f_scheduled f)) fs))) n_snapshot b1)"

section \<open>The weights are a distribution\<close>

lemma metric_std_nonneg: "0 \<le> metric_std fs i"
  by (auto simp: metric_std_def intro!: divide_nonneg_nonneg sum_list_nonneg)

lemma weights_distribution: "(\<forall>i. 0 \<le> metric_weight fs i) \<and> sum_list (map (metric_weight fs) [0 ..< 5]) = 1"
proof -
  let ?s = "sum_list (map (metric_std fs) [0 ..< 5])"
  show ?thesis
  proof (cases "?s > 0")
    case True
    then have w: "metric_weight fs = (\<lambda>i. metric_std fs i / ?s)" by (simp add: metric_weight_def fun_eq_iff)
    have "sum_list (map (\<lambda>i. metric_std fs i / c) is) = sum_list (map (metric_std fs) is) / c" for c "is"
      by (induction "is") (simp_all add: add_divide_distrib)
    then show ?thesis using True by (simp add: w metric_std_nonneg del: upt_rec_numeral)
  next
    case False
    then have "metric_weight fs = (\<lambda>i. 1 / 5)" by (simp add: metric_weight_def fun_eq_iff)
    then show ?thesis by (simp add: upt_rec)
  qed
qed

lemma weighted_reward_nonneg: "0 \<le> weighted_reward fs f"
  using weights_distribution [of fs] by (auto simp: weighted_reward_def intro!: sum_list_nonneg)

section \<open>The probabilities are a distribution\<close>

lemma score_fuzzer_rest:
  "score_fuzzer sc n l (b, s) = (b', s') \<Longrightarrow> s' = s + exp (at0 (fuzzer_scores b') l + at0 (fuzzer_u b') l) \<and>
    (\<forall>k. k \<noteq> l \<longrightarrow> fuzzer_scores b' k = fuzzer_scores b k \<and> fuzzer_u b' k = fuzzer_u b k) \<and>
    fuzzer_probabilities b' = fuzzer_probabilities b \<and> n_total b' = n_total b \<and> fuzzer_cumulative_rewards b' = fuzzer_cumulative_rewards b"
  by (auto simp: score_fuzzer_def Let_def at0_def)

lemma fold_score_fuzzer:
  assumes "distinct ls" "fold (score_fuzzer sc n) ls (b, s) = (b', s')"
  shows "s' = s + sum_list (map (\<lambda>l. exp (at0 (fuzzer_scores b') l + at0 (fuzzer_u b') l)) ls) \<and>
    (\<forall>k. k \<notin> set ls \<longrightarrow> fuzzer_scores b' k = fuzzer_scores b k \<and> fuzzer_u b' k = fuzzer_u b k) \<and> n_total b' = n_total b"
  using assms
proof (induction ls arbitrary: b s)
  case (Cons l ls)
  obtain b1 s1 where b1: "score_fuzzer sc n l (b, s) = (b1, s1)" by fastforce
  note r = score_fuzzer_rest [OF b1]
  have "fold (score_fuzzer sc n) ls (b1, s1) = (b', s')" "distinct ls" using Cons.prems b1 by auto
  note IH = Cons.IH [OF this(2,1)]
  have "at0 (fuzzer_scores b') l = at0 (fuzzer_scores b1) l" "at0 (fuzzer_u b') l = at0 (fuzzer_u b1) l"
    using IH Cons.prems(1) by (simp_all add: at0_def)
  then show ?case using IH r by auto
qed simp

lemma fold_set_probabilities:
  fixes c :: real
  defines "upd \<equiv> \<lambda>l b. b\<lparr>fuzzer_probabilities := (fuzzer_probabilities b)(l \<mapsto> exp (at0 (fuzzer_scores b) l + at0 (fuzzer_u b) l) / c)\<rparr>"
  shows "fuzzer_scores (fold upd ls b) = fuzzer_scores b \<and> fuzzer_u (fold upd ls b) = fuzzer_u b \<and> n_total (fold upd ls b) = n_total b \<and>
    fuzzer_probabilities (fold upd ls b) = (\<lambda>l. if l \<in> set ls then Some (exp (at0 (fuzzer_scores b) l + at0 (fuzzer_u b) l) / c) else fuzzer_probabilities b l)"
  by (induction ls arbitrary: b) (auto simp: upd_def fun_eq_iff)

lemma sum_exp_pos: "ls \<noteq> [] \<Longrightarrow> 0 < sum_list (map (\<lambda>l. exp (f l)) ls)" for f :: "'b \<Rightarrow> real"
  by (induction ls rule: list_nonempty_induct) (auto intro: add_pos_pos)

lemma recompute_distribution:
  fixes ls sc n b
  assumes "distinct ls" "ls \<noteq> []"
  defines "t \<equiv> recompute_round_probabilities ls sc n b"
  shows "(\<forall>l \<in> set ls. \<exists>p. fuzzer_probabilities t l = Some p \<and> 0 < p) \<and>
    sum_list (map (\<lambda>l. the (fuzzer_probabilities t l)) ls) = 1 \<and>
    (\<forall>l \<in> set ls. \<forall>k \<in> set ls. the (fuzzer_probabilities t l) \<le> the (fuzzer_probabilities t k) \<longleftrightarrow>
       at0 (fuzzer_scores t) l + at0 (fuzzer_u t) l \<le> at0 (fuzzer_scores t) k + at0 (fuzzer_u t) k) \<and> n_total t = n_total b"
proof -
  obtain b1 s where b1: "fold (score_fuzzer sc n) ls (b, 0) = (b1, s)" by fastforce
  let ?e = "\<lambda>l. exp (at0 (fuzzer_scores b1) l + at0 (fuzzer_u b1) l)"
  have s: "s = sum_list (map ?e ls)" "n_total b1 = n_total b" using fold_score_fuzzer [OF assms(1) b1] by simp_all
  then have pos: "0 < s" using sum_exp_pos [OF assms(2)] by simp
  have t: "fuzzer_scores t = fuzzer_scores b1" "fuzzer_u t = fuzzer_u b1" "n_total t = n_total b"
    "fuzzer_probabilities t = (\<lambda>l. if l \<in> set ls then Some (?e l / s) else fuzzer_probabilities b1 l)"
    using fold_set_probabilities [of s ls b1] b1 pos s(2) by (simp_all add: t_def recompute_round_probabilities_def)
  have "sum_list (map (\<lambda>l. the (fuzzer_probabilities t l)) ls) = sum_list (map (\<lambda>l. ?e l / s) ls)"
    by (intro arg_cong [of _ _ sum_list] map_cong) (simp_all add: t)
  also have "\<dots> = sum_list (map ?e ls) / s" by (induction ls) (simp_all add: add_divide_distrib)
  finally show ?thesis using pos s(1) by (auto simp: t divide_le_cancel)
qed

lemma evaluate_metrics_distribution:
  fixes b :: "'a bandit_scheme"
  assumes "distinct ls" "ls \<noteq> []" "fs \<noteq> []"
  shows "(\<forall>l \<in> set ls. \<exists>p. fuzzer_probabilities (evaluate_metrics ls fs b) l = Some p \<and> 0 < p) \<and>
    sum_list (map (\<lambda>l. the (fuzzer_probabilities (evaluate_metrics ls fs b) l)) ls) = 1 \<and>
    n_total (evaluate_metrics ls fs b) = n_total b + sum_list (map f_scheduled fs)"
proof -
  have n: "n_total (fold (reward_fuzzer gs) fs c) = n_total c" for gs and c :: "'a bandit_scheme"
    by (induction fs arbitrary: c) (simp_all add: reward_fuzzer_def evaluate_def Let_def)
  let ?n = "n_total b + sum_list (map f_scheduled fs)"
  show ?thesis
    using assms recompute_distribution [OF assms(1,2), of "map_of (rev (map (\<lambda>f. (f_label f, f_scheduled f)) fs))" ?n "fold (reward_fuzzer fs) fs (b\<lparr>n_total := ?n\<rparr>)"] n
    by (simp add: evaluate_metrics_def Let_def)
qed

end
