(* ===== verification/Legion_Record.thy ===== *)
theory Legion_Record
  imports Legion_Batch_Laws Legion_Bandit
begin

text \<open>
  The record of what was seen so far, from \<^verbatim>\<open>src/legion/global_record.cc\<close>: reading the reports of the replay tool, the five
  metrics of a fuzzer against the corpus it started from, the evaluation of a round, and the evaluation of a monitor window. The
  contents of a report file are given (\<^const>\<open>None\<close>: it cannot be opened), and so are the fingerprints of a fuzzer's crash files. An edge
  number of \<open>2\<^sup>6\<^sup>3\<close> or more makes the doubling of the capacity run for ever, which is the result \<^const>\<open>None\<close>; otherwise memory suffices.
\<close>

section \<open>Reading reports\<close>

definition profile_section :: "string \<Rightarrow> report_section" where
  "profile_section line =
     (if starts_with ''[EDGE TO FUNC]'' line then REPORT_EDGE_TO_FUNC
      else if starts_with ''[EDGE]'' line then REPORT_EDGE
      else if starts_with ''[PATH]'' line then REPORT_PATH else REPORT_NONE)"

text \<open>The lines that carry data, each with its section.\<close>

fun data_lines :: "report_section \<Rightarrow> string list \<Rightarrow> (report_section \<times> string) list" where
  "data_lines sec [] = []"
| "data_lines sec (raw # ls) =
     (let line = chomp raw in
      if line = [] then data_lines sec ls
      else if hd line = CHR ''['' then data_lines (profile_section line) ls
      else (sec, line) # data_lines sec ls)"

definition report_lines :: "string option \<Rightarrow> (report_section \<times> string) list" where
  "report_lines file = (case file of None \<Rightarrow> [] | Some text \<Rightarrow> data_lines REPORT_NONE (getlines text))"

function grow_cap :: "nat \<Rightarrow> nat \<Rightarrow> nat" where
  "grow_cap idx n = (if 0 < n \<and> n \<le> idx then grow_cap idx (2 * n) else n)"
  by pat_completeness auto
termination
  by (relation "measure (\<lambda>(idx, n). Suc idx - n)") auto

declare grow_cap.simps [simp del]

definition new_size :: "nat \<Rightarrow> nat \<Rightarrow> nat option" where
  "new_size idx sz = (if idx < sz then Some sz else if idx \<ge> 2 ^ 63 then None else Some (grow_cap idx (max 1024 sz)))"

definition resize :: "nat \<Rightarrow> 'a \<Rightarrow> 'a list \<Rightarrow> 'a list" where
  "resize n x xs = take n xs @ replicate (n - length xs) x"

text \<open>The value of the second number of an edge line, 0 if it is missing.\<close>

definition edge_line :: "string \<Rightarrow> (u64 \<times> u64) option" where
  "edge_line line = (case sscanf_lu_lu line of [] \<Rightarrow> None | [i] \<Rightarrow> Some (i, 0) | i # v # _ \<Rightarrow> Some (i, v))"

record report_profile =
  prof_counts :: "u64 list"
  prof_funcs :: "string list"
  covered_edges :: "u64 set"
  covered_paths :: "u64 set"
  edge_hit_sum :: real

definition empty_profile :: report_profile where
  "empty_profile = \<lparr>prof_counts = [], prof_funcs = [], covered_edges = {}, covered_paths = {}, edge_hit_sum = 0\<rparr>"

definition ensure_cap :: "nat \<Rightarrow> report_profile \<Rightarrow> report_profile option" where
  "ensure_cap idx p =
     map_option (\<lambda>n. p\<lparr>prof_counts := resize n 0 (prof_counts p), prof_funcs := resize n [] (prof_funcs p)\<rparr>)
       (new_size idx (length (prof_counts p)))"

definition set_func :: "u64 \<Rightarrow> string \<Rightarrow> report_profile \<Rightarrow> report_profile option" where
  "set_func i fname p = map_option (\<lambda>p. p\<lparr>prof_funcs := (prof_funcs p)[unat i := trim_blanks fname]\<rparr>) (ensure_cap (unat i) p)"

definition profile_line :: "report_section \<times> string \<Rightarrow> report_profile \<Rightarrow> report_profile option" where
  "profile_line = (\<lambda>(sec, line) p.
     case sec of
       REPORT_EDGE \<Rightarrow>
         (case edge_line line of
            None \<Rightarrow> Some p
          | Some (i, v) \<Rightarrow> map_option (\<lambda>p. let p1 = p\<lparr>prof_counts := (prof_counts p)[unat i := v]\<rparr> in
                             if v > 0 then p1\<lparr>edge_hit_sum := edge_hit_sum p1 + real (unat v), covered_edges := insert i (covered_edges p1)\<rparr> else p1)
                           (ensure_cap (unat i) p))
     | REPORT_PATH \<Rightarrow> (case in_range line of None \<Rightarrow> Some p | Some (h, r) \<Rightarrow> Some (p\<lparr>covered_paths := insert h (covered_paths p)\<rparr>))
     | REPORT_EDGE_TO_FUNC \<Rightarrow>
         (if list_ex is_blank line
          then (let idstr = takeWhile (\<lambda>c. \<not> is_blank c) line in
                case in_range idstr of None \<Rightarrow> Some p | Some (i, r) \<Rightarrow> set_func i (drop (length idstr + 1) line) p)
          else (case in_range line of None \<Rightarrow> Some p | Some (i, r) \<Rightarrow> if r = [] then Some p else set_func i r p))
     | REPORT_NONE \<Rightarrow> Some p)"

definition parse_report_profile :: "string option \<Rightarrow> report_profile option" where
  "parse_report_profile file = foldM profile_line (report_lines file) empty_profile"

section \<open>The global record\<close>

record global_record = bandit +
  seen_edges_global :: "u64 set"
  seen_paths_global :: "u64 set"
  seen_crash_fingerprints_global :: "string set"
  global_edge_frequency_counts :: "u64 list"
  global_seed_baseline_initialized :: bool
  monitor_seen_edges_global :: "u64 set"
  monitor_seen_paths_global :: "u64 set"
  monitor_seen_crash_fingerprints_global :: "string set"
  fuzzer_sync_targets :: "string \<rightharpoonup> sync_metric_targets"

definition add_edge_counts :: "u64 list \<Rightarrow> u64 list \<Rightarrow> u64 list" where
  "add_edge_counts dst src =
     (let d = (if length src > length dst then resize (length src) 0 dst else dst)
      in fold (\<lambda>i d. d[i := d ! i + src ! i]) [0 ..< length src] d)"

text \<open>The scan of the edge and path lines, with the assignment that the caller makes: addition for the baseline, replacement
  for the synchronised pool.\<close>

record scan =
  scan_counts :: "u64 list"
  scan_edges :: "u64 set"
  scan_paths :: "u64 set"

definition scan_line :: "(u64 \<Rightarrow> u64 \<Rightarrow> u64) \<Rightarrow> report_section \<times> string \<Rightarrow> scan \<Rightarrow> scan option" where
  "scan_line upd = (\<lambda>(sec, line) c.
     case sec of
       REPORT_EDGE \<Rightarrow>
         (case edge_line line of
            None \<Rightarrow> Some c
          | Some (i, v) \<Rightarrow> map_option (\<lambda>n. let ec = resize n 0 (scan_counts c) in
                c\<lparr>scan_counts := ec[unat i := upd (ec ! unat i) v], scan_edges := (if v > 0 then insert i (scan_edges c) else scan_edges c)\<rparr>)
              (new_size (unat i) (length (scan_counts c))))
     | REPORT_PATH \<Rightarrow> (case in_range line of None \<Rightarrow> Some c | Some (h, r) \<Rightarrow> Some (c\<lparr>scan_paths := insert h (scan_paths c)\<rparr>))
     | _ \<Rightarrow> Some c)"

definition scan_report :: "(u64 \<Rightarrow> u64 \<Rightarrow> u64) \<Rightarrow> string option \<Rightarrow> scan option" where
  "scan_report upd file = foldM (scan_line upd) (report_lines file) \<lparr>scan_counts = [], scan_edges = {}, scan_paths = {}\<rparr>"

definition add_report_edge_counts :: "string option \<Rightarrow> u64 list \<Rightarrow> u64 list option" where
  "add_report_edge_counts file ec =
     map_option scan_counts (foldM (scan_line (+)) (report_lines file) \<lparr>scan_counts = ec, scan_edges = {}, scan_paths = {}\<rparr>)"

definition initialize_global_seed_baseline :: "string option \<Rightarrow> 'a global_record_scheme \<Rightarrow> 'a global_record_scheme option" where
  "initialize_global_seed_baseline file g =
     (if global_seed_baseline_initialized g \<or> file = None then Some g
      else map_option (\<lambda>c. g\<lparr>seen_edges_global := seen_edges_global g \<union> scan_edges c, seen_paths_global := seen_paths_global g \<union> scan_paths c,
             global_edge_frequency_counts := add_edge_counts (global_edge_frequency_counts g) (scan_counts c),
             global_seed_baseline_initialized := True\<rparr>) (scan_report (+) file))"

definition refresh_global_record_from_report :: "string option \<Rightarrow> 'a global_record_scheme \<Rightarrow> 'a global_record_scheme option" where
  "refresh_global_record_from_report file g =
     (if file = None then Some g
      else map_option (\<lambda>c. g\<lparr>global_edge_frequency_counts := scan_counts c, seen_edges_global := scan_edges c, seen_paths_global := scan_paths c,
             monitor_seen_edges_global := scan_edges c, monitor_seen_paths_global := scan_paths c\<rparr>) (scan_report (\<lambda>old v. v) file))"

definition reset_monitor_state :: "'a global_record_scheme \<Rightarrow> 'a global_record_scheme" where
  "reset_monitor_state g = g\<lparr>monitor_seen_edges_global := seen_edges_global g, monitor_seen_paths_global := seen_paths_global g,
     monitor_seen_crash_fingerprints_global := seen_crash_fingerprints_global g\<rparr>"

section \<open>Metrics\<close>

definition edge_count_at :: "u64 list \<Rightarrow> nat \<Rightarrow> u64" where
  "edge_count_at counts i = (if i < length counts then counts ! i else 0)"

definition occurs_in :: "string \<Rightarrow> string \<Rightarrow> bool" where
  "occurs_in p s = list_ex (\<lambda>i. starts_with p (drop i s)) [0 ..< length s + 1]"

definition unrewarded :: "u64 set option \<Rightarrow> u64 \<Rightarrow> bool" where
  "unrewarded already x = (case already of None \<Rightarrow> True | Some A \<Rightarrow> x \<notin> A)"

text \<open>The edges that the fuzzer hit more often than its baseline and that were not rewarded yet.\<close>

definition gained_edges :: "report_profile \<Rightarrow> report_profile \<Rightarrow> u64 set option \<Rightarrow> nat list" where
  "gained_edges final base already =
     filter (\<lambda>i. edge_count_at (prof_counts final) i > edge_count_at (prof_counts base) i \<and> unrewarded already (of_nat i))
       [0 ..< max (length (prof_counts final)) (length (prof_counts base))]"

definition is_deep_edge :: "string list \<Rightarrow> report_profile \<Rightarrow> nat \<Rightarrow> bool" where
  "is_deep_edge deep_function final i \<longleftrightarrow> i < length (prof_funcs final) \<and> prof_funcs final ! i \<noteq> [] \<and>
     list_ex (\<lambda>df. occurs_in df (prof_funcs final ! i)) deep_function"

definition mean_positive :: "u64 list \<Rightarrow> real" where
  "mean_positive counts =
     (let pos = filter (\<lambda>v. v > 0) counts
      in if pos = [] then 0 else sum_list (map (\<lambda>v. real (unat v)) pos) / real (length pos))"

definition low_freq_edges :: "u64 list \<Rightarrow> report_profile \<Rightarrow> nat list \<Rightarrow> nat list" where
  "low_freq_edges global_counts final gained =
     (if global_counts \<noteq> []
      then filter (\<lambda>i. i < length global_counts \<and> global_counts ! i > 0 \<and> real (unat (global_counts ! i)) < mean_positive global_counts / 2) gained
      else filter (\<lambda>i. real (unat (edge_count_at (prof_counts final) i)) <
             (if covered_edges final = {} then 0 else edge_hit_sum final / real (card (covered_edges final))) / 2) gained)"

record parsed_report_metrics =
  metrics :: "nat list"
  metric_targets :: sync_metric_targets
  found_edges :: "u64 set"
  found_paths :: "u64 set"
  found_crashes :: "string set"

definition metrics_of :: "report_profile \<Rightarrow> report_profile \<Rightarrow> string list \<Rightarrow> string list \<Rightarrow> string set \<Rightarrow> u64 list \<Rightarrow>
    u64 set option \<Rightarrow> u64 set option \<Rightarrow> parsed_report_metrics" where
  "metrics_of final base crashes deep_function seen_crashes global_counts already_edges already_paths =
     (let new_crashes = filter (\<lambda>fp. fp \<notin> seen_crashes) crashes;
          new_paths = Set.filter (unrewarded already_paths) (covered_paths final - covered_paths base);
          gained = gained_edges final base already_edges;
          new_edges = filter (\<lambda>i. edge_count_at (prof_counts base) i = 0) gained;
          deep_edges = filter (is_deep_edge deep_function final) gained;
          low = low_freq_edges global_counts final gained
      in \<lparr>metrics = [length new_edges, card new_paths, length new_crashes, length deep_edges, length low],
          metric_targets = \<lparr>c0_edges = of_nat ` set new_edges, c1_paths = ucast ` new_paths, c2_crashes = set new_crashes,
            c3_deep_edges = of_nat ` set deep_edges, c4_low_freq_edges = of_nat ` set low\<rparr>,
          found_edges = covered_edges final, found_paths = covered_paths final, found_crashes = set crashes\<rparr>)"

definition parse_report_metrics :: "string option \<Rightarrow> string option \<Rightarrow> string list \<Rightarrow> string list \<Rightarrow> string set \<Rightarrow> u64 list \<Rightarrow>
    u64 set option \<Rightarrow> u64 set option \<Rightarrow> parsed_report_metrics option" where
  "parse_report_metrics report baseline crashes deep_function seen_crashes global_counts already_edges already_paths = do {
     final \<leftarrow> parse_report_profile report;
     base \<leftarrow> parse_report_profile baseline;
     Some (metrics_of final base crashes deep_function seen_crashes global_counts already_edges already_paths) }"

section \<open>Evaluation of a round\<close>

text \<open>What the file system holds for a fuzzer at the end of a round or window.\<close>

record fuzzer_files =
  report_file :: "string option"
  baseline_file :: "string option"
  crash_prints :: "string list"

definition evaluate_all :: "string list \<Rightarrow> (string \<Rightarrow> fuzzer_files) \<Rightarrow> string list \<Rightarrow> (string \<times> real) list \<Rightarrow>
    'a global_record_scheme \<Rightarrow> 'a global_record_scheme option" where
  "evaluate_all labels files deep_function selected g = do {
     parsed \<leftarrow> those (map (\<lambda>(l, u). parse_report_metrics (report_file (files l)) (baseline_file (files l)) (crash_prints (files l))
                  deep_function (seen_crash_fingerprints_global g) (global_edge_frequency_counts g) None None) selected);
     (let g1 = g\<lparr>fuzzer_sync_targets := map_of (rev (zip (map fst selected) (map metric_targets parsed)))\<rparr> in
      if selected = [] then Some g1
      else Some (evaluate_metrics labels (map2 (\<lambda>(l, u) p. \<lparr>f_label = l, f_scheduled = u, f_metrics = metrics p\<rparr>) selected parsed)
             (g1\<lparr>seen_crash_fingerprints_global := seen_crash_fingerprints_global g \<union> \<Union> (set (map found_crashes parsed))\<rparr>))) }"

section \<open>Evaluation of a monitor window\<close>

definition qualitative_reward :: "parsed_report_metrics \<Rightarrow> real" where
  "qualitative_reward p = sum_list (map real (metrics p))"

definition evaluate_monitor_window :: "(string \<Rightarrow> fuzzer_files) \<Rightarrow> string list \<Rightarrow> string list \<Rightarrow>
    'a global_record_scheme \<Rightarrow> ((string \<rightharpoonup> real) \<times> 'a global_record_scheme) option" where
  "evaluate_monitor_window files deep_function inputs g =
     (if inputs = [] then Some (Map.empty, g)
      else do {
        window_edge_counts \<leftarrow> foldM (\<lambda>l. add_report_edge_counts (report_file (files l))) inputs [];
        parsed \<leftarrow> those (map (\<lambda>l. parse_report_metrics (report_file (files l)) (baseline_file (files l)) (crash_prints (files l))
                  deep_function (monitor_seen_crash_fingerprints_global g) (global_edge_frequency_counts g)
                  (Some (monitor_seen_edges_global g)) (Some (monitor_seen_paths_global g))) inputs);
        Some (map_of (rev (zip inputs (map qualitative_reward parsed))),
              g\<lparr>monitor_seen_edges_global := monitor_seen_edges_global g \<union> \<Union> (set (map found_edges parsed)),
                monitor_seen_paths_global := monitor_seen_paths_global g \<union> \<Union> (set (map found_paths parsed)),
                monitor_seen_crash_fingerprints_global := monitor_seen_crash_fingerprints_global g \<union> \<Union> (set (map found_crashes parsed))\<rparr>) })"

end
