(* ===== verification/Legion_Record_Laws.thy ===== *)
theory Legion_Record_Laws
  imports Legion_Record
begin

text \<open>
  What the scheduler reads is what the replay tool has written, and what the evaluation makes of it: the profile parsed from a
  batch report, the metrics as sizes of the target sets, the rewards of a monitor window, which are given only once for the same
  discovery, and the evaluation of a round.
\<close>

section \<open>Reading back a report\<close>

lemma grow_cap_spec: "0 < n \<Longrightarrow> idx < grow_cap idx n \<and> n \<le> grow_cap idx n"
proof (induction idx n rule: grow_cap.induct)
  case (1 idx n)
  show ?case
  proof (cases "n \<le> idx")
    case True
    then have "grow_cap idx n = grow_cap idx (2 * n)" using 1(2) by (subst grow_cap.simps) simp
    then show ?thesis using 1 True by simp
  next
    case False
    then show ?thesis by (subst (1 2) grow_cap.simps) simp
  qed
qed

lemma grow_cap_bound: "0 < n \<Longrightarrow> grow_cap idx n \<le> max n (2 * idx)"
proof (induction idx n rule: grow_cap.induct)
  case (1 idx n)
  show ?case
  proof (cases "n \<le> idx")
    case True
    then have "grow_cap idx n = grow_cap idx (2 * n)" using 1(2) by (subst grow_cap.simps) simp
    then show ?thesis using 1 True by simp
  next
    case False
    then show ?thesis by (subst grow_cap.simps) simp
  qed
qed

definition func_at :: "report_profile \<Rightarrow> nat \<Rightarrow> string" where
  "func_at p i = (if i < length (prof_funcs p) then prof_funcs p ! i else [])"

definition profile_inv :: "report_profile \<Rightarrow> bool" where
  "profile_inv p \<longleftrightarrow> length (prof_funcs p) = length (prof_counts p) \<and> length (prof_counts p) \<le> 2 ^ 64 \<and>
     (\<forall>i. edge_count_at (prof_counts p) i > 0 \<longrightarrow> of_nat i \<in> covered_edges p)"

lemma nth_resize: "length xs \<le> n \<Longrightarrow> i < n \<Longrightarrow> resize n x xs ! i = (if i < length xs then xs ! i else x)"
  by (simp add: resize_def nth_append)

lemma length_resize [simp]: "length (resize n x xs) = n"
  by (simp add: resize_def min_def)

lemma edge_count_at_update: "k < length c \<Longrightarrow> edge_count_at (c[k := v]) j = (if j = k then v else edge_count_at c j)"
  by (auto simp: edge_count_at_def)

lemma func_at_update: "k < length (prof_funcs p) \<Longrightarrow> func_at (p\<lparr>prof_funcs := (prof_funcs p)[k := f]\<rparr>) j = (if j = k then f else func_at p j)"
  by (auto simp: func_at_def)

lemma new_size_spec: "new_size idx sz = Some n \<Longrightarrow> idx < n \<and> sz \<le> n"
  using grow_cap_spec [of "max 1024 sz" idx] by (auto simp: new_size_def split: if_splits)

lemma new_size_bound: "new_size idx sz = Some n \<Longrightarrow> sz \<le> 2 ^ 64 \<Longrightarrow> n \<le> 2 ^ 64"
  using grow_cap_bound [of "max 1024 sz" idx] by (auto simp: new_size_def less_max_iff_disj split: if_splits)

lemma new_size_Some: "idx < 2 ^ 63 \<Longrightarrow> \<exists>n. new_size idx sz = Some n"
  by (simp add: new_size_def)

lemma ensure_cap_spec:
  assumes "ensure_cap idx p = Some q" "length (prof_funcs p) = length (prof_counts p)"
  shows "idx < length (prof_counts q) \<and> length (prof_funcs q) = length (prof_counts q) \<and>
    (\<forall>i. edge_count_at (prof_counts q) i = edge_count_at (prof_counts p) i) \<and> (\<forall>i. func_at q i = func_at p i) \<and>
    covered_edges q = covered_edges p \<and> covered_paths q = covered_paths p \<and> edge_hit_sum q = edge_hit_sum p"
proof -
  from assms(1) obtain n where n: "new_size idx (length (prof_counts p)) = Some n"
    and q: "q = p\<lparr>prof_counts := resize n 0 (prof_counts p), prof_funcs := resize n [] (prof_funcs p)\<rparr>" by (auto simp: ensure_cap_def)
  show ?thesis using new_size_spec [OF n] assms(2)
    by (auto simp: q edge_count_at_def func_at_def nth_resize)
qed

lemma ensure_cap_bound: "ensure_cap idx p = Some q \<Longrightarrow> length (prof_counts p) \<le> 2 ^ 64 \<Longrightarrow> length (prof_counts q) \<le> 2 ^ 64"
  by (auto simp: ensure_cap_def dest: new_size_bound)

lemma profile_line_bound:
  assumes "profile_line l p = Some q" "length (prof_counts p) \<le> 2 ^ 64"
  shows "length (prof_counts q) \<le> 2 ^ 64"
  using assms by (auto simp: profile_line_def set_func_def Let_def split: prod.splits report_section.splits option.splits if_splits dest: ensure_cap_bound)

lemma ensure_cap_Some: "idx < 2 ^ 63 \<Longrightarrow> \<exists>q. ensure_cap idx p = Some q"
  using new_size_Some by (auto simp: ensure_cap_def)

text \<open>The effect of an edge line.\<close>

lemma profile_edge:
  assumes "profile_line (REPORT_EDGE, line) p = Some q" "edge_line line = Some (i, v)" "length (prof_funcs p) = length (prof_counts p)"
  shows "length (prof_funcs q) = length (prof_counts q) \<and>
    (\<forall>j. edge_count_at (prof_counts q) j = (if j = unat i then v else edge_count_at (prof_counts p) j)) \<and> (\<forall>j. func_at q j = func_at p j) \<and>
    covered_edges q = (if v > 0 then insert i (covered_edges p) else covered_edges p) \<and> covered_paths q = covered_paths p \<and>
    edge_hit_sum q = edge_hit_sum p + real (unat v)"
proof -
  from assms(1,2) obtain e where e: "ensure_cap (unat i) p = Some e"
    and q: "q = (let p1 = e\<lparr>prof_counts := (prof_counts e)[unat i := v]\<rparr> in
       if v > 0 then p1\<lparr>edge_hit_sum := edge_hit_sum p1 + real (unat v), covered_edges := insert i (covered_edges p1)\<rparr> else p1)"
    by (auto simp: profile_line_def)
  note s = ensure_cap_spec [OF e assms(3)]
  have "edge_count_at ((prof_counts e)[unat i := v]) j = (if j = unat i then v else edge_count_at (prof_counts p) j)" for j
    using s by (simp add: edge_count_at_update)
  moreover have "\<not> v > 0 \<Longrightarrow> v = 0" by (simp add: word_gt_0)
  moreover have "func_at q = func_at e" by (auto simp: q Let_def func_at_def fun_eq_iff)
  ultimately show ?thesis using s by (auto simp: q Let_def)
qed

lemma set_func_spec:
  assumes "set_func i f p = Some q" "length (prof_funcs p) = length (prof_counts p)"
  shows "length (prof_funcs q) = length (prof_counts q) \<and> (\<forall>j. edge_count_at (prof_counts q) j = edge_count_at (prof_counts p) j) \<and>
    (\<forall>j. func_at q j = (if j = unat i then trim_blanks f else func_at p j)) \<and>
    covered_edges q = covered_edges p \<and> covered_paths q = covered_paths p \<and> edge_hit_sum q = edge_hit_sum p"
proof -
  from assms(1) obtain e where e: "ensure_cap (unat i) p = Some e" and q: "q = e\<lparr>prof_funcs := (prof_funcs e)[unat i := trim_blanks f]\<rparr>"
    by (auto simp: set_func_def)
  note s = ensure_cap_spec [OF e assms(2)]
  then have "func_at q j = (if j = unat i then trim_blanks f else func_at p j)" for j
    by (simp add: q func_at_update)
  then show ?thesis using s by (simp add: q)
qed

lemma profile_line_inv:
  assumes "profile_line l p = Some q" "profile_inv p"
  shows "profile_inv q"
proof -
  obtain sec line where l: "l = (sec, line)" by fastforce
  have len: "length (prof_funcs p) = length (prof_counts p)" using assms(2) by (simp add: profile_inv_def)
  have bound: "length (prof_counts q) \<le> 2 ^ 64" using profile_line_bound [OF assms(1)] assms(2) by (simp add: profile_inv_def)
  have func: "profile_inv q" if "set_func i f p = Some q" for i f
    using set_func_spec [OF that len] assms(2) bound by (simp add: profile_inv_def)
  show ?thesis
  proof (cases sec)
    case REPORT_EDGE
    show ?thesis
    proof (cases "edge_line line")
      case None
      then show ?thesis using assms REPORT_EDGE by (simp add: l profile_line_def)
    next
      case (Some iv)
      then show ?thesis using assms REPORT_EDGE profile_edge [of line p q "fst iv" "snd iv"] len bound
        by (auto simp: l profile_inv_def)
    qed
  qed (use assms func in \<open>auto simp: l profile_line_def Let_def profile_inv_def split: option.splits if_splits\<close>)
qed

lemma parse_profile_inv: "parse_report_profile file = Some p \<Longrightarrow> profile_inv p"
  unfolding parse_report_profile_def
proof (erule foldM_inv)
  show "profile_inv empty_profile" by (simp add: empty_profile_def profile_inv_def edge_count_at_def)
qed (rule profile_line_inv)

subsection \<open>The sections of a batch report\<close>

lemma data_lines_plain:
  "\<forall>l \<in> set ls. chomp l = l \<and> l \<noteq> [] \<and> hd l \<noteq> CHR ''['' \<Longrightarrow> data_lines sec (ls @ rest) = map (Pair sec) ls @ data_lines sec rest"
  by (induction ls) auto

lemma data_lines_header:
  "data_lines sec (''[EDGE]'' # ls) = data_lines REPORT_EDGE ls"
  "data_lines sec (''[PATH]'' # ls) = data_lines REPORT_PATH ls"
  "data_lines sec (''[EDGE TO FUNC]'' # ls) = data_lines REPORT_EDGE_TO_FUNC ls"
  by (simp_all add: header_plain profile_section_def starts_with_def)

definition name_ok :: "string \<Rightarrow> bool" where
  "name_ok f \<longleftrightarrow> f \<noteq> [] \<and> newline \<notin> set f \<and> last f \<noteq> CHR 0x0D \<and> \<not> is_blank (hd f) \<and> \<not> is_blank (last f)"

lemma name_line_plain:
  assumes "name_ok f"
  shows "chomp (name_line i f) = name_line i f \<and> name_line i f \<noteq> [] \<and> hd (name_line i f) \<noteq> CHR ''['' \<and> newline \<notin> set (name_line i f)"
proof -
  have d: "\<forall>c \<in> set (show_nat i). is_digit c" "show_nat i \<noteq> []" using show_nat_digits by blast+
  then have "is_digit (hd (show_nat i))" by simp
  moreover have "last (name_line i f) = last f" "hd (name_line i f) = hd (show_nat i)" using d(2) assms by (simp_all add: name_line_def name_ok_def)
  moreover have "last f \<noteq> newline" using assms last_in_set [of f] by (metis name_ok_def)
  moreover have "newline \<notin> set (show_nat i)" using d(1) digit_facts by blast
  ultimately show ?thesis using assms digit_facts [of "hd (show_nat i)"] by (auto simp: name_line_def name_ok_def chomp_id newline_def)
qed

lemma profile_edge_lines:
  assumes "\<forall>i \<in> set is. i < 2 ^ 63 \<and> f i < 2 ^ 64" "distinct is" "length (prof_funcs p) = length (prof_counts p)"
  shows "\<exists>q. foldM profile_line (map (Pair REPORT_EDGE) (map (\<lambda>i. count_line i (f i)) is)) p = Some q \<and>
    length (prof_funcs q) = length (prof_counts q) \<and>
    (\<forall>j. edge_count_at (prof_counts q) j = (if j \<in> set is then of_nat (f j) else edge_count_at (prof_counts p) j)) \<and> (\<forall>j. func_at q j = func_at p j) \<and>
    covered_edges q = covered_edges p \<union> of_nat ` {i \<in> set is. 0 < f i} \<and> covered_paths q = covered_paths p \<and>
    edge_hit_sum q = edge_hit_sum p + sum_list (map (\<lambda>i. real (f i)) is)"
  using assms
proof (induction "is" arbitrary: p)
  case (Cons i "is")
  have i: "i < 2 ^ 63" "i < 2 ^ 64" "f i < 2 ^ 64" using Cons.prems by auto
  have e: "edge_line (count_line i (f i)) = Some (of_nat i, of_nat (f i))" by (simp add: edge_line_def sscanf_count_line [OF i(2,3)])
  obtain c where "ensure_cap i p = Some c" using ensure_cap_Some [OF i(1)] by blast
  then obtain p1 where p1: "profile_line (REPORT_EDGE, count_line i (f i)) p = Some p1" by (simp add: profile_line_def e unat_of_nat64 [OF i(2)])
  note s = profile_edge [OF p1 e Cons.prems(3)]
  have pos: "(0 :: u64) < of_nat (f i) \<longleftrightarrow> 0 < f i" using of_nat_pos [OF _ i(3)] by (cases "f i") auto
  from Cons.IH [of p1] Cons.prems s obtain q where q: "foldM profile_line (map (Pair REPORT_EDGE) (map (\<lambda>i. count_line i (f i)) is)) p1 = Some q"
    "length (prof_funcs q) = length (prof_counts q)"
    "\<forall>j. edge_count_at (prof_counts q) j = (if j \<in> set is then of_nat (f j) else edge_count_at (prof_counts p1) j)" "\<forall>j. func_at q j = func_at p1 j"
    "covered_edges q = covered_edges p1 \<union> of_nat ` {i \<in> set is. 0 < f i}" "covered_paths q = covered_paths p1"
    "edge_hit_sum q = edge_hit_sum p1 + sum_list (map (\<lambda>i. real (f i)) is)" by auto
  have "edge_count_at (prof_counts q) j = (if j \<in> set (i # is) then of_nat (f j) else edge_count_at (prof_counts p) j)" for j
    using q(3) s Cons.prems(2) unat_of_nat64 [OF i(2)] by auto
  moreover have "covered_edges q = covered_edges p \<union> of_nat ` {k \<in> set (i # is). 0 < f k}" using q(5) s pos by auto
  moreover have "edge_hit_sum q = edge_hit_sum p + sum_list (map (\<lambda>i. real (f i)) (i # is))" using q(7) s unat_of_nat64 [OF i(3)] by simp
  moreover have "foldM profile_line (map (Pair REPORT_EDGE) (map (\<lambda>i. count_line i (f i)) (i # is))) p = Some q" using p1 q(1) by simp
  moreover have "\<forall>j. func_at q j = func_at p j" "covered_paths q = covered_paths p" using q(4,6) s by simp_all
  ultimately show ?case using q(2) by blast
qed simp

lemma profile_path_lines:
  "foldM profile_line (map (Pair REPORT_PATH) (map (\<lambda>(h, n). count_line (unat (h :: u32)) (g n)) entries)) p =
     Some (p\<lparr>covered_paths := covered_paths p \<union> ucast ` fst ` set entries\<rparr>)"
proof (induction entries arbitrary: p)
  case (Cons e entries)
  obtain h n where e: "e = (h, n)" by fastforce
  have h: "unat h < 2 ^ 64" using unsigned_less [of h, where 'a = nat] by simp
  have "in_range (count_line (unat h) (g n)) = Some (of_nat (unat h), CHR '' '' # show_nat (g n))"
    unfolding count_line_def by (rule in_range_show [OF h]) (simp add: is_digit_def)
  moreover have "(of_nat (unat h) :: u64) = ucast h" by simp
  ultimately show ?case using Cons.IH [of "p\<lparr>covered_paths := insert (ucast h) (covered_paths p)\<rparr>"]
    by (simp add: e profile_line_def)
qed simp

lemma profile_func_lines:
  assumes "\<forall>i \<in> set is. i < 2 ^ 63 \<and> name_ok (f i)" "length (prof_funcs p) = length (prof_counts p)"
  shows "\<exists>q. foldM profile_line (map (Pair REPORT_EDGE_TO_FUNC) (map (\<lambda>i. name_line i (f i)) is)) p = Some q \<and>
    (\<forall>j. edge_count_at (prof_counts q) j = edge_count_at (prof_counts p) j) \<and> (\<forall>j. func_at q j = (if j \<in> set is then f j else func_at p j)) \<and>
    covered_edges q = covered_edges p \<and> covered_paths q = covered_paths p \<and> edge_hit_sum q = edge_hit_sum p"
  using assms
proof (induction "is" arbitrary: p)
  case (Cons i "is")
  have i: "i < 2 ^ 63" "i < 2 ^ 64" "name_ok (f i)" using Cons.prems by auto
  have d: "\<forall>c \<in> set (show_nat i). \<not> is_blank c" using show_nat_digits [of i] digit_facts by blast
  have sp: "is_blank (CHR '' '')" by (simp add: is_blank_def)
  have tw: "takeWhile (\<lambda>c. \<not> is_blank c) (name_line i (f i)) = show_nat i"
    unfolding name_line_def using d sp by (simp add: takeWhile_append2)
  have nm: "drop (length (show_nat i) + 1) (name_line i (f i)) = f i" by (simp add: name_line_def)
  have tr: "trim_blanks (f i) = f i" using i(3) by (intro trim_blanks_id) (simp add: name_ok_def)
  have r: "in_range (show_nat i) = Some (of_nat i, [])" using in_range_show [OF i(2), of "[]"] by simp
  have bl: "list_ex is_blank (name_line i (f i))" using sp by (simp add: name_line_def)
  obtain c where "ensure_cap i p = Some c" using ensure_cap_Some [OF i(1)] by blast
  then obtain p1 where p1: "set_func (of_nat i) (f i) p = Some p1" by (simp add: set_func_def unat_of_nat64 [OF i(2)])
  then have l: "profile_line (REPORT_EDGE_TO_FUNC, name_line i (f i)) p = Some p1"
    unfolding profile_line_def using tw nm r bl by (simp add: Let_def)
  note s = set_func_spec [OF p1 Cons.prems(2), unfolded unat_of_nat64 [OF i(2)] tr]
  from Cons.IH [of p1] Cons.prems s obtain q where q: "foldM profile_line (map (Pair REPORT_EDGE_TO_FUNC) (map (\<lambda>i. name_line i (f i)) is)) p1 = Some q"
    "\<forall>j. edge_count_at (prof_counts q) j = edge_count_at (prof_counts p1) j" "\<forall>j. func_at q j = (if j \<in> set is then f j else func_at p1 j)"
    "covered_edges q = covered_edges p1" "covered_paths q = covered_paths p1" "edge_hit_sum q = edge_hit_sum p1" by auto
  then show ?case using s l by (auto 0 0 simp: q(1))
qed simp

lemma parse_batch_report:
  assumes "length ec \<le> 2 ^ 63" "length fs \<le> 2 ^ 63" "\<forall>f \<in> set fs. f = [] \<or> name_ok f"
  shows "\<exists>p. parse_report_profile (Some (write_batch_report ec entries fs)) = Some p \<and>
    (\<forall>i. edge_count_at (prof_counts p) i = (if 0 < i then edge_count_at ec i else 0)) \<and>
    (\<forall>i. func_at p i = (if 0 < i \<and> i < length fs then fs ! i else [])) \<and>
    covered_edges p = of_nat ` {i. 0 < i \<and> i < length ec \<and> 0 < ec ! i} \<and> covered_paths p = ucast ` fst ` set entries \<and>
    edge_hit_sum p = (\<Sum>i \<leftarrow> [1 ..< length ec]. real (unat (ec ! i)))"
proof -
  let ?E = "map (\<lambda>i. count_line i (unat (ec ! i))) [1 ..< length ec]" and ?P = "map (\<lambda>(h, n). count_line (unat h) (unat n)) entries"
    and ?F = "map (\<lambda>i. name_line i (fs ! i)) (filter (\<lambda>i. fs ! i \<noteq> []) [1 ..< length fs])"
  have names: "name_ok (fs ! i)" if "i < length fs" "fs ! i \<noteq> []" for i using assms(3) that by force
  have "\<forall>l \<in> set (''[EDGE]'' # ?E @ ''[PATH]'' # ?P @ ''[EDGE TO FUNC]'' # ?F). newline \<notin> set l"
    using count_line_plain name_line_plain [OF names] by (auto simp: newline_def)
  then have g: "getlines (write_batch_report ec entries fs) = ''[EDGE]'' # ?E @ ''[PATH]'' # ?P @ ''[EDGE TO FUNC]'' # ?F"
    unfolding write_batch_report_def by (rule getlines_unlines')
  have plain: "\<forall>l \<in> set ?E. chomp l = l \<and> l \<noteq> [] \<and> hd l \<noteq> CHR ''[''" "\<forall>l \<in> set ?P. chomp l = l \<and> l \<noteq> [] \<and> hd l \<noteq> CHR ''[''"
    "\<forall>l \<in> set ?F. chomp l = l \<and> l \<noteq> [] \<and> hd l \<noteq> CHR ''[''"
    using count_line_plain name_line_plain [OF names] by auto
  have lines: "report_lines (Some (write_batch_report ec entries fs)) =
      map (Pair REPORT_EDGE) ?E @ map (Pair REPORT_PATH) ?P @ map (Pair REPORT_EDGE_TO_FUNC) ?F"
    using data_lines_plain [OF plain(3), of REPORT_EDGE_TO_FUNC "[]"]
    by (simp only: report_lines_def option.case g data_lines_header data_lines_plain [OF plain(1)] data_lines_plain [OF plain(2)]
        append_Nil2 data_lines.simps(1))
  have "\<forall>i \<in> set [1 ..< length ec]. i < 2 ^ 63 \<and> unat (ec ! i) < 2 ^ 64"
    using assms(1) unsigned_less [where 'b = 64 and 'a = nat] by auto
  from profile_edge_lines [OF this, of empty_profile] obtain q where q: "foldM profile_line (map (Pair REPORT_EDGE) ?E) empty_profile = Some q"
    "length (prof_funcs q) = length (prof_counts q)"
    "\<forall>j. edge_count_at (prof_counts q) j = (if j \<in> set [1 ..< length ec] then ec ! j else 0)" "\<forall>j. func_at q j = []"
    "covered_edges q = of_nat ` {i \<in> set [1 ..< length ec]. 0 < unat (ec ! i)}" "covered_paths q = {}"
    "edge_hit_sum q = (\<Sum>i \<leftarrow> [1 ..< length ec]. real (unat (ec ! i)))"
    by (auto simp: empty_profile_def edge_count_at_def func_at_def)
  let ?q = "q\<lparr>covered_paths := ucast ` fst ` set entries\<rparr>"
  have "\<forall>i \<in> set (filter (\<lambda>i. fs ! i \<noteq> []) [1 ..< length fs]). i < 2 ^ 63 \<and> name_ok (fs ! i)" using assms(2) names by auto
  from profile_func_lines [OF this, of ?q] q(2) obtain p where p: "foldM profile_line (map (Pair REPORT_EDGE_TO_FUNC) ?F) ?q = Some p"
    "\<forall>j. edge_count_at (prof_counts p) j = edge_count_at (prof_counts q) j"
    "\<forall>j. func_at p j = (if j \<in> set (filter (\<lambda>i. fs ! i \<noteq> []) [1 ..< length fs]) then fs ! j else func_at ?q j)"
    "covered_edges p = covered_edges q" "covered_paths p = ucast ` fst ` set entries" "edge_hit_sum p = edge_hit_sum q" by auto
  have "parse_report_profile (Some (write_batch_report ec entries fs)) = Some p"
    unfolding parse_report_profile_def lines using q(1,6) p(1) profile_path_lines [of unat entries q] by (simp add: foldM_append)
  moreover have "func_at ?q j = func_at q j" for j by (simp add: func_at_def)
  moreover have "{i \<in> set [1 ..< length ec]. 0 < unat (ec ! i)} = {i. 0 < i \<and> i < length ec \<and> 0 < ec ! i}"
    by (auto simp: word_less_nat_alt)
  ultimately show ?thesis using p q(3,4,5,7) by (auto simp: edge_count_at_def)
qed

section \<open>Monitor windows\<close>

text \<open>An edge that a profile gains is one that it covers, so a window that covers nothing unseen gains nothing.\<close>

lemma gained_covered:
  assumes "profile_inv final" "i \<in> set (gained_edges final base already)"
  shows "of_nat i \<in> covered_edges final \<and> unrewarded already (of_nat i)"
proof -
  have "edge_count_at (prof_counts base) i < edge_count_at (prof_counts final) i" "unrewarded already (of_nat i)"
    using assms(2) by (auto simp: gained_edges_def)
  moreover from this(1) have "0 < edge_count_at (prof_counts final) i" by (metis word_gt_0 word_not_simps(1) not_less_iff_gr_or_eq word_zero_le order.strict_iff_order)
  ultimately show ?thesis using assms(1) by (auto simp: profile_inv_def)
qed

lemma nothing_new:
  assumes "profile_inv final" "covered_edges final \<subseteq> A" "covered_paths final \<subseteq> B" "set crashes \<subseteq> C"
  shows "metrics (metrics_of final base crashes deep C counts (Some A) (Some B)) = [0, 0, 0, 0, 0]"
proof -
  have "i \<notin> set (gained_edges final base (Some A))" for i
    using gained_covered [OF assms(1), of i base "Some A"] assms(2) by (auto simp: unrewarded_def)
  then have g: "gained_edges final base (Some A) = []" by (metis list.set_intros(1) neq_Nil_conv)
  have n: "Set.filter (unrewarded (Some B)) (covered_paths final - covered_paths base) = {}" using assms(3) by (auto simp: unrewarded_def)
  have c: "filter (\<lambda>fp. fp \<notin> C) crashes = []" using assms(4) by (auto simp: filter_empty_conv)
  have "low_freq_edges counts final [] = []" by (simp add: low_freq_edges_def)
  then show ?thesis unfolding metrics_of_def Let_def g n c by simp
qed

lemma metrics_found:
  "found_edges (metrics_of final base crashes deep seen counts ae ap) = covered_edges final"
  "found_paths (metrics_of final base crashes deep seen counts ae ap) = covered_paths final"
  "found_crashes (metrics_of final base crashes deep seen counts ae ap) = set crashes"
  by (simp_all add: metrics_of_def Let_def)

lemma those_map_Some: "those (map f xs) = Some ys \<Longrightarrow> length ys = length xs \<and> (\<forall>i < length xs. f (xs ! i) = Some (ys ! i))"
proof (induction xs arbitrary: ys)
  case (Cons x xs)
  then obtain y zs where y: "f x = Some y" "those (map f xs) = Some zs" "ys = y # zs" by (auto split: option.splits)
  from Cons.IH [OF y(2)] y show ?case by (auto simp: nth_Cons split: nat.splits)
qed simp

lemma those_map_all: "(\<And>x. x \<in> set xs \<Longrightarrow> f x = Some (g x)) \<Longrightarrow> those (map f xs) = Some (map g xs)"
  by (induction xs) simp_all

lemma those_map_ex: "those (map f xs) = Some ys \<Longrightarrow> x \<in> set xs \<Longrightarrow> \<exists>y. f x = Some y"
  by (auto simp: in_set_conv_nth dest!: those_map_Some)

lemma those_map_the: "those (map f xs) = Some ys \<Longrightarrow> ys = map (\<lambda>x. the (f x)) xs"
  by (intro nth_equalityI) (auto dest!: those_map_Some)

lemma qualitative_nonneg: "0 \<le> qualitative_reward p"
  by (auto simp: qualitative_reward_def intro!: sum_list_nonneg)

lemma monitor_window_once:
  assumes "evaluate_monitor_window files deep inputs g = Some (r, g')" "inputs \<noteq> []"
  shows "rewards_ok r \<and> dom r = set inputs \<and>
    (\<exists>r'. evaluate_monitor_window files deep inputs g' = Some (r', g') \<and> (\<forall>l x. r' l = Some x \<longrightarrow> x = 0))"
proof -
  let ?M = "\<lambda>g l. parse_report_metrics (report_file (files l)) (baseline_file (files l)) (crash_prints (files l)) deep
    (monitor_seen_crash_fingerprints_global g) (global_edge_frequency_counts g) (Some (monitor_seen_edges_global g)) (Some (monitor_seen_paths_global g))"
  from assms obtain ec parsed where ec: "foldM (\<lambda>l. add_report_edge_counts (report_file (files l))) inputs [] = Some ec"
    and parsed: "those (map (?M g) inputs) = Some parsed"
    and r: "r = map_of (rev (zip inputs (map qualitative_reward parsed)))"
    and g': "g' = g\<lparr>monitor_seen_edges_global := monitor_seen_edges_global g \<union> \<Union> (set (map found_edges parsed)),
                monitor_seen_paths_global := monitor_seen_paths_global g \<union> \<Union> (set (map found_paths parsed)),
                monitor_seen_crash_fingerprints_global := monitor_seen_crash_fingerprints_global g \<union> \<Union> (set (map found_crashes parsed))\<rparr>"
    by (auto simp: evaluate_monitor_window_def split: bind_splits)
  have pm: "parsed = map (\<lambda>l. the (?M g l)) inputs" using those_map_the [OF parsed] .
  define pr where "pr l = the (parse_report_profile (report_file (files l)))" for l
  define ba where "ba l = the (parse_report_profile (baseline_file (files l)))" for l
  have prof: "parse_report_profile (report_file (files l)) = Some (pr l)" "parse_report_profile (baseline_file (files l)) = Some (ba l)"
    if "l \<in> set inputs" for l
    using those_map_ex [OF parsed that] by (auto simp: parse_report_metrics_def pr_def ba_def split: bind_splits)
  have M: "?M g l = Some (metrics_of (pr l) (ba l) (crash_prints (files l)) deep (monitor_seen_crash_fingerprints_global g)
      (global_edge_frequency_counts g) (Some (monitor_seen_edges_global g)) (Some (monitor_seen_paths_global g)))" if "l \<in> set inputs" for l and g :: "'a global_record_scheme"
    using prof [OF that] by (simp add: parse_report_metrics_def)
  have found: "covered_edges (pr l) \<subseteq> monitor_seen_edges_global g'" "covered_paths (pr l) \<subseteq> monitor_seen_paths_global g'"
    "set (crash_prints (files l)) \<subseteq> monitor_seen_crash_fingerprints_global g'" if "l \<in> set inputs" for l
    using that M [OF that] unfolding g' pm by (auto simp: metrics_found intro!: bexI [of _ l])
  let ?p' = "map (\<lambda>l. the (?M g' l)) inputs"
  have p': "those (map (?M g') inputs) = Some ?p'" by (rule those_map_all) (simp add: M)
  have zero: "qualitative_reward (the (?M g' l)) = 0" if "l \<in> set inputs" for l
    using nothing_new [OF parse_profile_inv [OF prof(1) [OF that]] found [OF that]] that by (simp add: M qualitative_reward_def)
  have same: "map found_edges ?p' = map found_edges parsed" "map found_paths ?p' = map found_paths parsed" "map found_crashes ?p' = map found_crashes parsed"
    unfolding pm by (auto simp: M metrics_found)
  let ?r' = "map_of (rev (zip inputs (map qualitative_reward ?p')))"
  have kept: "monitor_seen_edges_global g' \<union> \<Union> (set (map found_edges ?p')) = monitor_seen_edges_global g'"
    "monitor_seen_paths_global g' \<union> \<Union> (set (map found_paths ?p')) = monitor_seen_paths_global g'"
    "monitor_seen_crash_fingerprints_global g' \<union> \<Union> (set (map found_crashes ?p')) = monitor_seen_crash_fingerprints_global g'"
    unfolding same by (auto simp: g')
  have "evaluate_monitor_window files deep inputs g' = Some (?r', g')"
    using assms(2) unfolding evaluate_monitor_window_def ec p' bind.bind_lunit kept by simp
  moreover have "?r' l = Some x \<Longrightarrow> x = 0" for l x
    using zero by (auto dest!: map_of_SomeD simp: set_zip)
  moreover have "rewards_ok r" unfolding r rewards_ok_def using qualitative_nonneg by (auto dest!: map_of_SomeD simp: set_zip)
  moreover have "dom r = set inputs" unfolding r by (simp add: dom_map_of_conv_image_fst pm set_map [symmetric] del: set_map)
  ultimately show ?thesis by blast
qed

text \<open>A window without any reward ends the round.\<close>

lemma no_reward_ends_round:
  assumes "\<And>l x. r l = Some x \<Longrightarrow> x = 0"
  shows "\<exists>states'. monitor_window labels r rt elapsed expand act (states, accounted) = Some (Round_over, states', accounted)"
proof -
  have w: "window_reward r l = 0" for l using assms by (auto simp: window_reward_def split: option.splits)
  have "any_window_reward (fold (note_reward labels r) act b) = any_window_reward b" for b
    by (induction act arbitrary: b) (simp_all add: note_reward_def Let_def w)
  then have "\<not> any_window_reward (best_of labels r act states)" by (simp add: best_of_def)
  then show ?thesis by (simp add: monitor_window_def Let_def)
qed

section \<open>Metrics and targets\<close>

lemma inj_on_of_nat64: "(\<And>i. i \<in> A \<Longrightarrow> i < 2 ^ 64) \<Longrightarrow> inj_on (of_nat :: nat \<Rightarrow> u64) A"
  by (rule inj_onI) (metis unat_of_nat64)

lemma length_filter_card:
  assumes "distinct xs" "\<And>i. i \<in> set xs \<Longrightarrow> i < 2 ^ 64"
  shows "length (filter P xs) = card ((of_nat :: nat \<Rightarrow> u64) ` set (filter P xs))"
proof -
  have "inj_on (of_nat :: nat \<Rightarrow> u64) (set (filter P xs))" using assms(2) by (intro inj_on_of_nat64) auto
  then show ?thesis using assms(1) by (simp add: card_image distinct_card [symmetric])
qed

lemma gained_distinct: "distinct (gained_edges final base already)"
  by (simp add: gained_edges_def)

lemma gained_bound: "i \<in> set (gained_edges final base already) \<Longrightarrow> i < max (length (prof_counts final)) (length (prof_counts base))"
  by (simp add: gained_edges_def)

lemma low_freq_filter: "\<exists>P. low_freq_edges counts final gained = filter P gained"
  by (auto simp: low_freq_edges_def)

text \<open>Each metric is the size of the set of targets; crashes are counted by file.\<close>

lemma metrics_sizes:
  fixes final base crashes deep seen counts ae ap
  assumes "length (prof_counts final) \<le> 2 ^ 64" "length (prof_counts base) \<le> 2 ^ 64"
  defines "m \<equiv> metrics_of final base crashes deep seen counts ae ap"
  shows "metrics m ! 0 = card (c0_edges (metric_targets m))" "metrics m ! 3 = card (c3_deep_edges (metric_targets m))"
    "metrics m ! 4 = card (c4_low_freq_edges (metric_targets m))"
    "metrics m ! 1 = card {h \<in> covered_paths final. h \<notin> covered_paths base \<and> unrewarded ap h}"
    "card (c2_crashes (metric_targets m)) \<le> metrics m ! 2" "length (metrics m) = 5"
proof -
  let ?g = "gained_edges final base ae"
  have b: "i \<in> set ?g \<Longrightarrow> i < 2 ^ 64" for i using gained_bound [of i final base ae] assms(1,2) by linarith
  note c = length_filter_card [OF gained_distinct b]
  obtain P where P: "low_freq_edges counts final ?g = filter P ?g" using low_freq_filter by blast
  have five: "[x0, x1, x2, x3, x4] ! 4 = x4" "[x0, x1, x2, x3, x4] ! 3 = x3" "[x0, x1, x2, x3, x4] ! 2 = x2" for x0 x1 x2 x3 x4 :: nat
    by (simp_all add: eval_nat_numeral)
  have set: "Set.filter (unrewarded ap) (covered_paths final - covered_paths base) = {h \<in> covered_paths final. h \<notin> covered_paths base \<and> unrewarded ap h}"
    by auto
  show "metrics m ! 0 = card (c0_edges (metric_targets m))" unfolding m_def metrics_of_def Let_def using c by simp
  show "metrics m ! 3 = card (c3_deep_edges (metric_targets m))" unfolding m_def metrics_of_def Let_def using c [where P = "is_deep_edge deep final"] by (simp add: five)
  show "metrics m ! 4 = card (c4_low_freq_edges (metric_targets m))" unfolding m_def metrics_of_def Let_def P using c [where P = P] by (simp add: five)
  show "metrics m ! 1 = card {h \<in> covered_paths final. h \<notin> covered_paths base \<and> unrewarded ap h}"
    unfolding m_def metrics_of_def Let_def set by simp
  show "card (c2_crashes (metric_targets m)) \<le> metrics m ! 2" unfolding m_def metrics_of_def Let_def
    using card_length [of "filter (\<lambda>fp. fp \<notin> seen) crashes"] by (simp add: five)
  show "length (metrics m) = 5" unfolding m_def metrics_of_def Let_def by simp
qed

lemma targets_covered:
  fixes final base crashes deep seen counts ae ap
  assumes "profile_inv final"
  defines "t \<equiv> metric_targets (metrics_of final base crashes deep seen counts ae ap)"
  shows "c0_edges t \<union> c3_deep_edges t \<union> c4_low_freq_edges t \<subseteq> covered_edges final"
proof -
  let ?g = "gained_edges final base ae"
  obtain P where P: "low_freq_edges counts final ?g = filter P ?g" using low_freq_filter by blast
  have "of_nat ` set (filter Q ?g) \<subseteq> covered_edges final" for Q using gained_covered [OF assms(1)] by auto
  then show ?thesis unfolding t_def metrics_of_def Let_def P by simp
qed

section \<open>Evaluation of a round\<close>

lemma evaluate_metrics_frame:
  fixes g :: "'a global_record_scheme"
  shows "seen_crash_fingerprints_global (evaluate_metrics ls fs g) = seen_crash_fingerprints_global g \<and>
    fuzzer_sync_targets (evaluate_metrics ls fs g) = fuzzer_sync_targets g \<and>
    seen_edges_global (evaluate_metrics ls fs g) = seen_edges_global g \<and> global_edge_frequency_counts (evaluate_metrics ls fs g) = global_edge_frequency_counts g"
proof -
  let ?same = "\<lambda>(h :: 'a global_record_scheme) g. seen_crash_fingerprints_global h = seen_crash_fingerprints_global g \<and> fuzzer_sync_targets h = fuzzer_sync_targets g \<and>
    seen_edges_global h = seen_edges_global g \<and> global_edge_frequency_counts h = global_edge_frequency_counts g"
  have 1: "?same (fold (reward_fuzzer fs) gs g) g" for gs and g :: "'a global_record_scheme"
    by (induction gs arbitrary: g) (simp_all add: reward_fuzzer_def evaluate_def Let_def)
  have 2: "?same (fst (fold (score_fuzzer sc n) ls (g, x))) g" for sc n x and g :: "'a global_record_scheme"
    by (induction ls arbitrary: g x) (simp_all add: score_fuzzer_def Let_def)
  have 3: "?same (fold (\<lambda>l b. b\<lparr>fuzzer_probabilities := (fuzzer_probabilities b)(l \<mapsto> exp (at0 (fuzzer_scores b) l + at0 (fuzzer_u b) l) / c)\<rparr>) ls g) g"
    for c and g :: "'a global_record_scheme" by (induction ls arbitrary: g) simp_all
  have 4: "?same (recompute_round_probabilities ls sc n g) g" for sc n and g :: "'a global_record_scheme"
  proof -
    obtain h x where "fold (score_fuzzer sc n) ls (g, 0) = (h, x)" by fastforce
    then show ?thesis using 2 [of sc n g 0] 3 [of x h] by (simp add: recompute_round_probabilities_def)
  qed
  show ?thesis using 1 [of fs "g\<lparr>n_total := _\<rparr>"] 4 by (simp add: evaluate_metrics_def Let_def)
qed

lemma evaluate_all_round:
  fixes g :: "'a global_record_scheme"
  assumes "evaluate_all ls files deep selected g = Some g'" "distinct ls" "ls \<noteq> []" "selected \<noteq> []"
  shows "(\<forall>l \<in> set ls. \<exists>p. fuzzer_probabilities g' l = Some p \<and> 0 < p) \<and> (\<Sum>l \<leftarrow> ls. the (fuzzer_probabilities g' l)) = 1 \<and>
    n_total g' = n_total g + (\<Sum>(l, u) \<leftarrow> selected. u) \<and>
    seen_crash_fingerprints_global g \<subseteq> seen_crash_fingerprints_global g' \<and> dom (fuzzer_sync_targets g') = fst ` set selected \<and>
    seen_edges_global g' = seen_edges_global g"
proof -
  from assms(1,4) obtain parsed where parsed: "those (map (\<lambda>(l, u). parse_report_metrics (report_file (files l)) (baseline_file (files l)) (crash_prints (files l))
                  deep (seen_crash_fingerprints_global g) (global_edge_frequency_counts g) None None) selected) = Some parsed"
    and g': "g' = evaluate_metrics ls (map2 (\<lambda>(l, u) p. \<lparr>f_label = l, f_scheduled = u, f_metrics = metrics p\<rparr>) selected parsed)
      (g\<lparr>fuzzer_sync_targets := map_of (rev (zip (map fst selected) (map metric_targets parsed))),
        seen_crash_fingerprints_global := seen_crash_fingerprints_global g \<union> \<Union> (set (map found_crashes parsed))\<rparr>)"
    by (auto simp: evaluate_all_def Let_def split: bind_splits)
  define g1 where "g1 = g\<lparr>fuzzer_sync_targets := map_of (rev (zip (map fst selected) (map metric_targets parsed))),
        seen_crash_fingerprints_global := seen_crash_fingerprints_global g \<union> \<Union> (set (map found_crashes parsed))\<rparr>"
  let ?fs = "map2 (\<lambda>(l, u) p. \<lparr>f_label = l, f_scheduled = u, f_metrics = metrics p\<rparr>) selected parsed"
  have len: "length parsed = length selected" using those_map_Some [OF parsed] by simp
  then have fs: "?fs \<noteq> []" using assms(4) by (cases selected; cases parsed) auto
  moreover have "map f_scheduled ?fs = map snd selected" using len by (induction selected parsed rule: list_induct2') auto
  ultimately have "(\<forall>l \<in> set ls. \<exists>p. fuzzer_probabilities g' l = Some p \<and> 0 < p) \<and> (\<Sum>l \<leftarrow> ls. the (fuzzer_probabilities g' l)) = 1 \<and>
    n_total g' = n_total g + sum_list (map snd selected)"
    using evaluate_metrics_distribution [OF assms(2,3) fs, of g1] unfolding g' g1_def [symmetric] by (simp add: g1_def)
  moreover have "sum_list (map snd selected) = (\<Sum>(l, u) \<leftarrow> selected. u)" by (induction selected) auto
  moreover have "dom (map_of (rev (zip (map fst selected) (map metric_targets parsed)))) = fst ` set selected"
    using len by (simp add: dom_map_of_conv_image_fst set_map [symmetric] del: set_map)
  ultimately show ?thesis using evaluate_metrics_frame [of ls ?fs g1] unfolding g' g1_def [symmetric] by (auto simp: g1_def)
qed

section \<open>From the runs to the profile\<close>

text \<open>The function names that the symbolizer delivers contain no line break and no blanks at their ends.\<close>

definition names_fine :: "(u8 list \<Rightarrow> (string option \<times> u32) list) \<Rightarrow> bool" where
  "names_fine target \<longleftrightarrow> (\<forall>buf d g f. (Some d, g) \<in> set (target buf) \<longrightarrow> function_of d = Some f \<longrightarrow> name_ok f)"

definition fine_list :: "string list \<Rightarrow> bool" where
  "fine_list ns \<longleftrightarrow> (\<forall>f \<in> set ns. f = [] \<or> name_ok f)"

definition fine_state :: "trace_state \<Rightarrow> bool" where
  "fine_state s \<longleftrightarrow> (\<forall>ns. names s = Some ns \<longrightarrow> fine_list ns)"

lemma fine_update: "fine_list ns \<Longrightarrow> f = [] \<or> name_ok f \<Longrightarrow> fine_list (ns[i := f])"
  using set_update_subset_insert [of ns i f] by (auto simp: fine_list_def)

lemma fine_guard:
  assumes "fine_state s" "\<And>d f. descr = Some d \<Longrightarrow> function_of d = Some f \<Longrightarrow> name_ok f"
  shows "fine_state (trace_pc_guard descr g s)"
  using assms by (auto simp: fine_state_def trace_pc_guard_def Let_def fine_update split: option.splits)

lemma fine_edges:
  assumes "fine_state s" "\<And>d g f. (Some d, g) \<in> set es \<Longrightarrow> function_of d = Some f \<Longrightarrow> name_ok f"
  shows "fine_state (take_edges es s)"
  using assms
proof (induction es arbitrary: s)
  case (Cons e es)
  obtain d g where e: "e = (d, g)" by fastforce
  have "fine_state (trace_pc_guard d g s)" using Cons.prems by (intro fine_guard) (auto simp: e)
  then show ?case unfolding e take_edges_Cons using Cons.prems by (intro Cons.IH) auto
qed (simp add: take_edges_def)

lemma fine_reset: "fine_state s \<Longrightarrow> fine_state (legion_reset_trace_state s)"
  by (auto simp: fine_state_def fine_list_def legion_reset_trace_state_def)

text \<open>What the second pass keeps of the trace state.\<close>

definition good_trace :: "nat \<Rightarrow> trace_state \<Rightarrow> bool" where
  "good_trace N s \<longleftrightarrow> trace_ok s \<and> fine_state s \<and> tracing_array_size s = N"

lemma good_run:
  assumes "names_fine target" "good_trace N s"
  shows "good_trace N (case run_single_test target input (None, s) of None \<Rightarrow> s | Some (ok, paths, s') \<Rightarrow> s')"
proof (cases input)
  case (Some buf)
  let ?s = "s\<lparr>seed := INITIAL_SEED\<rparr>"
  have "trace_ok ?s" using assms(2) by (auto simp: good_trace_def trace_ok_def split: option.splits)
  from take_edges_spec [OF this, of "target buf"] have "trace_ok (take_edges (target buf) ?s)" "tracing_array_size (take_edges (target buf) ?s) = N"
    using assms(2) by (simp_all add: good_trace_def)
  moreover have "fine_state (take_edges (target buf) ?s)"
    using assms by (intro fine_edges) (auto simp: names_fine_def fine_state_def good_trace_def)
  ultimately show ?thesis by (simp add: run_single_test_def Some Let_def good_trace_def)
qed (use assms(2) in \<open>simp add: run_single_test_def\<close>)

lemma good_prepare: "trace_ok s \<Longrightarrow> good_trace (tracing_array_size s) (legion_set_symbolize_edges 1 (legion_reset_trace_state s))"
  by (auto simp: good_trace_def trace_ok_def fine_state_def fine_list_def legion_reset_trace_state_def legion_set_symbolize_edges_def split: option.splits)

lemma harvest_spec:
  fixes fs s
  assumes "fine_list fs" "good_trace N s"
  defines "fs' \<equiv> harvest_edge_to_func s fs"
  shows "fine_list fs' \<and> length fs' = length fs \<and> (\<forall>i \<ge> N. fs' ! i = fs ! i)"
proof -
  from assms(2) obtain ns where ns: "names s = Some ns" "length ns = N + 1" "fine_list ns" "tracing_array_size s = N"
    by (auto simp: good_trace_def trace_ok_def fine_state_def split: option.splits)
  let ?step = "\<lambda>i fs. if fs ! i = [] \<and> ns ! i \<noteq> [] then fs[i := ns ! i] else fs"
  have "fine_list (fold ?step is fs) \<and> length (fold ?step is fs) = length fs \<and> (\<forall>i \<ge> N. fold ?step is fs ! i = fs ! i)"
    if "\<forall>i \<in> set is. i < N" "fine_list fs" for "is" fs
    using that
  proof (induction "is" arbitrary: fs)
    case (Cons i "is")
    have "ns ! i \<in> set ns" using Cons.prems(1) ns(2) by simp
    then have "fine_list (?step i fs)" using Cons.prems(2) ns(3) by (auto simp: fine_update fine_list_def [of ns])
    moreover have "length (?step i fs) = length fs" "\<forall>j \<ge> N. ?step i fs ! j = fs ! j" using Cons.prems(1) by auto
    ultimately show ?case using Cons.IH [of "?step i fs"] Cons.prems(1) by simp
  qed simp
  from this [of "[1 ..< min (length fs) N]" fs] assms(1) show ?thesis
    by (simp add: fs'_def harvest_edge_to_func_def ns)
qed

lemma symbolization_spec:
  fixes fs files
  assumes "names_fine target" "trace_ok s" "fine_list fs"
  defines "fs' \<equiv> fst (run_symbolization_pass target files (fs, s))"
  shows "fine_list fs' \<and> length fs' = length fs \<and> (\<forall>i \<ge> tracing_array_size s. fs' ! i = fs ! i)"
proof (cases "files = []")
  case False
  let ?run = "\<lambda>input s. case run_single_test target input (None, s) of None \<Rightarrow> s | Some (ok, paths, s') \<Rightarrow> s'"
  have "good_trace N (fold ?run xs t)" if "good_trace N t" for N xs t
    using that by (induction xs arbitrary: t) (simp_all add: good_run [OF assms(1)])
  from harvest_spec [OF assms(3) this [OF good_prepare [OF assms(2)], of files]] show ?thesis
    using False by (simp add: fs'_def run_symbolization_pass_def Let_def)
qed (use assms(3) in \<open>simp add: fs'_def run_symbolization_pass_def\<close>)

text \<open>The counts of fewer than \<open>2\<^sup>6\<^sup>4\<close> seeds are exact.\<close>

lemma unat_seeds_with: "length js < 2 ^ 64 \<Longrightarrow> unat (seeds_with P js) = length (filter P js)"
  unfolding seeds_with_def by (rule unat_of_nat64) (rule le_less_trans [OF length_filter_le])

lemma seeds_with_pos: "length js < 2 ^ 64 \<Longrightarrow> 0 < seeds_with P js \<longleftrightarrow> (\<exists>j \<in> set js. P j)"
  by (simp add: word_less_nat_alt unat_seeds_with filter_empty_conv)

lemma replay_tally:
  assumes "trace_ok s" "tracing_array_size s < 2 ^ 32"
    "reaches_batch (\<lambda>j. seed_report target s (files ! j)) (length files) jobs (start_replay s) r"
  defines "E \<equiv> \<lambda>j. edges_of target s (the (files ! j))" and "P \<equiv> \<lambda>j. path_of target s (the (files ! j))"
  shows "replay_inv (tracing_array_size s) E P (length files) jobs r"
proof (rule reaches_inv [OF assms(3) start_inv assms(2)])
  fix j report
  assume "seed_report target s (files ! j) = Some report"
  moreover from this obtain buf where b: "files ! j = Some buf" by (cases "files ! j") (auto simp: seed_report_def run_single_test_def)
  ultimately have rep: "report = unlines (run_lines target s buf)" using seed_report_spec [OF assms(1)] by simp
  have "set (edges_of target s buf) \<subseteq> {..tracing_array_size s}" using edges_of_props(2) by fastforce
  then show "merges_as (tracing_array_size s) report (E j) (P j)"
    using merge_run [OF _ assms(2)] edges_of_props(1) by (simp add: merges_as_def rep E_def P_def b)
qed

lemma replay_counts:
  assumes "trace_ok s" "tracing_array_size s < 2 ^ 32"
    "reaches_batch (\<lambda>j. seed_report target s (files ! j)) (length files) jobs (start_replay s) r"
  shows "length (active_tasks r) \<le> max 1 jobs \<and> next_seed_index r \<le> length files \<and>
    processed (collected r) + timed_out (collected r) + failed (collected r) + length (active_tasks r) = next_seed_index r \<and>
    (\<exists>dn. length dn = processed (collected r) \<and> distinct (dn @ active_tasks r) \<and> set (mapping_seed_files (collected r)) \<subseteq> set dn \<and>
       (\<forall>j \<in> set dn. \<forall>i \<in> set (edges_of target s (the (files ! j))).
          \<exists>k \<in> set (mapping_seed_files (collected r)). i \<in> set (edges_of target s (the (files ! k)))))"
proof -
  let ?E = "\<lambda>j. edges_of target s (the (files ! j))"
  from replay_tally [OF assms] obtain dn where t: "tally_ok (tracing_array_size s) ?E (\<lambda>j. path_of target s (the (files ! j))) dn (collected r)"
    and dn: "distinct (dn @ active_tasks r)" "next_seed_index r \<le> length files" "length (active_tasks r) \<le> task_slots jobs"
      "processed (collected r) + timed_out (collected r) + failed (collected r) + length (active_tasks r) = next_seed_index r"
    unfolding replay_inv_def by blast
  have "\<exists>k \<in> set (mapping_seed_files (collected r)). i \<in> set (?E k)" if "j \<in> set dn" "i \<in> set (?E j)" for i j
    using t that edges_of_props(2) [OF that(2)] unfolding tally_ok_def by blast
  moreover have "task_slots jobs \<le> max 1 jobs" by (simp add: task_slots_def)
  moreover have "length dn = processed (collected r)" "set (mapping_seed_files (collected r)) \<subseteq> set dn" using t by (simp_all add: tally_ok_def)
  ultimately show ?thesis using dn by (meson order_trans)
qed

lemma replay_profile:
  assumes s: "trace_ok s" "tracing_array_size s < 2 ^ 32" and "names_fine target"
    and run: "reaches_batch (\<lambda>j. seed_report target s (files ! j)) (length files) jobs (start_replay s) r" "replay_done (length files) r"
    and "length files < 2 ^ 64" and entries: "map_of entries = path_counts (collected r)"
  shows "\<exists>dn p. distinct dn \<and> set dn \<subseteq> {..<length files} \<and> length dn + timed_out (collected r) + failed (collected r) = length files \<and>
    parse_report_profile (Some (finish_batch target files entries s (collected r))) = Some p \<and>
    (\<forall>i. 0 < i \<longrightarrow> i \<le> tracing_array_size s \<longrightarrow>
       unat (edge_count_at (prof_counts p) i) = length (filter (\<lambda>j. i \<in> set (edges_of target s (the (files ! j)))) dn)) \<and>
    covered_edges p = of_nat ` (\<Union>j \<in> set dn. set (edges_of target s (the (files ! j)))) \<and>
    covered_paths p = (\<lambda>j. ucast (path_of target s (the (files ! j)))) ` set dn \<and> func_at p (tracing_array_size s) = []"
proof -
  let ?N = "tracing_array_size s" and ?E = "\<lambda>j. edges_of target s (the (files ! j))" and ?P = "\<lambda>j. path_of target s (the (files ! j))"
  from replay_tally [OF s run(1)] obtain dn where t: "tally_ok ?N ?E ?P dn (collected r)" and dn: "distinct dn" "set dn \<subseteq> {..<next_seed_index r}"
    "next_seed_index r \<le> length files" "processed (collected r) + timed_out (collected r) + failed (collected r) + length (active_tasks r) = next_seed_index r"
    by (auto simp: replay_inv_def)
  have fin: "next_seed_index r = length files" "active_tasks r = []" using run(2) dn(3) by (auto simp: replay_done_def)
  let ?ec = "edge_counts (collected r)"
  have ec: "length ?ec = ?N + 1" "\<And>i. i \<le> ?N \<Longrightarrow> ?ec ! i = seeds_with (\<lambda>j. i \<in> set (?E j)) dn"
    "\<And>p. path_counts (collected r) p = (if p \<in> ?P ` set dn then Some (seeds_with (\<lambda>j. ?P j = p) dn) else None)"
    "edge_to_func (collected r) = replicate (?N + 1) []" "processed (collected r) = length dn" using t by (auto simp: tally_ok_def)
  let ?fs = "fst (run_symbolization_pass target (map (\<lambda>i. files ! i) (mapping_seed_files (collected r))) (edge_to_func (collected r), s))"
  have "fine_list (edge_to_func (collected r))" by (auto simp: ec(4) fine_list_def)
  from symbolization_spec [OF assms(3) s(1) this] have fs: "\<forall>f \<in> set ?fs. f = [] \<or> name_ok f" "length ?fs = ?N + 1" "?fs ! ?N = []"
    by (auto simp: fine_list_def ec(4) simp del: replicate_Suc)
  have "length ?ec \<le> 2 ^ 63" "length ?fs \<le> 2 ^ 63" using ec(1) fs(2) s(2) by simp_all
  from parse_batch_report [OF this fs(1), of entries] obtain p where
    p: "parse_report_profile (Some (write_batch_report ?ec entries ?fs)) = Some p"
    "\<forall>i. edge_count_at (prof_counts p) i = (if 0 < i then edge_count_at ?ec i else 0)"
    "\<forall>i. func_at p i = (if 0 < i \<and> i < length ?fs then ?fs ! i else [])"
    "covered_edges p = of_nat ` {i. 0 < i \<and> i < length ?ec \<and> 0 < ?ec ! i}" "covered_paths p = ucast ` fst ` set entries" by blast
  have len: "length dn < 2 ^ 64" using dn(4) fin ec(5) assms(6) by simp
  have "fst ` set entries = dom (path_counts (collected r))" using entries dom_map_of_conv_image_fst [of entries] by simp
  then have paths: "covered_paths p = (\<lambda>j. ucast (?P j)) ` set dn" using p(5) ec(3) by (auto simp: dom_def image_image split: if_splits)
  have "{i. 0 < i \<and> i < length ?ec \<and> 0 < ?ec ! i} = (\<Union>j \<in> set dn. set (?E j))"
  proof (intro set_eqI iffI)
    fix i assume "i \<in> {i. 0 < i \<and> i < length ?ec \<and> 0 < ?ec ! i}"
    then show "i \<in> (\<Union>j \<in> set dn. set (?E j))" using ec(1,2) seeds_with_pos [OF len] by auto
  next
    fix i assume "i \<in> (\<Union>j \<in> set dn. set (?E j))"
    then show "i \<in> {i. 0 < i \<and> i < length ?ec \<and> 0 < ?ec ! i}"
      using edges_of_props(2) [of i target s] ec(1,2) seeds_with_pos [OF len, of "\<lambda>j. i \<in> set (?E j)"] by fastforce
  qed
  then have edges: "covered_edges p = of_nat ` (\<Union>j \<in> set dn. set (?E j))" using p(4) by simp
  have "unat (edge_count_at (prof_counts p) i) = length (filter (\<lambda>j. i \<in> set (?E j)) dn)" if "0 < i" "i \<le> ?N" for i
    using p(2) that ec(1,2) unat_seeds_with [OF len] by (simp add: edge_count_at_def)
  moreover have "func_at p ?N = []" using p(3) fs(2,3) by simp
  moreover have "parse_report_profile (Some (finish_batch target files entries s (collected r))) = Some p" using p(1) by (simp add: finish_batch_def)
  moreover have "set dn \<subseteq> {..<length files}" "length dn + timed_out (collected r) + failed (collected r) = length files" using dn(2,4) fin ec(5) by simp_all
  ultimately show ?thesis using dn(1) edges paths by blast
qed

end
