(* ===== verification/Legion_Properties.thy ===== *)
theory Legion_Properties
  imports Legion_Graph Legion_Record_Laws
begin

text \<open>
  The properties of Legion's own components: the replay tool's set of paths and its trace, the call-graph analysis, the
  worker processes, the distribution of units, the batch replay and its reports, and the evaluation of rounds and monitor windows.
\<close>

section \<open>Sample states\<close>

definition demo_trace :: trace_state where
  "demo_trace = snd (trace_pc_guard_init [0, 0] \<lparr>marks = None, names = None, tracing_array_size = 0, symbolize_edges = False, seed = 14, guard_cnt = 0\<rparr>)"

definition demo_os :: os where
  "demo_os = \<lparr>now = 0, reaped = (\<lambda>t p. False), kill_ok = (\<lambda>t. True), spawned = (\<lambda>t. 1000 + int t), dir_ready = (\<lambda>t. True), stats_seen = (\<lambda>t. True)\<rparr>"

definition demo_fuzzer :: active_round_fuzzer where
  "demo_fuzzer = \<lparr>label = ''AFL'', accounting_units = 0, scheduled_units = 0, next_worker_index = 1, active = False, groups = []\<rparr>"

definition demo_target :: "u8 list \<Rightarrow> (string option \<times> u32) list" where
  "demo_target buf = [(None, 1), (None, 2)]"

definition demo_files :: "u8 list option list" where
  "demo_files = [Some [7]]"

definition demo_global :: global_record where
  "demo_global = \<lparr>n_total = 0, fuzzer_scores = Map.empty, fuzzer_u = Map.empty, fuzzer_probabilities = Map.empty,
     fuzzer_cumulative_rewards = Map.empty, fuzzer_last_rewards = Map.empty, fuzzer_effective_units = Map.empty,
     seen_edges_global = {}, seen_paths_global = {}, seen_crash_fingerprints_global = {}, global_edge_frequency_counts = [],
     global_seed_baseline_initialized = False, monitor_seen_edges_global = {}, monitor_seen_paths_global = {},
     monitor_seen_crash_fingerprints_global = {}, fuzzer_sync_targets = Map.empty\<rparr>"

lemma demo_trace_ok: "trace_ok demo_trace" "tracing_array_size demo_trace < 2 ^ 32" "tracing_array_size demo_trace = 2"
  by (simp_all add: demo_trace_def trace_pc_guard_init_def trace_ok_def)

lemma demo_names: "names_fine demo_target"
  by (simp add: names_fine_def demo_target_def)

text \<open>A batch of one seed: the child is launched and ends well.\<close>

lemma demo_run:
  "\<exists>r. reaches_batch (\<lambda>j. seed_report demo_target demo_trace (demo_files ! j)) (length demo_files) 4 (start_replay demo_trace) r \<and>
     replay_done (length demo_files) r \<and> processed (collected r) = 1 \<and> path_counts (collected r) = [path_of demo_target demo_trace [7] \<mapsto> 1]"
proof -
  let ?rep = "unlines (run_lines demo_target demo_trace [7])" and ?R = "\<lambda>j. seed_report demo_target demo_trace (demo_files ! j)"
  let ?b = "finalize_task 0 (Exited_ok ?rep) (empty_batch demo_trace)"
  let ?r1 = "\<lparr>next_seed_index = 1, active_tasks = [0], collected = empty_batch demo_trace\<rparr>"
  let ?r2 = "\<lparr>next_seed_index = 1, active_tasks = [], collected = ?b\<rparr>"
  have rep: "?R 0 = Some ?rep" using seed_report_spec [OF demo_trace_ok(1)] by (simp add: demo_files_def)
  have "batch_step ?R 1 4 (start_replay demo_trace) ?r1"
    using batch_step.launch [of "start_replay demo_trace" 1 4 ?R] by (simp add: start_replay_def task_slots_def)
  moreover have "batch_step ?R 1 4 ?r1 ?r2"
    using batch_step.collect_ok [of 0 ?r1 ?R ?rep 1 4] rep by (simp add: erase_at_def)
  ultimately have "reaches_batch ?R 1 4 (start_replay demo_trace) ?r2" by (blast intro: reaches_batch.intros)
  moreover have "merge_seed_report ?rep (empty_batch demo_trace) = (map of_nat (edges_of demo_target demo_trace [7]),
     (empty_batch demo_trace)\<lparr>edge_counts := count_edges (edges_of demo_target demo_trace [7]) (edge_counts (empty_batch demo_trace)),
       path_counts := [path_of demo_target demo_trace [7] \<mapsto> 1]\<rparr>)"
    using merge_run [of "empty_batch demo_trace" demo_trace demo_target "[7]"] demo_trace_ok by (simp add: empty_batch_def)
  then have "processed ?b = 1" "path_counts ?b = [path_of demo_target demo_trace [7] \<mapsto> 1]"
    by (simp_all add: finalize_task_def empty_batch_def split: prod.splits)
  ultimately show ?thesis by (intro exI [of _ ?r2]) (simp add: replay_done_def demo_files_def)
qed

section \<open>Properties\<close>

text \<open>
  C20. The hash set of the replay tool refines a counting set: inserting any sequence of keys with fewer than 3 * 2^28 different ones never fails, whatever the collisions and however often the table doubles; afterwards contains answers membership, and hashset_to_array lists every key exactly once with the number of its insertions (modulo 2^32).
\<close>

theorem hash_set_counts:
  assumes "card (set ks) < 3 * 2 ^ 28"
  shows "\<exists>s a. foldM insert_key ks create_hash_set = Some s \<and> (\<forall>k. contains s k = Some (k \<in> set ks)) \<and>
    hashset_to_array s = Some a \<and> distinct (map fst a) \<and> set a = (\<lambda>k. (k, of_nat (count_list ks k))) ` set ks"
  by (rule hs.insert_all_spec [OF assms])

theorem hash_set_counts_witness:
  "\<exists>s a. foldM insert_key [7, 9, 7] create_hash_set = Some s \<and> contains s 9 = Some True \<and> contains s 8 = Some False \<and>
    hashset_to_array s = Some a \<and> set a = {(7, 2), (9, 1)}"
proof -
  have "card (set [7, 9, 7 :: u32]) < 3 * 2 ^ 28" by (simp add: card_insert_if)
  from hash_set_counts [OF this] obtain s a where s: "foldM insert_key [7, 9, 7] create_hash_set = Some s"
    "\<forall>k. contains s k = Some (k \<in> set [7, 9, 7])" "hashset_to_array s = Some a"
    "set a = (\<lambda>k. (k, of_nat (count_list [7, 9, 7] k))) ` set [7, 9, 7]" by blast
  have "set a = {(7, 2), (9, 1)}" unfolding s(4) by auto
  then show ?thesis using s by auto
qed





text \<open>
  C22. In whatever order the maps are traversed, shortest_paths ends and labels the root and every function that calls another one, exactly once, with the length of the shortest chain of calls from the root, or with the number of callers plus ten when there is none.
\<close>

theorem shortest_paths_distances:
  assumes "far es < INT32_MAX"
  shows "\<exists>D. shortest_paths rank es start = Some D \<and> distinct (map fst D) \<and> fst ` set D = insert start (Domain (set es)) \<and>
    (\<forall>(v, d) \<in> set D. if (start, v) \<in> (set es)\<^sup>* then d = int (LEAST n. (start, v) \<in> set es ^^ n) else d = far es)"
proof -
  have "(\<lambda>(v, d). if (start, v) \<in> (set es)\<^sup>* then d = int (LEAST n. (start, v) \<in> set es ^^ n) else d = far es) e" if "(\<lambda>(v, d). dist_of es start v d) e" for e
    using that by (auto simp: dist_of_def hop_Least)
  then show ?thesis using shortest_paths_ok [OF assms, of rank start] by blast
qed

theorem shortest_paths_distances_witness:
  "\<exists>D. shortest_paths (\<lambda>n k. nat k) [(0, 1), (1, 2), (0, 2), (2, 0)] 0 = Some D \<and> fst ` set D = {0, 1, 2}"
proof -
  have "far [(0, 1), (1, 2), (0, 2), (2, 0)] < INT32_MAX" by (simp add: far_def graph_keys_def INT32_MAX_def)
  from shortest_paths_distances [OF this, of "\<lambda>n k. nat k" 0] show ?thesis by auto
qed


text \<open>
  C23. allocate_resource_units hands out every unit: in the first round one to each fuzzer as far as the units reach, later all of them; every fuzzer listed gets at least one unit.
\<close>

theorem allocate_units_total:
  assumes "\<And>i ps. ps \<noteq> [] \<Longrightarrow> draws i ps < length ps"
  shows "\<exists>m. allocate_resource_units probs draws units_no fs rnd = Some m \<and> dom m \<subseteq> {..<length fs} \<and> (\<forall>i k. m i = Some k \<longrightarrow> 0 < k) \<and>
    (\<Sum>i < length fs. case m i of None \<Rightarrow> 0 | Some k \<Rightarrow> k) =
      (if fs = [] then 0 else if rnd = 0 then min units_no (length fs) else units_no)"
  using allocate_total [of draws probs units_no fs rnd] assms by (auto simp: shares_ok_def allocated_def)

theorem allocate_units_total_witness:
  "\<exists>m. allocate_resource_units (\<lambda>l. Some 1) (\<lambda>i ps. 0) 12 (add_fuzzer (\<lambda>f. True) ''AFL'' ''b'' ''s'' []) 3 = Some m \<and>
    (\<Sum>i < 1. case m i of None \<Rightarrow> 0 | Some k \<Rightarrow> k) = 12"
proof -
  have "\<And>i (ps :: real list). ps \<noteq> [] \<Longrightarrow> (\<lambda>i ps. 0) i ps < length ps" by simp
  from allocate_units_total [OF this, of "\<lambda>l. Some 1" 12 "add_fuzzer (\<lambda>f. True) ''AFL'' ''b'' ''s'' []" 3] show ?thesis
    by (auto simp: add_fuzzer_def check_binary_def)
qed


text \<open>
  C24. When ensure_active_round_fuzzer_units reports success, the fuzzer is active, with as many scheduled units as its unpaused workers have. For the fuzzers of the AFL family, when no worker dies, workers start and signals arrive, it returns with success, the pool is filled up to the configured number of workers, and exactly the target number of units (as far as the pool reaches) is running, the others paused.
\<close>

theorem ensure_units_reached:
  "(\<forall>l s e t e'. ensure_active_round_fuzzer_units res rn rt l rnd target (s, e) = Some (True, t, e') \<longrightarrow>
      active t \<and> scheduled_units t = active_units (groups t) \<and> 0 < scheduled_units t) \<and>
   (\<forall>l s e. uses_autofz_afl_process_pool l \<longrightarrow> steady e \<longrightarrow> single_groups (groups s) \<longrightarrow> 0 < target \<longrightarrow>
      (\<exists>t e'. ensure_active_round_fuzzer_units res rn rt l rnd target (s, e) = Some (True, t, e') \<and>
         active_units (groups t) = min target (max (max 1 res) (length (groups s))) \<and>
         length (groups t) = max (max 1 res) (length (groups s))))"
proof (intro conjI allI impI)
  fix l :: string and s :: active_round_fuzzer and e :: os
  assume "uses_autofz_afl_process_pool l" "steady e" "single_groups (groups s)" "0 < target"
  from pool_reaches_target [OF this, of res rn rt rnd] ensure_accounts
  show "\<exists>t e'. ensure_active_round_fuzzer_units res rn rt l rnd target (s, e) = Some (True, t, e') \<and>
      active_units (groups t) = min target (max (max 1 res) (length (groups s))) \<and>
      length (groups t) = max (max 1 res) (length (groups s))" by metis
qed (use ensure_accounts in blast)+

theorem ensure_units_reached_witness:
  "\<exists>t e'. ensure_active_round_fuzzer_units 12 10 3600 ''AFL'' 2 5 (demo_fuzzer, demo_os) = Some (True, t, e') \<and>
     active t \<and> scheduled_units t = 5 \<and> length (groups t) = 12"
proof -
  have "uses_autofz_afl_process_pool ''AFL''" "steady demo_os" "single_groups (groups demo_fuzzer)" "length (groups demo_fuzzer) = 0"
    by (simp_all add: uses_autofz_afl_process_pool_def steady_def demo_os_def demo_fuzzer_def)
  moreover from this(1-3) have "\<exists>t e'. ensure_active_round_fuzzer_units 12 10 3600 ''AFL'' 2 5 (demo_fuzzer, demo_os) = Some (True, t, e') \<and>
      active_units (groups t) = min 5 (max (max 1 12) (length (groups demo_fuzzer))) \<and>
      length (groups t) = max (max 1 12) (length (groups demo_fuzzer))"
    using conjunct2 [OF ensure_units_reached [of 12 10 3600 2 5]] by simp
  ultimately obtain t e' where t: "ensure_active_round_fuzzer_units 12 10 3600 ''AFL'' 2 5 (demo_fuzzer, demo_os) = Some (True, t, e')"
    "active_units (groups t) = 5" "length (groups t) = 12" by auto
  have "active t \<and> scheduled_units t = active_units (groups t)"
    using conjunct1 [OF ensure_units_reached [of 12 10 3600 2 5]] t(1) by blast
  then show ?thesis using t by auto
qed








text \<open>
  C27. Whatever the order in which the children of a batch replay end: at most the configured number of them runs at a time, every seed launched is either running or counted exactly once as processed, timed out or failed, every edge of a processed seed is also an edge of a seed chosen for symbolization, no state is stuck before the batch is done, and every step brings the end closer.
\<close>

theorem batch_replay_invariant:
  assumes "trace_ok s" "tracing_array_size s < 2 ^ 32"
    "reaches_batch (\<lambda>j. seed_report target s (files ! j)) (length files) jobs (start_replay s) r"
  shows "length (active_tasks r) \<le> max 1 jobs \<and> next_seed_index r \<le> length files \<and>
    processed (collected r) + timed_out (collected r) + failed (collected r) + length (active_tasks r) = next_seed_index r \<and>
    (\<exists>dn. length dn = processed (collected r) \<and> distinct (dn @ active_tasks r) \<and> set (mapping_seed_files (collected r)) \<subseteq> set dn \<and>
       (\<forall>j \<in> set dn. \<forall>i \<in> set (edges_of target s (the (files ! j))).
          \<exists>k \<in> set (mapping_seed_files (collected r)). i \<in> set (edges_of target s (the (files ! k))))) \<and>
    (\<not> replay_done (length files) r \<longrightarrow> (\<exists>r'. batch_step (\<lambda>j. seed_report target s (files ! j)) (length files) jobs r r')) \<and>
    (\<forall>r'. batch_step (\<lambda>j. seed_report target s (files ! j)) (length files) jobs r r' \<longrightarrow> work_left (length files) r' < work_left (length files) r)"
  using replay_counts [OF assms] batch_step_exists batch_step_progress by blast

theorem batch_replay_invariant_witness:
  "\<exists>r. reaches_batch (\<lambda>j. seed_report demo_target demo_trace (demo_files ! j)) (length demo_files) 4 (start_replay demo_trace) r \<and> replay_done (length demo_files) r \<and>
     processed (collected r) + timed_out (collected r) + failed (collected r) = 1"
proof -
  obtain r where r: "reaches_batch (\<lambda>j. seed_report demo_target demo_trace (demo_files ! j)) (length demo_files) 4 (start_replay demo_trace) r"
    "replay_done (length demo_files) r" using demo_run by blast
  from batch_replay_invariant [OF demo_trace_ok(1,2) r(1)] r show ?thesis by (auto simp: replay_done_def demo_files_def)
qed


text \<open>
  C28. What the scheduler parses from the report of a finished batch is what the runs did: the covered edges and paths are exactly those of the processed seeds, and the count of an edge is the number of processed seeds that take it. The function of the last edge, however, is never reported.
\<close>

theorem batch_report_profile:
  assumes "trace_ok s" "tracing_array_size s < 2 ^ 32" "names_fine target"
    "reaches_batch (\<lambda>j. seed_report target s (files ! j)) (length files) jobs (start_replay s) r" "replay_done (length files) r"
    "length files < 2 ^ 64" "map_of entries = path_counts (collected r)"
  shows "\<exists>dn p. distinct dn \<and> set dn \<subseteq> {..<length files} \<and> length dn + timed_out (collected r) + failed (collected r) = length files \<and>
    parse_report_profile (Some (finish_batch target files entries s (collected r))) = Some p \<and>
    (\<forall>i. 0 < i \<longrightarrow> i \<le> tracing_array_size s \<longrightarrow>
       unat (edge_count_at (prof_counts p) i) = length (filter (\<lambda>j. i \<in> set (edges_of target s (the (files ! j)))) dn)) \<and>
    covered_edges p = of_nat ` (\<Union>j \<in> set dn. set (edges_of target s (the (files ! j)))) \<and>
    covered_paths p = (\<lambda>j. ucast (path_of target s (the (files ! j)))) ` set dn \<and> func_at p (tracing_array_size s) = []"
  by (rule replay_profile [OF assms])

theorem batch_report_profile_witness:
  "\<exists>(r :: replay) p. processed (collected r) = 1 \<and> parse_report_profile (Some (finish_batch demo_target demo_files [(path_of demo_target demo_trace [7], 1)] demo_trace (collected r))) = Some p \<and>
     func_at p 2 = []"
proof -
  obtain r where r: "reaches_batch (\<lambda>j. seed_report demo_target demo_trace (demo_files ! j)) (length demo_files) 4 (start_replay demo_trace) r"
    "replay_done (length demo_files) r" "processed (collected r) = 1" "path_counts (collected r) = [path_of demo_target demo_trace [7] \<mapsto> 1]"
    using demo_run by blast
  have "map_of [(path_of demo_target demo_trace [7], 1)] = path_counts (collected r)" by (simp add: r(4))
  moreover have "length demo_files < 2 ^ 64" by (simp add: demo_files_def)
  ultimately obtain p where "parse_report_profile (Some (finish_batch demo_target demo_files [(path_of demo_target demo_trace [7], 1)] demo_trace (collected r))) = Some p"
    "func_at p 2 = []"
    using batch_report_profile [OF demo_trace_ok(1,2) demo_names r(1,2)] demo_trace_ok(3) by metis
  then show ?thesis using r(3) by blast
qed





text \<open>
  C30. The rewards of a monitor window are never negative, are given to exactly the fuzzers monitored, and are given once: evaluating the same reports again rewards nobody and changes nothing, so that the monitor then ends the round.
\<close>

theorem monitor_rewards_once:
  assumes "evaluate_monitor_window files deep inputs g = Some (r, g')" "inputs \<noteq> []"
  shows "(\<forall>l x. r l = Some x \<longrightarrow> 0 \<le> x) \<and> dom r = set inputs \<and>
    (\<exists>r'. evaluate_monitor_window files deep inputs g' = Some (r', g') \<and> (\<forall>l x. r' l = Some x \<longrightarrow> x = 0) \<and>
      (\<forall>labels rt elapsed expand act states accounted. \<exists>states'.
         monitor_window labels r' rt elapsed expand act (states, accounted) = Some (Round_over, states', accounted)))"
proof -
  from monitor_window_once [OF assms] obtain r' where r': "evaluate_monitor_window files deep inputs g' = Some (r', g')" "\<forall>l x. r' l = Some x \<longrightarrow> x = 0"
    and r: "rewards_ok r" "dom r = set inputs" by blast
  have "\<exists>states'. monitor_window labels r' rt elapsed expand act (states, accounted) = Some (Round_over, states', accounted)"
    for labels rt elapsed expand act states accounted by (rule no_reward_ends_round) (use r'(2) in blast)
  then show ?thesis using r r' by (auto simp: rewards_ok_def)
qed

theorem monitor_rewards_once_witness:
  "\<exists>r g'. evaluate_monitor_window (\<lambda>l. \<lparr>report_file = None, baseline_file = None, crash_prints = [''x'']\<rparr>) [] [''AFL''] demo_global = Some (r, g') \<and>
     r ''AFL'' = Some 1 \<and>
     (\<exists>r'. evaluate_monitor_window (\<lambda>l. \<lparr>report_file = None, baseline_file = None, crash_prints = [''x'']\<rparr>) [] [''AFL''] g' = Some (r', g') \<and> (\<forall>l x. r' l = Some x \<longrightarrow> x = 0))"
proof -
  let ?f = "\<lambda>l :: string. \<lparr>report_file = None, baseline_file = None, crash_prints = [''x'']\<rparr>"
  obtain r g' where r: "evaluate_monitor_window ?f [] [''AFL''] demo_global = Some (r, g')" "r ''AFL'' = Some 1"
    by (simp add: evaluate_monitor_window_def parse_report_metrics_def parse_report_profile_def report_lines_def add_report_edge_counts_def
        empty_profile_def metrics_of_def Let_def gained_edges_def low_freq_edges_def qualitative_reward_def demo_global_def)
  from monitor_rewards_once [OF r(1)] r show ?thesis by blast
qed


section \<open>Further facts\<close>

text \<open>The seeds that are synchronised after a round are a subsequence of the new seeds, each contributes a target that none of the ones selected before it covers, and together they cover exactly the targets that all new seeds together cover.\<close>

theorem sync_seeds_cover:
  assumes "select_metric_contributing_sync_seeds targets l seeds = Some (sel, r)" "targets l = Some t"
  shows "subseq sel seeds \<and> each_contributes sel t \<and>
    c0_edges r = c0_edges t - (\<Union>f \<in> set seeds. seed_edges f) \<and> c0_edges r = c0_edges t - (\<Union>f \<in> set sel. seed_edges f) \<and>
    c1_paths r = c1_paths t - (\<Union>f \<in> set seeds. seed_paths f) \<and> c1_paths r = c1_paths t - (\<Union>f \<in> set sel. seed_paths f) \<and>
    c2_crashes r = c2_crashes t - fingerprint ` set seeds \<and> c2_crashes r = c2_crashes t - fingerprint ` set sel \<and>
    c3_deep_edges r = c3_deep_edges t - (\<Union>f \<in> set seeds. seed_edges f) \<and> c3_deep_edges r = c3_deep_edges t - (\<Union>f \<in> set sel. seed_edges f) \<and>
    c4_low_freq_edges r = c4_low_freq_edges t - (\<Union>f \<in> set seeds. seed_edges f) \<and> c4_low_freq_edges r = c4_low_freq_edges t - (\<Union>f \<in> set sel. seed_edges f)"
proof -
  have "select_seeds seeds t = (sel, r)" using assms by (simp add: select_metric_contributing_sync_seeds_def)
  note s = select_seeds_spec [OF this]
  have "r = consume_all seeds t" "r = consume_all sel t" using s by blast+
  then show ?thesis using s consume_all_sets [of seeds t] consume_all_sets [of sel t] by simp
qed


end
