(* ===== verification/Legion_Files.thy ===== *)
theory Legion_Files
  imports Legion_Batch Legion_Schedule "HOL-Library.AList" "HOL-Library.Char_ord" "HOL-Library.List_Lexorder"
    "HOL-Library.Product_Lexorder"
begin

text \<open>
  The seed and crash folders of \<^verbatim>\<open>src/legion/legion.cc\<close>: fingerprints of files, manifests of fingerprints, the folder in which the
  outputs of a fuzzer are accumulated, the archives of seeds and crashes, the preparation of incremental
  evaluation and synchronisation, and the synchronisation into the global pool.

  The file system is an explicit store, relative to the working directory: an association list from paths, which are lists
  of names, to directories and files with their contents. A directory is listed in the order of the
  association list, about which nothing is assumed. Files in \<open>locked\<close> cannot be read, and whether a write is granted
  is an arbitrary stream. \<^const>\<open>None\<close> is an exception of the file system library, which ends the process. External
  commands are run by the parameter \<open>sys\<close>, from the command line and the store to the exit status and the store.
\<close>

section \<open>File system\<close>

type_synonym path = "string list"

datatype node = Dir | File string

record disk =
  nodes :: "(path \<times> node) list"
  locked :: "path set"
  write_ok :: "nat \<Rightarrow> bool"
  writes :: nat

definition node_at :: "disk \<Rightarrow> path \<Rightarrow> node option" where
  "node_at d p = (if p = [] then Some Dir else map_of (nodes d) p)"

definition is_directory :: "disk \<Rightarrow> path \<Rightarrow> bool" where
  "is_directory d p \<longleftrightarrow> node_at d p = Some Dir"

definition is_regular_file :: "disk \<Rightarrow> path \<Rightarrow> bool" where
  "is_regular_file d p \<longleftrightarrow> (case node_at d p of Some (File c) \<Rightarrow> True | _ \<Rightarrow> False)"

definition contents :: "disk \<Rightarrow> path \<Rightarrow> string option" where
  "contents d p = (case node_at d p of Some (File c) \<Rightarrow> if p \<in> locked d then None else Some c | _ \<Rightarrow> None)"

definition directory_iterator :: "disk \<Rightarrow> path \<Rightarrow> path list" where
  "directory_iterator d p = map fst (filter (\<lambda>(q, n). q \<noteq> [] \<and> butlast q = p) (nodes d))"

definition recursive_directory_iterator :: "disk \<Rightarrow> path \<Rightarrow> path list" where
  "recursive_directory_iterator d p = map fst (filter (\<lambda>(q, n). length p < length q \<and> take (length p) q = p) (nodes d))"

definition put :: "path \<Rightarrow> node \<Rightarrow> disk \<Rightarrow> disk" where
  "put p n d = d\<lparr>nodes := AList.update p n (nodes d)\<rparr>"

definition make_dir :: "path \<Rightarrow> disk \<Rightarrow> disk option" where
  "make_dir p d = (case node_at d p of None \<Rightarrow> Some (put p Dir d) | Some Dir \<Rightarrow> Some d | Some (File c) \<Rightarrow> None)"

definition create_directories :: "path \<Rightarrow> disk \<Rightarrow> disk option" where
  "create_directories p d = foldM make_dir (map (\<lambda>i. take i p) [1 ..< length p + 1]) d"

definition remove_all :: "path \<Rightarrow> disk \<Rightarrow> disk" where
  "remove_all p d = d\<lparr>nodes := filter (\<lambda>(q, n). take (length p) q \<noteq> p) (nodes d)\<rparr>"

text \<open>Creating or truncating a file takes a directory around it and the consent of the operating system.\<close>

definition write_file :: "path \<Rightarrow> string \<Rightarrow> disk \<Rightarrow> bool \<times> disk" where
  "write_file p c d =
     (let d1 = d\<lparr>writes := writes d + 1\<rparr>
      in if \<not> is_directory d p \<and> is_directory d (butlast p) \<and> write_ok d (writes d) then (True, put p (File c) d1) else (False, d1))"

definition copy_file :: "path \<Rightarrow> path \<Rightarrow> disk \<Rightarrow> bool \<times> disk" where
  "copy_file src dst d =
     (case contents d src of None \<Rightarrow> (False, d) | Some c \<Rightarrow> if src = dst then (False, d) else write_file dst c d)"

text \<open>The version without an error code throws.\<close>

definition copy_file_or_throw :: "path \<Rightarrow> path \<Rightarrow> disk \<Rightarrow> disk option" where
  "copy_file_or_throw src dst d = (let (ok, d1) = copy_file src dst d in if ok then Some d1 else None)"

text \<open>A line written to an open stream, at the position of the stream.\<close>

definition write_at :: "nat \<Rightarrow> string \<Rightarrow> string \<Rightarrow> string" where
  "write_at pos s c = take pos c @ replicate (pos - length c) (CHR 0x00) @ s @ drop (pos + length s) c"

definition stream_line :: "path \<Rightarrow> string \<Rightarrow> nat \<times> disk \<Rightarrow> nat \<times> disk" where
  "stream_line p line = (\<lambda>(pos, d).
     (pos + length line + 1,
      case node_at d p of Some (File c) \<Rightarrow> put p (File (write_at pos (line @ [newline]) c)) d | _ \<Rightarrow> d))"

fun path_string :: "path \<Rightarrow> string" where
  "path_string [] = []"
| "path_string [n] = n"
| "path_string (n # p) = n @ ''/'' @ path_string p"

text \<open>The regular files of a folder, sorted by path.\<close>

definition seed_files :: "disk \<Rightarrow> path \<Rightarrow> path list" where
  "seed_files d p = sort (filter (is_regular_file d) (directory_iterator d p))"

section \<open>Labels and fingerprints\<close>

definition is_alnum :: "char \<Rightarrow> bool" where
  "is_alnum c \<longleftrightarrow> is_digit c \<or> CHR ''A'' \<le> c \<and> c \<le> CHR ''Z'' \<or> CHR ''a'' \<le> c \<and> c \<le> CHR ''z''"

definition sanitize_eval_label :: "string \<Rightarrow> string" where
  "sanitize_eval_label lab =
     (let s = map (\<lambda>c. if is_alnum c \<or> c = CHR ''-'' \<or> c = CHR ''_'' then c else CHR ''_'') lab
      in if s = [] then ''fuzzer'' else s)"

definition label_round :: "string \<Rightarrow> nat \<Rightarrow> string" where
  "label_round lab rnd = sanitize_eval_label lab @ ''_'' @ show_nat rnd"

definition fnv :: "string \<Rightarrow> u64" where
  "fnv c = fold (\<lambda>b h. (h XOR of_char b) * 1099511628211) c 1469598103934665603"

definition eval_file_fingerprint :: "disk \<Rightarrow> path \<Rightarrow> string" where
  "eval_file_fingerprint d p = (case contents d p of None \<Rightarrow> path_string p | Some c \<Rightarrow> show_nat (unat (fnv c)))"

definition collect_directory_fingerprints :: "disk \<Rightarrow> path \<Rightarrow> string set" where
  "collect_directory_fingerprints d p = (if is_directory d p then eval_file_fingerprint d ` set (seed_files d p) else {})"

text \<open>A manifest is a file of lines. A directory in its place can be opened, but nothing is read from it.\<close>

definition load_seen_fingerprints :: "disk \<Rightarrow> path \<Rightarrow> string set option" where
  "load_seen_fingerprints d p =
     (case node_at d p of
        None \<Rightarrow> Some {}
      | Some Dir \<Rightarrow> Some {}
      | Some (File c) \<Rightarrow> if p \<in> locked d then None else Some (set (filter (\<lambda>l. l \<noteq> []) (map chomp (getlines c)))))"

definition append_seen_fingerprints :: "path \<Rightarrow> string list \<Rightarrow> disk \<Rightarrow> bool \<times> disk" where
  "append_seen_fingerprints p fps d =
     (if fps = [] then (True, d)
      else write_file p ((case node_at d p of Some (File c) \<Rightarrow> c | _ \<Rightarrow> []) @ unlines fps) d)"

section \<open>Folders\<close>

definition copy_each :: "path list \<Rightarrow> path \<Rightarrow> disk \<Rightarrow> disk" where
  "copy_each ps dst d = fold (\<lambda>p d. if is_regular_file d p then snd (copy_file p (dst @ [last p]) d) else d) ps d"

definition copy_immediate_files_to_dir :: "path \<Rightarrow> path \<Rightarrow> disk \<Rightarrow> disk option" where
  "copy_immediate_files_to_dir src dst d =
     (if \<not> is_directory d src then Some d
      else do { d1 \<leftarrow> create_directories dst d; Some (copy_each (directory_iterator d1 src) dst d1) })"

definition copy_recursive_files_to_dir :: "path \<Rightarrow> path \<Rightarrow> disk \<Rightarrow> disk option" where
  "copy_recursive_files_to_dir src dst d =
     (if \<not> is_directory d src then Some d
      else do { d1 \<leftarrow> create_directories dst d; Some (copy_each (recursive_directory_iterator d1 src) dst d1) })"

definition ensure_clean_directory :: "path \<Rightarrow> disk \<Rightarrow> disk option" where
  "ensure_clean_directory p d = create_directories p (if node_at d p \<noteq> None then remove_all p d else d)"

text \<open>Merging the outputs of the workers into the folder of the round. A file that cannot be read cannot be copied
  either, so the name of its target does not matter.\<close>

definition merge_seed :: "path \<Rightarrow> path \<Rightarrow> string set \<times> disk \<Rightarrow> string set \<times> disk" where
  "merge_seed accum sp = (\<lambda>(existing, d).
     let fp = eval_file_fingerprint d sp;
         target = (if node_at d (accum @ [fp]) \<noteq> None then accum @ [fp @ ''_'' @ last sp] else accum @ [fp])
     in if fp \<in> existing then (existing, d) else (insert fp existing, snd (copy_file sp target d)))"

definition merge_seed_folder_into_accum :: "path \<Rightarrow> path \<Rightarrow> disk \<Rightarrow> disk option" where
  "merge_seed_folder_into_accum source accum d = do {
     d1 \<leftarrow> create_directories accum d;
     Some (if \<not> is_directory d1 source then d1
           else snd (fold (merge_seed accum) (seed_files d1 source)
                  (eval_file_fingerprint d1 ` set (filter (is_regular_file d1) (directory_iterator d1 accum)), d1))) }"

section \<open>Archives of seeds and crashes\<close>

definition round_dir :: "nat \<Rightarrow> string" where
  "round_dir rnd = ''round_'' @ show_nat rnd"

definition archive_seed :: "string set \<Rightarrow> path \<Rightarrow> path \<Rightarrow> nat \<times> disk \<Rightarrow> nat \<times> disk" where
  "archive_seed initial archive_dir sp = (\<lambda>(pos, d).
     let fp = eval_file_fingerprint d sp; (ok, d1) = copy_file sp (archive_dir @ [last sp]) d
     in if fp \<in> initial then (pos, d)
        else if ok then stream_line (archive_dir @ [''manifest.txt'']) (last sp @ '' '' @ fp) (pos, d1) else (pos, d1))"

definition archive_round_new_seeds :: "string \<Rightarrow> nat \<Rightarrow> path \<Rightarrow> string set \<Rightarrow> disk \<Rightarrow> disk option" where
  "archive_round_new_seeds lab rnd local_seed_folder initial d =
     (if \<not> is_directory d local_seed_folder then Some d
      else do {
        let archive_dir = [''archive'', sanitize_eval_label lab, round_dir rnd];
        d1 \<leftarrow> ensure_clean_directory archive_dir d;
        let seeds = seed_files d1 local_seed_folder;
        let (ok, d2) = write_file (archive_dir @ [''manifest.txt'']) [] d1;
        Some (if \<not> ok then d2 else snd (fold (archive_seed initial archive_dir) seeds (0, d2))) })"

record crash_seed_entry =
  source_path :: path
  worker_label :: string

definition is_valid_crash_seed_file :: "disk \<Rightarrow> path \<Rightarrow> bool" where
  "is_valid_crash_seed_file d p \<longleftrightarrow>
     is_regular_file d p \<and> last p \<noteq> [] \<and> last p \<noteq> ''README'' \<and> last p \<noteq> ''README.txt'' \<and> hd (last p) \<noteq> CHR ''.''"

definition is_honggfuzz_crash_seed_file :: "disk \<Rightarrow> path \<Rightarrow> bool" where
  "is_honggfuzz_crash_seed_file d p \<longleftrightarrow> is_valid_crash_seed_file d p \<and>
     (\<exists>s \<in> set [''SIGSEGV.'', ''SIGABRT.'', ''SIGILL.'', ''SIGFPE.'', ''SIGBUS.'', ''SIGTRAP.'']. starts_with s (last p))"

definition entries_in :: "(disk \<Rightarrow> path \<Rightarrow> bool) \<Rightarrow> path \<Rightarrow> string \<Rightarrow> disk \<Rightarrow> crash_seed_entry list" where
  "entries_in valid p worker d =
     (if is_directory d p
      then map (\<lambda>q. \<lparr>source_path = q, worker_label = worker\<rparr>) (filter (valid d) (directory_iterator d p)) else [])"

definition collect_afl_like_crash_entries :: "path \<Rightarrow> disk \<Rightarrow> crash_seed_entry list" where
  "collect_afl_like_crash_entries output_root d =
     (if is_directory d output_root
      then concat (map (\<lambda>w. if is_directory d w then entries_in is_valid_crash_seed_file (w @ [''crashes'']) (last w) d else [])
             (directory_iterator d output_root))
      else [])"

definition collect_libfuzzer_crash_entries :: "path \<Rightarrow> disk \<Rightarrow> crash_seed_entry list" where
  "collect_libfuzzer_crash_entries output_root d =
     entries_in (\<lambda>d p. is_regular_file d p \<and> starts_with ''crash'' (last p)) output_root ''output'' d"

definition collect_honggfuzz_crash_entries :: "path \<Rightarrow> disk \<Rightarrow> crash_seed_entry list" where
  "collect_honggfuzz_crash_entries run_root d =
     (if is_directory d run_root
      then entries_in is_honggfuzz_crash_seed_file run_root ''workspace'' d @
           entries_in is_honggfuzz_crash_seed_file (run_root @ [''output'']) ''output'' d
      else [])"

definition collect_round_crash_entries :: "string \<Rightarrow> disk \<Rightarrow> crash_seed_entry list" where
  "collect_round_crash_entries lab d = sort_key (\<lambda>e. (worker_label e, path_string (source_path e)))
     (if lab = ''AFL++'' then collect_afl_like_crash_entries [''run_aflpp'', ''output''] d
      else if lab = ''AFL'' then collect_afl_like_crash_entries [''run_afl'', ''output''] d
      else if lab = ''AFLFast'' then collect_afl_like_crash_entries [''run_aflfast'', ''output''] d
      else if lab = ''FairFuzz'' then collect_afl_like_crash_entries [''run_fairfuzz'', ''output''] d
      else if lab = ''Angora'' then collect_afl_like_crash_entries [''run_angora'', ''output''] d
      else if lab = ''QSYM'' then collect_afl_like_crash_entries [''run_qsym'', ''output''] d
      else if lab = ''LibFuzzer'' then collect_libfuzzer_crash_entries [''run_lib'', ''output'', ''crashes''] d
      else if lab = ''HonggFuzz'' then collect_honggfuzz_crash_entries [''run_hongg''] d
      else [])"

definition archive_crash :: "path \<Rightarrow> crash_seed_entry \<Rightarrow> nat \<times> disk \<Rightarrow> (nat \<times> disk) option" where
  "archive_crash archive_dir e = (\<lambda>(pos, d). do {
     let worker = sanitize_eval_label (worker_label e);
     let name = last (source_path e);
     d1 \<leftarrow> create_directories (archive_dir @ [worker]) d;
     let (ok, d2) = copy_file (source_path e) (archive_dir @ [worker, name]) d1;
     Some (if ok
       then stream_line (archive_dir @ [''manifest.txt''])
              (worker @ ''/'' @ name @ '' '' @ eval_file_fingerprint d2 (source_path e) @ '' '' @ path_string (source_path e)) (pos, d2)
       else (pos, d2)) })"

definition archive_round_crash_seeds :: "string \<Rightarrow> nat \<Rightarrow> disk \<Rightarrow> disk option" where
  "archive_round_crash_seeds lab rnd d =
     (if collect_round_crash_entries lab d = [] then Some d
      else do {
        let archive_dir = [''saved_crashes'', sanitize_eval_label lab, round_dir rnd];
        d1 \<leftarrow> ensure_clean_directory archive_dir d;
        let (ok, d2) = write_file (archive_dir @ [''manifest.txt'']) [] d1;
        (if \<not> ok then Some d2
         else map_option snd (foldM (archive_crash archive_dir) (collect_round_crash_entries lab d) (0, d2))) })"

definition staged_round_crash_dir :: "string \<Rightarrow> nat \<Rightarrow> path" where
  "staged_round_crash_dir lab rnd = [''.round_crashes'', label_round lab rnd]"

definition stage_crash :: "path \<Rightarrow> crash_seed_entry \<Rightarrow> string set \<times> string list \<times> disk \<Rightarrow> string set \<times> string list \<times> disk" where
  "stage_crash stage_dir e = (\<lambda>(seen, appended, d).
     let fp = eval_file_fingerprint d (source_path e);
         target = (if node_at d (stage_dir @ [fp]) \<noteq> None then stage_dir @ [fp @ ''_'' @ last (source_path e)] else stage_dir @ [fp]);
         (ok, d1) = copy_file (source_path e) target d
     in if fp \<in> seen then (seen, appended, d)
        else (insert fp seen, if ok then appended @ [fp] else appended, d1))"

definition stage_current_round_crashes :: "string \<Rightarrow> nat \<Rightarrow> disk \<Rightarrow> disk option" where
  "stage_current_round_crashes lab rnd d =
     (if collect_round_crash_entries lab d = [] then Some d
      else do {
        let stage_dir = staged_round_crash_dir lab rnd;
        let manifest = stage_dir @ [''manifest.txt''];
        d1 \<leftarrow> create_directories stage_dir d;
        let seen = (case load_seen_fingerprints d1 manifest of None \<Rightarrow> {} | Some s \<Rightarrow> s);
        let (seen', appended, d2) = fold (stage_crash stage_dir) (collect_round_crash_entries lab d) (seen, [], d1);
        Some (snd (append_seen_fingerprints manifest appended d2)) })"

definition export_crash :: "path \<Rightarrow> path \<Rightarrow> nat \<times> disk \<Rightarrow> nat \<times> disk" where
  "export_crash archive_dir p = (\<lambda>(pos, d).
     let fp = eval_file_fingerprint d p; (ok, d1) = copy_file p (archive_dir @ [last p]) d
     in if \<not> is_regular_file d p \<or> last p = ''manifest.txt'' then (pos, d)
        else if ok then stream_line (archive_dir @ [''manifest.txt'']) (last p @ '' '' @ fp) (pos, d1) else (pos, d1))"

definition export_staged_round_crashes :: "string \<Rightarrow> nat \<Rightarrow> disk \<Rightarrow> disk option" where
  "export_staged_round_crashes lab rnd d =
     (let stage_dir = staged_round_crash_dir lab rnd in
      if \<not> is_directory d stage_dir then Some d
      else do {
        let archive_dir = [''saved_crashes'', sanitize_eval_label lab, round_dir rnd];
        d1 \<leftarrow> ensure_clean_directory archive_dir d;
        let (ok, d2) = write_file (archive_dir @ [''manifest.txt'']) [] d1;
        Some (if \<not> ok then d2 else snd (fold (export_crash archive_dir) (directory_iterator d2 stage_dir) (0, d2))) })"

end
