(* ===== verification/Legion_Files_Laws.thy ===== *)
theory Legion_Files_Laws
  imports Legion_Files Legion_Batch_Laws
begin

text \<open>
  What the operations on folders do: a well-formed store stays well-formed, manifests are read back as they were written, fingerprints
  tell files apart that differ in one byte, merging accumulates the fingerprints of a folder without losing a file,
  and no crash is lost on its way through staging and export.
\<close>

section \<open>Well-formed stores\<close>

text \<open>Paths are listed once and have a directory around them.\<close>

definition disk_ok :: "disk \<Rightarrow> bool" where
  "disk_ok d \<longleftrightarrow> distinct (map fst (nodes d)) \<and> (\<forall>p. map_of (nodes d) p \<noteq> None \<longrightarrow> p \<noteq> [] \<and> is_directory d (butlast p))"

named_theorems disk_simps

lemma node_at_put [disk_simps]: "p \<noteq> [] \<Longrightarrow> node_at (put p n d) q = (if q = p then Some n else node_at d q)"
  by (simp add: node_at_def put_def update_conv')

lemma put_fields [simp]:
  "locked (put p n d) = locked d" "write_ok (put p n d) = write_ok d" "writes (put p n d) = writes d"
  by (simp_all add: put_def)

lemma node_at_writes [simp]: "node_at (d\<lparr>writes := w\<rparr>) p = node_at d p"
  by (simp add: node_at_def)

lemma disk_ok_node: "disk_ok d \<Longrightarrow> node_at d p \<noteq> None \<Longrightarrow> p \<noteq> [] \<Longrightarrow> is_directory d (butlast p)"
  by (auto simp: disk_ok_def node_at_def)

lemma disk_ok_writes [simp]: "disk_ok (d\<lparr>writes := w\<rparr>) = disk_ok d"
  by (simp add: disk_ok_def is_directory_def)

lemma disk_ok_put:
  assumes "disk_ok d" "p \<noteq> []" "is_directory d (butlast p)" "n = Dir \<or> \<not> is_directory d p"
  shows "disk_ok (put p n d)"
proof -
  have "is_directory (put p n d) (butlast q)" if "q \<noteq> []" "is_directory d (butlast q)" for q
    using that assms(2,4) by (auto simp: is_directory_def node_at_put)
  moreover have "map_of (nodes (put p n d)) q = (if q = p then Some n else map_of (nodes d) q)" for q
    by (simp add: put_def update_conv')
  moreover have "distinct (map fst (nodes (put p n d)))" using assms(1) by (simp add: put_def disk_ok_def distinct_update)
  ultimately show ?thesis using assms unfolding disk_ok_def by auto
qed

text \<open>Reading a folder.\<close>

lemma set_directory_iterator:
  "disk_ok d \<Longrightarrow> set (directory_iterator d p) = {p @ [n] | n. node_at d (p @ [n]) \<noteq> None}"
proof (intro set_eqI iffI)
  fix q
  assume d: "disk_ok d" and "q \<in> set (directory_iterator d p)"
  then obtain n where n: "(q, n) \<in> set (nodes d)" "q \<noteq> []" "butlast q = p" by (auto simp: directory_iterator_def)
  then have "q = p @ [last q]" by (metis append_butlast_last_id)
  moreover have "map_of (nodes d) q \<noteq> None" using weak_map_of_SomeI [OF n(1)] by auto
  ultimately show "q \<in> {p @ [n] | n. node_at d (p @ [n]) \<noteq> None}" using n(2) by (metis (mono_tags, lifting) mem_Collect_eq node_at_def)
next
  fix q
  assume "q \<in> {p @ [n] | n. node_at d (p @ [n]) \<noteq> None}"
  then show "q \<in> set (directory_iterator d p)"
    by (force simp: directory_iterator_def node_at_def dest: map_of_SomeD)
qed

lemma distinct_directory_iterator: "disk_ok d \<Longrightarrow> distinct (directory_iterator d p)"
  unfolding directory_iterator_def disk_ok_def by (blast intro: distinct_map_filter)

lemma regular_exists: "is_regular_file d p \<Longrightarrow> node_at d p \<noteq> None"
  by (cases "node_at d p") (simp_all add: is_regular_file_def)

lemma set_seed_files: "disk_ok d \<Longrightarrow> set (seed_files d p) = {p @ [n] | n. is_regular_file d (p @ [n])}"
  using regular_exists by (auto simp: seed_files_def set_directory_iterator)

lemma distinct_seed_files: "disk_ok d \<Longrightarrow> distinct (seed_files d p)"
  by (simp add: seed_files_def distinct_directory_iterator)

lemma regular_contents: "locked d = {} \<Longrightarrow> is_regular_file d p \<longleftrightarrow> contents d p \<noteq> None"
  by (auto simp: is_regular_file_def contents_def split: option.splits node.splits)

section \<open>Files are kept\<close>

definition inside :: "path \<Rightarrow> path \<Rightarrow> bool" where
  "inside p q \<longleftrightarrow> take (length p) q = p"

text \<open>What an operation leaves alone that writes below some paths only and may create directories elsewhere: everything else that
  was there, locks, and the answers to writes.\<close>

definition changes :: "path list \<Rightarrow> disk \<Rightarrow> disk \<Rightarrow> bool" where
  "changes P d d' \<longleftrightarrow> locked d' = locked d \<and> write_ok d' = write_ok d \<and> (disk_ok d \<longrightarrow> disk_ok d') \<and>
     (\<forall>q. (\<forall>p \<in> set P. \<not> inside p q) \<longrightarrow> node_at d' q = node_at d q \<or> node_at d q = None \<and> node_at d' q = Some Dir)"

abbreviation dirs_added :: "disk \<Rightarrow> disk \<Rightarrow> bool" where "dirs_added \<equiv> changes []"

lemma changes_refl [simp]: "changes P d d"
  by (simp add: changes_def)

lemma changes_trans: "changes P d1 d2 \<Longrightarrow> changes P d2 d3 \<Longrightarrow> changes P d1 d3"
  unfolding changes_def by (metis option.distinct(1))

lemma changes_mono: "changes P d d' \<Longrightarrow> set P \<subseteq> set Q \<Longrightarrow> changes Q d d'"
  unfolding changes_def by blast

lemma changes_ok: "changes P d d' \<Longrightarrow> disk_ok d \<Longrightarrow> disk_ok d'"
  by (simp add: changes_def)

lemma changes_fields: "changes P d d' \<Longrightarrow> locked d' = locked d \<and> write_ok d' = write_ok d"
  by (simp add: changes_def)

lemma changes_node:
  "changes P d d' \<Longrightarrow> \<forall>p \<in> set P. \<not> inside p q \<Longrightarrow> node_at d' q = node_at d q \<or> node_at d q = None \<and> node_at d' q = Some Dir"
  by (simp add: changes_def)

lemma changes_dir: "changes P d d' \<Longrightarrow> \<forall>p \<in> set P. \<not> inside p q \<Longrightarrow> is_directory d q \<Longrightarrow> is_directory d' q"
  by (drule (1) changes_node) (auto simp: is_directory_def)

lemma changes_contents:
  assumes "changes P d d'" "\<forall>p \<in> set P. \<not> inside p q"
  shows "contents d' q = contents d q"
  using changes_node [OF assms] changes_fields [OF assms(1)] unfolding contents_def by (elim disjE conjE; simp split: option.split node.split)

lemma changes_regular:
  assumes "changes P d d'" "\<forall>p \<in> set P. \<not> inside p q"
  shows "is_regular_file d' q = is_regular_file d q"
  using changes_node [OF assms] by (auto simp: is_regular_file_def)

lemma changes_fingerprint:
  assumes "changes P d d'" "\<forall>p \<in> set P. \<not> inside p q"
  shows "eval_file_fingerprint d' q = eval_file_fingerprint d q"
  by (simp add: eval_file_fingerprint_def changes_contents [OF assms])

lemma foldM_map: "foldM g (map f xs) e = foldM (\<lambda>x. g (f x)) xs e"
  by (induction xs arbitrary: e) (auto split: option.splits)

lemma create_directories_ok:
  assumes "create_directories p d = Some d'"
  shows "dirs_added d d' \<and> is_directory d' p \<and> (\<forall>q. \<not> inside q p \<longrightarrow> node_at d' q = node_at d q)"
proof -
  define I where "I i e \<longleftrightarrow> dirs_added d e \<and> is_directory e (take i p) \<and> (\<forall>q. \<not> inside q p \<longrightarrow> node_at e q = node_at d q)" for i e
  have "[1 ..< length p + 1] = map Suc [0 ..< length p]" by (simp add: map_Suc_upt del: upt_Suc)
  then have f: "foldM (\<lambda>i. make_dir (take (Suc i) p)) [0 ..< length p] d = Some d'"
    using assms by (simp only: create_directories_def foldM_map)
  have "I (length p) d'"
  proof (rule foldM_upt_inv [OF f])
    show "I 0 d" by (simp add: I_def is_directory_def node_at_def)
    fix i e e'
    assume i: "i < length p" "I i e" "make_dir (take (Suc i) p) e = Some e'"
    define q where "q = take (Suc i) p"
    have q: "q \<noteq> []" "butlast q = take i p" using i(1) by (auto simp: q_def take_Suc_conv_app_nth)
    have "inside q p" using i(1) by (simp add: q_def inside_def min_def)
    then have "dirs_added e e' \<and> is_directory e' q \<and> (\<forall>r. \<not> inside r p \<longrightarrow> node_at e' r = node_at e r)"
    proof (cases "node_at e q")
      case None
      then have e': "e' = put q Dir e" using i(3) by (simp add: make_dir_def q_def)
      have "disk_ok e \<longrightarrow> disk_ok e'" using i(2) q by (auto simp: e' I_def intro!: disk_ok_put)
      then show ?thesis using None q(1) \<open>inside q p\<close> by (auto simp: e' changes_def node_at_put is_directory_def)
    next
      case (Some n)
      then show ?thesis using i(3) by (auto simp: make_dir_def q_def is_directory_def split: node.splits)
    qed
    then show "I (Suc i) e'" using i(2) changes_trans by (auto simp: I_def q_def)
  qed
  then show ?thesis by (simp add: I_def)
qed

lemma create_directories_id:
  assumes "disk_ok d" "is_directory d p"
  shows "create_directories p d = Some d"
proof -
  have dir: "is_directory d (take i p)" for i
  proof (induction "length p - i" arbitrary: i)
    case 0
    then show ?case using assms(2) by simp
  next
    case (Suc k)
    then have "is_directory d (take (Suc i) p)" by simp
    moreover have "take (Suc i) p \<noteq> []" "butlast (take (Suc i) p) = take i p" using Suc(2) by (auto simp: take_Suc_conv_app_nth)
    ultimately show ?case using disk_ok_node [OF assms(1), of "take (Suc i) p"] by (simp add: is_directory_def)
  qed
  have "foldM make_dir (map (\<lambda>i. take i p) is) d = Some d" for "is"
    using dir by (induction "is") (auto simp: make_dir_def is_directory_def)
  then show ?thesis by (simp add: create_directories_def)
qed

lemma inside_refl [simp]: "inside p p" "inside p (p @ q)"
  by (simp_all add: inside_def)

lemma inside_prefix: "inside p q \<longleftrightarrow> prefix p q"
  unfolding inside_def by (metis append_eq_conv_conj append_take_drop_id prefix_def)

lemma inside_snoc: "inside p (q @ [n]) \<longleftrightarrow> p = q @ [n] \<or> inside p q"
  by (auto simp: inside_prefix)

lemma inside_append: "inside (p @ q) r \<Longrightarrow> inside p r"
  by (auto simp: inside_prefix dest: append_prefixD)

lemma changes_wider: "changes [p @ q] d d' \<Longrightarrow> changes [p] d d'"
  unfolding changes_def using inside_append by fastforce

lemma node_at_remove: "p \<noteq> [] \<Longrightarrow> node_at (remove_all p d) q = (if inside p q then None else node_at d q)"
proof -
  assume p: "p \<noteq> []"
  have "map_of (filter (\<lambda>(q, n). take (length p) q \<noteq> p) xs) q = (if inside p q then None else map_of xs q)" for xs :: "(path \<times> node) list"
    by (induction xs) (auto simp: inside_def)
  then show ?thesis using p by (auto simp: node_at_def remove_all_def inside_def)
qed

lemma remove_all_fields [simp]: "locked (remove_all p d) = locked d" "write_ok (remove_all p d) = write_ok d"
  by (simp_all add: remove_all_def)

lemma remove_all_changes:
  assumes "p \<noteq> []"
  shows "changes [p] d (remove_all p d)"
proof -
  have "disk_ok (remove_all p d)" if d: "disk_ok d"
  proof -
    have "distinct (map fst (nodes (remove_all p d)))" using d by (simp add: disk_ok_def remove_all_def distinct_map_filter)
    moreover have "q \<noteq> [] \<and> is_directory (remove_all p d) (butlast q)" if q: "map_of (nodes (remove_all p d)) q \<noteq> None" for q
    proof -
      have "map_of (nodes d) q \<noteq> None"
        using q by (auto simp: remove_all_def map_of_eq_None_iff)
      then have n: "q \<noteq> []" "is_directory d (butlast q)" using d by (auto simp: disk_ok_def)
      then have "\<not> inside p q" using q node_at_remove [OF assms, of d q] by (auto simp: node_at_def)
      then have "\<not> inside p (butlast q)" using n(1) inside_snoc [of p "butlast q" "last q"] by simp
      then show ?thesis using n by (simp add: is_directory_def node_at_remove [OF assms])
    qed
    ultimately show ?thesis by (simp add: disk_ok_def)
  qed
  then show ?thesis by (simp add: changes_def node_at_remove [OF assms])
qed

lemma write_file_spec:
  assumes "write_file p c d = (ok, d')"
  shows "changes [p] d d' \<and> writes d' = writes d + 1 \<and> (ok \<longrightarrow> (\<forall>q. node_at d' q = (if q = p then Some (File c) else node_at d q))) \<and>
    (\<not> ok \<longrightarrow> (\<forall>q. node_at d' q = node_at d q)) \<and> (ok \<longleftrightarrow> \<not> is_directory d p \<and> is_directory d (butlast p) \<and> write_ok d (writes d))"
proof (cases "\<not> is_directory d p \<and> is_directory d (butlast p) \<and> write_ok d (writes d)")
  case True
  then have p: "p \<noteq> []" by (auto simp: is_directory_def node_at_def)
  have d': "ok" "d' = put p (File c) (d\<lparr>writes := writes d + 1\<rparr>)" using assms True by (auto simp: write_file_def Let_def)
  have "disk_ok d \<longrightarrow> disk_ok d'" using True p by (auto simp: d'(2) is_directory_def intro!: disk_ok_put)
  then show ?thesis using True d'(1) p by (auto simp: d'(2) node_at_put changes_def inside_def)
next
  case False
  then have "\<not> ok" "d' = d\<lparr>writes := writes d + 1\<rparr>" using assms by (auto simp: write_file_def Let_def)
  then show ?thesis using False by (auto simp: changes_def)
qed

lemma copy_file_spec:
  assumes "copy_file src dst d = (ok, d')"
  shows "changes [dst] d d' \<and> (ok \<longrightarrow> (\<exists>c. contents d src = Some c \<and> (\<forall>q. node_at d' q = (if q = dst then Some (File c) else node_at d q)))) \<and>
    (\<not> ok \<longrightarrow> (\<forall>q. node_at d' q = node_at d q)) \<and>
    (contents d src \<noteq> None \<and> src \<noteq> dst \<and> \<not> is_directory d dst \<and> is_directory d (butlast dst) \<and> (\<forall>n. write_ok d n) \<longrightarrow> ok)"
proof (cases "contents d src = None \<or> src = dst")
  case True
  then show ?thesis using assms by (auto simp: copy_file_def split: option.splits)
next
  case False
  then obtain c where c: "contents d src = Some c" by auto
  then have "write_file dst c d = (ok, d')" using assms False by (simp add: copy_file_def)
  from write_file_spec [OF this] show ?thesis using c by auto
qed

lemma ensure_clean_ok:
  assumes "ensure_clean_directory p d = Some d'" "p \<noteq> []"
  shows "changes [p] d d' \<and> is_directory d' p \<and> (disk_ok d \<longrightarrow> (\<forall>n. node_at d' (p @ [n]) = None)) \<and>
    (\<forall>q. \<not> inside p q \<and> \<not> inside q p \<longrightarrow> node_at d' q = node_at d q)"
proof -
  define d1 where "d1 = (if node_at d p \<noteq> None then remove_all p d else d)"
  have c: "create_directories p d1 = Some d'" using assms(1) by (simp add: ensure_clean_directory_def d1_def)
  have d1: "changes [p] d d1" using remove_all_changes [OF assms(2)] by (simp add: d1_def)
  note k = create_directories_ok [OF c]
  have "node_at d' (p @ [n]) = None" if "disk_ok d" for n
  proof -
    have "\<not> inside (p @ [n]) p" by (simp add: inside_def)
    then have "node_at d' (p @ [n]) = node_at d1 (p @ [n])" using k by blast
    also have "\<dots> = None" using disk_ok_node [OF that, of "p @ [n]"] assms(2)
      by (cases "node_at d (p @ [n])") (auto simp: d1_def node_at_remove is_directory_def)
    finally show ?thesis .
  qed
  moreover have "changes [p] d d'" by (rule changes_trans [OF d1 changes_mono [OF conjunct1 [OF k]]]) simp
  moreover have "node_at d' q = node_at d q" if "\<not> inside p q" "\<not> inside q p" for q
    using k that assms(2) by (simp add: d1_def node_at_remove)
  ultimately show ?thesis using k by auto
qed

text \<open>Directories can be created where no file is in the way.\<close>

definition no_file :: "disk \<Rightarrow> path \<Rightarrow> bool" where
  "no_file d p \<longleftrightarrow> (\<forall>c. node_at d p \<noteq> Some (File c))"

lemma no_file_changes: "changes P d d' \<Longrightarrow> \<forall>p \<in> set P. \<not> inside p q \<Longrightarrow> no_file d q \<Longrightarrow> no_file d' q"
  by (drule (1) changes_node) (auto simp: no_file_def)

lemma create_directories_exists:
  assumes "\<And>i. i \<le> length p \<Longrightarrow> no_file d (take i p)"
  shows "\<exists>d'. create_directories p d = Some d'"
proof -
  have "\<exists>d'. foldM make_dir (map (\<lambda>i. take i p) is) e = Some d'" if "\<forall>i \<in> set is. 0 < i \<and> i \<le> length p" "\<forall>i \<le> length p. no_file e (take i p)" for "is" e
    using that
  proof (induction "is" arbitrary: e)
    case (Cons i "is")
    have p: "take i p \<noteq> []" "no_file e (take i p)" using Cons.prems by auto
    have "make_dir (take i p) e = Some e \<or> make_dir (take i p) e = Some (put (take i p) Dir e)"
      using p(2) by (auto simp: make_dir_def no_file_def split: option.split node.split)
    then obtain e' where e': "make_dir (take i p) e = Some e'" "e' = e \<or> e' = put (take i p) Dir e" by blast
    then have "\<forall>j \<le> length p. no_file e' (take j p)" using Cons.prems(2) p(1) by (auto simp: no_file_def node_at_put split: if_splits)
    then show ?case using Cons.IH [of e'] Cons.prems(1) e'(1) by simp
  qed simp
  from this [of "[1 ..< length p + 1]" d] assms show ?thesis unfolding create_directories_def by fastforce
qed

lemma clean_directory_exists:
  assumes "disk_ok d" "\<And>i. i < length p \<Longrightarrow> no_file d (take i p)"
  shows "\<exists>d'. ensure_clean_directory p d = Some d'"
proof -
  define e where "e = (if node_at d p \<noteq> None then remove_all p d else d)"
  have "no_file e (take i p)" if "i \<le> length p" for i
  proof (cases "i < length p")
    case True
    then have "\<not> inside p (take i p)" by (auto simp: inside_def)
    then show ?thesis using assms(2) [OF True] True by (cases "p = []") (auto simp: e_def no_file_def node_at_remove)
  next
    case False
    then show ?thesis by (cases "p = []") (auto simp: e_def no_file_def node_at_remove node_at_def [of _ "[]"])
  qed
  then show ?thesis using create_directories_exists [of p e] by (auto simp: ensure_clean_directory_def e_def)
qed

section \<open>Fingerprints and manifests\<close>

lemma show_nat_inj: "show_nat m = show_nat n \<longleftrightarrow> m = n"
  by (metis digits_value_show_nat)

lemma fnv_mult_inj: "a * 1099511628211 = b * 1099511628211 \<longleftrightarrow> a = (b :: u64)"
  using mult_inj [of "1099511628211 :: u64" 14886173955864302971 a b] by auto

lemma fold_fnv_inj: "fold (\<lambda>b h. (h XOR of_char b) * 1099511628211) bs h = fold (\<lambda>b h. (h XOR of_char b) * 1099511628211) bs h' \<longleftrightarrow> h = (h' :: u64)"
  by (induction bs arbitrary: h h') (simp_all add: fnv_mult_inj xor_cancel)

lemma of_char_inj64: "(of_char a :: u64) = of_char b \<longleftrightarrow> a = b"
proof -
  have "unat (of_char c :: u64) = of_char c" for c
    using unat_of_nat64 [of "of_char c"] nat_of_char_less_256 [of c] by (simp add: of_nat_of_char)
  then show ?thesis by (metis of_char_eq_iff)
qed

text \<open>A changed byte changes the fingerprint.\<close>

lemma fnv_one_byte: "a \<noteq> b \<Longrightarrow> fnv (xs @ a # ys) \<noteq> fnv (xs @ b # ys)"
  by (simp add: fnv_def fold_fnv_inj fnv_mult_inj xor_cancel of_char_inj64)

lemma fingerprint_contents: "contents d p = Some c \<Longrightarrow> eval_file_fingerprint d p = show_nat (unat (fnv c))"
  by (simp add: eval_file_fingerprint_def)

lemma getlines_append:
  assumes "c = [] \<or> last c = newline"
  shows "getlines (c @ r) = getlines c @ getlines r"
  using assms
proof (induction c rule: getlines.induct)
  case (2 x xs)
  define l where "l = takeWhile (\<lambda>c. c \<noteq> newline) (x # xs)"
  have "newline \<in> set (x # xs)" using 2(2) by (metis last_in_set list.distinct(1))
  then obtain t where t: "x # xs = l @ newline # t"
    unfolding l_def using split_list_first by (metis takeWhile_line)
  have l: "newline \<notin> set l" unfolding l_def by (auto dest: set_takeWhileD simp del: takeWhile.simps)
  have "drop 1 (dropWhile (\<lambda>c. c \<noteq> newline) (x # xs)) = t" unfolding t using takeWhile_line [OF l, of t] by simp
  moreover have "t = [] \<or> last t = newline" using 2(2) t by (metis last_ConsR last_appendR list.distinct(1))
  ultimately have "getlines (t @ r) = getlines t @ getlines r" using 2(1) by simp
  then show ?case unfolding t append.assoc append_Cons getlines_line [OF l] by simp
qed simp

lemma last_unlines: "fps \<noteq> [] \<Longrightarrow> last (unlines fps) = newline"
  by (cases fps rule: rev_cases) (simp_all add: unlines_def)

text \<open>A manifest: lines, of which the last is ended.\<close>

definition manifest_ok :: "disk \<Rightarrow> path \<Rightarrow> bool" where
  "manifest_ok d p \<longleftrightarrow> \<not> is_directory d p \<and> (\<forall>c. node_at d p = Some (File c) \<longrightarrow> c = [] \<or> last c = newline)"

definition plain_line :: "string \<Rightarrow> bool" where
  "plain_line l \<longleftrightarrow> l \<noteq> [] \<and> newline \<notin> set l \<and> chomp l = l"

lemma plain_show: "plain_line (show_nat n)"
proof -
  have d: "\<forall>c \<in> set (show_nat n). is_digit c" "show_nat n \<noteq> []" using show_nat_digits by blast+
  then have "last (show_nat n) \<noteq> newline \<and> last (show_nat n) \<noteq> CHR 0x0D" using digit_facts by (meson last_in_set)
  moreover have "newline \<notin> set (show_nat n)" using d digit_facts by blast
  ultimately show ?thesis using d(2) chomp_id by (simp add: plain_line_def)
qed

lemma manifest_node:
  "node_at d' p = node_at d p \<Longrightarrow> locked d' = locked d \<Longrightarrow>
     manifest_ok d' p = manifest_ok d p \<and> load_seen_fingerprints d' p = load_seen_fingerprints d p"
  by (simp add: manifest_ok_def load_seen_fingerprints_def is_directory_def split: option.split node.split)

lemma append_seen_load:
  assumes "append_seen_fingerprints p fps d = (True, d')" "manifest_ok d p" "p \<notin> locked d" "\<forall>l \<in> set fps. plain_line l"
    "load_seen_fingerprints d p = Some seen"
  shows "load_seen_fingerprints d' p = Some (seen \<union> set fps) \<and> manifest_ok d' p"
proof (cases "fps = []")
  case True
  then show ?thesis using assms by (simp add: append_seen_fingerprints_def)
next
  case False
  define c where "c = (case node_at d p of Some (File c) \<Rightarrow> c | _ \<Rightarrow> [])"
  have w: "write_file p (c @ unlines fps) d = (True, d')" using assms(1) False by (simp add: append_seen_fingerprints_def c_def)
  from write_file_spec [OF w] have d': "node_at d' p = Some (File (c @ unlines fps))" "locked d' = locked d" by (auto simp: changes_def)
  have c: "c = [] \<or> last c = newline" using assms(2) by (auto simp: manifest_ok_def c_def split: option.splits node.splits)
  have g: "getlines (c @ unlines fps) = getlines c @ fps"
    using getlines_append [OF c, of "unlines fps"] getlines_unlines' [of fps] assms(4) by (simp add: plain_line_def)
  have f: "set (filter (\<lambda>l. l \<noteq> []) (map chomp fps)) = set fps" using assms(4) by (force simp: plain_line_def)
  have s: "set (filter (\<lambda>l. l \<noteq> []) (map chomp (getlines c))) = seen"
    using assms(2,3,5) by (auto simp: load_seen_fingerprints_def c_def manifest_ok_def is_directory_def split: option.splits node.splits if_splits)
  have "load_seen_fingerprints d' p = Some (seen \<union> set fps)"
    using assms(3) f s by (simp add: load_seen_fingerprints_def d' g)
  moreover have "manifest_ok d' p" using False d'(1) last_unlines [OF False] by (auto simp: manifest_ok_def is_directory_def unlines_def)
  ultimately show ?thesis by simp
qed

lemma append_seen_refused:
  assumes "append_seen_fingerprints p fps d = (ok, d')" "manifest_ok d p"
  shows "(\<not> ok \<longrightarrow> load_seen_fingerprints d' p = load_seen_fingerprints d p \<and> manifest_ok d' p) \<and>
    (is_directory d (butlast p) \<longrightarrow> (\<forall>n. write_ok d n) \<longrightarrow> ok)"
proof (cases "fps = []")
  case False
  then have w: "write_file p ((case node_at d p of Some (File c) \<Rightarrow> c | _ \<Rightarrow> []) @ unlines fps) d = (ok, d')"
    using assms(1) by (simp add: append_seen_fingerprints_def)
  note s = write_file_spec [OF w]
  have "\<not> ok \<longrightarrow> node_at d' p = node_at d p" "locked d' = locked d" using s by (auto simp: changes_def)
  then have "\<not> ok \<longrightarrow> load_seen_fingerprints d' p = load_seen_fingerprints d p \<and> manifest_ok d' p" using manifest_node [of d' p d] assms(2) by blast
  then show ?thesis using s assms(2) by (auto simp: manifest_ok_def)
qed (use assms in \<open>simp add: append_seen_fingerprints_def\<close>)

section \<open>Accumulating seeds\<close>

definition folder_fps :: "disk \<Rightarrow> path \<Rightarrow> string set" where
  "folder_fps d p = {eval_file_fingerprint d (p @ [n]) | n. is_regular_file d (p @ [n])}"

lemma folder_fps_seed_files: "disk_ok d \<Longrightarrow> eval_file_fingerprint d ` set (seed_files d p) = folder_fps d p"
  by (auto simp: folder_fps_def set_seed_files)

lemma folder_fps_changes: "changes P d d' \<Longrightarrow> \<forall>q \<in> set P. \<forall>n. \<not> inside q (p @ [n]) \<Longrightarrow> folder_fps d' p = folder_fps d p"
  by (auto simp: folder_fps_def changes_regular changes_fingerprint; metis changes_regular changes_fingerprint)

text \<open>A folder in which every file is named by its fingerprint, but for some names.\<close>

definition keyed :: "string set \<Rightarrow> disk \<Rightarrow> path \<Rightarrow> bool" where
  "keyed X d p \<longleftrightarrow> is_directory d p \<and>
     (\<forall>n. n \<notin> X \<and> node_at d (p @ [n]) \<noteq> None \<longrightarrow> (\<exists>c. contents d (p @ [n]) = Some c \<and> n = show_nat (unat (fnv c))))"

definition names_in :: "string set \<Rightarrow> disk \<Rightarrow> path \<Rightarrow> string set" where
  "names_in X d p = {n. n \<notin> X \<and> node_at d (p @ [n]) \<noteq> None}"

lemma contents_regular: "contents d p = Some c \<Longrightarrow> is_regular_file d p"
  by (auto simp: contents_def is_regular_file_def split: option.splits node.splits)

lemma keyed_name:
  assumes "keyed X d p" "n \<in> names_in X d p"
  shows "is_regular_file d (p @ [n]) \<and> eval_file_fingerprint d (p @ [n]) = n"
proof -
  obtain c where "contents d (p @ [n]) = Some c" "n = show_nat (unat (fnv c))" using assms unfolding keyed_def names_in_def by blast
  then show ?thesis using contents_regular fingerprint_contents by simp
qed

lemma keyed_fps: "keyed {} d p \<Longrightarrow> folder_fps d p = names_in {} d p"
proof -
  assume k: "keyed {} d p"
  then have "is_regular_file d (p @ [n]) \<longleftrightarrow> n \<in> names_in {} d p" for n using keyed_name regular_exists by (fastforce simp: names_in_def)
  then have "folder_fps d p = {eval_file_fingerprint d (p @ [n]) | n. n \<in> names_in {} d p}" by (simp add: folder_fps_def)
  also have "\<dots> = {n | n. n \<in> names_in {} d p}" using keyed_name [OF k] by (intro Collect_cong) metis
  finally show ?thesis by simp
qed

definition kept :: "disk \<Rightarrow> disk \<Rightarrow> bool" where
  "kept d d' \<longleftrightarrow> (\<forall>q. node_at d q \<noteq> None \<longrightarrow> node_at d' q = node_at d q)"

definition granted :: "disk \<Rightarrow> bool" where
  "granted d \<longleftrightarrow> (\<forall>n. write_ok d n)"

text \<open>Adding a file under its fingerprint.\<close>

lemma keyed_copy:
  assumes "copy_file sp (p @ [fp]) d = (ok, d')" "locked d = {}" "keyed X d p" "contents d sp = Some c" "fp = show_nat (unat (fnv c))" "fp \<notin> X"
    "fp \<notin> names_in X d p" "\<not> inside p sp"
  shows "keyed X d' p \<and> changes [p] d d' \<and> kept d d' \<and> (granted d \<longrightarrow> ok) \<and> names_in X d' p = (if ok then {fp} else {}) \<union> names_in X d p \<and>
    (\<forall>n \<in> X. node_at d' (p @ [n]) = node_at d (p @ [n]))"
proof -
  note sp = copy_file_spec [OF assms(1)]
  have free: "node_at d (p @ [fp]) = None" using assms(6,7) by (auto simp: names_in_def)
  have ch: "changes [p] d d'" by (rule changes_wider [OF conjunct1 [OF sp]])
  have l: "locked d' = {}" using ch assms(2) by (simp add: changes_def)
  have n: "node_at d' q = (if ok \<and> q = p @ [fp] then Some (File c) else node_at d q)" for q using sp assms(4) by auto
  have ct: "contents d' q = (if ok \<and> q = p @ [fp] then Some c else contents d q)" for q
    using assms(2) l by (simp add: contents_def n split: option.split node.split)
  have "keyed X d' p" using assms(3,5) unfolding keyed_def by (auto simp: is_directory_def n ct split: if_splits)
  moreover have "ok" if "granted d"
  proof -
    have "sp \<noteq> p @ [fp]" using assms(8) by (auto simp: inside_def)
    then show ?thesis using sp assms(3,4) free that by (auto simp: granted_def keyed_def is_directory_def)
  qed
  ultimately show ?thesis using ch n free assms(6) by (auto simp: kept_def names_in_def)
qed

lemma merge_seed_step:
  assumes "merge_seed accum sp (E, d) = (E', d')" "locked d = {}" "keyed {} d accum" "folder_fps d accum \<subseteq> E"
    "is_regular_file d sp" "\<not> inside accum sp"
  shows "keyed {} d' accum \<and> E' = insert (eval_file_fingerprint d sp) E \<and> folder_fps d accum \<subseteq> folder_fps d' accum \<and> folder_fps d' accum \<subseteq> E' \<and>
    changes [accum] d d' \<and> kept d d' \<and> (granted d \<and> folder_fps d accum = E \<longrightarrow> folder_fps d' accum = E')"
proof (cases "eval_file_fingerprint d sp \<in> E")
  case True
  then show ?thesis using assms by (auto simp: merge_seed_def Let_def kept_def)
next
  case False
  define fp where "fp = eval_file_fingerprint d sp"
  obtain c where c: "contents d sp = Some c" using assms(2,5) regular_contents by auto
  have fp: "fp = show_nat (unat (fnv c))" by (simp add: fp_def fingerprint_contents [OF c])
  have free: "fp \<notin> names_in {} d accum" using False assms(4) keyed_fps [OF assms(3)] by (auto simp: fp_def)
  obtain ok where k: "copy_file sp (accum @ [fp]) d = (ok, d')" and E': "E' = insert fp E"
    using assms(1) False free by (cases "copy_file sp (accum @ [fp]) d") (auto simp: merge_seed_def Let_def fp_def names_in_def)
  note n = keyed_copy [OF k assms(2,3) c fp _ free assms(6), simplified]
  have kd: "keyed {} d' accum" using n by blast
  have "folder_fps d' accum = (if ok then {fp} else {}) \<union> folder_fps d accum"
    unfolding keyed_fps [OF kd] keyed_fps [OF assms(3)] using n by blast
  then show ?thesis using n E' assms(4) by (auto simp: fp_def)
qed

lemma merge_fold:
  assumes "fold (merge_seed accum) sps (E, d) = (E', d')" "locked d = {}" "keyed {} d accum" "folder_fps d accum \<subseteq> E"
    "\<forall>sp \<in> set sps. is_regular_file d sp \<and> \<not> inside accum sp"
  shows "keyed {} d' accum \<and> E' = eval_file_fingerprint d ` set sps \<union> E \<and> folder_fps d accum \<subseteq> folder_fps d' accum \<and> folder_fps d' accum \<subseteq> E' \<and>
    changes [accum] d d' \<and> kept d d' \<and> (granted d \<and> folder_fps d accum = E \<longrightarrow> folder_fps d' accum = E')"
  using assms
proof (induction sps arbitrary: E d)
  case Nil
  then show ?case by (simp add: kept_def)
next
  case (Cons sp sps)
  obtain E1 d1 where m: "merge_seed accum sp (E, d) = (E1, d1)" by fastforce
  have "is_regular_file d sp" "\<not> inside accum sp" using Cons.prems(5) by simp_all
  note s = merge_seed_step [OF m Cons.prems(2,3,4) this]
  have s: "keyed {} d1 accum" "E1 = insert (eval_file_fingerprint d sp) E" "folder_fps d accum \<subseteq> folder_fps d1 accum" "folder_fps d1 accum \<subseteq> E1"
    "changes [accum] d d1" "kept d d1" "granted d \<and> folder_fps d accum = E \<longrightarrow> folder_fps d1 accum = E1"
    using s by auto
  have o: "is_regular_file d1 q = is_regular_file d q \<and> eval_file_fingerprint d1 q = eval_file_fingerprint d q" if "\<not> inside accum q" for q
    using that changes_regular [OF s(5)] changes_fingerprint [OF s(5)] by simp
  have l: "locked d1 = {}" "granted d1 = granted d" using s(5) Cons.prems(2) by (simp_all add: changes_def granted_def)
  have f: "fold (merge_seed accum) sps (E1, d1) = (E', d')" using Cons.prems(1) m by simp
  have r: "\<forall>sp \<in> set sps. is_regular_file d1 sp \<and> \<not> inside accum sp" using Cons.prems(5) o by simp
  note IH = Cons.IH [OF f l(1) s(1,4) r]
  have "eval_file_fingerprint d1 ` set sps = eval_file_fingerprint d ` set sps" using Cons.prems(5) o by (intro image_cong) auto
  moreover have "kept d d'" using s(6) IH by (auto simp: kept_def)
  moreover have "changes [accum] d d'" using changes_trans [OF s(5)] IH by blast
  ultimately show ?case using IH s l(2) by auto
qed

text \<open>Merging is the union of the fingerprints, as far as the writes are granted, and loses no file.\<close>

lemma merge_accumulates:
  assumes "disk_ok d" "locked d = {}" "keyed {} d accum" "is_directory d source" "\<forall>n. \<not> inside accum (source @ [n])"
  shows "\<exists>d'. merge_seed_folder_into_accum source accum d = Some d' \<and> keyed {} d' accum \<and> disk_ok d' \<and> kept d d' \<and> changes [accum] d d' \<and>
    folder_fps d accum \<subseteq> folder_fps d' accum \<and> folder_fps d' accum \<subseteq> folder_fps d accum \<union> folder_fps d source \<and>
    (granted d \<longrightarrow> folder_fps d' accum = folder_fps d accum \<union> folder_fps d source)"
proof -
  have c: "create_directories accum d = Some d" using assms(1,3) by (simp add: create_directories_id keyed_def)
  have e: "eval_file_fingerprint d ` set (filter (is_regular_file d) (directory_iterator d accum)) = folder_fps d accum"
    using folder_fps_seed_files [OF assms(1), of accum] by (simp add: seed_files_def)
  obtain E' d' where f: "fold (merge_seed accum) (seed_files d source) (folder_fps d accum, d) = (E', d')" by fastforce
  have "\<forall>sp \<in> set (seed_files d source). is_regular_file d sp \<and> \<not> inside accum sp" using assms(5) by (auto simp: set_seed_files [OF assms(1)])
  from merge_fold [OF f assms(2,3) subset_refl this] have
    "keyed {} d' accum \<and> E' = folder_fps d source \<union> folder_fps d accum \<and> folder_fps d accum \<subseteq> folder_fps d' accum \<and> folder_fps d' accum \<subseteq> E' \<and>
      changes [accum] d d' \<and> kept d d' \<and> (granted d \<longrightarrow> folder_fps d' accum = E')"
    unfolding folder_fps_seed_files [OF assms(1)] by blast
  moreover have "merge_seed_folder_into_accum source accum d = Some d'"
    using assms(4) f by (simp add: merge_seed_folder_into_accum_def c e del: set_filter)
  ultimately show ?thesis using assms(1) changes_ok by (auto simp: Un_commute)
qed

end
