(* ===== verification/Legion_Crash_Laws.thy ===== *)
theory Legion_Crash_Laws
  imports Legion_Files_Laws
begin

text \<open>
  Crashes on their way: at every look at the outputs of a fuzzer new crashes are staged under their fingerprints, and at the end of
  the round the staged ones are exported. No crash that was seen is lost.
\<close>

section \<open>Entries\<close>

lemma entries_in_regular:
  assumes "e \<in> set (entries_in valid p w d)" "\<And>q. valid d q \<Longrightarrow> is_regular_file d q" "disk_ok d"
  shows "is_regular_file d (source_path e) \<and> inside p (source_path e)"
  using assms by (auto simp: entries_in_def set_directory_iterator split: if_splits)

lemma valid_regular: "is_valid_crash_seed_file d q \<Longrightarrow> is_regular_file d q" "is_honggfuzz_crash_seed_file d q \<Longrightarrow> is_regular_file d q"
  by (simp_all add: is_valid_crash_seed_file_def is_honggfuzz_crash_seed_file_def)

lemma afl_entries:
  assumes "e \<in> set (collect_afl_like_crash_entries p d)" "disk_ok d"
  shows "is_regular_file d (source_path e) \<and> inside p (source_path e)"
proof -
  obtain w where w: "w \<in> set (directory_iterator d p)" "e \<in> set (entries_in is_valid_crash_seed_file (w @ [''crashes'']) (last w) d)"
    using assms(1) by (auto simp: collect_afl_like_crash_entries_def split: if_splits)
  obtain n where "w = p @ [n]" using w(1) by (auto simp: set_directory_iterator [OF assms(2)])
  then have "is_regular_file d (source_path e) \<and> inside (p @ [n, ''crashes'']) (source_path e)"
    using entries_in_regular [OF w(2) valid_regular(1) assms(2)] by simp
  then show ?thesis using inside_append by blast
qed

lemma libfuzzer_entries:
  assumes "e \<in> set (collect_libfuzzer_crash_entries p d)" "disk_ok d"
  shows "is_regular_file d (source_path e) \<and> inside p (source_path e)"
  using entries_in_regular [OF assms(1) [unfolded collect_libfuzzer_crash_entries_def] _ assms(2)] by blast

lemma honggfuzz_entries:
  assumes "e \<in> set (collect_honggfuzz_crash_entries p d)" "disk_ok d"
  shows "is_regular_file d (source_path e) \<and> inside p (source_path e)"
proof -
  have "e \<in> set (entries_in is_honggfuzz_crash_seed_file p ''workspace'' d) \<or>
      e \<in> set (entries_in is_honggfuzz_crash_seed_file (p @ [''output'']) ''output'' d)"
    using assms(1) by (simp add: collect_honggfuzz_crash_entries_def split: if_splits)
  then show ?thesis
    using entries_in_regular [OF _ valid_regular(2) assms(2)] inside_append [of p "[''output'']"] by blast
qed

text \<open>The folders in which the fuzzers run.\<close>

abbreviation run_dirs :: "string set" where
  "run_dirs \<equiv> {''run_aflpp'', ''run_afl'', ''run_aflfast'', ''run_fairfuzz'', ''run_angora'', ''run_qsym'', ''run_lib'', ''run_hongg''}"

lemma crash_entry:
  assumes "e \<in> set (collect_round_crash_entries lab d)" "disk_ok d"
  shows "is_regular_file d (source_path e) \<and> (\<exists>r \<in> run_dirs. inside [r] (source_path e))"
proof -
  have "(\<exists>r \<in> run_dirs. e \<in> set (collect_afl_like_crash_entries ([r] @ [''output'']) d)) \<or>
      e \<in> set (collect_libfuzzer_crash_entries ([''run_lib''] @ [''output'', ''crashes'']) d) \<or>
      e \<in> set (collect_honggfuzz_crash_entries [''run_hongg''] d)"
    using assms(1) by (simp add: collect_round_crash_entries_def split: if_splits)
  then obtain r q where r: "r \<in> run_dirs" "is_regular_file d (source_path e)" "inside ([r] @ q) (source_path e)"
  proof (elim disjE bexE)
    fix r
    assume "r \<in> run_dirs" "e \<in> set (collect_afl_like_crash_entries ([r] @ [''output'']) d)"
    from this(1) afl_entries [OF this(2) assms(2)] show thesis by (intro that [of r "[''output'']"]) simp_all
  next
    assume "e \<in> set (collect_libfuzzer_crash_entries ([''run_lib''] @ [''output'', ''crashes'']) d)"
    from libfuzzer_entries [OF this assms(2)] show thesis by (intro that [of "''run_lib''" "[''output'', ''crashes'']"]) simp_all
  next
    assume "e \<in> set (collect_honggfuzz_crash_entries [''run_hongg''] d)"
    from honggfuzz_entries [OF this assms(2)] show thesis by (intro that [of "''run_hongg''" "[]"]) simp_all
  qed
  from r(2) inside_append [OF r(3)] r(1) show ?thesis by (intro conjI bexI [of _ r])
qed

lemma crash_not_inside:
  assumes "e \<in> set (collect_round_crash_entries lab d)" "disk_ok d" "x \<notin> run_dirs"
  shows "\<not> inside (x # p) (source_path e)"
proof -
  obtain r where r: "r \<in> run_dirs" "inside [r] (source_path e)" using crash_entry [OF assms(1,2)] by blast
  show ?thesis
  proof (cases "source_path e")
    case (Cons y ys)
    then show ?thesis using r assms(3) by (auto simp: inside_def)
  qed (simp add: inside_def)
qed

section \<open>Staging\<close>

definition staged_ok :: "path \<Rightarrow> disk \<Rightarrow> bool" where
  "staged_ok dir d \<longleftrightarrow> keyed {''manifest.txt''} d dir \<and> manifest_ok d (dir @ [''manifest.txt'']) \<and>
     load_seen_fingerprints d (dir @ [''manifest.txt'']) = Some (names_in {''manifest.txt''} d dir)"

lemma show_nat_not_manifest: "show_nat n \<noteq> ''manifest.txt''"
proof
  assume "show_nat n = ''manifest.txt''"
  then have "is_digit (CHR ''m'')" using show_nat_digits [of n] by simp
  then show False by (simp add: is_digit_def)
qed

lemma stage_crash_step:
  assumes "stage_crash dir e (seen, app, d) = (seen', app', d')" "locked d = {}" "granted d" "keyed {''manifest.txt''} d dir"
    "names_in {''manifest.txt''} d dir = seen" "is_regular_file d (source_path e)" "\<not> inside dir (source_path e)"
  shows "keyed {''manifest.txt''} d' dir \<and> seen' = insert (eval_file_fingerprint d (source_path e)) seen \<and>
    names_in {''manifest.txt''} d' dir = seen' \<and> (\<exists>new. app' = app @ new \<and> seen' = seen \<union> set new \<and> (\<forall>l \<in> set new. plain_line l)) \<and>
    changes [dir] d d' \<and> kept d d' \<and> node_at d' (dir @ [''manifest.txt'']) = node_at d (dir @ [''manifest.txt''])"
proof (cases "eval_file_fingerprint d (source_path e) \<in> seen")
  case True
  then show ?thesis using assms by (auto simp: stage_crash_def Let_def kept_def split: prod.splits)
next
  case False
  define fp where "fp = eval_file_fingerprint d (source_path e)"
  obtain c where c: "contents d (source_path e) = Some c" using assms(2,6) regular_contents by auto
  have fp: "fp = show_nat (unat (fnv c))" by (simp add: fp_def fingerprint_contents [OF c])
  have free: "fp \<notin> names_in {''manifest.txt''} d dir" "fp \<notin> {''manifest.txt''}" using False assms(5) show_nat_not_manifest by (simp_all add: fp_def [symmetric] fp)
  obtain ok where k: "copy_file (source_path e) (dir @ [fp]) d = (ok, d')" and s: "seen' = insert fp seen" "app' = (if ok then app @ [fp] else app)"
    using assms(1) False free by (cases "copy_file (source_path e) (dir @ [fp]) d") (auto simp: stage_crash_def Let_def fp_def names_in_def)
  note n = keyed_copy [OF k assms(2,4) c fp free(2,1) assms(7)]
  moreover have "ok" using n assms(3) by blast
  ultimately show ?thesis using s assms(5) plain_show fp by (auto simp: fp_def)
qed

lemma stage_fold:
  assumes "fold (stage_crash dir) es (seen, app, d) = (seen', app', d')" "locked d = {}" "granted d" "keyed {''manifest.txt''} d dir"
    "names_in {''manifest.txt''} d dir = seen" "\<forall>e \<in> set es. is_regular_file d (source_path e) \<and> \<not> inside dir (source_path e)"
  shows "keyed {''manifest.txt''} d' dir \<and> seen' = (\<lambda>e. eval_file_fingerprint d (source_path e)) ` set es \<union> seen \<and>
    names_in {''manifest.txt''} d' dir = seen' \<and> (\<exists>new. app' = app @ new \<and> seen' = seen \<union> set new \<and> (\<forall>l \<in> set new. plain_line l)) \<and>
    changes [dir] d d' \<and> kept d d' \<and> node_at d' (dir @ [''manifest.txt'']) = node_at d (dir @ [''manifest.txt''])"
  using assms
proof (induction es arbitrary: seen app d)
  case Nil
  then show ?case by (simp add: kept_def)
next
  case (Cons e es)
  obtain seen1 app1 d1 where m: "stage_crash dir e (seen, app, d) = (seen1, app1, d1)" by (metis prod_cases3)
  have "is_regular_file d (source_path e)" "\<not> inside dir (source_path e)" using Cons.prems(6) by simp_all
  note s = stage_crash_step [OF m Cons.prems(2-5) this]
  then have ch: "changes [dir] d d1" by blast
  have o: "is_regular_file d1 q = is_regular_file d q \<and> eval_file_fingerprint d1 q = eval_file_fingerprint d q" if "\<not> inside dir q" for q
    using that changes_regular [OF ch] changes_fingerprint [OF ch] by simp
  have l: "locked d1 = {}" "granted d1" using ch Cons.prems(2,3) by (simp_all add: changes_def granted_def)
  have f: "fold (stage_crash dir) es (seen1, app1, d1) = (seen', app', d')" using Cons.prems(1) m by simp
  have r: "\<forall>e \<in> set es. is_regular_file d1 (source_path e) \<and> \<not> inside dir (source_path e)" using Cons.prems(6) o by simp
  have "keyed {''manifest.txt''} d1 dir" "names_in {''manifest.txt''} d1 dir = seen1" using s by blast+
  note IH = Cons.IH [OF f l this r]
  have "(\<lambda>e. eval_file_fingerprint d1 (source_path e)) ` set es = (\<lambda>e. eval_file_fingerprint d (source_path e)) ` set es"
    using Cons.prems(6) o by (intro image_cong) auto
  moreover have "kept d d'" using s IH by (auto simp: kept_def)
  moreover have "changes [dir] d d'" using changes_trans [OF ch] IH by blast
  moreover obtain n1 where n1: "app1 = app @ n1" "seen1 = seen \<union> set n1" "\<forall>l \<in> set n1. plain_line l" using s by blast
  obtain n2 where n2: "app' = app1 @ n2" "seen' = seen1 \<union> set n2" "\<forall>l \<in> set n2. plain_line l" using IH by blast
  have "\<exists>new. app' = app @ new \<and> seen' = seen \<union> set new \<and> (\<forall>l \<in> set new. plain_line l)" using n1 n2 by (intro exI [of _ "n1 @ n2"]) auto
  ultimately show ?case using IH s by auto
qed

text \<open>Staging adds the fingerprints of the crashes there are, and the manifest keeps up with the files.\<close>

lemma stage_stages:
  assumes "disk_ok d" "locked d = {}" "granted d" "staged_ok (staged_round_crash_dir lab rnd) d"
  shows "\<exists>d'. stage_current_round_crashes lab rnd d = Some d' \<and> disk_ok d' \<and> changes [staged_round_crash_dir lab rnd] d d' \<and>
    staged_ok (staged_round_crash_dir lab rnd) d' \<and>
    names_in {''manifest.txt''} d' (staged_round_crash_dir lab rnd) =
      names_in {''manifest.txt''} d (staged_round_crash_dir lab rnd) \<union>
      (\<lambda>e. eval_file_fingerprint d (source_path e)) ` set (collect_round_crash_entries lab d)"
proof (cases "collect_round_crash_entries lab d = []")
  case True
  then show ?thesis using assms by (simp add: stage_current_round_crashes_def)
next
  case False
  define dir where "dir = staged_round_crash_dir lab rnd"
  define m where "m = dir @ [''manifest.txt'']"
  define es where "es = collect_round_crash_entries lab d"
  note st = assms(4) [folded dir_def, unfolded staged_ok_def, folded m_def]
  have c: "create_directories dir d = Some d" using assms(1) st by (simp add: create_directories_id keyed_def)
  obtain seen' app d2 where f: "fold (stage_crash dir) es (names_in {''manifest.txt''} d dir, [], d) = (seen', app, d2)" by (metis prod_cases3)
  have r: "\<forall>e \<in> set es. is_regular_file d (source_path e) \<and> \<not> inside dir (source_path e)"
    using crash_entry [OF _ assms(1)] crash_not_inside [OF _ assms(1)] by (auto simp: es_def dir_def staged_round_crash_dir_def)
  have k: "keyed {''manifest.txt''} d dir" using st by blast
  note s = stage_fold [OF f assms(2,3) k refl r]
  have d2: "locked d2 = {}" "granted d2" "disk_ok d2" using s assms(1-3) by (auto simp: changes_def granted_def)
  obtain ok d' where w: "append_seen_fingerprints m app d2 = (ok, d')" by fastforce
  have m2: "manifest_ok d2 m" "load_seen_fingerprints d2 m = Some (names_in {''manifest.txt''} d dir)"
    using manifest_node [of d2 m d] s st d2(1) assms(2) by (auto simp: m_def)
  have dir2: "is_directory d2 dir" using s by (auto simp: keyed_def)
  have g: "ok \<and> changes [m] d2 d' \<and> (\<forall>q. q \<noteq> m \<longrightarrow> node_at d' q = node_at d2 q)"
  proof (cases "app = []")
    case True
    then show ?thesis using w by (simp add: append_seen_fingerprints_def)
  next
    case False
    define c where "c = (case node_at d2 m of Some (File c) \<Rightarrow> c | _ \<Rightarrow> [])"
    have w': "write_file m (c @ unlines app) d2 = (ok, d')" using w False by (simp add: append_seen_fingerprints_def c_def)
    show ?thesis using write_file_spec [OF w'] m2(1) dir2 d2(2) by (auto simp: manifest_ok_def granted_def m_def)
  qed
  have ch: "changes [dir] d d'" using s g changes_wider [of dir "[''manifest.txt'']" d2 d'] changes_trans by (auto simp: m_def)
  have pl: "\<forall>l \<in> set app. plain_line l" and ap: "seen' = names_in {''manifest.txt''} d dir \<union> set app" using s by auto
  have ld: "load_seen_fingerprints d' m = Some seen' \<and> manifest_ok d' m"
    using append_seen_load [of m app d2 d', OF _ m2(1) _ pl m2(2)] w g d2(1) ap by auto
  have "names_in {''manifest.txt''} d' dir = names_in {''manifest.txt''} d2 dir" using g by (auto simp: names_in_def m_def)
  then have nm: "names_in {''manifest.txt''} d' dir = seen'" using s by blast
  have l': "locked d' = {}" using ch assms(2) by (simp add: changes_def)
  have "contents d' q = contents d2 q" if "q \<noteq> m" for q using that g d2(1) l' by (simp add: contents_def split: option.split node.split)
  then have "keyed {''manifest.txt''} d' dir" using s g unfolding keyed_def by (auto simp: m_def is_directory_def)
  then have so: "staged_ok dir d'" using ld nm by (simp add: staged_ok_def m_def)
  have "stage_current_round_crashes lab rnd d = Some d'"
    using False c f w st by (simp add: stage_current_round_crashes_def dir_def [symmetric] m_def [symmetric] es_def [symmetric])
  then show ?thesis using so ch changes_ok [OF ch assms(1)] nm s by (auto simp: dir_def es_def)
qed

lemma clean_staged:
  assumes "ensure_clean_directory (staged_round_crash_dir lab rnd) d = Some d'" "disk_ok d"
  shows "staged_ok (staged_round_crash_dir lab rnd) d' \<and> names_in {''manifest.txt''} d' (staged_round_crash_dir lab rnd) = {}"
proof -
  have "staged_round_crash_dir lab rnd \<noteq> []" by (simp add: staged_round_crash_dir_def)
  from ensure_clean_ok [OF assms(1) this] assms(2) show ?thesis
    by (auto simp: staged_ok_def keyed_def names_in_def manifest_ok_def load_seen_fingerprints_def is_directory_def)
qed

section \<open>Export\<close>

lemma stream_line_append:
  assumes "stream_line p line (length t, d) = (pos, d')" "node_at d p = Some (File t)" "p \<noteq> []"
  shows "pos = length (t @ unlines [line]) \<and> changes [p] d d' \<and> (\<forall>q. node_at d' q = (if q = p then Some (File (t @ unlines [line])) else node_at d q))"
proof -
  have w: "write_at (length t) (line @ [newline]) t = t @ unlines [line]" by (simp add: write_at_def unlines_def)
  have d': "pos = length t + length line + 1" "d' = put p (File (t @ unlines [line])) d" using assms(1,2) by (auto simp: stream_line_def w)
  have "disk_ok d \<longrightarrow> disk_ok d'"
    using assms(2,3) disk_ok_node [of d p] by (auto simp: d'(2) is_directory_def intro!: disk_ok_put)
  then have "changes [p] d d'" using assms(3) by (auto simp: d'(2) changes_def node_at_put inside_def)
  then show ?thesis using assms(3) by (simp add: d' node_at_put unlines_def)
qed

text \<open>An archive in the making: no folders in it, and the manifest holds what was written to the stream.\<close>

definition archiving :: "path \<Rightarrow> string \<Rightarrow> disk \<Rightarrow> bool" where
  "archiving arch t d \<longleftrightarrow> is_directory d arch \<and> (\<forall>n. \<not> is_directory d (arch @ [n])) \<and> node_at d (arch @ [''manifest.txt'']) = Some (File t)"

lemma export_crash_step:
  assumes "export_crash arch (dir @ [n]) (length t, d) = (pos, d')" "archiving arch t d" "locked d = {}" "granted d" "n \<noteq> ''manifest.txt''"
    "contents d (dir @ [n]) = Some c" "\<not> inside arch (dir @ [n])"
  shows "\<exists>t'. t' = t @ unlines [n @ '' '' @ show_nat (unat (fnv c))] \<and> pos = length t' \<and> archiving arch t' d' \<and> changes [arch] d d' \<and>
    (\<forall>q. q \<noteq> ''manifest.txt'' \<longrightarrow> node_at d' (arch @ [q]) = (if q = n then Some (File c) else node_at d (arch @ [q])))"
proof -
  define t' where "t' = t @ unlines [n @ '' '' @ show_nat (unat (fnv c))]"
  define m where "m = arch @ [''manifest.txt'']"
  obtain ok d1 where k: "copy_file (dir @ [n]) (arch @ [n]) d = (ok, d1)" by fastforce
  note sp = copy_file_spec [OF k]
  have "dir @ [n] \<noteq> arch @ [n]" using assms(7) by (auto simp: inside_def)
  then have ok: "ok" using sp assms(2,4,6) by (auto simp: archiving_def granted_def)
  have n1: "node_at d1 q = (if q = arch @ [n] then Some (File c) else node_at d q)" for q using sp ok assms(6) by auto
  have s: "stream_line m (n @ '' '' @ show_nat (unat (fnv c))) (length t, d1) = (pos, d')"
    using assms(1,5) ok contents_regular [OF assms(6)] by (simp add: export_crash_def k m_def fingerprint_contents [OF assms(6)])
  have nm: "node_at d1 m = Some (File t)" using assms(2,5) by (simp add: n1 m_def archiving_def)
  note w = stream_line_append [OF s nm, folded t'_def]
  have m: "m \<noteq> []" by (simp add: m_def)
  have n': "node_at d' q = (if q = m then Some (File t') else if q = arch @ [n] then Some (File c) else node_at d q)" for q
    using w m by (simp add: n1)
  have "changes [arch] d d'"
    using changes_trans [OF changes_wider [OF conjunct1 [OF sp]]] w m changes_wider [of arch "[''manifest.txt'']" d1 d'] by (simp add: m_def)
  moreover have "archiving arch t' d'" using assms(2) by (auto simp: archiving_def is_directory_def n' m_def)
  ultimately show ?thesis using w m by (auto simp: t'_def n' m_def)
qed

lemma export_fold:
  assumes "fold (export_crash arch) (map (\<lambda>n. dir @ [n]) ns) (length t, d) = (pos, d')" "archiving arch t d" "locked d = {}" "granted d"
    "\<forall>n \<in> set ns. \<exists>c. contents d (dir @ [n]) = Some c" "\<forall>n. \<not> inside arch (dir @ [n])" "distinct ns"
  shows "archiving arch (t @ unlines (map (\<lambda>n. n @ '' '' @ eval_file_fingerprint d (dir @ [n])) (filter (\<lambda>n. n \<noteq> ''manifest.txt'') ns))) d' \<and>
    changes [arch] d d' \<and>
    (\<forall>n. n \<noteq> ''manifest.txt'' \<longrightarrow> node_at d' (arch @ [n]) = (if n \<in> set ns then map_option File (contents d (dir @ [n])) else node_at d (arch @ [n])))"
  using assms
proof (induction ns arbitrary: t d)
  case Nil
  then show ?case by (simp add: unlines_def)
next
  case (Cons n ns)
  obtain c where c: "contents d (dir @ [n]) = Some c" using Cons.prems(5) by auto
  obtain pos1 d1 where m: "export_crash arch (dir @ [n]) (length t, d) = (pos1, d1)" by fastforce
  show ?case
  proof (cases "n = ''manifest.txt''")
    case True
    then have "pos1 = length t" "d1 = d" using m by (auto simp: export_crash_def Let_def split: prod.splits)
    then have "fold (export_crash arch) (map (\<lambda>n. dir @ [n]) ns) (length t, d) = (pos, d')" using Cons.prems(1) m by simp
    from Cons.IH [OF this Cons.prems(2-4)] Cons.prems(5-7) True show ?thesis by auto
  next
    case False
    have "\<not> inside arch (dir @ [n])" using Cons.prems(6) by simp
    from export_crash_step [OF m Cons.prems(2-4) False c this] obtain t' where
      t': "t' = t @ unlines [n @ '' '' @ show_nat (unat (fnv c))]" "pos1 = length t'" "archiving arch t' d1" and ch: "changes [arch] d d1"
      and n1: "\<forall>q. q \<noteq> ''manifest.txt'' \<longrightarrow> node_at d1 (arch @ [q]) = (if q = n then Some (File c) else node_at d (arch @ [q]))" by blast
    have o: "contents d1 (dir @ [q]) = contents d (dir @ [q])" "eval_file_fingerprint d1 (dir @ [q]) = eval_file_fingerprint d (dir @ [q])" for q
      using changes_contents [OF ch] changes_fingerprint [OF ch] Cons.prems(6) by simp_all
    have f: "fold (export_crash arch) (map (\<lambda>n. dir @ [n]) ns) (length t', d1) = (pos, d')" using Cons.prems(1) m t'(2) by simp
    have l: "locked d1 = {}" "granted d1" using ch Cons.prems(3,4) by (simp_all add: changes_def granted_def)
    have r: "\<forall>n \<in> set ns. \<exists>c. contents d1 (dir @ [n]) = Some c" "distinct ns" using Cons.prems(5,7) o by simp_all
    note IH = Cons.IH [OF f t'(3) l r(1) Cons.prems(6) r(2), unfolded o]
    have "changes [arch] d d'" using changes_trans [OF ch] IH by blast
    then show ?thesis using IH n1 c Cons.prems(7) False by (auto simp: t'(1) unlines_def fingerprint_contents [OF c])
  qed
qed

text \<open>What is staged is exported, under its name, and listed in the manifest of the archive.\<close>

lemma export_exports:
  assumes "export_staged_round_crashes lab rnd d = Some d'" "disk_ok d" "locked d = {}" "granted d"
    "staged_ok (staged_round_crash_dir lab rnd) d" "n \<in> names_in {''manifest.txt''} d (staged_round_crash_dir lab rnd)"
  shows "contents d' [''saved_crashes'', sanitize_eval_label lab, round_dir rnd, n] = contents d (staged_round_crash_dir lab rnd @ [n])"
proof -
  define dir where "dir = staged_round_crash_dir lab rnd"
  define arch where "arch = [''saved_crashes'', sanitize_eval_label lab, round_dir rnd]"
  have dir: "is_directory d dir" using assms(5) by (simp add: staged_ok_def keyed_def dir_def)
  obtain d1 ok d2 where e: "ensure_clean_directory arch d = Some d1" and w: "write_file (arch @ [''manifest.txt'']) [] d1 = (ok, d2)"
    and d': "d' = (if \<not> ok then d2 else snd (fold (export_crash arch) (directory_iterator d2 dir) (0, d2)))"
    using assms(1) dir by (auto simp: export_staged_round_crashes_def dir_def [symmetric] arch_def [symmetric] Let_def split: bind_splits prod.splits)
  have ne: "arch \<noteq> []" by (simp add: arch_def)
  note c = ensure_clean_ok [OF e ne]
  note ws = write_file_spec [OF w]
  have k1: "locked d1 = {}" "granted d1" "disk_ok d1" using c assms(2-4) by (auto simp: changes_def granted_def)
  have ok: "ok" using ws c k1(2) assms(2) by (auto simp: granted_def is_directory_def)
  have a2: "archiving arch [] d2" using ws ok c assms(2) by (auto simp: archiving_def is_directory_def)
  have ch2: "changes [arch] d d2" using c ws changes_wider [of arch "[''manifest.txt'']" d1 d2] changes_trans by blast
  have k2: "locked d2 = {}" "granted d2" "disk_ok d2" using ch2 assms(2-4) by (auto simp: changes_def granted_def)
  have out: "\<not> inside arch (dir @ [q])" for q by (simp add: inside_def arch_def dir_def staged_round_crash_dir_def)
  define ns where "ns = map last (directory_iterator d2 dir)"
  have it: "directory_iterator d2 dir = map (\<lambda>n. dir @ [n]) ns"
    unfolding ns_def map_map by (rule sym, rule map_idI) (auto simp: set_directory_iterator [OF k2(3)])
  have "distinct (map (\<lambda>n. dir @ [n]) ns)" using distinct_directory_iterator [OF k2(3), of dir] by (simp add: it)
  then have di: "distinct ns" by (simp add: distinct_map)
  have sn: "set ns = {q. node_at d2 (dir @ [q]) \<noteq> None}" using set_directory_iterator [OF k2(3), of dir] unfolding it by (auto simp: set_eq_iff)
  have same: "node_at d2 (dir @ [q]) = node_at d (dir @ [q])" for q
  proof -
    have "\<not> inside (dir @ [q]) arch" by (auto simp: inside_def arch_def dir_def staged_round_crash_dir_def)
    moreover have "dir @ [q] \<noteq> arch @ [''manifest.txt'']" using out by (auto simp: inside_def)
    ultimately show ?thesis using c ws out by (metis)
  qed
  have ct: "contents d2 (dir @ [q]) = contents d (dir @ [q])" for q
    using same assms(3) k2(1) by (simp add: contents_def split: option.split node.split)
  have all: "\<exists>c. contents d2 (dir @ [q]) = Some c" if "q \<in> set ns" for q
  proof (cases "q = ''manifest.txt''")
    case True
    then show ?thesis using that same assms(5) k2(1)
      by (cases "node_at d2 (dir @ [q])") (auto simp: sn staged_ok_def manifest_ok_def is_directory_def contents_def dir_def split: node.splits)
  next
    case False
    then have "q \<in> names_in {''manifest.txt''} d dir" using that by (simp add: sn same names_in_def)
    then show ?thesis using assms(5) [folded dir_def] unfolding ct staged_ok_def keyed_def names_in_def by blast
  qed
  obtain pos where f: "fold (export_crash arch) (map (\<lambda>n. dir @ [n]) ns) (length ([] :: string), d2) = (pos, d')"
    using d' ok it by (cases "fold (export_crash arch) (directory_iterator d2 dir) (0, d2)") auto
  have n: "n \<in> set ns" "n \<noteq> ''manifest.txt''" using assms(6) [folded dir_def] by (auto simp: sn same names_in_def)
  note x = export_fold [OF f a2 k2(1,2) _ _ di]
  have "archiving arch (unlines (map (\<lambda>n. n @ '' '' @ eval_file_fingerprint d2 (dir @ [n])) (filter (\<lambda>n. n \<noteq> ''manifest.txt'') ns))) d'"
    and "changes [arch] d2 d'" and "node_at d' (arch @ [n]) = map_option File (contents d2 (dir @ [n]))"
    using x all out n by auto
  then show ?thesis
    using all [OF n(1)] k2(1) ct by (auto simp: changes_def contents_def [of d'] arch_def dir_def)
qed

text \<open>Whatever the fuzzers do between staging and export, as long as they leave the staging folder alone.\<close>

lemma staged_ok_frame:
  assumes "\<forall>q. inside dir q \<longrightarrow> node_at d' q = node_at d q" "locked d = {}" "locked d' = {}" "staged_ok dir d"
  shows "staged_ok dir d' \<and> names_in X d' dir = names_in X d dir \<and> (\<forall>n. contents d' (dir @ [n]) = contents d (dir @ [n]))"
proof -
  have n: "node_at d' (dir @ [n]) = node_at d (dir @ [n])" "node_at d' dir = node_at d dir" for n using assms(1) by simp_all
  have c: "contents d' (dir @ [n]) = contents d (dir @ [n])" for n using n(1) assms(2,3) by (simp add: contents_def split: option.split node.split)
  have k: "keyed Y d' dir = keyed Y d dir" "names_in Y d' dir = names_in Y d dir" for Y by (simp_all add: keyed_def names_in_def is_directory_def n c)
  then show ?thesis using assms(2-4) manifest_node [OF n(1)] c by (simp add: staged_ok_def)
qed

lemma crashes_saved:
  fixes lab :: string and rnd :: nat
  defines "dir \<equiv> staged_round_crash_dir lab rnd"
  assumes "disk_ok d" "locked d = {}" "granted d" "staged_ok dir d"
  shows "\<exists>d1. stage_current_round_crashes lab rnd d = Some d1 \<and>
    (\<forall>d2. disk_ok d2 \<longrightarrow> locked d2 = {} \<longrightarrow> granted d2 \<longrightarrow> (\<forall>q. inside dir q \<longrightarrow> node_at d2 q = node_at d1 q) \<longrightarrow>
       no_file d2 [''saved_crashes''] \<longrightarrow> no_file d2 [''saved_crashes'', sanitize_eval_label lab] \<longrightarrow>
       (\<exists>d3. export_staged_round_crashes lab rnd d2 = Some d3 \<and>
         (\<forall>n \<in> names_in {''manifest.txt''} d dir \<union> (\<lambda>e. eval_file_fingerprint d (source_path e)) ` set (collect_round_crash_entries lab d).
            \<exists>c. contents d3 [''saved_crashes'', sanitize_eval_label lab, round_dir rnd, n] = Some c \<and> n = show_nat (unat (fnv c)))))"
proof -
  from stage_stages [OF assms(2-4), of lab rnd, folded dir_def, OF assms(5)] obtain d1 where d1: "stage_current_round_crashes lab rnd d = Some d1"
    "disk_ok d1" "changes [dir] d d1" "staged_ok dir d1"
    "names_in {''manifest.txt''} d1 dir = names_in {''manifest.txt''} d dir \<union> (\<lambda>e. eval_file_fingerprint d (source_path e)) ` set (collect_round_crash_entries lab d)"
    by blast
  have "\<exists>d3. export_staged_round_crashes lab rnd d2 = Some d3 \<and> (\<forall>n \<in> names_in {''manifest.txt''} d1 dir.
      \<exists>c. contents d3 [''saved_crashes'', sanitize_eval_label lab, round_dir rnd, n] = Some c \<and> n = show_nat (unat (fnv c)))"
    if d2: "disk_ok d2" "locked d2 = {}" "granted d2" "\<forall>q. inside dir q \<longrightarrow> node_at d2 q = node_at d1 q"
      "no_file d2 [''saved_crashes'']" "no_file d2 [''saved_crashes'', sanitize_eval_label lab]" for d2
  proof -
    have l1: "locked d1 = {}" using d1(3) assms(3) by (simp add: changes_def)
    from staged_ok_frame [OF d2(4) l1 d2(2) d1(4)] have s2: "staged_ok dir d2" "names_in {''manifest.txt''} d2 dir = names_in {''manifest.txt''} d1 dir" by blast+
    have "\<exists>d'. ensure_clean_directory [''saved_crashes'', sanitize_eval_label lab, round_dir rnd] d2 = Some d'"
      using d2(5,6) by (intro clean_directory_exists [OF d2(1)]) (auto simp: less_Suc_eq no_file_def node_at_def [of _ "[]"] numeral_2_eq_2)
    moreover have "is_directory d2 (staged_round_crash_dir lab rnd)" using s2(1) by (simp add: staged_ok_def keyed_def dir_def)
    ultimately obtain d3 where d3: "export_staged_round_crashes lab rnd d2 = Some d3"
      by (auto simp: export_staged_round_crashes_def Let_def case_prod_unfold split: bind_splits)
    have "\<exists>c. contents d3 [''saved_crashes'', sanitize_eval_label lab, round_dir rnd, n] = Some c \<and> n = show_nat (unat (fnv c))"
      if "n \<in> names_in {''manifest.txt''} d1 dir" for n
    proof -
      have n: "n \<in> names_in {''manifest.txt''} d2 dir" using that s2(2) by simp
      then obtain c where "contents d2 (dir @ [n]) = Some c" "n = show_nat (unat (fnv c))"
        using s2(1) unfolding staged_ok_def keyed_def names_in_def by blast
      then show ?thesis using export_exports [OF d3 d2(1-3) s2(1) [unfolded dir_def] n [unfolded dir_def]] by (simp add: dir_def)
    qed
    then show ?thesis using d3 by blast
  qed
  then show ?thesis using d1(1,5) by (intro exI [of _ d1]) simp
qed

end
