(* ===== verification/Legion_Options.thy ===== *)
theory Legion_Options
  imports Legion_Text
begin

text \<open>
  The command line of Legion (\<open>parse_args\<close> of \<^verbatim>\<open>src/legion/legion.cc\<close>) and the quoting of words in the commands it
  runs (\<open>shell_quote\<close>). A missing or malformed value of an option ends the process: \<^const>\<open>None\<close>.
\<close>

section \<open>Options\<close>

record options =
  to_build :: bool
  to_run :: bool
  use_aflpp :: bool
  use_libfuzzer :: bool
  use_hongg :: bool
  use_radamsa :: bool
  use_qsym :: bool
  use_afl :: bool
  use_aflfast :: bool
  use_fairfuzz :: bool
  use_angora :: bool
  use_dictionary :: bool
  run_long :: bool
  do_minimize :: bool
  compress_format :: string
  source_file :: string
  initial_seed_file :: string
  resource_unit_number :: u32
  round_number :: u32
  round_time :: u32
  eval_seed_timeout :: u32

definition no_options :: options where
  "no_options = \<lparr>to_build = False, to_run = False, use_aflpp = False, use_libfuzzer = False, use_hongg = False,
     use_radamsa = False, use_qsym = False, use_afl = False, use_aflfast = False, use_fairfuzz = False, use_angora = False,
     use_dictionary = False, run_long = False, do_minimize = False, compress_format = [], source_file = [],
     initial_seed_file = [], resource_unit_number = 0, round_number = 0, round_time = 0, eval_seed_timeout = 0\<rparr>"

text \<open>\<^verbatim>\<open>std::stoi\<close>: the number at the start of the text, within the range of \<^verbatim>\<open>int\<close>.\<close>

definition stoi :: "string \<Rightarrow> int option" where
  "stoi s =
     (let s1 = dropWhile is_space s;
          signed = (s1 \<noteq> [] \<and> hd s1 \<in> {CHR ''+'', CHR ''-''});
          ds = takeWhile is_digit (if signed then tl s1 else s1);
          v = (if signed \<and> hd s1 = CHR ''-'' then - int (digits_value ds) else int (digits_value ds))
      in if ds = [] \<or> v < - (2 ^ 31) \<or> v \<ge> 2 ^ 31 then None else Some v)"

text \<open>The options without a value; everything else is the source.\<close>

definition set_flag :: "string \<Rightarrow> options \<Rightarrow> options" where
  "set_flag arg opts =
     (if arg = ''--build'' \<or> arg = ''-b'' then opts\<lparr>to_build := True\<rparr>
      else if arg = ''-r'' then opts\<lparr>to_run := True\<rparr>
      else if arg = ''--run'' then opts\<lparr>to_run := True, run_long := True\<rparr>
      else if arg = ''-m'' then opts\<lparr>do_minimize := True\<rparr>
      else if arg = ''--aflpp'' then opts\<lparr>use_aflpp := True\<rparr>
      else if arg = ''--hongg'' then opts\<lparr>use_hongg := True\<rparr>
      else if arg = ''--libfuzzer'' then opts\<lparr>use_libfuzzer := True\<rparr>
      else if arg = ''--radamsa'' then opts\<lparr>use_radamsa := True\<rparr>
      else if arg = ''--qsym'' then opts\<lparr>use_qsym := True\<rparr>
      else if arg = ''--afl'' then opts\<lparr>use_afl := True\<rparr>
      else if arg = ''--aflfast'' then opts\<lparr>use_aflfast := True\<rparr>
      else if arg = ''--fairfuzz'' then opts\<lparr>use_fairfuzz := True\<rparr>
      else if arg = ''--angora'' then opts\<lparr>use_angora := True\<rparr>
      else if arg = ''--dict'' then opts\<lparr>use_dictionary := True\<rparr>
      else if arg = ''-zip'' \<or> arg = ''-gz'' then opts\<lparr>compress_format := arg\<rparr>
      else opts\<lparr>source_file := arg\<rparr>)"

text \<open>The options that take the next argument; the numbers are converted to \<^verbatim>\<open>uint32_t\<close>.\<close>

definition set_value :: "string \<Rightarrow> string \<Rightarrow> options \<Rightarrow> options option" where
  "set_value arg v opts =
     (if arg = ''--initial'' then Some (opts\<lparr>initial_seed_file := v\<rparr>)
      else map_option (\<lambda>n.
        if arg = ''--resource'' then opts\<lparr>resource_unit_number := word_of_int n\<rparr>
        else if arg = ''--round'' then opts\<lparr>round_number := word_of_int n\<rparr>
        else if arg = ''--round-time'' then opts\<lparr>round_time := word_of_int n\<rparr>
        else opts\<lparr>eval_seed_timeout := word_of_int n\<rparr>) (stoi v))"

abbreviation value_options :: "string list" where
  "value_options \<equiv> [''--resource'', ''--round'', ''--round-time'', ''--eval-seed-timeout'', ''--initial'']"

fun parse_args :: "string list \<Rightarrow> options \<Rightarrow> options option" where
  "parse_args [] opts = Some opts"
| "parse_args [arg] opts = (if arg \<in> set value_options then None else Some (set_flag arg opts))"
| "parse_args (arg # v # args) opts =
     (if arg \<in> set value_options
      then (case set_value arg v opts of None \<Rightarrow> None | Some opts' \<Rightarrow> parse_args args opts')
      else parse_args (v # args) (set_flag arg opts))"

section \<open>Quoting\<close>

definition shell_quote :: "string \<Rightarrow> string" where
  "shell_quote v = CHR 0x27 # concat (map (\<lambda>c. if c = CHR 0x27 then [CHR 0x27, CHR 0x5C, CHR 0x27, CHR 0x27] else [c]) v) @ [CHR 0x27]"

text \<open>How a shell reads a word: text in single quotes is literal, a backslash outside of them quotes the next character, and a
  blank or the end of the text ends the word. Quotes that are not closed are an error.\<close>

fun sh_word :: "bool \<Rightarrow> string \<Rightarrow> (string \<times> string) option" where
  "sh_word True [] = None"
| "sh_word True (c # cs) = (if c = CHR 0x27 then sh_word False cs else map_option (apfst ((#) c)) (sh_word True cs))"
| "sh_word False [] = Some ([], [])"
| "sh_word False (c # cs) =
     (if c = CHR 0x27 then sh_word True cs
      else if c = CHR 0x5C then (case cs of [] \<Rightarrow> None | e # es \<Rightarrow> map_option (apfst ((#) e)) (sh_word False es))
      else if is_blank c then Some ([], c # cs)
      else map_option (apfst ((#) c)) (sh_word False cs))"

lemma sh_word_rest: "rest = [] \<or> is_blank (hd rest) \<Longrightarrow> sh_word False rest = Some ([], rest)"
  by (cases rest) (auto simp: is_blank_def)

lemma sh_word_quoted:
  "sh_word True (concat (map (\<lambda>c. if c = CHR 0x27 then [CHR 0x27, CHR 0x5C, CHR 0x27, CHR 0x27] else [c]) v) @ CHR 0x27 # rest) =
     map_option (apfst ((@) v)) (sh_word False rest)"
proof (induction v)
  case Nil
  then show ?case by (simp add: apfst_def map_prod_def option.map_ident)
next
  case (Cons c v)
  then show ?case by (cases "sh_word False rest") (auto simp: apfst_def map_prod_def)
qed

lemma shell_quote_word:
  assumes "rest = [] \<or> is_blank (hd rest)"
  shows "sh_word False (shell_quote v @ rest) = Some (v, rest)"
  using sh_word_quoted [of v rest] sh_word_rest [OF assms] by (simp add: shell_quote_def)

section \<open>The options are independent\<close>

text \<open>A command line that asks for given options.\<close>

definition flag_arguments :: "options \<Rightarrow> string list" where
  "flag_arguments opts =
     concat (map (\<lambda>(b, arg). if b then [arg] else [])
       [(to_build opts, ''--build''), (to_run opts \<and> \<not> run_long opts, ''-r''), (run_long opts, ''--run''), (do_minimize opts, ''-m''),
        (use_aflpp opts, ''--aflpp''), (use_hongg opts, ''--hongg''), (use_libfuzzer opts, ''--libfuzzer''),
        (use_radamsa opts, ''--radamsa''), (use_qsym opts, ''--qsym''), (use_afl opts, ''--afl''), (use_aflfast opts, ''--aflfast''),
        (use_fairfuzz opts, ''--fairfuzz''), (use_angora opts, ''--angora''), (use_dictionary opts, ''--dict''),
        (compress_format opts \<noteq> [], compress_format opts), (source_file opts \<noteq> [], source_file opts)])"

definition arguments :: "options \<Rightarrow> string list" where
  "arguments opts = flag_arguments opts @
     [''--resource'', show_nat (unat (resource_unit_number opts)), ''--round'', show_nat (unat (round_number opts)),
      ''--round-time'', show_nat (unat (round_time opts)), ''--eval-seed-timeout'', show_nat (unat (eval_seed_timeout opts)),
      ''--initial'', initial_seed_file opts]"

text \<open>The names of options cannot be the source; the long run is a run, and numbers are those of \<^verbatim>\<open>int\<close>.\<close>

abbreviation flag_options :: "string list" where
  "flag_options \<equiv> [''--build'', ''-b'', ''-r'', ''--run'', ''-m'', ''--aflpp'', ''--hongg'', ''--libfuzzer'', ''--radamsa'', ''--qsym'',
     ''--afl'', ''--aflfast'', ''--fairfuzz'', ''--angora'', ''--dict'', ''-zip'', ''-gz'']"

definition flags_ok :: "options \<Rightarrow> bool" where
  "flags_ok opts \<longleftrightarrow> (run_long opts \<longrightarrow> to_run opts) \<and> compress_format opts \<in> {[], ''-zip'', ''-gz''} \<and>
     source_file opts \<notin> set (flag_options @ value_options) \<and>
     unat (resource_unit_number opts) < 2 ^ 31 \<and> unat (round_number opts) < 2 ^ 31 \<and> unat (round_time opts) < 2 ^ 31 \<and>
     unat (eval_seed_timeout opts) < 2 ^ 31"

lemma parse_args_flag: "arg \<notin> set value_options \<Longrightarrow> parse_args (arg # args) opts = parse_args args (set_flag arg opts)"
  by (cases args) auto

lemma parse_args_flags: "\<forall>a \<in> set as. a \<notin> set value_options \<Longrightarrow> parse_args (as @ args) opts = parse_args args (fold set_flag as opts)"
  by (induction as arbitrary: opts) (simp_all add: parse_args_flag del: parse_args.simps)

lemma stoi_show: "n < 2 ^ 31 \<Longrightarrow> stoi (show_nat n) = Some (int n)"
proof -
  assume n: "n < 2 ^ 31"
  obtain c cs where c: "show_nat n = c # cs" using show_nat_digits [of n] by (cases "show_nat n") auto
  have d: "\<forall>c \<in> set (show_nat n). is_digit c" using show_nat_digits by blast
  then have s: "dropWhile is_space (show_nat n) = show_nat n" "hd (show_nat n) \<notin> {CHR ''+'', CHR ''-''}"
    using digit_facts [of c] by (simp_all add: c)
  have t: "takeWhile is_digit (show_nat n) = show_nat n" using d by (simp add: takeWhile_eq_all_conv)
  show ?thesis using n s(2) show_nat_digits [of n] by (simp add: stoi_def s(1) t Let_def digits_value_show_nat)
qed

lemma word_of_shown: "(word_of_int (int (unat x)) :: u32) = x"
  by simp

lemma parse_args_values:
  assumes "unat a < 2 ^ 31" "unat b < 2 ^ 31" "unat c < 2 ^ 31" "unat e < 2 ^ 31"
  shows "parse_args [''--resource'', show_nat (unat a), ''--round'', show_nat (unat b), ''--round-time'', show_nat (unat c),
      ''--eval-seed-timeout'', show_nat (unat e), ''--initial'', f] opts =
    Some (opts\<lparr>resource_unit_number := a, round_number := b, round_time := c, eval_seed_timeout := e, initial_seed_file := f\<rparr>)"
  by (simp add: set_value_def stoi_show [OF assms(1)] stoi_show [OF assms(2)] stoi_show [OF assms(3)] stoi_show [OF assms(4)] word_of_shown)

lemma no_options_simps [simp]:
  "\<not> to_build no_options" "\<not> to_run no_options" "\<not> use_aflpp no_options" "\<not> use_libfuzzer no_options" "\<not> use_hongg no_options" "\<not> use_radamsa no_options" "\<not> use_qsym no_options" "\<not> use_afl no_options" "\<not> use_aflfast no_options" "\<not> use_fairfuzz no_options" "\<not> use_angora no_options" "\<not> use_dictionary no_options" "\<not> run_long no_options" "\<not> do_minimize no_options"
  "compress_format no_options = []" "source_file no_options = []" "initial_seed_file no_options = []" "resource_unit_number no_options = 0" "round_number no_options = 0" "round_time no_options = 0" "eval_seed_timeout no_options = 0"
  by (simp_all add: no_options_def)

lemma set_flag_source: "a \<notin> set flag_options \<Longrightarrow> set_flag a opts = opts\<lparr>source_file := a\<rparr>"
  by (simp add: set_flag_def)

lemma fold_flags:
  "fold set_flag (if b then [''--build''] else []) opts = to_build_update (\<lambda>x. x \<or> b) opts"
  "fold set_flag (if b then [''-r''] else []) opts = to_run_update (\<lambda>x. x \<or> b) opts"
  "fold set_flag (if b then [''--run''] else []) opts = run_long_update (\<lambda>x. x \<or> b) (to_run_update (\<lambda>x. x \<or> b) opts)"
  "fold set_flag (if b then [''-m''] else []) opts = do_minimize_update (\<lambda>x. x \<or> b) opts"
  "fold set_flag (if b then [''--aflpp''] else []) opts = use_aflpp_update (\<lambda>x. x \<or> b) opts"
  "fold set_flag (if b then [''--hongg''] else []) opts = use_hongg_update (\<lambda>x. x \<or> b) opts"
  "fold set_flag (if b then [''--libfuzzer''] else []) opts = use_libfuzzer_update (\<lambda>x. x \<or> b) opts"
  "fold set_flag (if b then [''--radamsa''] else []) opts = use_radamsa_update (\<lambda>x. x \<or> b) opts"
  "fold set_flag (if b then [''--qsym''] else []) opts = use_qsym_update (\<lambda>x. x \<or> b) opts"
  "fold set_flag (if b then [''--afl''] else []) opts = use_afl_update (\<lambda>x. x \<or> b) opts"
  "fold set_flag (if b then [''--aflfast''] else []) opts = use_aflfast_update (\<lambda>x. x \<or> b) opts"
  "fold set_flag (if b then [''--fairfuzz''] else []) opts = use_fairfuzz_update (\<lambda>x. x \<or> b) opts"
  "fold set_flag (if b then [''--angora''] else []) opts = use_angora_update (\<lambda>x. x \<or> b) opts"
  "fold set_flag (if b then [''--dict''] else []) opts = use_dictionary_update (\<lambda>x. x \<or> b) opts"
  by (simp_all add: set_flag_def)

lemma fold_compress:
  "z \<in> {[], ''-zip'', ''-gz''} \<Longrightarrow> compress_format opts = [] \<Longrightarrow> fold set_flag (if z \<noteq> [] then [z] else []) opts = opts\<lparr>compress_format := z\<rparr>"
  by (elim insertE emptyE; simp add: set_flag_def)

lemma fold_source:
  "z \<notin> set flag_options \<Longrightarrow> source_file opts = [] \<Longrightarrow> fold set_flag (if z \<noteq> [] then [z] else []) opts = opts\<lparr>source_file := z\<rparr>"
  by (simp add: set_flag_source)

lemma fold_arguments:
  assumes "flags_ok opts"
  shows "fold set_flag (flag_arguments opts) no_options =
    opts\<lparr>resource_unit_number := 0, round_number := 0, round_time := 0, eval_seed_timeout := 0, initial_seed_file := []\<rparr>"
proof -
  have c: "fold set_flag (if compress_format opts \<noteq> [] then [compress_format opts] else []) x = x\<lparr>compress_format := compress_format opts\<rparr>"
    if "compress_format x = []" for x by (rule fold_compress [OF _ that]) (use assms in \<open>simp add: flags_ok_def\<close>)
  have f: "fold set_flag (if source_file opts \<noteq> [] then [source_file opts] else []) x = x\<lparr>source_file := source_file opts\<rparr>"
    if "source_file x = []" for x by (rule fold_source [OF _ that]) (use assms in \<open>simp add: flags_ok_def\<close>)
  have r: "(to_run opts \<and> \<not> run_long opts \<or> run_long opts) = to_run opts" using assms by (auto simp: flags_ok_def)
  have "fold set_flag (flag_arguments opts) no_options = no_options\<lparr>to_build := to_build opts,
      to_run := to_run opts \<and> \<not> run_long opts \<or> run_long opts, run_long := run_long opts, do_minimize := do_minimize opts, use_aflpp := use_aflpp opts,
      use_hongg := use_hongg opts, use_libfuzzer := use_libfuzzer opts, use_radamsa := use_radamsa opts, use_qsym := use_qsym opts,
      use_afl := use_afl opts, use_aflfast := use_aflfast opts, use_fairfuzz := use_fairfuzz opts, use_angora := use_angora opts,
      use_dictionary := use_dictionary opts, compress_format := compress_format opts, source_file := source_file opts\<rparr>"
    unfolding flag_arguments_def
    by (simp only: list.map concat.simps prod.case fold_append comp_apply append_Nil2 fold_flags) (simp add: c f)
  also have "\<dots> = opts\<lparr>resource_unit_number := 0, round_number := 0, round_time := 0, eval_seed_timeout := 0, initial_seed_file := []\<rparr>"
    unfolding r by (cases opts) (simp only: no_options_def options.update_convs options.select_convs)
  finally show ?thesis .
qed

lemma set_asked: "set (concat (map (\<lambda>(b, a). if b then [a] else []) xs)) \<subseteq> snd ` set xs"
  by (induction xs) (auto split: if_splits)

lemma flag_arguments_flags:
  assumes "flags_ok opts" "a \<in> set (flag_arguments opts)"
  shows "a \<notin> set value_options"
proof -
  have "a \<in> set flag_options \<union> {compress_format opts, source_file opts}"
    using subsetD [OF set_asked assms(2) [unfolded flag_arguments_def]] by simp satx
  then consider "a \<in> set flag_options" | "a \<in> {compress_format opts, source_file opts}" by (rule UnE)
  then show ?thesis
  proof cases
    case 1
    have "set flag_options \<inter> set value_options = {}" by code_simp
    then show ?thesis using 1 by blast
  next
    case 2
    have "compress_format opts \<in> {[], ''-zip'', ''-gz''}" using assms(1) by (simp add: flags_ok_def)
    then have "compress_format opts \<notin> set value_options" by (elim insertE emptyE; simp)
    moreover have "source_file opts \<notin> set value_options" using assms(1) unfolding flags_ok_def set_append by blast
    ultimately show ?thesis using 2 by blast
  qed
qed

lemma parse_args_arguments:
  assumes "flags_ok opts"
  shows "parse_args (arguments opts) no_options = Some opts"
proof -
  have "\<forall>a \<in> set (flag_arguments opts). a \<notin> set value_options" using flag_arguments_flags [OF assms] by blast
  then show ?thesis
    using assms by (simp add: arguments_def parse_args_flags fold_arguments parse_args_values flags_ok_def del: parse_args.simps)
qed

end
