(* ===== verification/Legion_Sync.thy ===== *)
theory Legion_Sync
  imports Legion_Files Legion_Options
begin

text \<open>
  Evaluation and synchronisation of the corpora of a round, from \<^verbatim>\<open>src/legion/legion.cc\<close>: the outputs of the workers are
  collected, the seeds that are new are singled out and replayed, and those that contribute to the metrics are pulled
  into the global pool. The replay tool, the scripts and the copying commands are run by \<open>sys\<close>.
\<close>

section \<open>Outputs of the workers\<close>

definition should_snapshot_afl_like_output_dir :: "path \<Rightarrow> bool" where
  "should_snapshot_afl_like_output_dir p \<longleftrightarrow>
     \<not> (last p = ''legion_sync'' \<or> last p = [] \<or> hd (last p) = CHR ''.'') \<and>
     (starts_with ''fuzzer'' (last p) \<or> starts_with ''afl-master'' (last p) \<or> starts_with ''afl-slave'' (last p) \<or> starts_with ''qsym'' (last p))"

definition snapshot_queues :: "path \<Rightarrow> path \<Rightarrow> disk \<Rightarrow> disk option" where
  "snapshot_queues output_dir dst d =
     (if is_directory d output_dir
      then foldM (\<lambda>p d. if is_directory d p \<and> should_snapshot_afl_like_output_dir p then copy_immediate_files_to_dir (p @ [''queue'']) dst d else Some d)
             (directory_iterator d output_dir) d
      else Some d)"

definition snapshot_runtime_outputs_for_label :: "string \<Rightarrow> path \<Rightarrow> disk \<Rightarrow> disk option" where
  "snapshot_runtime_outputs_for_label lab dst d0 = do {
     d \<leftarrow> create_directories dst d0;
     (if lab = ''AFL++'' then snapshot_queues [''run_aflpp'', ''output''] dst d
      else if lab = ''AFL'' then snapshot_queues [''run_afl'', ''output''] dst d
      else if lab = ''AFLFast'' then snapshot_queues [''run_aflfast'', ''output''] dst d
      else if lab = ''FairFuzz'' then snapshot_queues [''run_fairfuzz'', ''output''] dst d
      else if lab = ''QSYM'' then snapshot_queues [''run_qsym'', ''output''] dst d
      else if lab = ''Angora''
      then do { d1 \<leftarrow> copy_immediate_files_to_dir [''run_angora'', ''output'', ''queue''] dst d;
                snapshot_queues [''run_angora'', ''output''] dst d1 }
      else if lab = ''LibFuzzer'' then copy_immediate_files_to_dir [''run_lib'', ''output'', ''queue''] dst d
      else if lab = ''Radamsa'' then copy_immediate_files_to_dir [''run_radamsa'', ''output''] dst d
      else if lab = ''HonggFuzz'' then copy_recursive_files_to_dir [''run_hongg'', ''output''] dst d
      else Some d) }"

definition collect_active_round_outputs :: "string \<Rightarrow> path \<Rightarrow> path \<Rightarrow> disk \<Rightarrow> disk option" where
  "collect_active_round_outputs lab live accum d = do {
     d1 \<leftarrow> create_directories live d;
     d2 \<leftarrow> snapshot_runtime_outputs_for_label lab live d1;
     merge_seed_folder_into_accum live accum d2 }"

section \<open>Inputs of the fuzzers\<close>

definition GLOBAL_POOL_NAME :: string where "GLOBAL_POOL_NAME = ''global''"
definition INITIAL_POOL_NAME :: string where "INITIAL_POOL_NAME = ''initial''"
definition GLOBAL_CMIN_INPUT_POOL_NAME :: string where "GLOBAL_CMIN_INPUT_POOL_NAME = ''.global_cmin_input''"
definition FUZZER_INPUT_SNAPSHOT_ROOT :: string where "FUZZER_INPUT_SNAPSHOT_ROOT = ''.fuzzer_inputs''"

definition current_global_input_pool_for_fuzzers :: "options \<Rightarrow> disk \<Rightarrow> string" where
  "current_global_input_pool_for_fuzzers opts d =
     (if do_minimize opts \<and> node_at d [GLOBAL_CMIN_INPUT_POOL_NAME] \<noteq> None then GLOBAL_CMIN_INPUT_POOL_NAME else GLOBAL_POOL_NAME)"

definition prepare_fuzzer_initial_snapshot :: "options \<Rightarrow> string \<Rightarrow> string \<Rightarrow> string \<Rightarrow> nat \<Rightarrow> disk \<Rightarrow> (path \<times> disk) option" where
  "prepare_fuzzer_initial_snapshot opts lab accum group_mode worker_index d = do {
     let snapshot_dir = [FUZZER_INPUT_SNAPSHOT_ROOT, sanitize_eval_label lab @ ''_'' @ accum @ ''_'' @ group_mode @ ''_'' @ show_nat worker_index];
     d1 \<leftarrow> ensure_clean_directory snapshot_dir d;
     d2 \<leftarrow> copy_immediate_files_to_dir [current_global_input_pool_for_fuzzers opts d1] snapshot_dir d1;
     d3 \<leftarrow> copy_immediate_files_to_dir [accum] snapshot_dir d2;
     Some (snapshot_dir, d3) }"

definition runtime_dir_for_label :: "string \<Rightarrow> string" where
  "runtime_dir_for_label lab =
     (if lab = ''AFL++'' then ''run_aflpp'' else if lab = ''AFL'' then ''run_afl'' else if lab = ''AFLFast'' then ''run_aflfast''
      else if lab = ''FairFuzz'' then ''run_fairfuzz'' else if lab = ''QSYM'' then ''run_qsym'' else if lab = ''LibFuzzer'' then ''run_lib''
      else if lab = ''Radamsa'' then ''run_radamsa'' else [])"

definition directory_has_regular_file :: "disk \<Rightarrow> path \<Rightarrow> bool" where
  "directory_has_regular_file d p \<longleftrightarrow> is_directory d p \<and> (\<exists>q \<in> set (directory_iterator d p). is_regular_file d q)"

definition prepare_direct_runtime_dir :: "string \<Rightarrow> path \<Rightarrow> bool \<Rightarrow> disk \<Rightarrow> (bool \<times> disk) option" where
  "prepare_direct_runtime_dir lab snapshot_dir clean_runtime d =
     (let run_dir = [runtime_dir_for_label lab] in
      if runtime_dir_for_label lab = [] then Some (False, d)
      else do {
        d1 \<leftarrow> (if clean_runtime then ensure_clean_directory run_dir d else Some d);
        d2 \<leftarrow> create_directories (run_dir @ [''input'']) d1;
        d3 \<leftarrow> create_directories (run_dir @ [''output'']) d2;
        d4 \<leftarrow> (if lab = ''LibFuzzer''
               then foldM create_directories [run_dir @ [''output'', ''queue''], run_dir @ [''output'', ''crashes''], run_dir @ [''output'', ''autofz'', ''queue'']] d3
               else Some d3);
        d5 \<leftarrow> copy_immediate_files_to_dir snapshot_dir (run_dir @ [''input'']) d4;
        Some (directory_has_regular_file d5 (run_dir @ [''input'']), d5) })"

section \<open>New seeds\<close>

record eval_seed_delta =
  input_dir :: path
  manifest_path :: path
  new_fingerprints :: "string list"
  total_files :: nat
  new_files :: nat

definition take_new :: "string set \<Rightarrow> string set \<Rightarrow> path \<Rightarrow> path \<Rightarrow> string set \<times> string list \<times> disk \<Rightarrow> (string set \<times> string list \<times> disk) option" where
  "take_new initial seen delta_dir sp = (\<lambda>(unique, fps, d).
     let fp = eval_file_fingerprint d sp in
     if fp \<in> initial then Some (unique, fps, d)
     else if fp \<in> unique then Some (unique, fps, d)
     else if fp \<in> seen then Some (insert fp unique, fps, d)
     else map_option (\<lambda>d1. (insert fp unique, fps @ [fp], d1)) (copy_file_or_throw sp (delta_dir @ [last sp]) d))"

text \<open>The three functions that prepare a folder of new seeds differ in the folders and the manifest they use.\<close>

definition prepare_delta :: "path \<Rightarrow> path \<Rightarrow> path \<Rightarrow> string \<Rightarrow> path \<Rightarrow> string set \<Rightarrow> disk \<Rightarrow> (bool \<times> eval_seed_delta \<times> disk) option" where
  "prepare_delta state_dir manifest delta_root name local_seed_folder initial d = do {
     d1 \<leftarrow> create_directories state_dir d;
     d2 \<leftarrow> create_directories delta_root d1;
     let delta_dir = delta_root @ [name];
     d3 \<leftarrow> ensure_clean_directory delta_dir d2;
     let delta = \<lparr>input_dir = delta_dir, manifest_path = manifest, new_fingerprints = [], total_files = 0, new_files = 0\<rparr>;
     (case load_seen_fingerprints d3 manifest of
        None \<Rightarrow> Some (False, delta, d3)
      | Some seen \<Rightarrow>
          if \<not> is_directory d3 local_seed_folder then Some (True, delta, d3)
          else do {
            (unique, fps, d4) \<leftarrow> foldM (take_new initial seen delta_dir) (seed_files d3 local_seed_folder) ({}, [], d3);
            Some (True, delta\<lparr>new_fingerprints := fps, total_files := length (seed_files d3 local_seed_folder), new_files := length fps\<rparr>, d4) }) }"

definition prepare_incremental_eval_input :: "string \<Rightarrow> nat \<Rightarrow> path \<Rightarrow> string set \<Rightarrow> disk \<Rightarrow> (bool \<times> eval_seed_delta \<times> disk) option" where
  "prepare_incremental_eval_input lab rnd =
     prepare_delta [''.eval_state''] [''.eval_state'', sanitize_eval_label lab @ ''.manifest''] [''.eval_delta''] (label_round lab rnd)"

definition prepare_incremental_sync_input :: "string \<Rightarrow> nat \<Rightarrow> path \<Rightarrow> string set \<Rightarrow> disk \<Rightarrow> (bool \<times> eval_seed_delta \<times> disk) option" where
  "prepare_incremental_sync_input lab rnd =
     prepare_delta [''.sync_state''] [''.sync_state'', label_round lab rnd @ ''.manifest''] [''.sync_delta''] (label_round lab rnd)"

definition prepare_monitor_eval_input :: "string \<Rightarrow> nat \<Rightarrow> path \<Rightarrow> string set \<Rightarrow> disk \<Rightarrow> (bool \<times> eval_seed_delta \<times> disk) option" where
  "prepare_monitor_eval_input lab rnd =
     prepare_delta [''.monitor_eval_state''] [''.monitor_eval_state'', label_round lab rnd @ ''.manifest''] [''.monitor_eval_delta''] (label_round lab rnd)"

section \<open>Evaluation\<close>

type_synonym system = "string \<Rightarrow> disk \<Rightarrow> int \<times> disk"

definition write_empty_report :: "path \<Rightarrow> disk \<Rightarrow> bool \<times> disk" where
  "write_empty_report p d = write_file p (unlines [''[EDGE]'', ''[PATH]'', ''[EDGE TO FUNC]'']) d"

definition count_regular_files :: "disk \<Rightarrow> path \<Rightarrow> nat" where
  "count_regular_files d p = (if is_directory d p then length (filter (is_regular_file d) (directory_iterator d p)) else 0)"

definition seed_timeout :: "options \<Rightarrow> string" where
  "seed_timeout opts = (if eval_seed_timeout opts > 0 then '' --seed-timeout '' @ show_nat (unat (eval_seed_timeout opts)) else [])"

definition prepare_radamsa_eval_cmin :: "system \<Rightarrow> string \<Rightarrow> path \<Rightarrow> path \<Rightarrow> disk \<Rightarrow> bool \<times> disk" where
  "prepare_radamsa_eval_cmin sys script_dir source cmin d =
     (if count_regular_files d source = 0 then (False, d)
      else let d1 = (case create_directories (butlast cmin) d of None \<Rightarrow> d | Some d' \<Rightarrow> d');
               (rc, d2) = sys (script_dir @ ''/AFL.sh'' @ '' minimize '' @ shell_quote (path_string source) @ '' '' @ shell_quote (path_string cmin)) (remove_all cmin d1)
           in if rc \<noteq> 0 \<or> count_regular_files d2 cmin = 0 then (False, remove_all cmin d2) else (True, d2))"

text \<open>The part that the evaluations of a round and of a monitor window have in common, from the prepared input on.\<close>

definition evaluate_delta :: "system \<Rightarrow> options \<Rightarrow> string \<Rightarrow> path \<Rightarrow> path option \<Rightarrow> path \<Rightarrow> path \<Rightarrow> bool \<Rightarrow> eval_seed_delta \<Rightarrow> disk \<Rightarrow> (bool \<times> disk) option" where
  "evaluate_delta sys opts script_dir local_seed_folder cmin seed_report_dir report incremental delta d = do {
     let folder = (if incremental then input_dir delta else local_seed_folder);
     let nothing = (incremental \<and> new_files delta = 0);
     let (folder', d1) =
       (case cmin of
          None \<Rightarrow> (folder, d)
        | Some cmin_dir \<Rightarrow> if nothing then (folder, d)
            else (let (minimized, d') = prepare_radamsa_eval_cmin sys script_dir folder cmin_dir d in (if minimized then cmin_dir else folder, d')));
     d2 \<leftarrow> ensure_clean_directory seed_report_dir d1;
     let command = ''build/instrumentapp '' @ path_string folder' @ '' '' @ path_string report @
       '' --seed-report-dir '' @ path_string seed_report_dir @ seed_timeout opts;
     let (rc, d3) = (if nothing then map_prod (\<lambda>ok. if ok then 0 else 1) id (write_empty_report report d2) else sys command d2);
     Some (rc = 0, if incremental \<and> rc = 0 then snd (append_seen_fingerprints (manifest_path delta) (new_fingerprints delta) d3) else d3) }"

text \<open>Only the corpora of Radamsa are minimised first.\<close>

definition radamsa_cmin :: "string \<Rightarrow> string \<Rightarrow> nat \<Rightarrow> path option" where
  "radamsa_cmin dir lab rnd = (if lab = ''Radamsa'' then Some [dir, label_round lab rnd] else None)"

definition eval_seed_report_cache_dir :: "string \<Rightarrow> nat \<Rightarrow> path" where
  "eval_seed_report_cache_dir lab rnd = [''.eval_seed_reports'', label_round lab rnd]"

definition evaluate_fuzzer_corpus :: "system \<Rightarrow> options \<Rightarrow> string \<Rightarrow> string \<Rightarrow> nat \<Rightarrow> string \<Rightarrow> string set \<Rightarrow> disk \<Rightarrow> disk option" where
  "evaluate_fuzzer_corpus sys opts script_dir lab rnd local_seed_folder initial d = do {
     (incremental, delta, d1) \<leftarrow> prepare_incremental_eval_input lab rnd [local_seed_folder] initial d;
     map_option snd (evaluate_delta sys opts script_dir [local_seed_folder] (radamsa_cmin ''.eval_cmin'' lab rnd)
       (eval_seed_report_cache_dir lab rnd) [local_seed_folder @ ''.report''] incremental delta d1) }"

definition report_path_in :: "string \<Rightarrow> string \<Rightarrow> nat \<Rightarrow> disk \<Rightarrow> (path \<times> disk) option" where
  "report_path_in report_dir lab rnd d =
     map_option (Pair [report_dir, label_round lab rnd @ ''.report'']) (create_directories [report_dir] d)"

definition monitor_report_path_for :: "string \<Rightarrow> nat \<Rightarrow> disk \<Rightarrow> (path \<times> disk) option" where
  "monitor_report_path_for = report_path_in ''.monitor_reports''"

definition round_input_baseline_report_path :: "string \<Rightarrow> nat \<Rightarrow> disk \<Rightarrow> (path \<times> disk) option" where
  "round_input_baseline_report_path = report_path_in ''.round_input_baseline''"

definition evaluate_round_input_baseline :: "system \<Rightarrow> options \<Rightarrow> string \<Rightarrow> nat \<Rightarrow> disk \<Rightarrow> (bool \<times> disk) option" where
  "evaluate_round_input_baseline sys opts lab rnd d = do {
     (report, d1) \<leftarrow> round_input_baseline_report_path lab rnd d;
     let (rc, d2) = sys (''build/instrumentapp '' @ INITIAL_POOL_NAME @ '' '' @ path_string report @ seed_timeout opts) (remove_all report d1);
     Some (if rc \<noteq> 0 then write_empty_report report d2 else (True, d2)) }"

definition evaluate_monitor_corpus :: "system \<Rightarrow> options \<Rightarrow> string \<Rightarrow> string \<Rightarrow> nat \<Rightarrow> string \<Rightarrow> string set \<Rightarrow> disk \<Rightarrow> (bool \<times> disk) option" where
  "evaluate_monitor_corpus sys opts script_dir lab rnd local_seed_folder initial d = do {
     (report, d1) \<leftarrow> monitor_report_path_for lab rnd d;
     (baseline, d2) \<leftarrow> round_input_baseline_report_path lab rnd d1;
     (incremental, delta, d3) \<leftarrow> prepare_monitor_eval_input lab rnd [local_seed_folder] initial d2;
     evaluate_delta sys opts script_dir [local_seed_folder] (radamsa_cmin ''.monitor_eval_cmin'' lab rnd)
       [''.monitor_seed_reports'', label_round lab rnd] report incremental delta d3 }"

definition finalize_round_fuzzer_outputs :: "system \<Rightarrow> options \<Rightarrow> string \<Rightarrow> string \<Rightarrow> nat \<Rightarrow> string set \<Rightarrow> disk \<Rightarrow> disk option" where
  "finalize_round_fuzzer_outputs sys opts script_dir lab rnd initial d = do {
     let local_seed_folder = lab @ show_nat rnd;
     d1 \<leftarrow> export_staged_round_crashes lab rnd d;
     d2 \<leftarrow> archive_round_new_seeds lab rnd [local_seed_folder] initial d1;
     (if run_long opts then Some d2 else evaluate_fuzzer_corpus sys opts script_dir lab rnd local_seed_folder initial d2) }"

text \<open>A fuzzer of the long mode, which runs to its end before its outputs are evaluated.\<close>

definition build_run_command :: "options \<Rightarrow> fuzzer_t \<Rightarrow> nat \<Rightarrow> nat \<Rightarrow> string \<Rightarrow> string" where
  "build_run_command opts fuzzer execution_time sched outfolder =
     script fuzzer @ '' run '' @ show_nat execution_time @ '' '' @ show_nat sched @ '' '' @ outfolder @
     (if use_dictionary opts then '' -d'' else [])"

definition fuzz_one_fuzzer :: "system \<Rightarrow> options \<Rightarrow> fuzzer_t \<Rightarrow> nat \<Rightarrow> nat \<Rightarrow> string set \<Rightarrow> disk \<Rightarrow> disk option" where
  "fuzz_one_fuzzer sys opts fuzzer sched rnd initial d = do {
     let lab = fuzzer_label fuzzer;
     let local_seed_folder = lab @ show_nat rnd;
     let d1 = snd (sys (build_run_command opts fuzzer (unat (round_time opts)) sched local_seed_folder) d);
     d2 \<leftarrow> archive_round_crash_seeds lab rnd d1;
     d3 \<leftarrow> archive_round_new_seeds lab rnd [local_seed_folder] initial d2;
     (if run_long opts then Some d3
      else do {
        (incremental, delta, d4) \<leftarrow> prepare_incremental_eval_input lab rnd [local_seed_folder] initial d3;
        map_option snd (evaluate_delta sys opts [] [local_seed_folder] None (eval_seed_report_cache_dir lab rnd)
          [local_seed_folder @ ''.report''] incremental delta d4) }) }"

section \<open>Synchronisation\<close>

definition sync_section :: "string \<Rightarrow> report_section" where
  "sync_section line =
     (if starts_with ''[EDGE]'' line then REPORT_EDGE else if starts_with ''[PATH]'' line then REPORT_PATH else REPORT_NONE)"

definition sync_line :: "string \<Rightarrow> report_section \<times> sync_seed_features \<Rightarrow> report_section \<times> sync_seed_features" where
  "sync_line raw = (\<lambda>(section, f).
     let line = chomp raw in
     if line = [] then (section, f)
     else if hd line = CHR ''['' then (sync_section line, f)
     else (section,
       case sscanf_lu_lu line of
         [a, n] \<Rightarrow> if n = 0 then f
                   else if section = REPORT_EDGE then f\<lparr>seed_edges := insert a (seed_edges f)\<rparr>
                   else if section = REPORT_PATH then f\<lparr>seed_paths := insert (ucast a) (seed_paths f)\<rparr> else f
       | _ \<Rightarrow> f))"

definition parse_sync_seed_report :: "disk \<Rightarrow> path \<Rightarrow> sync_seed_features \<Rightarrow> sync_seed_features option" where
  "parse_sync_seed_report d p f =
     (case node_at d p of
        None \<Rightarrow> None
      | Some Dir \<Rightarrow> Some f
      | Some (File c) \<Rightarrow> if p \<in> locked d then None else Some (snd (fold sync_line (getlines c) (REPORT_NONE, f))))"

definition load_cached_sync_seed_features :: "string \<Rightarrow> nat \<Rightarrow> disk \<Rightarrow> sync_seed_features \<Rightarrow> sync_seed_features option" where
  "load_cached_sync_seed_features lab rnd d f =
     (let cache = eval_seed_report_cache_dir lab rnd @ [fingerprint f @ ''.report'']
      in if is_regular_file d cache then parse_sync_seed_report d cache f else None)"

text \<open>A hard link needs a free name; its contents are those of the file.\<close>

definition create_hard_link :: "path \<Rightarrow> path \<Rightarrow> disk \<Rightarrow> bool \<times> disk" where
  "create_hard_link src dst d = (if node_at d dst \<noteq> None then (False, d) else copy_file src dst d)"

definition remove_path :: "path \<Rightarrow> disk \<Rightarrow> disk option" where
  "remove_path p d = (if is_directory d p \<and> directory_iterator d p \<noteq> [] then None else Some (d\<lparr>nodes := AList.delete p (nodes d)\<rparr>))"

text \<open>\<^const>\<open>None\<close> for the features: the replay gave no report.\<close>

definition collect_sync_seed_features_via_replay :: "system \<Rightarrow> options \<Rightarrow> path \<Rightarrow> path \<Rightarrow> nat \<Rightarrow> sync_seed_features \<Rightarrow> disk \<Rightarrow>
    (sync_seed_features option \<times> disk) option" where
  "collect_sync_seed_features_via_replay sys opts sp temp_root index f d = do {
     let single = temp_root @ [''seed_'' @ show_nat index];
     d1 \<leftarrow> create_directories single d;
     let (linked, d2) = create_hard_link sp (single @ [last sp]) d1;
     let (staged, d3) = (if linked then (True, d2) else copy_file sp (single @ [last sp]) d2);
     (if \<not> staged then Some (None, remove_all single d3)
      else do {
        let report = temp_root @ [''seed_'' @ show_nat index @ ''.report''];
        let d4 = snd (sys (''build/instrumentapp '' @ path_string single @ '' '' @ path_string report @ seed_timeout opts) d3);
        let parsed = parse_sync_seed_report d4 report f;
        d5 \<leftarrow> remove_path (single @ [last sp]) d4;
        d6 \<leftarrow> remove_path report (remove_all single d5);
        Some (parsed, d6) }) }"

definition seed_features :: "system \<Rightarrow> options \<Rightarrow> string \<Rightarrow> nat \<Rightarrow> path \<Rightarrow> nat \<Rightarrow> path \<Rightarrow> bool \<times> disk \<Rightarrow> (sync_seed_features \<times> bool \<times> disk) option" where
  "seed_features sys opts lab rnd temp_root index sp = (\<lambda>(ready, d).
     let f = \<lparr>seed_edges = {}, seed_paths = {}, fingerprint = eval_file_fingerprint d sp\<rparr> in
     case load_cached_sync_seed_features lab rnd d f of
       Some f1 \<Rightarrow> Some (f1, ready, d)
     | None \<Rightarrow> do {
         d1 \<leftarrow> (if ready then Some d else ensure_clean_directory temp_root d);
         (replayed, d2) \<leftarrow> collect_sync_seed_features_via_replay sys opts sp temp_root index f d1;
         Some (case replayed of None \<Rightarrow> f | Some f1 \<Rightarrow> f1, True, d2) })"

record selection =
  remaining :: sync_metric_targets
  selected_fingerprints :: "string list"
  temp_root_ready :: bool
  sel_disk :: disk

definition select_seed :: "system \<Rightarrow> options \<Rightarrow> string \<Rightarrow> nat \<Rightarrow> path \<Rightarrow> path \<Rightarrow> nat \<times> path \<Rightarrow> selection \<Rightarrow> selection option" where
  "select_seed sys opts lab rnd selected_dir temp_root = (\<lambda>(index, sp) s.
     if sync_metric_targets_empty (remaining s) then Some s
     else do {
       (f, ready, d1) \<leftarrow> seed_features sys opts lab rnd temp_root index sp (temp_root_ready s, sel_disk s);
       let s1 = s\<lparr>temp_root_ready := ready, sel_disk := d1\<rparr>;
       (if sync_seed_has_metric_contribution f (remaining s)
        then map_option (\<lambda>d2. s1\<lparr>sel_disk := d2, selected_fingerprints := selected_fingerprints s @ [fingerprint f],
                                 remaining := consume_sync_metric_targets f (remaining s)\<rparr>)
               (copy_file_or_throw sp (selected_dir @ [last sp]) d1)
        else Some s1) })"

text \<open>The full selection, with the files; \<^const>\<open>False\<close> if no targets are recorded for the fuzzer.\<close>

definition select_sync_seeds :: "system \<Rightarrow> options \<Rightarrow> (string \<rightharpoonup> sync_metric_targets) \<Rightarrow> string \<Rightarrow> nat \<Rightarrow> eval_seed_delta \<Rightarrow> disk \<Rightarrow>
    (bool \<times> eval_seed_delta \<times> disk) option" where
  "select_sync_seeds sys opts targets lab rnd delta d =
     (case targets lab of
        None \<Rightarrow> Some (False, delta, d)
      | Some t \<Rightarrow> do {
          let selected_dir = [''.sync_selected'', label_round lab rnd];
          let temp_root = [''.sync_eval_tmp'', label_round lab rnd];
          d1 \<leftarrow> create_directories [''.sync_selected''] d;
          d2 \<leftarrow> ensure_clean_directory selected_dir d1;
          (if sync_metric_targets_empty t
           then Some (True, delta\<lparr>input_dir := selected_dir, new_fingerprints := [], new_files := 0\<rparr>, d2)
           else if \<not> is_directory d2 (input_dir delta) then None
           else do {
             s \<leftarrow> foldM (select_seed sys opts lab rnd selected_dir temp_root)
                    (enumerate 0 (seed_files d2 (input_dir delta)))
                    \<lparr>remaining = t, selected_fingerprints = [], temp_root_ready = False, sel_disk = d2\<rparr>;
             Some (True, delta\<lparr>input_dir := selected_dir, new_fingerprints := selected_fingerprints s,
                               new_files := length (selected_fingerprints s)\<rparr>,
                   if temp_root_ready s then remove_all temp_root (sel_disk s) else sel_disk s) }) })"

definition pull_command :: "path \<Rightarrow> string" where
  "pull_command folder = ''find '' @ path_string folder @ ''/ -type f -name '' @ [CHR 0x27, CHR ''*'', CHR 0x27] @
     '' -print0 | xargs -0 -r cp --target-directory=./'' @ GLOBAL_POOL_NAME"

definition pull_seeds :: "system \<Rightarrow> path \<Rightarrow> disk \<Rightarrow> disk" where
  "pull_seeds sys folder d = snd (sys (pull_command folder) d)"

definition sync_round_new_seeds_to_global :: "system \<Rightarrow> options \<Rightarrow> (string \<rightharpoonup> sync_metric_targets) \<Rightarrow> string \<Rightarrow> nat \<Rightarrow> string set \<Rightarrow> disk \<Rightarrow> disk option" where
  "sync_round_new_seeds_to_global sys opts targets lab rnd initial d = do {
     (ok, delta, d1) \<leftarrow> prepare_incremental_sync_input lab rnd [lab @ show_nat rnd] initial d;
     (if \<not> ok \<or> new_files delta = 0 then Some d1
      else do {
        (filtered, delta', d2) \<leftarrow> select_sync_seeds sys opts targets lab rnd delta d1;
        Some (if new_files delta' = 0 then d2
              else snd (append_seen_fingerprints (manifest_path delta') (new_fingerprints delta') (pull_seeds sys (input_dir delta') d2))) }) }"

definition cleanup_round_seed_folder :: "string \<Rightarrow> nat \<Rightarrow> disk \<Rightarrow> disk" where
  "cleanup_round_seed_folder lab rnd d = (if node_at d [lab @ show_nat rnd] = None then d else remove_all [lab @ show_nat rnd] d)"

definition cleanup_path_if_exists :: "path \<Rightarrow> disk \<Rightarrow> disk" where
  "cleanup_path_if_exists p d = (if node_at d p = None then d else remove_all p d)"

section \<open>The guard of the long mode\<close>

definition refresh_global_cmin_input_pool :: "system \<Rightarrow> string \<Rightarrow> disk \<Rightarrow> disk" where
  "refresh_global_cmin_input_pool sys script_dir d =
     (let pool = GLOBAL_CMIN_INPUT_POOL_NAME; tmp = pool @ ''_tmp'' in
      snd (sys (''rm -rf '' @ tmp @ '' ; mkdir '' @ tmp @ '' && '' @ script_dir @ ''/AFLPP.sh'' @ '' minimize '' @ GLOBAL_POOL_NAME @ '' '' @ tmp @
        '' && rm -rf '' @ pool @ '' && mkdir '' @ pool @ '' && mv '' @ tmp @ ''/* '' @ pool @ ''/ && rm -rf '' @ tmp) d))"

definition update_seed :: "system \<Rightarrow> string \<Rightarrow> fuzzer_t \<Rightarrow> disk \<Rightarrow> disk" where
  "update_seed sys folder fuzzer d = snd (sys (script fuzzer @ '' update '' @ folder) d)"

definition update_fuzzers_from_current_global_input :: "system \<Rightarrow> options \<Rightarrow> fuzzer_t list \<Rightarrow> disk \<Rightarrow> disk" where
  "update_fuzzers_from_current_global_input sys opts fuzzers d =
     fold (update_seed sys (current_global_input_pool_for_fuzzers opts d)) fuzzers d"

text \<open>Every ten minutes but for the last part: the sleeps are not modelled.\<close>

definition pull_round :: "system \<Rightarrow> options \<Rightarrow> string \<Rightarrow> (string \<rightharpoonup> sync_metric_targets) \<Rightarrow> fuzzer_t list \<Rightarrow> nat \<Rightarrow> string set \<Rightarrow> disk \<Rightarrow> disk option" where
  "pull_round sys opts script_dir targets fuzzers rnd initial d = do {
     d1 \<leftarrow> foldM (\<lambda>f. sync_round_new_seeds_to_global sys opts targets (fuzzer_label f) rnd initial) fuzzers d;
     Some (update_fuzzers_from_current_global_input sys opts fuzzers (refresh_global_cmin_input_pool sys script_dir d1)) }"

function wait_and_pull :: "(disk \<Rightarrow> disk option) \<Rightarrow> nat \<Rightarrow> nat \<Rightarrow> disk \<Rightarrow> disk option" where
  "wait_and_pull pull time time_count d =
     (if time_count < time \<and> \<not> 600 \<ge> time - time_count
      then (case pull d of None \<Rightarrow> None | Some d1 \<Rightarrow> wait_and_pull pull time (time_count + 600) d1)
      else Some d)"
  by pat_completeness auto
termination by (relation "measure (\<lambda>(pull, time, time_count, d). time - time_count)") auto

declare wait_and_pull.simps [simp del]

end
