(* ===== verification/Legion_Sync_Laws.thy ===== *)
theory Legion_Sync_Laws
  imports Legion_Sync Legion_Files_Laws
begin

text \<open>
  The report of a replayed seed is read back as the edges and the path of the run; the preparation of new seeds finds exactly the
  contents that were neither there initially nor seen before, each once; and what has been evaluated is not evaluated again.
\<close>

section \<open>Reading the report of a seed\<close>

lemma sync_header:
  "sync_line ''[EDGE]'' (sec, f) = (REPORT_EDGE, f)"
  "sync_line ''[PATH]'' (sec, f) = (REPORT_PATH, f)"
  "sync_line ''[EDGE TO FUNC]'' (sec, f) = (REPORT_NONE, f)"
  by (simp_all add: sync_line_def header_plain sync_section_def starts_with_def)

lemma sync_count_line:
  assumes "i < 2 ^ 64" "0 < n" "n < 2 ^ 64"
  shows "sync_line (count_line i n) (REPORT_EDGE, f) = (REPORT_EDGE, f\<lparr>seed_edges := insert (of_nat i) (seed_edges f)\<rparr>)"
    "sync_line (count_line i n) (REPORT_PATH, f) = (REPORT_PATH, f\<lparr>seed_paths := insert (ucast (of_nat i :: u64)) (seed_paths f)\<rparr>)"
  using of_nat_pos [OF assms(2,3)] count_line_plain [of i n]
  by (simp_all add: sync_line_def Let_def sscanf_count_line [OF assms(1,3)] word_neq_0_conv)

lemma sync_edge_lines:
  assumes "\<forall>i \<in> set is. i < 2 ^ 64 \<and> 0 < g i \<and> g i < 2 ^ 64"
  shows "fold sync_line (map (\<lambda>i. count_line i (g i)) is) (REPORT_EDGE, f) = (REPORT_EDGE, f\<lparr>seed_edges := of_nat ` set is \<union> seed_edges f\<rparr>)"
  using assms by (induction "is" arbitrary: f) (simp_all add: sync_count_line Un_insert_right)

lemma getlines_run: "getlines (unlines (run_lines target s buf)) = run_lines target s buf"
  by (rule getlines_unlines') (use count_line_plain in \<open>auto simp: run_lines_def newline_def\<close>)

lemma parse_run:
  assumes "node_at d p = Some (File (unlines (run_lines target s buf)))" "p \<notin> locked d" "tracing_array_size s < 2 ^ 32"
  shows "parse_sync_seed_report d p f = Some (f\<lparr>seed_edges := of_nat ` set (edges_of target s buf) \<union> seed_edges f,
    seed_paths := insert (path_of target s buf) (seed_paths f)\<rparr>)"
proof -
  have "\<forall>i \<in> set (edges_of target s buf). i < 2 ^ 64 \<and> 0 < unat (edge_hits target s buf i) \<and> unat (edge_hits target s buf i) < 2 ^ 64"
  proof
    fix i assume "i \<in> set (edges_of target s buf)"
    moreover have "unat (edge_hits target s buf i) < 2 ^ 32" using unsigned_less [of "edge_hits target s buf i", where 'a = nat] by simp
    ultimately show "i < 2 ^ 64 \<and> 0 < unat (edge_hits target s buf i) \<and> unat (edge_hits target s buf i) < 2 ^ 64"
      using assms(3) by (auto simp: edges_of_def word_less_nat_alt)
  qed
  note e = sync_edge_lines [OF this, of f]
  let ?h = "path_of target s buf"
  have h: "unat ?h < 2 ^ 64" using unsigned_less [of ?h, where 'a = nat] by simp
  have u: "(ucast (of_nat (unat ?h) :: u64) :: u32) = ?h" unfolding ucast_of_nat64 [OF h] by simp
  have "fold sync_line (run_lines target s buf) (REPORT_NONE, f) = (REPORT_NONE, f\<lparr>seed_edges := of_nat ` set (edges_of target s buf) \<union> seed_edges f,
      seed_paths := insert ?h (seed_paths f)\<rparr>)"
    unfolding run_lines_def by (simp add: sync_header e sync_count_line(2) [OF h] u del: of_nat_unat)
  then show ?thesis by (simp add: parse_sync_seed_report_def assms getlines_run)
qed

section \<open>New seeds\<close>

text \<open>A folder the copies go to.\<close>

definition delta_ok :: "path \<Rightarrow> disk \<Rightarrow> bool" where
  "delta_ok dst d \<longleftrightarrow> is_directory d dst \<and> (\<forall>n. \<not> is_directory d (dst @ [n]))"

lemma copy_into:
  assumes "delta_ok dst d" "locked d = {}" "granted d" "is_regular_file d sp" "\<not> inside dst sp"
  shows "\<exists>d'. copy_file_or_throw sp (dst @ [n]) d = Some d' \<and> changes [dst] d d' \<and> delta_ok dst d' \<and>
    (\<forall>q. node_at d' q = (if q = dst @ [n] then node_at d sp else node_at d q))"
proof -
  obtain ok d' where c: "copy_file sp (dst @ [n]) d = (ok, d')" by fastforce
  note s = copy_file_spec [OF c]
  have "contents d sp \<noteq> None" using assms(2,4) regular_contents by blast
  moreover have "sp \<noteq> dst @ [n]" using assms(5) by (auto simp: inside_def)
  ultimately have ok using s assms(1,3) by (auto simp: delta_ok_def granted_def)
  then obtain t where t: "contents d sp = Some t" "\<forall>q. node_at d' q = (if q = dst @ [n] then Some (File t) else node_at d q)" using s by blast
  have "node_at d sp = Some (File t)" using t(1) by (auto simp: contents_def split: option.splits node.splits if_splits)
  then show ?thesis using t(2) assms(1) \<open>ok\<close> c changes_wider [OF conjunct1 [OF s]]
    by (auto simp: copy_file_or_throw_def delta_ok_def is_directory_def)
qed

lemma take_new_fold:
  assumes "delta_ok dst d" "locked d = {}" "granted d" "\<forall>sp \<in> set sps. is_regular_file d sp \<and> \<not> inside dst sp" "distinct (map last sps)"
  shows "\<exists>taken d'. foldM (take_new initial seen dst) sps (unique, fps, d) =
      Some ((eval_file_fingerprint d ` set sps - initial) \<union> unique, fps @ map (eval_file_fingerprint d) taken, d') \<and>
    subseq taken sps \<and> distinct (map (eval_file_fingerprint d) taken) \<and>
    eval_file_fingerprint d ` set taken = eval_file_fingerprint d ` set sps - initial - unique - seen \<and>
    changes [dst] d d' \<and> delta_ok dst d' \<and> (\<forall>q. \<not> inside dst q \<longrightarrow> node_at d' q = node_at d q) \<and>
    (\<forall>n. node_at d' (dst @ [n]) = (case List.find (\<lambda>sp. last sp = n) taken of None \<Rightarrow> node_at d (dst @ [n]) | Some sp \<Rightarrow> node_at d sp))"
  using assms
proof (induction sps arbitrary: unique fps d)
  case Nil
  then show ?case by (intro exI [of _ "[]"]) simp
next
  case (Cons sp sps)
  define fp where "fp = eval_file_fingerprint d sp"
  show ?case
  proof (cases "fp \<in> initial \<union> unique \<union> seen")
    case True
    define U where "U = (if fp \<in> initial \<or> fp \<in> unique then unique else insert fp unique)"
    have "take_new initial seen dst sp (unique, fps, d) = Some (U, fps, d)" using True by (auto simp: take_new_def Let_def fp_def U_def)
    moreover have "(eval_file_fingerprint d ` set sps - initial) \<union> U = (eval_file_fingerprint d ` set (sp # sps) - initial) \<union> unique"
      "eval_file_fingerprint d ` set sps - initial - U - seen = eval_file_fingerprint d ` set (sp # sps) - initial - unique - seen"
      using True by (auto simp: U_def fp_def)
    moreover have "\<forall>sp \<in> set sps. is_regular_file d sp \<and> \<not> inside dst sp" "distinct (map last sps)" using Cons.prems(4,5) by simp_all
    note Cons.IH [OF Cons.prems(1-3) this, of U fps]
    ultimately show ?thesis by (auto intro: list_emb_Cons)
  next
    case False
    then have 4: "fp \<notin> initial" "fp \<notin> unique" "fp \<notin> seen" by auto
    have r: "is_regular_file d sp" "\<not> inside dst sp" using Cons.prems(4) by simp_all
    obtain d1 where c: "copy_file_or_throw sp (dst @ [last sp]) d = Some d1" "changes [dst] d d1" "delta_ok dst d1"
      "\<forall>q. node_at d1 q = (if q = dst @ [last sp] then node_at d sp else node_at d q)"
      using copy_into [OF Cons.prems(1-3) r, of "last sp"] by blast
    have l: "locked d1 = {}" "granted d1" using c(2) Cons.prems(2,3) by (simp_all add: changes_def granted_def)
    have same: "is_regular_file d1 q = is_regular_file d q \<and> eval_file_fingerprint d1 q = eval_file_fingerprint d q \<and> node_at d1 q = node_at d q"
      if "q \<in> set sps" for q
    proof -
      have q: "\<not> inside dst q" using that Cons.prems(4) by simp
      moreover from this have "q \<noteq> dst @ [last sp]" by (auto simp: inside_def)
      ultimately show ?thesis using changes_regular [OF c(2)] changes_fingerprint [OF c(2)] c(4) by simp
    qed
    have p: "\<forall>q \<in> set sps. is_regular_file d1 q \<and> \<not> inside dst q" "distinct (map last sps)" using Cons.prems(4,5) same by simp_all
    have im: "eval_file_fingerprint d1 ` A = eval_file_fingerprint d ` A" if "A \<subseteq> set sps" for A using same that by (meson image_cong subsetD)
    from Cons.IH [OF c(3) l p, of "insert fp unique" "fps @ [fp]"] obtain taken d' where t:
      "foldM (take_new initial seen dst) sps (insert fp unique, fps @ [fp], d1) =
        Some ((eval_file_fingerprint d1 ` set sps - initial) \<union> insert fp unique, (fps @ [fp]) @ map (eval_file_fingerprint d1) taken, d')"
      "subseq taken sps" "distinct (map (eval_file_fingerprint d1) taken)"
      "eval_file_fingerprint d1 ` set taken = eval_file_fingerprint d1 ` set sps - initial - insert fp unique - seen"
      "changes [dst] d1 d'" "delta_ok dst d'" "\<forall>q. \<not> inside dst q \<longrightarrow> node_at d' q = node_at d1 q"
      "\<forall>n. node_at d' (dst @ [n]) = (case List.find (\<lambda>sp. last sp = n) taken of None \<Rightarrow> node_at d1 (dst @ [n]) | Some sp \<Rightarrow> node_at d1 sp)"
      by blast
    have sub: "set taken \<subseteq> set sps" using t(2) by (auto dest: list_emb_set)
    have m: "map (eval_file_fingerprint d1) taken = map (eval_file_fingerprint d) taken" using same sub by (meson map_cong subsetD)
    have fl: "foldM (take_new initial seen dst) (sp # sps) (unique, fps, d) =
        Some ((eval_file_fingerprint d ` set (sp # sps) - initial) \<union> unique, fps @ map (eval_file_fingerprint d) (sp # taken), d')"
      using t(1) 4 c(1) unfolding m im [OF subset_refl] by (auto simp: take_new_def Let_def fp_def)
    have nt: "fp \<notin> eval_file_fingerprint d ` set taken" using t(4) unfolding im [OF sub] by blast
    have nodes: "\<forall>n. node_at d' (dst @ [n]) = (case List.find (\<lambda>sp. last sp = n) (sp # taken) of None \<Rightarrow> node_at d (dst @ [n]) | Some sp \<Rightarrow> node_at d sp)"
    proof
      fix n
      show "node_at d' (dst @ [n]) = (case List.find (\<lambda>sp. last sp = n) (sp # taken) of None \<Rightarrow> node_at d (dst @ [n]) | Some sp \<Rightarrow> node_at d sp)"
      proof (cases "last sp = n")
      case True
      have "last sp \<notin> last ` set taken" using Cons.prems(5) image_mono [OF sub, of last] by auto
      then have "List.find (\<lambda>sp. last sp = n) taken = None" using True by (auto simp: find_None_iff image_iff)
      then show ?thesis using True t(8) c(4) by simp
    next
      case False
      show ?thesis
      proof (cases "List.find (\<lambda>sp. last sp = n) taken")
        case None
        then show ?thesis using False t(8) c(4) by simp
      next
        case (Some q)
        then have "q \<in> set taken" by (auto simp: find_Some_iff)
        then have "node_at d1 q = node_at d q" using same sub by blast
        then show ?thesis using False Some t(8) by simp
      qed
      qed
    qed
    have "subseq (sp # taken) (sp # sps)" using t(2) by simp
    moreover have "eval_file_fingerprint d ` set (sp # taken) = eval_file_fingerprint d ` set (sp # sps) - initial - unique - seen"
      using t(4) 4 unfolding im [OF sub] im [OF subset_refl] by (auto simp: fp_def)
    moreover have "distinct (map (eval_file_fingerprint d) (sp # taken))" using t(3) nt unfolding m by (simp add: fp_def)
    moreover have "\<forall>q. \<not> inside dst q \<longrightarrow> node_at d' q = node_at d q"
    proof (intro allI impI)
      fix q
      assume q: "\<not> inside dst q"
      then have "q \<noteq> dst @ [last sp]" by (auto simp: inside_def)
      then show "node_at d' q = node_at d q" using q t(7) c(4) by simp
    qed
    ultimately show ?thesis using fl changes_trans [OF c(2) t(5)] t(6) nodes by (intro exI [of _ "sp # taken"] exI [of _ d'] conjI)
  qed
qed

lemma clean_exists: "disk_ok d \<Longrightarrow> no_file d [a] \<Longrightarrow> \<exists>d'. ensure_clean_directory [a, b] d = Some d'"
  by (rule clean_directory_exists) (auto simp: less_Suc_eq no_file_def node_at_def)

lemma create_top_exists: "no_file d [a] \<Longrightarrow> \<exists>d'. create_directories [a] d = Some d'"
  by (rule create_directories_exists) (auto simp: le_Suc_eq no_file_def node_at_def)

lemma fingerprint_node: "node_at d' p = node_at d q \<Longrightarrow> locked d = {} \<Longrightarrow> locked d' = {} \<Longrightarrow> is_regular_file d q \<Longrightarrow>
    is_regular_file d' p \<and> eval_file_fingerprint d' p = eval_file_fingerprint d q"
  by (auto simp: is_regular_file_def eval_file_fingerprint_def contents_def split: option.splits node.splits)

lemma distinct_last_seed_files: "disk_ok d \<Longrightarrow> distinct (map last (seed_files d p))"
  using distinct_seed_files [of d p] set_seed_files [of d p] by (auto simp: distinct_map inj_on_def)

text \<open>The fingerprints of copies in an empty folder.\<close>

lemma copied_fps:
  assumes "\<forall>n. node_at d' (dst @ [n]) = (case List.find (\<lambda>sp. last sp = n) taken of None \<Rightarrow> None | Some sp \<Rightarrow> node_at d sp)"
    "distinct (map last taken)" "\<forall>sp \<in> set taken. is_regular_file d sp" "locked d = {}" "locked d' = {}"
  shows "folder_fps d' dst = eval_file_fingerprint d ` set taken"
proof -
  have f: "List.find (\<lambda>sp. last sp = n) taken = Some sp \<longleftrightarrow> sp \<in> set taken \<and> last sp = n" for n sp
  proof
    show "List.find (\<lambda>sp. last sp = n) taken = Some sp \<Longrightarrow> sp \<in> set taken \<and> last sp = n" by (auto simp: find_Some_iff)
    assume sp: "sp \<in> set taken \<and> last sp = n"
    then obtain q where q: "List.find (\<lambda>sp. last sp = n) taken = Some q" by (cases "List.find (\<lambda>sp. last sp = n) taken") (auto simp: find_None_iff)
    then have "q \<in> set taken" "last q = n" by (auto simp: find_Some_iff)
    then show "List.find (\<lambda>sp. last sp = n) taken = Some sp" using q sp assms(2) by (auto simp: distinct_map inj_on_def)
  qed
  have "is_regular_file d' (dst @ [n]) \<and> eval_file_fingerprint d' (dst @ [n]) = fp \<longleftrightarrow> (\<exists>sp \<in> set taken. last sp = n \<and> eval_file_fingerprint d sp = fp)" for n fp
  proof (cases "List.find (\<lambda>sp. last sp = n) taken")
    case None
    then have "node_at d' (dst @ [n]) = None" using assms(1) by simp
    then have "\<not> is_regular_file d' (dst @ [n])" by (simp add: is_regular_file_def)
    moreover have "\<not> (\<exists>sp \<in> set taken. last sp = n)" using None by (auto simp: find_None_iff)
    ultimately show ?thesis by blast
  next
    case (Some sp)
    then have sp: "sp \<in> set taken" "last sp = n" using f by blast+
    then have "is_regular_file d' (dst @ [n]) \<and> eval_file_fingerprint d' (dst @ [n]) = eval_file_fingerprint d sp"
      using fingerprint_node [of d' "dst @ [n]" d sp] Some assms by simp
    moreover have "q = sp" if "q \<in> set taken" "last q = n" for q using f [of n q] that Some by simp
    ultimately show ?thesis using sp by metis
  qed
  then have "fp \<in> folder_fps d' dst \<longleftrightarrow> fp \<in> eval_file_fingerprint d ` set taken" for fp unfolding folder_fps_def image_iff mem_Collect_eq by metis
  then show ?thesis by blast
qed

lemma prepare_delta_new:
  assumes "disk_ok d" "locked d = {}" "granted d" "no_file d [s]" "no_file d [r]" "s \<noteq> r" "l \<noteq> r" "is_directory d [l]"
    "load_seen_fingerprints d [s, m] = Some seen"
  shows "\<exists>taken new d'. prepare_delta [s] [s, m] [r] nm [l] initial d =
      Some (True, \<lparr>input_dir = [r, nm], manifest_path = [s, m], new_fingerprints = new, total_files = length (seed_files d [l]), new_files = length new\<rparr>, d') \<and>
    distinct new \<and> set new = folder_fps d [l] - initial - seen \<and> folder_fps d' [r, nm] = set new \<and>
    (\<forall>n. node_at d' [r, nm, n] = (case List.find (\<lambda>sp. last sp = n) taken of None \<Rightarrow> None | Some sp \<Rightarrow> node_at d sp)) \<and>
    new = map (eval_file_fingerprint d) taken \<and> set taken \<subseteq> set (seed_files d [l]) \<and>
    changes [[r, nm]] d d' \<and> delta_ok [r, nm] d' \<and>
    (\<forall>q. \<not> inside [s] q \<longrightarrow> \<not> inside [r] q \<longrightarrow> node_at d' q = node_at d q) \<and> is_directory d' [s] \<and> node_at d' [s, m] = node_at d [s, m]"
proof -
  obtain d1 where d1: "create_directories [s] d = Some d1" using create_top_exists [OF assms(4)] by blast
  note c1 = create_directories_ok [OF d1]
  have ok1: "disk_ok d1" using c1 assms(1) changes_ok by blast
  have "no_file d1 [r]" using no_file_changes [OF conjunct1 [OF c1] _ assms(5)] by simp
  then obtain d2 where d2: "create_directories [r] d1 = Some d2" using create_top_exists by blast
  note c2 = create_directories_ok [OF d2]
  have ok2: "disk_ok d2" using c2 ok1 changes_ok by blast
  have "no_file d2 [r]" using c2 by (simp add: no_file_def is_directory_def)
  then obtain d3 where d3: "ensure_clean_directory [r, nm] d2 = Some d3" using clean_exists [OF ok2] by blast
  note c3 = ensure_clean_ok [OF d3, simplified]
  have ch: "changes [[r, nm]] d d3" using c1 c2 c3 changes_mono [of "[]" _ _ "[[r, nm]]"] changes_trans by (metis empty_subsetI list.set(1))
  have k: "disk_ok d3" "locked d3 = {}" "granted d3" using ch assms(1-3) by (auto simp: changes_def granted_def)
  have m: "node_at d3 [s, m] = node_at d [s, m]" "is_directory d3 [s]"
    using c1 c2 c3 assms(6) changes_dir [OF ch] by (auto simp: inside_def is_directory_def)
  have ld: "load_seen_fingerprints d3 [s, m] = Some seen" using manifest_node [OF m(1)] k(2) assms(2,9) by simp
  have out: "\<not> inside [r, nm] ([l] @ [n])" "\<not> inside [r, nm] [l]" for n using assms(7) by (auto simp: inside_def)
  have dl: "is_directory d3 [l]" using changes_dir [OF ch _ assms(8)] out by simp
  define sps where "sps = seed_files d3 [l]"
  have reg: "\<forall>sp \<in> set sps. is_regular_file d3 sp \<and> \<not> inside [r, nm] sp" using out by (auto simp: sps_def set_seed_files [OF k(1)])
  have same: "is_regular_file d3 sp = is_regular_file d sp \<and> eval_file_fingerprint d3 sp = eval_file_fingerprint d sp \<and> (is_regular_file d3 sp \<longrightarrow> node_at d3 sp = node_at d sp)"
    if "\<not> inside [r, nm] sp" for sp
  proof -
    have "node_at d3 sp = node_at d sp" if "is_regular_file d3 sp"
    proof -
      have "node_at d3 sp = node_at d sp \<or> node_at d sp = None \<and> node_at d3 sp = Some Dir"
        using changes_node [OF ch, of sp] \<open>\<not> inside [r, nm] sp\<close> by simp
      then show ?thesis using that by (auto simp: is_regular_file_def)
    qed
    then show ?thesis using changes_regular [OF ch, of sp] changes_fingerprint [OF ch, of sp] that by simp
  qed
  have sf: "set (seed_files d [l]) = set sps" unfolding sps_def set_seed_files [OF k(1)] set_seed_files [OF assms(1)] using same out by auto
  have fe: "eval_file_fingerprint d3 ` set sps = folder_fps d [l]"
    using folder_fps_seed_files [OF k(1), of "[l]"] folder_fps_changes [OF ch, of "[l]"] out by (simp add: sps_def)
  have dok: "delta_ok [r, nm] d3" using c3 ok2 by (simp add: delta_ok_def is_directory_def)
  have empty: "node_at d3 [r, nm, n] = None" for n using c3 ok2 by simp
  from take_new_fold [OF dok k(2,3) reg distinct_last_seed_files [OF k(1), of "[l]", folded sps_def], of initial seen "{}" "[]"]
  obtain taken d' where t: "foldM (take_new initial seen [r, nm]) sps ({}, [], d3) =
      Some (eval_file_fingerprint d3 ` set sps - initial, map (eval_file_fingerprint d3) taken, d')"
    "subseq taken sps" "distinct (map (eval_file_fingerprint d3) taken)"
    "eval_file_fingerprint d3 ` set taken = folder_fps d [l] - initial - seen" "changes [[r, nm]] d3 d'"
    "delta_ok [r, nm] d'" "\<forall>q. \<not> inside [r, nm] q \<longrightarrow> node_at d' q = node_at d3 q"
    and t7: "\<forall>n. node_at d' ([r, nm] @ [n]) = (case List.find (\<lambda>sp. last sp = n) taken of None \<Rightarrow> node_at d3 ([r, nm] @ [n]) | Some sp \<Rightarrow> node_at d3 sp)"
    by (auto simp: fe)
  have "\<forall>n. node_at d' ([r, nm] @ [n]) = (case List.find (\<lambda>sp. last sp = n) taken of None \<Rightarrow> None | Some sp \<Rightarrow> node_at d3 sp)"
    using t7 empty by (auto split: option.split)
  note t = t this
  have sub: "set taken \<subseteq> set sps" using t(2) by (auto dest: list_emb_set)
  have "distinct (map last taken)" using distinct_last_seed_files [OF k(1), of "[l]", folded sps_def] t(3) inj_on_subset [OF _ sub, of last] unfolding distinct_map by blast
  from copied_fps [OF t(8) this] have fp: "folder_fps d' [r, nm] = folder_fps d [l] - initial - seen"
    using sub reg k(2) t(4,5) by (auto simp: changes_def)
  have fd: "map (eval_file_fingerprint d3) taken = map (eval_file_fingerprint d) taken" using sub reg same by (intro map_cong) auto
  have nd: "(case List.find (\<lambda>sp. last sp = n) taken of None \<Rightarrow> None | Some sp \<Rightarrow> node_at d3 sp) =
      (case List.find (\<lambda>sp. last sp = n) taken of None \<Rightarrow> None | Some sp \<Rightarrow> node_at d sp)" for n
  proof (cases "List.find (\<lambda>sp. last sp = n) taken")
    case (Some sp)
    then have "sp \<in> set sps" using sub by (auto simp: find_Some_iff)
    then show ?thesis using Some reg same by simp
  qed simp
  have "changes [[r, nm]] d d'" by (rule changes_trans [OF ch t(5)])
  have m': "node_at d' [s, m] = node_at d [s, m]" "is_directory d' [s]"
    using t(7) m assms(6) by (auto simp: inside_def is_directory_def)
  have frame: "node_at d' q = node_at d q" if q: "\<not> inside [s] q" "\<not> inside [r] q" for q
  proof (cases q)
    case (Cons a q')
    then have "\<not> inside q [s]" "\<not> inside q [r]" "\<not> inside [r, nm] q" "\<not> inside q [r, nm]" using q by (auto simp: inside_def Cons_eq_append_conv)
    then show ?thesis using c1 c2 c3 t(7) by metis
  qed (simp add: node_at_def)
  have n: "length (seed_files d [l]) = length sps"
    using distinct_card [OF distinct_seed_files [OF assms(1)]] distinct_card [OF distinct_seed_files [OF k(1)]] sf by (metis sps_def)
  have "prepare_delta [s] [s, m] [r] nm [l] initial d = Some (True, \<lparr>input_dir = [r, nm], manifest_path = [s, m],
      new_fingerprints = map (eval_file_fingerprint d) taken, total_files = length (seed_files d [l]), new_files = length (map (eval_file_fingerprint d) taken)\<rparr>, d')"
    using t(1) dl unfolding n fd by (simp add: prepare_delta_def d1 d2 d3 ld sps_def Let_def)
  moreover have "distinct (map (eval_file_fingerprint d) taken)" "set (map (eval_file_fingerprint d) taken) = folder_fps d [l] - initial - seen"
    using t(3,4) unfolding fd [symmetric] by simp_all
  moreover have "\<forall>n. node_at d' [r, nm, n] = (case List.find (\<lambda>sp. last sp = n) taken of None \<Rightarrow> None | Some sp \<Rightarrow> node_at d sp)"
    using t(8) nd by simp
  ultimately show ?thesis using fp sub sf changes_trans [OF ch t(5)] t(6) frame m'
    by (intro exI [of _ taken] exI [of _ "map (eval_file_fingerprint d) taken"] exI [of _ d'] conjI) simp_all
qed

section \<open>What has been evaluated is not evaluated again\<close>

lemma fingerprints_plain: "locked d = {} \<Longrightarrow> f \<in> folder_fps d p \<Longrightarrow> plain_line f"
  using plain_show by (auto simp: folder_fps_def regular_contents fingerprint_contents)

lemma append_granted:
  assumes "granted d" "manifest_ok d [s, m]" "is_directory d [s]"
  shows "\<exists>d'. append_seen_fingerprints [s, m] fps d = (True, d') \<and> changes [[s, m]] d d'"
proof (cases "fps = []")
  case False
  obtain ok d' where w: "write_file [s, m] ((case node_at d [s, m] of Some (File c) \<Rightarrow> c | _ \<Rightarrow> []) @ unlines fps) d = (ok, d')" by fastforce
  from write_file_spec [OF w] have ok "changes [[s, m]] d d'" using assms by (auto simp: granted_def manifest_ok_def)
  then show ?thesis using False w by (simp add: append_seen_fingerprints_def)
qed (simp add: append_seen_fingerprints_def)

text \<open>The replay tool writes its reports and leaves other files alone, and succeeds.\<close>

definition replays :: "path list \<Rightarrow> system \<Rightarrow> bool" where
  "replays P sys \<longleftrightarrow> (\<forall>cmd e. fst (sys cmd e) = 0 \<and> changes P e (snd (sys cmd e)) \<and>
     (\<forall>q. (\<forall>p \<in> set P. \<not> inside p q) \<longrightarrow> node_at (snd (sys cmd e)) q = node_at e q))"

lemma report_not_state: "loc @ ''.report'' \<noteq> ''.eval_state'' \<and> loc @ ''.report'' \<noteq> ''.eval_delta''"
proof -
  have l: "last (loc @ ''.report'') = CHR ''t''" "last ''.eval_state'' \<noteq> CHR ''t''" "last ''.eval_delta'' \<noteq> CHR ''t''" by simp_all
  show ?thesis using l by (intro conjI notI) (simp_all only:)
qed

lemma evaluation_evaluates:
  fixes lab :: string
  defines "man \<equiv> [''.eval_state'', sanitize_eval_label lab @ ''.manifest'']"
  assumes "disk_ok d" "locked d = {}" "granted d" "\<forall>x \<in> {''.eval_state'', ''.eval_delta'', ''.eval_seed_reports''}. no_file d [x]"
    "is_directory d [loc]" "loc \<noteq> ''.eval_delta''" "lab \<noteq> ''Radamsa''" "manifest_ok d man" "load_seen_fingerprints d man = Some seen"
    "replays [[loc @ ''.report''], [''.eval_seed_reports'']] sys"
  shows "\<exists>e new d'. evaluate_fuzzer_corpus sys opts sd lab rnd loc initial d = Some d' \<and>
    set new = folder_fps d [loc] - initial - seen \<and> distinct new \<and> folder_fps e [''.eval_delta'', label_round lab rnd] = set new \<and>
    (new \<noteq> [] \<longrightarrow> d' = snd (append_seen_fingerprints man new (snd (sys (''build/instrumentapp '' @
       path_string [''.eval_delta'', label_round lab rnd] @ '' '' @ path_string [loc @ ''.report''] @ '' --seed-report-dir '' @
       path_string (eval_seed_report_cache_dir lab rnd) @ seed_timeout opts) e)))) \<and>
    load_seen_fingerprints d' man = Some (seen \<union> (folder_fps d [loc] - initial)) \<and> manifest_ok d' man"
proof -
  have nf: "no_file d [''.eval_state'']" "no_file d [''.eval_delta'']" "no_file d [''.eval_seed_reports'']" using assms(5) by simp_all
  have "''.eval_state'' \<noteq> ''.eval_delta''" by simp
  from prepare_delta_new [OF assms(2-4) nf(1,2) this assms(7,6) assms(10) [unfolded man_def], of "label_round lab rnd" initial]
  obtain new dp where p: "prepare_incremental_eval_input lab rnd [loc] initial d = Some (True, \<lparr>input_dir = [''.eval_delta'', label_round lab rnd],
      manifest_path = man, new_fingerprints = new, total_files = length (seed_files d [loc]), new_files = length new\<rparr>, dp)"
    "distinct new" "set new = folder_fps d [loc] - initial - seen" "folder_fps dp [''.eval_delta'', label_round lab rnd] = set new"
    "changes [[''.eval_delta'', label_round lab rnd]] d dp" "is_directory dp [''.eval_state'']" "node_at dp man = node_at d man"
    by (auto simp: prepare_incremental_eval_input_def man_def)
  have kp: "disk_ok dp" "locked dp = {}" "granted dp" using p(5) assms(2-4) by (auto simp: changes_def granted_def)
  have "no_file dp [''.eval_seed_reports'']" using no_file_changes [OF p(5) _ nf(3)] by (simp add: inside_def)
  then obtain e where e: "ensure_clean_directory (eval_seed_report_cache_dir lab rnd) dp = Some e"
    using clean_exists [OF kp(1)] by (metis eval_seed_report_cache_dir_def)
  note c = ensure_clean_ok [OF e, unfolded eval_seed_report_cache_dir_def, simplified]
  have ke: "locked e = {}" "granted e" using c kp by (auto simp: changes_def granted_def)
  have me: "node_at e man = node_at d man" "is_directory e [''.eval_state'']"
    using c p(6,7) by (auto simp: man_def inside_def is_directory_def)
  have fe: "folder_fps e [''.eval_delta'', label_round lab rnd] = set new"
    using folder_fps_changes [OF conjunct1 [OF c], of "[''.eval_delta'', label_round lab rnd]"] p(4) by (simp add: inside_def)
  have rs: "loc @ ''.report'' \<noteq> ''.eval_state''" using report_not_state by blast
  show ?thesis
  proof (cases "new = []")
    case True
    obtain ok d' where w: "write_empty_report [loc @ ''.report''] e = (ok, d')" by fastforce
    note ws = write_file_spec [OF w [unfolded write_empty_report_def]]
    have "evaluate_fuzzer_corpus sys opts sd lab rnd loc initial d = Some d'"
      using p(1) True e w assms(8)
      by (simp add: evaluate_fuzzer_corpus_def evaluate_delta_def radamsa_cmin_def append_seen_fingerprints_def)
    moreover have "node_at d' man = node_at d man" "locked d' = locked d" using ws me rs ke assms(3) by (cases ok; auto simp: man_def changes_def)+
    ultimately show ?thesis using manifest_node [of d' man d] assms(9,10) True p(3) fe by (intro exI [of _ e] exI [of _ "[]"] exI [of _ d']) auto
  next
    case False
    define cmd where "cmd = ''build/instrumentapp '' @ path_string [''.eval_delta'', label_round lab rnd] @ '' '' @ path_string [loc @ ''.report''] @
      '' --seed-report-dir '' @ path_string (eval_seed_report_cache_dir lab rnd) @ seed_timeout opts"
    define g where "g = snd (sys cmd e)"
    have r: "fst (sys cmd e) = 0" "changes [[loc @ ''.report''], [''.eval_seed_reports'']] e g"
      "\<forall>q. (\<forall>p \<in> set [[loc @ ''.report''], [''.eval_seed_reports'']]. \<not> inside p q) \<longrightarrow> node_at g q = node_at e q"
      using assms(11) unfolding replays_def g_def by blast+
    have sg: "sys cmd e = (0, g)" using r(1) by (simp add: g_def prod_eq_iff)
    have kg: "locked g = {}" "granted g" using r(2) ke by (auto simp: changes_def granted_def)
    have mg: "node_at g man = node_at d man" "is_directory g [''.eval_state'']"
      using r(3) me rs by (auto simp: man_def inside_def is_directory_def)
    note mn = manifest_node [OF mg(1)]
    have mo: "manifest_ok g man" "load_seen_fingerprints g man = Some seen" using mn kg assms(3,9,10) by simp_all
    obtain d' where a: "append_seen_fingerprints man new g = (True, d')"
      using append_granted [OF kg(2) mo(1) [unfolded man_def] mg(2)] unfolding man_def by blast
    have "\<forall>l \<in> set new. plain_line l" using p(3) fingerprints_plain [OF assms(3)] by blast
    from append_seen_load [OF a mo(1) _ this mo(2)] have "load_seen_fingerprints d' man = Some (seen \<union> set new) \<and> manifest_ok d' man" using kg by simp
    moreover have "evaluate_fuzzer_corpus sys opts sd lab rnd loc initial d = Some d'"
      using p(1) False e a assms(8) sg [unfolded cmd_def]
      by (simp add: evaluate_fuzzer_corpus_def evaluate_delta_def radamsa_cmin_def)
    moreover have "seen \<union> set new = seen \<union> (folder_fps d [loc] - initial)" using p(3) by blast
    ultimately show ?thesis using a p(2,3) fe unfolding g_def cmd_def by (intro exI [of _ e] exI [of _ new] exI [of _ d']) simp
  qed
qed

section \<open>Synchronisation selects seeds that cover the targets\<close>

lemma sync_line_fingerprint: "fingerprint (snd (sync_line l (sec, f))) = fingerprint f"
  by (simp add: sync_line_def Let_def split: list.split)

lemma sync_lines_fingerprint: "fingerprint (snd (fold sync_line ls (sec, f))) = fingerprint f"
proof (induction ls arbitrary: sec f)
  case (Cons l ls)
  then show ?case using sync_line_fingerprint [of l sec f] by (cases "sync_line l (sec, f)") simp
qed simp

lemma load_cached_fingerprint: "load_cached_sync_seed_features lab rnd d f = Some f' \<Longrightarrow> fingerprint f' = fingerprint f"
  by (auto simp: load_cached_sync_seed_features_def parse_sync_seed_report_def sync_lines_fingerprint Let_def split: if_splits option.splits node.splits)

lemma load_cached_node:
  "node_at d' (eval_seed_report_cache_dir lab rnd @ [fingerprint f @ ''.report'']) = node_at d (eval_seed_report_cache_dir lab rnd @ [fingerprint f @ ''.report'']) \<Longrightarrow>
     locked d' = locked d \<Longrightarrow> load_cached_sync_seed_features lab rnd d' f = load_cached_sync_seed_features lab rnd d f"
  by (simp add: load_cached_sync_seed_features_def parse_sync_seed_report_def is_regular_file_def Let_def split: option.split node.split)

text \<open>The features of a seed, from the report that the evaluation left.\<close>

definition cached :: "string \<Rightarrow> nat \<Rightarrow> disk \<Rightarrow> string \<Rightarrow> sync_seed_features option" where
  "cached lab rnd d fp = load_cached_sync_seed_features lab rnd d \<lparr>seed_edges = {}, seed_paths = {}, fingerprint = fp\<rparr>"

lemma cached_fingerprint: "cached lab rnd d fp = Some f \<Longrightarrow> fingerprint f = fp"
  unfolding cached_def by (drule load_cached_fingerprint) simp

lemma cached_frame:
  assumes "\<forall>q. \<not> inside dst q \<longrightarrow> node_at d' q = node_at d q" "\<not> inside dst (eval_seed_report_cache_dir lab rnd @ [fp @ ''.report''])" "locked d' = locked d"
  shows "cached lab rnd d' fp = cached lab rnd d fp"
  unfolding cached_def using assms by (intro load_cached_node) simp_all

lemma select_empty: "sync_metric_targets_empty t \<Longrightarrow> select_seeds fs t = ([], t)"
  by (cases fs) simp_all

lemma select_fold:
  assumes "delta_ok [a, b] (sel_disk s)" "locked (sel_disk s) = {}" "granted (sel_disk s)" "a \<noteq> ''.eval_seed_reports''"
    "\<forall>sp \<in> set sps. is_regular_file (sel_disk s) sp \<and> \<not> inside [a, b] sp \<and> eval_file_fingerprint (sel_disk s) sp = fpr sp \<and>
       node_at (sel_disk s) sp = nd sp \<and> cached lab rnd (sel_disk s) (fpr sp) = Some (F (fpr sp))" "distinct (map last sps)"
  shows "\<exists>picked s'. foldM (select_seed sys opts lab rnd [a, b] tmp) (enumerate k sps) s = Some s' \<and> subseq picked sps \<and>
    select_seeds (map (F \<circ> fpr) sps) (remaining s) = (map (F \<circ> fpr) picked, remaining s') \<and>
    selected_fingerprints s' = selected_fingerprints s @ map fpr picked \<and> temp_root_ready s' = temp_root_ready s \<and>
    changes [[a, b]] (sel_disk s) (sel_disk s') \<and> (\<forall>q. \<not> inside [a, b] q \<longrightarrow> node_at (sel_disk s') q = node_at (sel_disk s) q) \<and>
    (\<forall>sp \<in> set picked. node_at (sel_disk s') [a, b, last sp] = nd sp) \<and>
    (\<forall>n. n \<notin> last ` set picked \<longrightarrow> node_at (sel_disk s') [a, b, n] = node_at (sel_disk s) [a, b, n])"
  using assms
proof (induction sps arbitrary: s k)
  case Nil
  then show ?case by (intro exI [of _ "[]"] exI [of _ s]) simp
next
  case (Cons sp sps)
  have sp: "is_regular_file (sel_disk s) sp" "\<not> inside [a, b] sp" "eval_file_fingerprint (sel_disk s) sp = fpr sp"
    "node_at (sel_disk s) sp = nd sp" "cached lab rnd (sel_disk s) (fpr sp) = Some (F (fpr sp))"
    using Cons.prems(5) by simp_all
  have p: "\<forall>sp \<in> set sps. is_regular_file (sel_disk s) sp \<and> \<not> inside [a, b] sp \<and> eval_file_fingerprint (sel_disk s) sp = fpr sp \<and>
       node_at (sel_disk s) sp = nd sp \<and> cached lab rnd (sel_disk s) (fpr sp) = Some (F (fpr sp))" "distinct (map last sps)"
    using Cons.prems(5,6) by simp_all
  have f: "seed_features sys opts lab rnd tmp k sp (temp_root_ready s, sel_disk s) = Some (F (fpr sp), temp_root_ready s, sel_disk s)"
    using sp(5) by (simp add: seed_features_def Let_def sp(3) cached_def [symmetric])
  show ?case
  proof (cases "\<not> sync_metric_targets_empty (remaining s) \<and> sync_seed_has_metric_contribution (F (fpr sp)) (remaining s)")
    case False
    have st: "select_seed sys opts lab rnd [a, b] tmp (k, sp) s = Some s"
      using False f by (auto simp: select_seed_def)
    have sel: "select_seeds (map (F \<circ> fpr) (sp # sps)) (remaining s) = select_seeds (map (F \<circ> fpr) sps) (remaining s)"
      using False select_empty [of "remaining s"] by auto
    from Cons.IH [OF Cons.prems(1-4) p, of "Suc k"] obtain picked s' where t:
      "foldM (select_seed sys opts lab rnd [a, b] tmp) (enumerate (Suc k) sps) s = Some s'" "subseq picked sps"
      "select_seeds (map (F \<circ> fpr) sps) (remaining s) = (map (F \<circ> fpr) picked, remaining s')"
      "selected_fingerprints s' = selected_fingerprints s @ map fpr picked" "temp_root_ready s' = temp_root_ready s"
      "changes [[a, b]] (sel_disk s) (sel_disk s')" "\<forall>q. \<not> inside [a, b] q \<longrightarrow> node_at (sel_disk s') q = node_at (sel_disk s) q"
      "\<forall>sp \<in> set picked. node_at (sel_disk s') [a, b, last sp] = nd sp"
      "\<forall>n. n \<notin> last ` set picked \<longrightarrow> node_at (sel_disk s') [a, b, n] = node_at (sel_disk s) [a, b, n]" by blast
    then show ?thesis unfolding sel using st list_emb_Cons [OF t(2), of sp] by (intro exI [of _ picked] exI [of _ s']) simp
  next
    case True
    obtain d1 where c: "copy_file_or_throw sp ([a, b] @ [last sp]) (sel_disk s) = Some d1" "changes [[a, b]] (sel_disk s) d1" "delta_ok [a, b] d1"
      "\<forall>q. node_at d1 q = (if q = [a, b] @ [last sp] then node_at (sel_disk s) sp else node_at (sel_disk s) q)"
      using copy_into [OF Cons.prems(1-3) sp(1,2), of "last sp"] by blast
    define s1 where "s1 = s\<lparr>sel_disk := d1, selected_fingerprints := selected_fingerprints s @ [fpr sp],
      remaining := consume_sync_metric_targets (F (fpr sp)) (remaining s)\<rparr>"
    have st: "select_seed sys opts lab rnd [a, b] tmp (k, sp) s = Some s1"
      using True f c(1) cached_fingerprint [OF sp(5)] by (simp add: select_seed_def s1_def Let_def)
    have l: "locked d1 = {}" "granted d1" using c(2) Cons.prems(2,3) by (simp_all add: changes_def granted_def)
    have fr: "\<forall>q. \<not> inside [a, b] q \<longrightarrow> node_at d1 q = node_at (sel_disk s) q" using c(4) by (auto simp: inside_def)
    have "cached lab rnd d1 fp = cached lab rnd (sel_disk s) fp" for fp
      using cached_frame [OF fr] l(1) Cons.prems(2,4) by (simp add: inside_def eval_seed_report_cache_dir_def)
    then have p1: "\<forall>sp \<in> set sps. is_regular_file d1 sp \<and> \<not> inside [a, b] sp \<and> eval_file_fingerprint d1 sp = fpr sp \<and>
       node_at d1 sp = nd sp \<and> cached lab rnd d1 (fpr sp) = Some (F (fpr sp))"
      using p(1) fr changes_regular [OF c(2)] changes_fingerprint [OF c(2)] by simp
    have d1: "sel_disk s1 = d1" by (simp add: s1_def)
    from Cons.IH [of s1, unfolded d1, OF c(3) l Cons.prems(4) p1 p(2), of "Suc k"] obtain picked s' where t:
      "foldM (select_seed sys opts lab rnd [a, b] tmp) (enumerate (Suc k) sps) s1 = Some s'" "subseq picked sps"
      "select_seeds (map (F \<circ> fpr) sps) (remaining s1) = (map (F \<circ> fpr) picked, remaining s')"
      "selected_fingerprints s' = selected_fingerprints s1 @ map fpr picked" "temp_root_ready s' = temp_root_ready s1"
      "changes [[a, b]] d1 (sel_disk s')" "\<forall>q. \<not> inside [a, b] q \<longrightarrow> node_at (sel_disk s') q = node_at d1 q"
      "\<forall>sp \<in> set picked. node_at (sel_disk s') [a, b, last sp] = nd sp"
      "\<forall>n. n \<notin> last ` set picked \<longrightarrow> node_at (sel_disk s') [a, b, n] = node_at d1 [a, b, n]" by blast
    have "set picked \<subseteq> set sps" using t(2) by (auto dest: list_emb_set)
    then have "last sp \<notin> last ` set picked" using Cons.prems(6) image_mono [of "set picked" "set sps" last] by auto
    then have "node_at (sel_disk s') [a, b, last sp] = nd sp" using t(9) c(4) sp(4) by simp
    moreover have "select_seeds (map (F \<circ> fpr) (sp # sps)) (remaining s) = (map (F \<circ> fpr) (sp # picked), remaining s')"
      using True t(3) by (simp add: s1_def)
    moreover have "foldM (select_seed sys opts lab rnd [a, b] tmp) (enumerate k (sp # sps)) s = Some s'" using st t(1) by simp
    moreover have "subseq (sp # picked) (sp # sps)" using t(2) by simp
    moreover have "selected_fingerprints s' = selected_fingerprints s @ map fpr (sp # picked)" "temp_root_ready s' = temp_root_ready s"
      using t(4,5) by (simp_all add: s1_def)
    moreover have "\<forall>q. \<not> inside [a, b] q \<longrightarrow> node_at (sel_disk s') q = node_at (sel_disk s) q" using t(7) fr by simp
    moreover have "\<forall>x \<in> set (sp # picked). node_at (sel_disk s') [a, b, last x] = nd x" using t(8) calculation(1) by simp
    moreover have "\<forall>n. n \<notin> last ` set (sp # picked) \<longrightarrow> node_at (sel_disk s') [a, b, n] = node_at (sel_disk s) [a, b, n]" using t(9) c(4) by simp
    ultimately show ?thesis
      using changes_trans [OF c(2) t(6)] by (intro exI [of _ "sp # picked"] exI [of _ s'] conjI)
  qed
qed

text \<open>The copying command brings the files of a folder into the global pool, when they can be read and written and no folder of the pool is in
  the way.\<close>

definition pulls :: "path \<Rightarrow> system \<Rightarrow> bool" where
  "pulls folder sys \<longleftrightarrow> (\<forall>e. disk_ok e \<longrightarrow> locked e = {} \<longrightarrow> granted e \<longrightarrow> delta_ok [GLOBAL_POOL_NAME] e \<longrightarrow>
     changes [[GLOBAL_POOL_NAME]] e (snd (sys (pull_command folder) e)) \<and>
     (\<forall>q. \<not> inside [GLOBAL_POOL_NAME] q \<longrightarrow> node_at (snd (sys (pull_command folder) e)) q = node_at e q) \<and>
     (\<forall>n. is_regular_file e (folder @ [n]) \<longrightarrow> node_at (snd (sys (pull_command folder) e)) [GLOBAL_POOL_NAME, n] = node_at e (folder @ [n])))"

text \<open>There is such a command: it copies the files one by one.\<close>

lemma copy_each_into:
  assumes "delta_ok dst d" "locked d = {}" "granted d" "\<forall>sp \<in> set sps. is_regular_file d sp \<and> \<not> inside dst sp" "distinct (map last sps)"
  shows "changes [dst] d (copy_each sps dst d) \<and> (\<forall>q. \<not> inside dst q \<longrightarrow> node_at (copy_each sps dst d) q = node_at d q) \<and>
    (\<forall>sp \<in> set sps. node_at (copy_each sps dst d) (dst @ [last sp]) = node_at d sp) \<and>
    (\<forall>n. n \<notin> last ` set sps \<longrightarrow> node_at (copy_each sps dst d) (dst @ [n]) = node_at d (dst @ [n]))"
  using assms
proof (induction sps arbitrary: d)
  case (Cons sp sps)
  have sp: "is_regular_file d sp" "\<not> inside dst sp" using Cons.prems(4) by simp_all
  obtain d1 where c: "copy_file_or_throw sp (dst @ [last sp]) d = Some d1" "changes [dst] d d1" "delta_ok dst d1"
    "\<forall>q. node_at d1 q = (if q = dst @ [last sp] then node_at d sp else node_at d q)"
    using copy_into [OF Cons.prems(1-3) sp, of "last sp"] by blast
  have e: "copy_each (sp # sps) dst d = copy_each sps dst d1"
    using c(1) sp(1) by (auto simp: copy_each_def copy_file_or_throw_def split: prod.splits if_splits)
  have l: "locked d1 = {}" "granted d1" using c(2) Cons.prems(2,3) by (simp_all add: changes_def granted_def)
  have fr: "\<forall>q. \<not> inside dst q \<longrightarrow> node_at d1 q = node_at d q" using c(4) by (auto simp: inside_def)
  have p: "\<forall>sp \<in> set sps. is_regular_file d1 sp \<and> \<not> inside dst sp" using Cons.prems(4) changes_regular [OF c(2)] by simp
  have "distinct (map last sps)" using Cons.prems(5) by simp
  note IH = Cons.IH [OF c(3) l p this]
  have "last sp \<notin> last ` set sps" using Cons.prems(5) by simp
  then have "node_at (copy_each sps dst d1) (dst @ [last sp]) = node_at d sp" using IH c(4) by simp
  moreover have "\<forall>x \<in> set sps. node_at d1 x = node_at d x" using Cons.prems(4) fr by simp
  ultimately show ?case unfolding e using IH changes_trans [OF c(2)] fr c(4) by auto
qed (simp add: copy_each_def)

lemma pulls_exist:
  assumes "r \<noteq> GLOBAL_POOL_NAME"
  shows "pulls [r, nm] (\<lambda>cmd e. (0, copy_each (seed_files e [r, nm]) [GLOBAL_POOL_NAME] e))"
  unfolding pulls_def
proof (intro allI impI)
  fix e
  assume e: "disk_ok e" "locked e = {}" "granted e" "delta_ok [GLOBAL_POOL_NAME] e"
  have "\<forall>sp \<in> set (seed_files e [r, nm]). is_regular_file e sp \<and> \<not> inside [GLOBAL_POOL_NAME] sp"
    using assms by (auto simp: set_seed_files [OF e(1)] inside_def)
  from copy_each_into [OF e(4,2,3) this distinct_last_seed_files [OF e(1)]]
  show "changes [[GLOBAL_POOL_NAME]] e (snd (0, copy_each (seed_files e [r, nm]) [GLOBAL_POOL_NAME] e)) \<and>
      (\<forall>q. \<not> inside [GLOBAL_POOL_NAME] q \<longrightarrow> node_at (snd (0, copy_each (seed_files e [r, nm]) [GLOBAL_POOL_NAME] e)) q = node_at e q) \<and>
      (\<forall>n. is_regular_file e ([r, nm] @ [n]) \<longrightarrow>
        node_at (snd (0, copy_each (seed_files e [r, nm]) [GLOBAL_POOL_NAME] e)) [GLOBAL_POOL_NAME, n] = node_at e ([r, nm] @ [n]))"
    by (auto simp: set_seed_files [OF e(1)])
qed

text \<open>The selection of the files.\<close>

lemma selection_selects:
  assumes "disk_ok d" "locked d = {}" "granted d" "no_file d [''.sync_selected'']" "targets lab = Some t"
    "is_directory d (input_dir delta)" "input_dir delta = [r, nm]" "r \<noteq> ''.sync_selected''"
    "\<forall>fp \<in> folder_fps d [r, nm]. cached lab rnd d fp = Some (F fp)"
  shows "\<exists>picked d' all. select_sync_seeds sys opts targets lab rnd delta d =
      Some (True, delta\<lparr>input_dir := [''.sync_selected'', label_round lab rnd], new_fingerprints := map (eval_file_fingerprint d) picked, new_files := length picked\<rparr>, d') \<and>
    set picked \<subseteq> set (seed_files d [r, nm]) \<and> set all = folder_fps d [r, nm] \<and>
    consume_all (map (F \<circ> eval_file_fingerprint d) picked) t = consume_all (map F all) t \<and>
    each_contributes (map (F \<circ> eval_file_fingerprint d) picked) t \<and>
    changes [[''.sync_selected'', label_round lab rnd]] d d' \<and>
    (\<forall>q. \<not> inside [''.sync_selected''] q \<longrightarrow> node_at d' q = node_at d q) \<and>
    (\<forall>sp \<in> set picked. node_at d' [''.sync_selected'', label_round lab rnd, last sp] = node_at d sp)"
proof -
  define dst where "dst = [''.sync_selected'', label_round lab rnd]"
  obtain d1 where d1: "create_directories [''.sync_selected''] d = Some d1" using create_top_exists [OF assms(4)] by blast
  note c1 = create_directories_ok [OF d1]
  have ok1: "disk_ok d1" using c1 assms(1) changes_ok by blast
  have "no_file d1 [''.sync_selected'']" using c1 by (simp add: no_file_def is_directory_def)
  then obtain d2 where d2: "ensure_clean_directory dst d1 = Some d2" using clean_exists [OF ok1] unfolding dst_def by blast
  note c2 = ensure_clean_ok [OF d2]
  have ne: "dst \<noteq> []" by (simp add: dst_def)
  have ch: "changes [dst] d d2" using c1 c2 [OF ne] changes_mono [of "[]" _ _ "[dst]"] changes_trans by (metis empty_subsetI list.set(1))
  have fr: "node_at d2 q = node_at d q" if "\<not> inside [''.sync_selected''] q" for q
  proof -
    have "\<not> inside dst q" using that inside_append [of "[''.sync_selected'']" _ q] by (auto simp: dst_def)
    moreover have "inside q dst \<longrightarrow> q = []" using that by (cases q) (auto simp: inside_def dst_def)
    moreover have "inside q [''.sync_selected''] \<longrightarrow> q = []" using that by (cases q) (auto simp: inside_def)
    moreover have "node_at x [] = node_at d []" for x by (simp add: node_at_def)
    ultimately show ?thesis using c1 c2 [OF ne] by (cases "q = []") metis+
  qed
  have k: "disk_ok d2" "locked d2 = {}" "granted d2" using ch assms(1-3) by (auto simp: changes_def granted_def)
  have out: "\<not> inside [''.sync_selected''] (r # p)" "\<not> inside dst (r # p)" for p using assms(8) by (auto simp: inside_def dst_def)
  have same: "is_regular_file d2 (r # p) = is_regular_file d (r # p) \<and> eval_file_fingerprint d2 (r # p) = eval_file_fingerprint d (r # p) \<and> node_at d2 (r # p) = node_at d (r # p)" for p
    using changes_regular [OF ch] changes_fingerprint [OF ch] fr out by simp
  have "is_directory d2 [r, nm]" using assms(6,7) same by (simp add: is_directory_def)
  define sps where "sps = seed_files d2 [r, nm]"
  have sps: "set sps = {[r, nm] @ [n] | n. is_regular_file d ([r, nm] @ [n])}" using set_seed_files [OF k(1)] same by (simp add: sps_def)
  then have sf: "set (seed_files d [r, nm]) = set sps" using set_seed_files [OF assms(1)] by simp
  have fe: "eval_file_fingerprint d ` set sps = folder_fps d [r, nm]" using folder_fps_seed_files [OF assms(1)] sf by metis
  have cf: "cached lab rnd d2 fp = cached lab rnd d fp" for fp
    using fr assms(2) k(2) unfolding cached_def by (intro load_cached_node) (simp_all add: eval_seed_report_cache_dir_def inside_def)
  have dok: "delta_ok dst d2" using c2 [OF ne] ok1 by (simp add: delta_ok_def is_directory_def)
  have g: "\<forall>sp \<in> set sps. is_regular_file d2 sp \<and> \<not> inside dst sp \<and> eval_file_fingerprint d2 sp = eval_file_fingerprint d sp \<and>
       node_at d2 sp = node_at d sp \<and> cached lab rnd d2 (eval_file_fingerprint d sp) = Some (F (eval_file_fingerprint d sp))"
    using sps same out assms(9) fe cf by auto
  show ?thesis
  proof (cases "sync_metric_targets_empty t")
    case True
    have "select_sync_seeds sys opts targets lab rnd delta d = Some (True, delta\<lparr>input_dir := dst, new_fingerprints := [], new_files := 0\<rparr>, d2)"
      using True assms(5) d1 d2 by (simp add: select_sync_seeds_def dst_def)
    then show ?thesis using True ch fr fe consume_all_empty [OF True]
      by (intro exI [of _ "[]"] exI [of _ d2] exI [of _ "map (eval_file_fingerprint d) sps"]) (simp add: dst_def)
  next
    case False
    define s0 where "s0 = \<lparr>remaining = t, selected_fingerprints = [], temp_root_ready = False, sel_disk = d2\<rparr>"
    have s0: "sel_disk s0 = d2" "remaining s0 = t" "selected_fingerprints s0 = []" "\<not> temp_root_ready s0" by (simp_all add: s0_def)
    from select_fold [of "''.sync_selected''" "label_round lab rnd" s0 sps "eval_file_fingerprint d" "node_at d" lab rnd F sys opts
        "[''.sync_eval_tmp'', label_round lab rnd]" 0, folded dst_def, unfolded s0(1), OF dok k(2,3) _ g distinct_last_seed_files [OF k(1), of "[r, nm]", folded sps_def]]
    obtain picked s' where t: "foldM (select_seed sys opts lab rnd dst [''.sync_eval_tmp'', label_round lab rnd]) (enumerate 0 sps) s0 = Some s'" "subseq picked sps"
      "select_seeds (map (F \<circ> eval_file_fingerprint d) sps) t = (map (F \<circ> eval_file_fingerprint d) picked, remaining s')"
      "selected_fingerprints s' = map (eval_file_fingerprint d) picked" "\<not> temp_root_ready s'" "changes [dst] d2 (sel_disk s')"
      "\<forall>q. \<not> inside dst q \<longrightarrow> node_at (sel_disk s') q = node_at d2 q" "\<forall>sp \<in> set picked. node_at (sel_disk s') [''.sync_selected'', label_round lab rnd, last sp] = node_at d sp"
      by (auto simp: s0)
    have "select_sync_seeds sys opts targets lab rnd delta d =
        Some (True, delta\<lparr>input_dir := dst, new_fingerprints := map (eval_file_fingerprint d) picked, new_files := length picked\<rparr>, sel_disk s')"
      using False assms(5,7) d1 d2 t(1,4,5) \<open>is_directory d2 [r, nm]\<close>
      by (simp add: select_sync_seeds_def dst_def [symmetric] sps_def [symmetric] s0_def [symmetric])
    moreover have "consume_all (map (F \<circ> eval_file_fingerprint d) picked) t = consume_all (map (F \<circ> eval_file_fingerprint d) sps) t"
      "each_contributes (map (F \<circ> eval_file_fingerprint d) picked) t" using select_seeds_spec [OF t(3)] by metis+
    moreover have "node_at (sel_disk s') q = node_at d q" if "\<not> inside [''.sync_selected''] q" for q
    proof -
      have "\<not> inside dst q" using that inside_append [of "[''.sync_selected'']" _ q] by (auto simp: dst_def)
      then show ?thesis using t(7) fr [OF that] by simp
    qed
    moreover have "set picked \<subseteq> set sps" using t(2) by (auto dest: list_emb_set)
    ultimately show ?thesis using t(8) changes_trans [OF ch t(6)] fe sf
      by (intro exI [of _ picked] exI [of _ "sel_disk s'"] exI [of _ "map (eval_file_fingerprint d) sps"]) (simp add: dst_def)
  qed
qed

lemma same_cover:
  assumes "consume_all fs t = consume_all gs t"
  shows "c0_edges t - (\<Union>f \<in> set fs. seed_edges f) = c0_edges t - (\<Union>f \<in> set gs. seed_edges f) \<and>
    c1_paths t - (\<Union>f \<in> set fs. seed_paths f) = c1_paths t - (\<Union>f \<in> set gs. seed_paths f) \<and>
    c2_crashes t - fingerprint ` set fs = c2_crashes t - fingerprint ` set gs \<and>
    c3_deep_edges t - (\<Union>f \<in> set fs. seed_edges f) = c3_deep_edges t - (\<Union>f \<in> set gs. seed_edges f) \<and>
    c4_low_freq_edges t - (\<Union>f \<in> set fs. seed_edges f) = c4_low_freq_edges t - (\<Union>f \<in> set gs. seed_edges f)"
  using consume_all_sets [of fs t] consume_all_sets [of gs t] assms by simp

lemma cached_changes:
  assumes "cached lab rnd d fp = Some f" "changes [[a, b]] d d'" "a \<noteq> ''.eval_seed_reports''"
  shows "cached lab rnd d' fp = Some f"
proof -
  define p where "p = eval_seed_report_cache_dir lab rnd @ [fp @ ''.report'']"
  have "is_regular_file d p" using assms(1) by (simp add: cached_def load_cached_sync_seed_features_def p_def Let_def split: if_splits)
  then have "node_at d p \<noteq> None" by (rule regular_exists)
  moreover have "\<not> inside [a, b] p" using assms(3) by (simp add: p_def eval_seed_report_cache_dir_def inside_def)
  ultimately have "node_at d' p = node_at d p" using changes_node [OF assms(2), of p] by auto
  then show ?thesis using assms(1,2) load_cached_node [of d' lab rnd _ d] by (simp add: cached_def p_def changes_def)
qed

lemma synchronisation_covers:
  fixes lab :: string and rnd :: nat
  defines "loc \<equiv> lab @ show_nat rnd" and "man \<equiv> [''.sync_state'', label_round lab rnd @ ''.manifest'']"
  assumes "disk_ok d" "locked d = {}" "granted d" "\<forall>x \<in> {''.sync_state'', ''.sync_delta'', ''.sync_selected''}. no_file d [x]"
    "is_directory d [loc]" "loc \<noteq> ''.sync_delta''" "delta_ok [GLOBAL_POOL_NAME] d" "manifest_ok d man" "load_seen_fingerprints d man = Some seen"
    "targets lab = Some t" "\<forall>fp \<in> folder_fps d [loc] - initial - seen. cached lab rnd d fp = Some (F fp)"
    "pulls [''.sync_selected'', label_round lab rnd] sys"
  shows "\<exists>names all d'. sync_round_new_seeds_to_global sys opts targets lab rnd initial d = Some d' \<and>
    set all = folder_fps d [loc] - initial - seen \<and>
    (\<forall>n \<in> set names. is_regular_file d [loc, n] \<and> node_at d' [GLOBAL_POOL_NAME, n] = node_at d [loc, n]) \<and>
    (let picked = map (\<lambda>n. eval_file_fingerprint d [loc, n]) names
     in set picked \<subseteq> set all \<and> consume_all (map F picked) t = consume_all (map F all) t \<and> each_contributes (map F picked) t \<and>
        load_seen_fingerprints d' man = Some (seen \<union> set picked) \<and> manifest_ok d' man)"
proof -
  define sel where "sel = [''.sync_selected'', label_round lab rnd]"
  have nf: "no_file d [''.sync_state'']" "no_file d [''.sync_delta'']" "no_file d [''.sync_selected'']" using assms(6) by simp_all
  have "''.sync_state'' \<noteq> ''.sync_delta''" by simp
  from prepare_delta_new [OF assms(3-5) nf(1,2) this assms(8,7) assms(11) [unfolded man_def], of "label_round lab rnd" initial]
  obtain taken new dp where p: "prepare_incremental_sync_input lab rnd [loc] initial d = Some (True, \<lparr>input_dir = [''.sync_delta'', label_round lab rnd],
      manifest_path = man, new_fingerprints = new, total_files = length (seed_files d [loc]), new_files = length new\<rparr>, dp)"
    "set new = folder_fps d [loc] - initial - seen" "folder_fps dp [''.sync_delta'', label_round lab rnd] = set new"
    "\<forall>n. node_at dp [''.sync_delta'', label_round lab rnd, n] = (case List.find (\<lambda>sp. last sp = n) taken of None \<Rightarrow> None | Some sp \<Rightarrow> node_at d sp)"
    "set taken \<subseteq> set (seed_files d [loc])"
    "changes [[''.sync_delta'', label_round lab rnd]] d dp" "delta_ok [''.sync_delta'', label_round lab rnd] dp"
    "is_directory dp [''.sync_state'']" "node_at dp man = node_at d man"
    "\<forall>q. \<not> inside [''.sync_state''] q \<longrightarrow> \<not> inside [''.sync_delta''] q \<longrightarrow> node_at dp q = node_at d q"
    unfolding prepare_incremental_sync_input_def man_def by blast
  have kp: "disk_ok dp" "locked dp = {}" "granted dp" using p(6) assms(3-5) by (auto simp: changes_def granted_def)
  have mp: "manifest_ok dp man" "load_seen_fingerprints dp man = Some seen" using manifest_node [OF p(9)] kp(2) assms(4,10,11) by simp_all
  show ?thesis
  proof (cases "new = []")
    case True
    then have "sync_round_new_seeds_to_global sys opts targets lab rnd initial d = Some dp"
      using p(1) by (simp add: sync_round_new_seeds_to_global_def loc_def)
    then show ?thesis using True p(2) mp by (intro exI [of _ "[]"] exI [of _ "[]"] exI [of _ dp]) simp
  next
    case False
    define delta where "delta = \<lparr>input_dir = [''.sync_delta'', label_round lab rnd],
      manifest_path = man, new_fingerprints = new, total_files = length (seed_files d [loc]), new_files = length new\<rparr>"
    have i: "input_dir delta = [''.sync_delta'', label_round lab rnd]" "is_directory dp (input_dir delta)" "manifest_path delta = man"
      using p(7) by (simp_all add: delta_def delta_ok_def)
    have "no_file dp [''.sync_selected'']" using no_file_changes [OF p(6) _ nf(3)] by (simp add: inside_def)
    moreover have "\<forall>fp \<in> folder_fps dp [''.sync_delta'', label_round lab rnd]. cached lab rnd dp fp = Some (F fp)"
      using cached_changes [OF _ p(6)] assms(13) unfolding p(2,3) by simp
    moreover have "''.sync_delta'' \<noteq> ''.sync_selected''" by simp
    ultimately obtain picked e all where s: "select_sync_seeds sys opts targets lab rnd delta dp =
        Some (True, delta\<lparr>input_dir := sel, new_fingerprints := map (eval_file_fingerprint dp) picked, new_files := length picked\<rparr>, e)"
      "set picked \<subseteq> set (seed_files dp [''.sync_delta'', label_round lab rnd])" "set all = set new"
      "consume_all (map (F \<circ> eval_file_fingerprint dp) picked) t = consume_all (map F all) t"
      "each_contributes (map (F \<circ> eval_file_fingerprint dp) picked) t" "changes [sel] dp e"
      "\<forall>q. \<not> inside [''.sync_selected''] q \<longrightarrow> node_at e q = node_at dp q"
      "\<forall>sp \<in> set picked. node_at e (sel @ [last sp]) = node_at dp sp"
      using selection_selects [where targets = targets and lab = lab and F = F and sys = sys and opts = opts and rnd = rnd, OF kp _ assms(12) i(2,1)] unfolding p(3) sel_def by auto
    have seed: "sp = [''.sync_delta'', label_round lab rnd, last sp] \<and> is_regular_file dp sp \<and> is_regular_file d [loc, last sp] \<and>
        node_at dp sp = node_at d [loc, last sp] \<and> eval_file_fingerprint dp sp = eval_file_fingerprint d [loc, last sp] \<and>
        eval_file_fingerprint dp sp \<in> set new" if pk: "sp \<in> set picked" for sp
    proof -
      obtain n where n: "sp = [''.sync_delta'', label_round lab rnd, n]" "is_regular_file dp sp"
        using subsetD [OF s(2) pk] by (auto simp: set_seed_files [OF kp(1)])
      then have "node_at dp sp \<noteq> None" using regular_exists by blast
      then obtain q where q: "List.find (\<lambda>sp. last sp = n) taken = Some q" "node_at dp sp = node_at d q"
        using p(4) n(1) by (cases "List.find (\<lambda>sp. last sp = n) taken") auto
      then have "q \<in> set (seed_files d [loc])" "last q = n" using p(5) by (auto simp: find_Some_iff)
      then have "q = [loc, n]" "is_regular_file d q" by (auto simp: set_seed_files [OF assms(3)])
      moreover from this have "eval_file_fingerprint dp sp = eval_file_fingerprint d q" using fingerprint_node [OF q(2)] assms(4) kp(2) by blast
      moreover have "eval_file_fingerprint dp sp \<in> set new" using folder_fps_seed_files [OF kp(1)] pk s(2) unfolding p(3) [symmetric] by blast
      ultimately show ?thesis using n q by simp
    qed
    define names where "names = map last picked"
    have fps: "map (eval_file_fingerprint dp) picked = map (\<lambda>n. eval_file_fingerprint d [loc, n]) names" using seed by (simp add: names_def)
    have ke: "locked e = {}" "granted e" using s(6) kp by (auto simp: changes_def granted_def)
    have ke0: "disk_ok e" using s(6) kp(1) by (simp add: changes_def)
    have me: "node_at e man = node_at dp man" "is_directory e [''.sync_state'']"
      using s(7) p(8) by (auto simp: man_def inside_def is_directory_def)
    have "node_at e (GLOBAL_POOL_NAME # q) = node_at d (GLOBAL_POOL_NAME # q)" for q
      using s(7) p(10) by (simp add: inside_def GLOBAL_POOL_NAME_def)
    then have ge: "delta_ok [GLOBAL_POOL_NAME] e" using assms(9) by (simp add: delta_ok_def is_directory_def)
    have im: "load_seen_fingerprints e man = Some seen" "manifest_ok e man" using manifest_node [OF me(1)] ke kp(2) mp by simp_all
    show ?thesis
    proof (cases "picked = []")
      case True
      then have "sync_round_new_seeds_to_global sys opts targets lab rnd initial d = Some e"
        using p(1) s(1) False by (simp add: sync_round_new_seeds_to_global_def loc_def delta_def)
      then show ?thesis using True s(3-5) p(2) im by (intro exI [of _ "[]"] exI [of _ all] exI [of _ e]) simp
    next
      case ne: False
      define g where "g = pull_seeds sys sel e"
      have g: "changes [[GLOBAL_POOL_NAME]] e g" "\<forall>q. \<not> inside [GLOBAL_POOL_NAME] q \<longrightarrow> node_at g q = node_at e q"
        "\<forall>n. is_regular_file e (sel @ [n]) \<longrightarrow> node_at g [GLOBAL_POOL_NAME, n] = node_at e (sel @ [n])"
        using assms(14) ke0 ke ge unfolding pulls_def g_def pull_seeds_def sel_def by blast+
      have kg: "locked g = {}" "granted g" using g(1) ke by (auto simp: changes_def granted_def)
      have mg: "node_at g man = node_at e man" "is_directory g [''.sync_state'']"
        using g(2) me by (auto simp: man_def inside_def is_directory_def GLOBAL_POOL_NAME_def)
      have ig: "load_seen_fingerprints g man = Some seen" "manifest_ok g man" using manifest_node [OF mg(1)] kg ke im by simp_all
      obtain d' where a: "append_seen_fingerprints man (map (eval_file_fingerprint dp) picked) g = (True, d')" "changes [man] g d'"
        using append_granted [OF kg(2) ig(2) [unfolded man_def] mg(2)] unfolding man_def by blast
      have sn: "set (map (eval_file_fingerprint dp) picked) \<subseteq> set new" unfolding set_map image_subset_iff using seed by blast
      then have "\<forall>l \<in> set (map (eval_file_fingerprint dp) picked). plain_line l" using p(2) fingerprints_plain [OF assms(4), of _ "[loc]"] by blast
      from append_seen_load [OF a(1) ig(2) _ this ig(1)] kg(1)
      have ld: "load_seen_fingerprints d' man = Some (seen \<union> set (map (eval_file_fingerprint dp) picked)) \<and> manifest_ok d' man" by simp
      have cp: "is_regular_file d [loc, n] \<and> node_at d' [GLOBAL_POOL_NAME, n] = node_at d [loc, n]" if "n \<in> set names" for n
      proof -
        obtain sp where sp: "sp \<in> set picked" "n = last sp" using \<open>n \<in> set names\<close> by (auto simp: names_def)
        have "node_at e (sel @ [n]) = node_at d [loc, n]" "is_regular_file d [loc, n]" using s(8) seed [OF sp(1)] sp by simp_all
        then have "node_at g [GLOBAL_POOL_NAME, n] = node_at d [loc, n]" "node_at g [GLOBAL_POOL_NAME, n] \<noteq> None"
          using g(3) regular_exists by (auto simp: is_regular_file_def)
        moreover have "\<not> inside man [GLOBAL_POOL_NAME, n]" by (simp add: man_def inside_def GLOBAL_POOL_NAME_def)
        moreover from this have "node_at d' [GLOBAL_POOL_NAME, n] = node_at g [GLOBAL_POOL_NAME, n] \<or> node_at g [GLOBAL_POOL_NAME, n] = None"
          using changes_node [OF a(2), of "[GLOBAL_POOL_NAME, n]"] by auto
        ultimately show ?thesis using \<open>is_regular_file d [loc, n]\<close> by metis
      qed
      have "sync_round_new_seeds_to_global sys opts targets lab rnd initial d = Some d'"
        using p(1) s(1) False ne a(1) i(3)
        by (simp add: sync_round_new_seeds_to_global_def loc_def [symmetric] delta_def g_def)
      moreover have "set (map (eval_file_fingerprint dp) picked) \<subseteq> set all" using sn s(3) by simp
      moreover have "set all = folder_fps d [loc] - initial - seen" using s(3) p(2) by simp
      ultimately show ?thesis using cp ld s(4,5) unfolding map_map [symmetric] fps Let_def by (intro exI [of _ names] exI [of _ all] exI [of _ d'] conjI) auto
    qed
  qed
qed

end
