(* ===== verification/Legion_Store.thy ===== *)
theory Legion_Store
  imports Legion_Sync Legion_Files_Laws
begin

text \<open>
  Every operation of the scheduler keeps the store well-formed, whichever files cannot be read and whichever writes are refused, as far as
  the commands it runs do.
\<close>

section \<open>Single operations\<close>

text \<open>Results that may be an exception, and pairs with the store.\<close>

named_theorems keeps_ok

abbreviation ok_snd :: "'a \<times> disk \<Rightarrow> bool" where "ok_snd r \<equiv> disk_ok (snd r)"
abbreviation ok_snd_snd :: "'a \<times> 'b \<times> disk \<Rightarrow> bool" where "ok_snd_snd r \<equiv> disk_ok (snd (snd r))"

lemma bind_keeps: "pred_option I m \<Longrightarrow> (\<And>x. I x \<Longrightarrow> pred_option J (f x)) \<Longrightarrow> pred_option J (m \<bind> f)"
  by (cases m) simp_all

lemma map_keeps: "pred_option I m \<Longrightarrow> (\<And>x. I x \<Longrightarrow> J (f x)) \<Longrightarrow> pred_option J (map_option f m)"
  by (cases m) simp_all

lemma foldM_keeps: "I s \<Longrightarrow> (\<And>x s. I s \<Longrightarrow> pred_option I (f x s)) \<Longrightarrow> pred_option I (foldM f xs s)"
proof (induction xs arbitrary: s)
  case (Cons x xs)
  then have "pred_option I (f x s)" by blast
  then show ?case using Cons by (cases "f x s") simp_all
qed simp

lemma fold_keeps: "I s \<Longrightarrow> (\<And>x s. I s \<Longrightarrow> I (f x s)) \<Longrightarrow> I (fold f xs s)"
  by (induction xs arbitrary: s) simp_all

lemma pred_optionI: "(\<And>x. m = Some x \<Longrightarrow> I x) \<Longrightarrow> pred_option I m"
  by (cases m) simp_all

lemma write_file_ok [keeps_ok]: "disk_ok d \<Longrightarrow> ok_snd (write_file p c d)"
  using write_file_spec [OF surjective_pairing] changes_ok by blast

lemma copy_file_ok [keeps_ok]: "disk_ok d \<Longrightarrow> ok_snd (copy_file src dst d)"
  using copy_file_spec [OF surjective_pairing] changes_ok by blast

lemma copy_file_or_throw_ok [keeps_ok]: "disk_ok d \<Longrightarrow> pred_option disk_ok (copy_file_or_throw src dst d)"
  using copy_file_ok by (simp add: copy_file_or_throw_def case_prod_unfold Let_def)

lemma create_hard_link_ok [keeps_ok]: "disk_ok d \<Longrightarrow> ok_snd (create_hard_link src dst d)"
  using copy_file_ok by (simp add: create_hard_link_def)

lemma create_directories_keeps [keeps_ok]: "disk_ok d \<Longrightarrow> pred_option disk_ok (create_directories p d)"
  using create_directories_ok changes_ok by (intro pred_optionI) blast

lemma remove_all_ok [keeps_ok]: "disk_ok d \<Longrightarrow> disk_ok (remove_all p d)"
proof (cases "p = []")
  case True
  then have "disk.nodes (remove_all p d) = []" by (simp add: remove_all_def)
  then show "disk_ok (remove_all p d)" by (simp add: disk_ok_def)
qed (use remove_all_changes changes_ok in blast)

lemma ensure_clean_directory_ok [keeps_ok]: "disk_ok d \<Longrightarrow> pred_option disk_ok (ensure_clean_directory p d)"
  using create_directories_keeps remove_all_ok by (simp add: ensure_clean_directory_def)

lemma remove_path_some:
  assumes "remove_path p d = Some d'" "disk_ok d"
  shows "disk_ok d'"
proof -
  have d': "d' = d\<lparr>nodes := AList.delete p (nodes d)\<rparr>" "\<not> is_directory d p \<or> directory_iterator d p = []"
    using assms(1) by (auto simp: remove_path_def split: if_splits)
  have m: "map_of (nodes d') q = (if q = p then None else map_of (nodes d) q)" for q by (simp add: d'(1) delete_conv')
  have "is_directory d' (butlast q)" if q: "map_of (nodes d') q \<noteq> None" for q
  proof -
    have n: "q \<noteq> p" "map_of (nodes d) q \<noteq> None" using q m by (auto split: if_splits)
    then have b: "q \<noteq> []" "is_directory d (butlast q)" using assms(2) by (auto simp: disk_ok_def)
    have "butlast q \<noteq> p"
    proof
      assume p: "butlast q = p"
      then have "directory_iterator d p = []" using b(2) d'(2) by blast
      moreover have "q \<in> set (directory_iterator d p)"
        using n(2) b(1) p map_of_SomeD by (force simp: directory_iterator_def)
      ultimately show False by simp
    qed
    then show ?thesis using b by (auto simp: is_directory_def node_at_def m)
  qed
  moreover have "distinct (map fst (nodes d'))" using assms(2) by (simp add: d'(1) disk_ok_def distinct_delete)
  moreover have "q \<noteq> []" if "map_of (nodes d') q \<noteq> None" for q using that m assms(2) by (auto simp: disk_ok_def split: if_splits)
  ultimately show ?thesis by (simp add: disk_ok_def)
qed

lemma remove_path_ok [keeps_ok]: "disk_ok d \<Longrightarrow> pred_option disk_ok (remove_path p d)"
  using remove_path_some by (intro pred_optionI) blast

lemma stream_line_some: "stream_line p l (pos, d) = (pos', d') \<Longrightarrow> disk_ok d \<Longrightarrow> disk_ok d'"
proof -
  assume s: "stream_line p l (pos, d) = (pos', d')" "disk_ok d"
  show ?thesis
  proof (cases "node_at d p")
    case (Some n)
    then show ?thesis
    proof (cases n)
      case (File c)
      then have "p \<noteq> []" "is_directory d (butlast p)" using Some s(2) disk_ok_node [of d p] by (auto simp: node_at_def split: if_splits)
      then show ?thesis using s Some File disk_ok_put [OF s(2), of p] by (auto simp: stream_line_def is_directory_def)
    qed (use s Some in \<open>auto simp: stream_line_def\<close>)
  qed (use s in \<open>auto simp: stream_line_def\<close>)
qed

lemma stream_line_ok [keeps_ok]: "disk_ok d \<Longrightarrow> ok_snd (stream_line p l (pos, d))"
  using stream_line_some [OF surjective_pairing] by blast

lemma append_seen_ok [keeps_ok]: "disk_ok d \<Longrightarrow> ok_snd (append_seen_fingerprints p fps d)"
  by (simp add: append_seen_fingerprints_def write_file_ok)

section \<open>Folders\<close>

lemma copy_each_ok [keeps_ok]: "disk_ok d \<Longrightarrow> disk_ok (copy_each ps dst d)"
  unfolding copy_each_def by (rule fold_keeps) (auto intro: copy_file_ok)

lemma copy_immediate_ok [keeps_ok]: "disk_ok d \<Longrightarrow> pred_option disk_ok (copy_immediate_files_to_dir src dst d)"
  by (auto simp: copy_immediate_files_to_dir_def intro!: bind_keeps keeps_ok)

lemma copy_recursive_ok [keeps_ok]: "disk_ok d \<Longrightarrow> pred_option disk_ok (copy_recursive_files_to_dir src dst d)"
  by (auto simp: copy_recursive_files_to_dir_def intro!: bind_keeps keeps_ok)

lemma merge_seed_ok: "ok_snd s \<Longrightarrow> ok_snd (merge_seed accum sp s)"
  by (simp add: merge_seed_def case_prod_unfold Let_def copy_file_ok)

lemma merge_folder_ok [keeps_ok]: "disk_ok d \<Longrightarrow> pred_option disk_ok (merge_seed_folder_into_accum source accum d)"
  by (auto simp: merge_seed_folder_into_accum_def intro!: bind_keeps fold_keeps [where I = ok_snd] merge_seed_ok keeps_ok)

lemma archive_seed_ok: "ok_snd s \<Longrightarrow> ok_snd (archive_seed initial arch sp s)"
  by (simp add: archive_seed_def case_prod_unfold Let_def copy_file_ok stream_line_ok)

lemma archive_new_ok [keeps_ok]: "disk_ok d \<Longrightarrow> pred_option disk_ok (archive_round_new_seeds lab rnd loc initial d)"
  by (auto simp: archive_round_new_seeds_def Let_def case_prod_unfold
      intro!: bind_keeps fold_keeps [where I = ok_snd] archive_seed_ok keeps_ok)

lemma archive_crash_ok: "ok_snd s \<Longrightarrow> pred_option ok_snd (archive_crash arch e s)"
  by (auto simp: archive_crash_def Let_def case_prod_unfold intro!: bind_keeps [where I = disk_ok] keeps_ok)

lemma archive_crashes_ok [keeps_ok]: "disk_ok d \<Longrightarrow> pred_option disk_ok (archive_round_crash_seeds lab rnd d)"
  by (auto simp: archive_round_crash_seeds_def Let_def case_prod_unfold
      intro!: bind_keeps [where I = disk_ok] map_keeps [where I = ok_snd] foldM_keeps archive_crash_ok keeps_ok)

lemma stage_crash_ok: "ok_snd_snd s \<Longrightarrow> ok_snd_snd (stage_crash dir e s)"
  by (simp add: stage_crash_def case_prod_unfold Let_def copy_file_ok)

lemma stage_ok [keeps_ok]: "disk_ok d \<Longrightarrow> pred_option disk_ok (stage_current_round_crashes lab rnd d)"
  by (auto simp: stage_current_round_crashes_def Let_def case_prod_unfold
      intro!: bind_keeps [where I = disk_ok] fold_keeps [where I = ok_snd_snd] stage_crash_ok keeps_ok)

lemma export_crash_ok: "ok_snd s \<Longrightarrow> ok_snd (export_crash arch p s)"
  by (simp add: export_crash_def case_prod_unfold Let_def copy_file_ok stream_line_ok)

lemma export_ok [keeps_ok]: "disk_ok d \<Longrightarrow> pred_option disk_ok (export_staged_round_crashes lab rnd d)"
  by (auto simp: export_staged_round_crashes_def Let_def case_prod_unfold
      intro!: bind_keeps fold_keeps [where I = ok_snd] export_crash_ok keeps_ok)

section \<open>Rounds\<close>

lemma snapshot_queues_ok [keeps_ok]: "disk_ok d \<Longrightarrow> pred_option disk_ok (snapshot_queues out dst d)"
  by (auto simp: snapshot_queues_def intro!: foldM_keeps keeps_ok)

lemma collect_outputs_ok [keeps_ok]: "disk_ok d \<Longrightarrow> pred_option disk_ok (collect_active_round_outputs lab live accum d)"
  by (auto simp: collect_active_round_outputs_def snapshot_runtime_outputs_for_label_def intro!: bind_keeps [where I = disk_ok] keeps_ok)

lemma initial_snapshot_ok [keeps_ok]: "disk_ok d \<Longrightarrow> pred_option ok_snd (prepare_fuzzer_initial_snapshot opts lab accum m i d)"
  by (auto simp: prepare_fuzzer_initial_snapshot_def Let_def intro!: bind_keeps [where I = disk_ok] keeps_ok)

lemma runtime_dir_ok [keeps_ok]: "disk_ok d \<Longrightarrow> pred_option ok_snd (prepare_direct_runtime_dir lab dir clean d)"
  by (auto simp: prepare_direct_runtime_dir_def Let_def simp del: foldM.simps intro!: bind_keeps [where I = disk_ok] foldM_keeps [where I = disk_ok] keeps_ok)

lemma take_new_ok: "ok_snd_snd s \<Longrightarrow> pred_option ok_snd_snd (take_new initial seen dst sp s)"
  by (auto simp: take_new_def case_prod_unfold Let_def intro!: map_keeps [where I = disk_ok] keeps_ok)

lemma prepare_delta_ok [keeps_ok]: "disk_ok d \<Longrightarrow> pred_option ok_snd_snd (prepare_delta s m r n loc initial d)"
  unfolding prepare_delta_def Let_def
  by (rule bind_keeps, erule create_directories_keeps, rule bind_keeps, erule create_directories_keeps, rule bind_keeps, erule ensure_clean_directory_ok)
    (auto split: option.splits intro!: bind_keeps [where I = ok_snd_snd] foldM_keeps take_new_ok)

section \<open>Commands\<close>

definition runs_ok :: "system \<Rightarrow> bool" where
  "runs_ok sys \<longleftrightarrow> (\<forall>cmd d. disk_ok d \<longrightarrow> disk_ok (snd (sys cmd d)))"

lemma sys_ok [keeps_ok]: "runs_ok sys \<Longrightarrow> disk_ok d \<Longrightarrow> ok_snd (sys cmd d)"
  by (simp add: runs_ok_def)

lemma empty_report_ok [keeps_ok]: "disk_ok d \<Longrightarrow> ok_snd (write_empty_report p d)"
  by (simp add: write_empty_report_def write_file_ok)

lemma create_or_not_ok: "disk_ok d \<Longrightarrow> disk_ok (case create_directories p d of None \<Rightarrow> d | Some d' \<Rightarrow> d')"
  using create_directories_keeps [of d p] by (cases "create_directories p d") simp_all

lemma radamsa_cmin_ok [keeps_ok]: "runs_ok sys \<Longrightarrow> disk_ok d \<Longrightarrow> ok_snd (prepare_radamsa_eval_cmin sys dir source cmin d)"
  by (simp add: prepare_radamsa_eval_cmin_def Let_def case_prod_unfold remove_all_ok sys_ok create_or_not_ok)

lemma evaluate_delta_ok [keeps_ok]:
  "runs_ok sys \<Longrightarrow> disk_ok d \<Longrightarrow> pred_option ok_snd (evaluate_delta sys opts dir loc cmin seed_dir report inc delta d)"
  by (cases cmin) (auto simp: evaluate_delta_def Let_def case_prod_unfold split: prod.splits
      intro!: bind_keeps [where I = disk_ok] keeps_ok)

lemma evaluate_corpus_ok [keeps_ok]:
  "runs_ok sys \<Longrightarrow> disk_ok d \<Longrightarrow> pred_option disk_ok (evaluate_fuzzer_corpus sys opts dir lab rnd loc initial d)"
  by (auto simp: evaluate_fuzzer_corpus_def prepare_incremental_eval_input_def case_prod_unfold
      intro!: bind_keeps [where I = ok_snd_snd] map_keeps [where I = ok_snd] keeps_ok)

lemma report_path_ok [keeps_ok]: "disk_ok d \<Longrightarrow> pred_option ok_snd (report_path_in dir lab rnd d)"
  by (auto simp: report_path_in_def intro!: map_keeps [where I = disk_ok] keeps_ok)

lemma baseline_ok [keeps_ok]: "runs_ok sys \<Longrightarrow> disk_ok d \<Longrightarrow> pred_option ok_snd (evaluate_round_input_baseline sys opts lab rnd d)"
  by (auto simp: evaluate_round_input_baseline_def round_input_baseline_report_path_def case_prod_unfold Let_def
      intro!: bind_keeps [where I = ok_snd] keeps_ok)

lemma monitor_corpus_ok [keeps_ok]:
  "runs_ok sys \<Longrightarrow> disk_ok d \<Longrightarrow> pred_option ok_snd (evaluate_monitor_corpus sys opts dir lab rnd loc initial d)"
  unfolding evaluate_monitor_corpus_def monitor_report_path_for_def round_input_baseline_report_path_def prepare_monitor_eval_input_def case_prod_unfold
  by (rule bind_keeps, erule report_path_ok, rule bind_keeps, erule report_path_ok, rule bind_keeps, erule prepare_delta_ok, erule evaluate_delta_ok)

lemma finalize_round_ok [keeps_ok]:
  "runs_ok sys \<Longrightarrow> disk_ok d \<Longrightarrow> pred_option disk_ok (finalize_round_fuzzer_outputs sys opts dir lab rnd initial d)"
  by (auto simp: finalize_round_fuzzer_outputs_def Let_def intro!: bind_keeps [where I = disk_ok] keeps_ok)

lemma fuzz_one_fuzzer_ok [keeps_ok]:
  "runs_ok sys \<Longrightarrow> disk_ok d \<Longrightarrow> pred_option disk_ok (fuzz_one_fuzzer sys opts f sched rnd initial d)"
  unfolding fuzz_one_fuzzer_def Let_def prepare_incremental_eval_input_def case_prod_unfold
  by (rule bind_keeps, rule archive_crashes_ok, erule (1) sys_ok, rule bind_keeps, erule archive_new_ok)
    (auto intro!: bind_keeps [where I = ok_snd_snd] map_keeps [where I = ok_snd] keeps_ok)

lemma replay_ok: "runs_ok sys \<Longrightarrow> disk_ok d \<Longrightarrow> pred_option ok_snd (collect_sync_seed_features_via_replay sys opts sp tmp i f d)"
  by (auto simp: collect_sync_seed_features_via_replay_def Let_def case_prod_unfold intro!: bind_keeps [where I = disk_ok] keeps_ok)

lemma seed_features_ok: "runs_ok sys \<Longrightarrow> ok_snd s \<Longrightarrow> pred_option ok_snd_snd (seed_features sys opts lab rnd tmp i sp s)"
  by (cases s) (auto simp: seed_features_def Let_def case_prod_unfold split: option.split
      intro!: bind_keeps [where I = disk_ok] bind_keeps [where I = ok_snd] replay_ok keeps_ok)

lemma select_seed_ok:
  "runs_ok sys \<Longrightarrow> disk_ok (sel_disk s) \<Longrightarrow> pred_option (\<lambda>s. disk_ok (sel_disk s)) (select_seed sys opts lab rnd sel tmp x s)"
  by (cases x) (auto simp: select_seed_def Let_def case_prod_unfold
      intro!: bind_keeps [where I = ok_snd_snd] seed_features_ok map_keeps [where I = disk_ok] keeps_ok)

lemma select_sync_ok [keeps_ok]:
  assumes "runs_ok sys" "disk_ok d"
  shows "pred_option ok_snd_snd (select_sync_seeds sys opts targets lab rnd delta d)"
proof (cases "targets lab")
  case (Some t)
  then show ?thesis using assms
    by (auto simp: select_sync_seeds_def Let_def intro!: bind_keeps [where I = disk_ok] bind_keeps [where I = "\<lambda>s. disk_ok (sel_disk s)"]
        foldM_keeps [where I = "\<lambda>s. disk_ok (sel_disk s)"] select_seed_ok keeps_ok)
qed (use assms in \<open>simp add: select_sync_seeds_def\<close>)

lemma sync_round_ok [keeps_ok]:
  "runs_ok sys \<Longrightarrow> disk_ok d \<Longrightarrow> pred_option disk_ok (sync_round_new_seeds_to_global sys opts targets lab rnd initial d)"
  unfolding sync_round_new_seeds_to_global_def prepare_incremental_sync_input_def case_prod_unfold pull_seeds_def
  by (rule bind_keeps, erule prepare_delta_ok) (auto intro!: bind_keeps [where I = ok_snd_snd] keeps_ok)

lemma pull_round_ok [keeps_ok]:
  "runs_ok sys \<Longrightarrow> disk_ok d \<Longrightarrow> pred_option disk_ok (pull_round sys opts dir targets fs rnd initial d)"
  by (auto simp: pull_round_def update_fuzzers_from_current_global_input_def update_seed_def refresh_global_cmin_input_pool_def Let_def
      intro!: bind_keeps [where I = disk_ok] foldM_keeps fold_keeps [where I = disk_ok] keeps_ok)

lemma wait_and_pull_ok:
  assumes "\<And>d. disk_ok d \<Longrightarrow> pred_option disk_ok (pull d)" "disk_ok d"
  shows "pred_option disk_ok (wait_and_pull pull time n d)"
  using assms
proof (induction pull time n d rule: wait_and_pull.induct)
  case (1 pull time n d)
  have "\<And>d1. pull d = Some d1 \<Longrightarrow> disk_ok d1" using 1(2) [OF 1(3)] by simp
  then show ?case using 1 by (subst wait_and_pull.simps) (simp split: option.split)
qed

end
