(* ===== verification/Legion_Process.thy ===== *)
theory Legion_Process
  imports Legion_Options "HOL-Library.Char_ord"
begin

text \<open>
  Stopping of worker processes, from \<^verbatim>\<open>src/legion/legion.cc\<close>: the reading of \<^verbatim>\<open>/proc\<close>, the tree of processes below
  a worker, the processes that run in the folder of a fuzzer, and the escalation of signals of \<open>stop_process_group\<close>.
  What \<^verbatim>\<open>/proc\<close> shows, which processes exist and which have ended is an arbitrary function of the time, which
  advances with every look; the signals sent are a log. \<^const>\<open>None\<close> is the exception of \<^verbatim>\<open>stol\<close> for a name out of range.
\<close>

section \<open>Reading of \<^verbatim>\<open>/proc\<close>\<close>

record proc_entry =
  status_file :: "string option"
  cwd_link :: "string option"
  cmdline_file :: "string option"

datatype signal = SIGCONT | SIGSTOP | SIGTERM | SIGKILL

record process_table =
  tick :: nat
  proc_dir :: "nat \<Rightarrow> (string \<times> proc_entry) list"
  alive :: "nat \<Rightarrow> int \<Rightarrow> bool"
  ended :: "nat \<Rightarrow> int \<Rightarrow> bool"
  current_dir :: "nat \<Rightarrow> string option"
  self_pid :: int
  sent :: "(int \<times> signal) list"

definition look :: "process_table \<Rightarrow> process_table" where
  "look e = e\<lparr>tick := tick e + 1\<rparr>"

definition trim_copy :: "string \<Rightarrow> string" where
  "trim_copy s = (let blank = (\<lambda>c. c \<in> {CHR '' '', CHR 0x09, CHR 0x0D, newline}) in rev (dropWhile blank (rev (dropWhile blank s))))"

definition is_pid_directory_name :: "string \<Rightarrow> bool" where
  "is_pid_directory_name n \<longleftrightarrow> n \<noteq> [] \<and> list_all is_digit n"

text \<open>\<^verbatim>\<open>static_cast<pid_t>(stol(name))\<close> for a name of digits.\<close>

definition pid_of_name :: "string \<Rightarrow> int option" where
  "pid_of_name n = (if digits_value n < 2 ^ 63 then Some (sint (of_nat (digits_value n) :: u32)) else None)"

fun pid_entries :: "(string \<times> proc_entry) list \<Rightarrow> (int \<times> proc_entry) list option" where
  "pid_entries [] = Some []"
| "pid_entries ((n, p) # xs) =
     (if \<not> is_pid_directory_name n then pid_entries xs
      else case pid_of_name n of None \<Rightarrow> None | Some i \<Rightarrow> map_option ((#) (i, p)) (pid_entries xs))"

text \<open>The first line with the parent decides; the conversion accepts what \<^const>\<open>stoi\<close> accepts.\<close>

definition read_proc_ppid :: "proc_entry \<Rightarrow> int option" where
  "read_proc_ppid p =
     (case status_file p of
        None \<Rightarrow> None
      | Some text \<Rightarrow> (case List.find (starts_with ''PPid:'') (getlines text) of None \<Rightarrow> None | Some l \<Rightarrow> stoi (drop 5 l)))"

definition read_proc_cmdline :: "proc_entry \<Rightarrow> string" where
  "read_proc_cmdline p =
     (case cmdline_file p of None \<Rightarrow> [] | Some c \<Rightarrow> trim_copy (map (\<lambda>ch. if ch = CHR 0x00 then CHR '' '' else ch) c))"

definition ends_with :: "string \<Rightarrow> string \<Rightarrow> bool" where
  "ends_with p s \<longleftrightarrow> length p \<le> length s \<and> drop (length s - length p) s = p"

definition normalize_proc_path_string :: "string \<Rightarrow> string" where
  "normalize_proc_path_string s = (if ends_with '' (deleted)'' s then take (length s - 10) s else s)"

definition read_proc_cwd :: "proc_entry \<Rightarrow> string" where
  "read_proc_cwd p = (case cwd_link p of None \<Rightarrow> [] | Some c \<Rightarrow> normalize_proc_path_string c)"

definition path_is_same_or_descendant :: "string \<Rightarrow> string \<Rightarrow> bool" where
  "path_is_same_or_descendant candidate dir \<longleftrightarrow> candidate \<noteq> [] \<and> dir \<noteq> [] \<and>
     (candidate = dir \<or> length dir < length candidate \<and> starts_with dir candidate \<and> (last dir = CHR ''/'' \<or> candidate ! length dir = CHR ''/''))"

section \<open>Processes of a fuzzer\<close>

definition runtime_dirs_for_label :: "string \<Rightarrow> string list" where
  "runtime_dirs_for_label lab =
     (if lab = ''AFL++'' then [''run_aflpp''] else if lab = ''AFL'' then [''run_afl''] else if lab = ''AFLFast'' then [''run_aflfast'']
      else if lab = ''FairFuzz'' then [''run_fairfuzz''] else if lab = ''QSYM'' then [''run_qsym''] else if lab = ''LibFuzzer'' then [''run_lib'']
      else if lab = ''Radamsa'' then [''run_radamsa''] else if lab = ''Angora'' then [''run_angora''] else if lab = ''HonggFuzz'' then [''run_hongg'']
      else [])"

definition script_basename_for_label :: "string \<Rightarrow> string" where
  "script_basename_for_label lab =
     (if lab = ''AFL++'' then ''AFLPP.sh'' else if lab = ''AFL'' then ''AFL.sh'' else if lab = ''AFLFast'' then ''AFLFast.sh''
      else if lab = ''FairFuzz'' then ''FairFuzz.sh'' else if lab = ''QSYM'' then ''QSYM.sh'' else if lab = ''LibFuzzer'' then ''LIBFUZZER.sh''
      else if lab = ''Radamsa'' then ''RADAMSA.sh'' else if lab = ''Angora'' then ''Angora.sh'' else if lab = ''HonggFuzz'' then ''HONGG.sh''
      else [])"

definition join_path :: "string \<Rightarrow> string \<Rightarrow> string" where
  "join_path dir n = (if dir \<noteq> [] \<and> last dir \<noteq> CHR ''/'' then dir @ ''/'' @ n else dir @ n)"

definition occurs_in :: "string \<Rightarrow> string \<Rightarrow> bool" where
  "occurs_in p s \<longleftrightarrow> (\<exists>i < length s + 1. starts_with p (drop i s))"

definition label_process :: "string \<Rightarrow> string \<Rightarrow> string \<Rightarrow> proc_entry \<Rightarrow> bool" where
  "label_process script_dir lab run_root p =
     (let cwd = read_proc_cwd p in cwd \<noteq> [] \<and>
        (list_ex (\<lambda>r. path_is_same_or_descendant cwd (normalize_proc_path_string (join_path run_root r))) (runtime_dirs_for_label lab) \<or>
         cwd = normalize_proc_path_string run_root \<and> script_basename_for_label lab \<noteq> [] \<and>
           occurs_in (script_basename_for_label lab) (read_proc_cmdline p) \<and> occurs_in script_dir (read_proc_cmdline p)))"

definition collect_label_runtime_processes :: "string \<Rightarrow> string \<Rightarrow> process_table \<Rightarrow> int list option" where
  "collect_label_runtime_processes script_dir lab e =
     (case current_dir e (tick e) of
        None \<Rightarrow> Some []
      | Some run_root \<Rightarrow> map_option (\<lambda>xs. sort (remdups (map fst (filter (\<lambda>(i, p). 0 < i \<and> i \<noteq> self_pid e \<and> alive e (tick e) i \<and> label_process script_dir lab run_root p) xs))))
                          (pid_entries (proc_dir e (tick e))))"

section \<open>The tree of processes\<close>

definition parent_pairs :: "(int \<times> proc_entry) list \<Rightarrow> (int \<times> int) list" where
  "parent_pairs xs = concat (map (\<lambda>(i, p). case read_proc_ppid p of None \<Rightarrow> [] | Some pp \<Rightarrow> [(pp, i)]) xs)"

definition push_children :: "int list \<Rightarrow> int set \<Rightarrow> int list \<times> int set" where
  "push_children cs seen = fold (\<lambda>child (st, seen). if child \<in> seen then (st, seen) else (child # st, insert child seen)) cs ([], seen)"

text \<open>The stack, with its top first.\<close>

lemma push_spec:
  "fold (\<lambda>child (st, seen). if child \<in> seen then (st, seen) else (child # st, insert child seen)) cs (st, seen) = (st', seen') \<Longrightarrow>
    \<exists>new. st' = new @ st \<and> distinct new \<and> set new = set cs - seen \<and> seen' = seen \<union> set cs"
proof (induction cs arbitrary: st seen)
  case (Cons c cs)
  show ?case
  proof (cases "c \<in> seen")
    case True
    then show ?thesis using Cons by (auto simp: insert_absorb)
  next
    case False
    with Cons obtain new where "st' = new @ c # st" "distinct new" "set new = set cs - insert c seen" "seen' = insert c seen \<union> set cs" by fastforce
    then show ?thesis using False by (intro exI [of _ "new @ [c]"]) auto
  qed
qed auto

lemma push_children_spec:
  assumes "push_children cs seen = (new, seen')"
  shows "distinct new \<and> set new = set cs - seen \<and> seen' = seen \<union> set cs"
  using push_spec [OF assms [unfolded push_children_def]] by auto

definition children_of :: "(int \<times> int) list \<Rightarrow> int \<Rightarrow> int list" where
  "children_of ps c = map snd (filter (\<lambda>(pp, i). pp = c) ps)"

lemma set_children_of: "set (children_of ps c) = set ps `` {c}"
  by (force simp: children_of_def)

function tree_walk :: "(int \<times> int) list \<Rightarrow> int list \<Rightarrow> int set \<Rightarrow> int list" where
  "tree_walk ps [] seen = []"
| "tree_walk ps (c # st) seen = (case push_children (children_of ps c) seen of (new, seen') \<Rightarrow> c # tree_walk ps (new @ st) seen')"
  by pat_completeness auto
termination
proof (relation "measure (\<lambda>(ps, st, seen). 2 * card (snd ` set ps - seen) + length st)", goal_cases)
  case (2 ps c st seen new seen')
  then have s: "distinct new" "set new = set (children_of ps c) - seen" "seen' = seen \<union> set (children_of ps c)"
    using push_children_spec [of "children_of ps c" seen new seen'] by simp_all
  have sub: "set new \<subseteq> snd ` set ps - seen" using s(2) by (force simp: children_of_def)
  have "snd ` set ps - seen' = (snd ` set ps - seen) - set new" using s(2,3) by blast
  then have "card (snd ` set ps - seen') = card (snd ` set ps - seen) - length new"
    using card_Diff_subset [OF _ sub] distinct_card [OF s(1)] by simp
  moreover have "length new \<le> card (snd ` set ps - seen)" using card_mono [OF _ sub] distinct_card [OF s(1)] by simp
  ultimately show ?case by simp
qed simp

definition collect_process_tree :: "int \<Rightarrow> process_table \<Rightarrow> int list option" where
  "collect_process_tree root_pid e =
     (if root_pid \<le> 0 \<or> \<not> alive e (tick e) root_pid then Some []
      else map_option (\<lambda>xs. tree_walk (parent_pairs xs) [root_pid] {root_pid}) (pid_entries (proc_dir e (tick e))))"

section \<open>Signals\<close>

definition signal_pid_ignore_missing :: "signal \<Rightarrow> int \<Rightarrow> process_table \<Rightarrow> process_table" where
  "signal_pid_ignore_missing sig p e = (if p \<le> 0 then e else e\<lparr>sent := sent e @ [(p, sig)]\<rparr>)"

definition signal_group :: "signal \<Rightarrow> int \<Rightarrow> process_table \<Rightarrow> process_table" where
  "signal_group sig p e = e\<lparr>sent := sent e @ [(- p, sig)]\<rparr>"

definition signal_found :: "signal \<Rightarrow> (process_table \<Rightarrow> int list option) \<Rightarrow> int set \<times> process_table \<Rightarrow> (int set \<times> process_table) option" where
  "signal_found sig collect = (\<lambda>(known, e).
     map_option (\<lambda>ps. (known \<union> set ps, fold (signal_pid_ignore_missing sig) ps (look e))) (collect e))"

definition signal_process_tree :: "int \<Rightarrow> signal \<Rightarrow> int set \<times> process_table \<Rightarrow> (int set \<times> process_table) option" where
  "signal_process_tree root_pid sig = signal_found sig (collect_process_tree root_pid)"

definition signal_label_runtime_processes :: "string \<Rightarrow> string \<Rightarrow> signal \<Rightarrow> int set \<times> process_table \<Rightarrow> (int set \<times> process_table) option" where
  "signal_label_runtime_processes script_dir lab sig = signal_found sig (collect_label_runtime_processes script_dir lab)"

definition has_label_runtime_processes :: "string \<Rightarrow> string \<Rightarrow> process_table \<Rightarrow> (bool \<times> process_table) option" where
  "has_label_runtime_processes script_dir lab e = map_option (\<lambda>ps. (ps \<noteq> [], look e)) (collect_label_runtime_processes script_dir lab e)"

definition signal_known :: "signal \<Rightarrow> int set \<times> process_table \<Rightarrow> int set \<times> process_table" where
  "signal_known sig = (\<lambda>(known, e). (known, fold (signal_pid_ignore_missing sig) (sorted_list_of_set known) e))"

definition reap_group :: "int \<Rightarrow> process_table \<Rightarrow> bool \<times> process_table" where
  "reap_group p e = (ended e (tick e) p, look e)"

text \<open>Each pass ends with a look at the group; the pauses between are not modelled.\<close>

definition continue_pass :: "string \<Rightarrow> string \<Rightarrow> int \<Rightarrow> bool \<times> int set \<times> process_table \<Rightarrow> (bool \<times> int set \<times> process_table) option" where
  "continue_pass script_dir lab p = (\<lambda>(finished, known, e). do {
     s1 \<leftarrow> signal_process_tree p SIGCONT (known, if finished then e else signal_group SIGCONT p e);
     (known2, e2) \<leftarrow> signal_label_runtime_processes script_dir lab SIGCONT s1;
     let (finished', e3) = reap_group p e2;
     Some (finished', known2, e3) })"

definition terminate_pass :: "string \<Rightarrow> string \<Rightarrow> int \<Rightarrow> bool \<times> int set \<times> process_table \<Rightarrow> (bool \<times> int set \<times> process_table) option" where
  "terminate_pass script_dir lab p = (\<lambda>(finished, s). do {
     s1 \<leftarrow> signal_process_tree p SIGTERM s;
     s2 \<leftarrow> signal_label_runtime_processes script_dir lab SIGTERM s1;
     let (known, e3) = signal_known SIGTERM s2;
     let (finished', e4) = reap_group p e3;
     Some (finished', known, e4) })"

text \<open>The ten seconds of grace: the first component tells that nothing is left.\<close>

fun wait_for_end :: "string \<Rightarrow> string \<Rightarrow> int \<Rightarrow> nat \<Rightarrow> bool \<times> int set \<times> process_table \<Rightarrow> (bool \<times> bool \<times> int set \<times> process_table) option" where
  "wait_for_end script_dir lab p 0 (finished, s) = Some (False, finished, s)"
| "wait_for_end script_dir lab p (Suc n) (finished, known, e) = do {
     let (finished', e1) = reap_group p e;
     (left, e2) \<leftarrow> (if finished' then has_label_runtime_processes script_dir lab e1 else Some (True, e1));
     (if \<not> left then Some (True, finished', signal_known SIGTERM (known, e2))
      else do {
        s3 \<leftarrow> signal_label_runtime_processes script_dir lab SIGTERM (known, e2);
        wait_for_end script_dir lab p n (finished', signal_known SIGTERM s3) }) }"

text \<open>The set of processes met is returned with the table; the first component tells that the grace was enough.\<close>

definition stop_process_group :: "string \<Rightarrow> int \<Rightarrow> string \<Rightarrow> process_table \<Rightarrow> (bool \<times> int set \<times> process_table) option" where
  "stop_process_group script_dir p lab e =
     (if p \<le> 0 then Some (True, {}, e)
      else do {
        let (finished, e1) = reap_group p e;
        (left, e2) \<leftarrow> (if finished then has_label_runtime_processes script_dir lab e1 else Some (True, e1));
        (if \<not> left then Some (True, {}, e2)
         else do {
           s3 \<leftarrow> continue_pass script_dir lab p (finished, {}, e2);
           (finished4, known4, e4) \<leftarrow> continue_pass script_dir lab p s3;
           s5 \<leftarrow> terminate_pass script_dir lab p (finished4, known4, if finished4 then e4 else signal_group SIGTERM p e4);
           s6 \<leftarrow> terminate_pass script_dir lab p s5;
           (gone, finished7, known7, e7) \<leftarrow> wait_for_end script_dir lab p 10 s6;
           (if gone then Some (True, known7, e7)
            else do {
              s8 \<leftarrow> signal_process_tree p SIGKILL (known7, if finished7 then e7 else signal_group SIGKILL p e7);
              s9 \<leftarrow> signal_label_runtime_processes script_dir lab SIGKILL s8;
              Some (False, signal_known SIGKILL s9) }) }) })"

section \<open>The walk finds what is reachable\<close>

lemma leaves_through:
  assumes "(z, x) \<in> R\<^sup>*" "z \<in> Z" "x \<notin> Z" "\<And>a. a \<in> Z \<Longrightarrow> R `` {a} \<subseteq> Z \<union> W"
  shows "\<exists>w \<in> W. (w, x) \<in> R\<^sup>*"
  using assms
proof (induction rule: converse_rtrancl_induct)
  case (step y z)
  then have "z \<in> Z \<or> z \<in> W" by blast
  then show ?case using step by blast
qed blast

lemma tree_walk_reaches:
  assumes "distinct st" "set st \<subseteq> seen" "\<forall>x \<in> seen - set st. set ps `` {x} \<subseteq> seen"
  shows "distinct (tree_walk ps st seen) \<and> set (tree_walk ps st seen) = (set ps)\<^sup>* `` set st - (seen - set st)"
  using assms
proof (induction ps st seen rule: tree_walk.induct)
  case (2 ps c st seen)
  obtain new seen' where p: "push_children (children_of ps c) seen = (new, seen')" by fastforce
  have s: "distinct new" "set new = set ps `` {c} - seen" "seen' = seen \<union> set ps `` {c}"
    using push_children_spec [OF p] by (simp_all add: set_children_of)
  have c: "c \<in> seen" "c \<notin> set st" using 2(2,3) by simp_all
  let ?D = "insert c (seen - set (c # st))"
  have D: "seen' - set (new @ st) = ?D" using s(2,3) c 2(3) by auto
  have "distinct (new @ st)" "set (new @ st) \<subseteq> seen'" using s 2(2,3) by auto
  moreover have cl: "\<forall>x \<in> seen' - set (new @ st). set ps `` {x} \<subseteq> seen'" unfolding D using 2(4) s(3) by auto
  ultimately have IH: "distinct (tree_walk ps (new @ st) seen')"
    "set (tree_walk ps (new @ st) seen') = (set ps)\<^sup>* `` set (new @ st) - ?D"
    using 2(1) [OF p [symmetric]] unfolding D by blast+
  have "set (c # tree_walk ps (new @ st) seen') = (set ps)\<^sup>* `` set (c # st) - (seen - set (c # st))"
  proof (intro equalityI subsetI)
    fix x
    assume x: "x \<in> set (c # tree_walk ps (new @ st) seen')"
    have "(c, y) \<in> (set ps)\<^sup>*" if "y \<in> set new" for y using that s(2) by blast
    then show "x \<in> (set ps)\<^sup>* `` set (c # st) - (seen - set (c # st))"
      using x IH(2) by (auto intro: rtrancl_trans)
  next
    fix x
    assume x: "x \<in> (set ps)\<^sup>* `` set (c # st) - (seen - set (c # st))"
    show "x \<in> set (c # tree_walk ps (new @ st) seen')"
    proof (cases "x = c \<or> x \<in> (set ps)\<^sup>* `` set (new @ st)")
      case True
      then show ?thesis using x IH(2) by auto
    next
      case False
      then have "(c, x) \<in> (set ps)\<^sup>*" "x \<notin> ?D" using x by auto
      moreover have "set ps `` {a} \<subseteq> ?D \<union> set (new @ st)" if "a \<in> ?D" for a
      proof -
        have "a \<in> seen' - set (new @ st)" using that D by simp
        then have "set ps `` {a} \<subseteq> seen'" using cl by blast
        then show ?thesis using D by blast
      qed
      ultimately have "\<exists>w \<in> set (new @ st). (w, x) \<in> (set ps)\<^sup>*" using leaves_through [of c x "set ps" ?D] by blast
      then show ?thesis using False by blast
    qed
  qed
  then show ?case using IH by (simp add: p)
qed simp

lemma tree_exact:
  assumes "pid_entries (proc_dir e (tick e)) = Some xs" "0 < root_pid" "alive e (tick e) root_pid"
  shows "\<exists>tree. collect_process_tree root_pid e = Some tree \<and> distinct tree \<and> hd tree = root_pid \<and>
    set tree = {p. (root_pid, p) \<in> {(pp, p). \<exists>entry. (p, entry) \<in> set xs \<and> read_proc_ppid entry = Some pp}\<^sup>*}"
proof -
  have "set (parent_pairs xs) = {(pp, p). \<exists>entry. (p, entry) \<in> set xs \<and> read_proc_ppid entry = Some pp}"
    by (force simp: parent_pairs_def split: option.splits)
  then show ?thesis using assms tree_walk_reaches [of "[root_pid]" "{root_pid}" "parent_pairs xs"]
    by (auto simp: collect_process_tree_def split: prod.split)
qed

section \<open>Who is signalled\<close>

text \<open>What is seen at time \<open>t\<close>.\<close>

definition at_time :: "nat \<Rightarrow> process_table \<Rightarrow> process_table" where
  "at_time t e = e\<lparr>tick := t, sent := []\<rparr>"

definition belongs :: "string \<Rightarrow> string \<Rightarrow> int \<Rightarrow> process_table \<Rightarrow> int \<Rightarrow> bool" where
  "belongs script_dir lab p e q \<longleftrightarrow> (\<exists>t ps. q \<in> set ps \<and>
     (collect_process_tree p (at_time t e) = Some ps \<or> collect_label_runtime_processes script_dir lab (at_time t e) = Some ps))"

definition signalled :: "string \<Rightarrow> string \<Rightarrow> int \<Rightarrow> process_table \<Rightarrow> int set \<times> process_table \<Rightarrow> bool" where
  "signalled script_dir lab p e0 = (\<lambda>(known, e).
     (\<forall>t. at_time t e = at_time t e0) \<and> finite known \<and> (\<forall>q \<in> known. belongs script_dir lab p e0 q) \<and>
     (\<exists>new. sent e = sent e0 @ new \<and> (\<forall>(q, sig) \<in> set new. q = - p \<or> 0 < q \<and> q \<in> known)))"

lemma collect_at_time:
  "collect_process_tree p (at_time (tick e) e) = collect_process_tree p e"
  "collect_label_runtime_processes script_dir lab (at_time (tick e) e) = collect_label_runtime_processes script_dir lab e"
  by (simp_all add: at_time_def collect_process_tree_def collect_label_runtime_processes_def cong: option.case_cong)

lemma at_time_look [simp]: "at_time t (look e) = at_time t e" "sent (look e) = sent e"
  by (simp_all add: at_time_def look_def)

lemma fold_signals:
  "fold (signal_pid_ignore_missing sig) ps e = e\<lparr>sent := sent e @ map (\<lambda>q. (q, sig)) (filter (\<lambda>q. 0 < q) ps)\<rparr>"
  by (induction ps arbitrary: e) (auto simp: signal_pid_ignore_missing_def)

lemma signalled_look: "signalled script_dir lab p e0 (known, e) \<Longrightarrow> signalled script_dir lab p e0 (known, look e)"
  by (simp add: signalled_def)

lemma signalled_more:
  assumes "signalled script_dir lab p e0 (known, e)" "\<forall>q \<in> known'. belongs script_dir lab p e0 q" "finite known'"
    "\<forall>(q, sig) \<in> set new. q = - p \<or> 0 < q \<and> q \<in> known \<union> known'"
  shows "signalled script_dir lab p e0 (known \<union> known', e\<lparr>sent := sent e @ new\<rparr>)"
  using assms by (auto simp: signalled_def at_time_def)

lemma signalled_found:
  assumes "signalled script_dir lab p e0 s" "signal_found sig collect s = Some s'"
    "collect = collect_process_tree p \<or> collect = collect_label_runtime_processes script_dir lab"
  shows "signalled script_dir lab p e0 s'"
proof -
  obtain known e where s: "s = (known, e)" by fastforce
  then obtain ps where ps: "collect e = Some ps" "s' = (known \<union> set ps, fold (signal_pid_ignore_missing sig) ps (look e))"
    using assms(2) by (auto simp: signal_found_def)
  have "at_time (tick e) e = at_time (tick e) e0" using assms(1) by (simp add: s signalled_def)
  then have "\<forall>q \<in> set ps. belongs script_dir lab p e0 q"
    using assms(3) ps(1) collect_at_time [where e = e] unfolding belongs_def by metis
  from signalled_more [OF signalled_look [OF assms(1) [unfolded s]] this finite_set, of "map (\<lambda>q. (q, sig)) (filter (\<lambda>q. 0 < q) ps)"]
  show ?thesis by (auto simp: ps(2) fold_signals)
qed

lemma signalled_tree: "signalled script_dir lab p e0 s \<Longrightarrow> signal_process_tree p sig s = Some s' \<Longrightarrow> signalled script_dir lab p e0 s'"
  using signalled_found by (simp add: signal_process_tree_def)

lemma signalled_label: "signalled script_dir lab p e0 s \<Longrightarrow> signal_label_runtime_processes script_dir lab sig s = Some s' \<Longrightarrow> signalled script_dir lab p e0 s'"
  using signalled_found by (simp add: signal_label_runtime_processes_def)

lemma signalled_group: "signalled script_dir lab p e0 (known, e) \<Longrightarrow> signalled script_dir lab p e0 (known, signal_group sig p e)"
  using signalled_more [of script_dir lab p e0 known e "{}" "[(- p, sig)]"] by (simp add: signal_group_def)

lemma signalled_known: "signalled script_dir lab p e0 s \<Longrightarrow> signalled script_dir lab p e0 (signal_known sig s)"
proof -
  assume a: "signalled script_dir lab p e0 s"
  obtain known e where s: "s = (known, e)" by fastforce
  have f: "finite known" using a by (simp add: s signalled_def)
  then show ?thesis using signalled_more [OF a [unfolded s], of "{}" "map (\<lambda>q. (q, sig)) (filter (\<lambda>q. 0 < q) (sorted_list_of_set known))"]
    by (auto simp: s signal_known_def fold_signals)
qed

lemma signalled_continue:
  "signalled script_dir lab p e0 (known, e) \<Longrightarrow> continue_pass script_dir lab p (finished, known, e) = Some (f', s') \<Longrightarrow> signalled script_dir lab p e0 s'"
proof -
  assume a: "signalled script_dir lab p e0 (known, e)" "continue_pass script_dir lab p (finished, known, e) = Some (f', s')"
  then obtain s1 k2 e2 where s: "signal_process_tree p SIGCONT (known, if finished then e else signal_group SIGCONT p e) = Some s1"
    "signal_label_runtime_processes script_dir lab SIGCONT s1 = Some (k2, e2)" "s' = (k2, look e2)"
    by (auto simp: continue_pass_def reap_group_def Let_def split: bind_splits prod.splits)
  have "signalled script_dir lab p e0 (known, if finished then e else signal_group SIGCONT p e)" using a(1) signalled_group by simp
  from signalled_look [OF signalled_label [OF signalled_tree [OF this s(1)] s(2)]] show ?thesis by (simp add: s(3))
qed

lemma signalled_terminate:
  "signalled script_dir lab p e0 s \<Longrightarrow> terminate_pass script_dir lab p (finished, s) = Some (f', s') \<Longrightarrow> signalled script_dir lab p e0 s'"
proof -
  assume a: "signalled script_dir lab p e0 s" "terminate_pass script_dir lab p (finished, s) = Some (f', s')"
  then obtain s1 s2 where s: "signal_process_tree p SIGTERM s = Some s1" "signal_label_runtime_processes script_dir lab SIGTERM s1 = Some s2"
    "s' = (fst (signal_known SIGTERM s2), look (snd (signal_known SIGTERM s2)))"
    by (auto simp: terminate_pass_def reap_group_def Let_def split: bind_splits prod.splits)
  have "signalled script_dir lab p e0 (signal_known SIGTERM s2)"
    by (rule signalled_known [OF signalled_label [OF signalled_tree [OF a(1) s(1)] s(2)]])
  then show ?thesis using signalled_look [of script_dir lab p e0 "fst (signal_known SIGTERM s2)" "snd (signal_known SIGTERM s2)"] by (simp add: s(3))
qed

lemma signalled_has:
  "signalled script_dir lab p e0 (known, e) \<Longrightarrow> has_label_runtime_processes script_dir lab e = Some (l, e') \<Longrightarrow> signalled script_dir lab p e0 (known, e')"
  by (auto simp: has_label_runtime_processes_def signalled_look)

text \<open>A look at the group, and at the processes of the fuzzer if the group has ended.\<close>

lemma reap_and_look:
  assumes "signalled script_dir lab p e0 (known, e)" "reap_group p e = (finished, e1)"
    "(if finished then has_label_runtime_processes script_dir lab e1 else Some (True, e1)) = Some (l, e2)"
  shows "signalled script_dir lab p e0 (known, e2)"
  using assms signalled_has [OF signalled_look [OF assms(1)]] signalled_look [OF assms(1)] by (auto simp: reap_group_def split: if_splits)

lemma signalled_wait:
  "signalled script_dir lab p e0 s \<Longrightarrow> wait_for_end script_dir lab p n (finished, s) = Some (gone, f', s') \<Longrightarrow> signalled script_dir lab p e0 s'"
proof (induction n arbitrary: finished s)
  case (Suc n)
  obtain known e where s: "s = (known, e)" by fastforce
  obtain f1 e1 where r: "reap_group p e = (f1, e1)" by fastforce
  obtain l e2 where l: "(if f1 then has_label_runtime_processes script_dir lab e1 else Some (True, e1)) = Some (l, e2)"
    using Suc.prems(2) r by (auto simp: s split: bind_splits)
  have s2: "signalled script_dir lab p e0 (known, e2)" by (rule reap_and_look [OF Suc.prems(1) [unfolded s] r l])
  show ?case
  proof (cases l)
    case True
    then obtain s3 where s3: "signal_label_runtime_processes script_dir lab SIGTERM (known, e2) = Some s3"
      "wait_for_end script_dir lab p n (f1, signal_known SIGTERM s3) = Some (gone, f', s')"
      using Suc.prems(2) r l by (auto simp: s split: bind_splits)
    then show ?thesis using Suc.IH [OF signalled_known [OF signalled_label [OF s2 s3(1)]]] by blast
  next
    case False
    then show ?thesis using Suc.prems(2) r l signalled_known [OF s2] by (auto simp: s split: bind_splits)
  qed
qed simp

section \<open>Stopping returns, and says when nothing is left\<close>

text \<open>The scans succeed as long as the names in \<^verbatim>\<open>/proc\<close> are in range.\<close>

definition pids_ok :: "process_table \<Rightarrow> bool" where
  "pids_ok e \<longleftrightarrow> (\<forall>t. pid_entries (proc_dir e t) \<noteq> None)"

lemma same_streams: "signalled script_dir lab p e0 (known, e) \<Longrightarrow> proc_dir e = proc_dir e0 \<and> ended e = ended e0"
proof -
  assume "signalled script_dir lab p e0 (known, e)"
  then have "at_time 0 e = at_time 0 e0" by (simp add: signalled_def)
  then show ?thesis by (cases e, cases e0) (simp add: at_time_def)
qed

lemma collect_returns:
  assumes "pids_ok e0" "signalled script_dir lab p e0 (known, e)"
  shows "collect_process_tree p e \<noteq> None" "collect_label_runtime_processes script_dir lab e \<noteq> None"
  using assms same_streams [OF assms(2)]
  by (auto simp: pids_ok_def collect_process_tree_def collect_label_runtime_processes_def split: option.split)

lemma signals_return:
  assumes "pids_ok e0" "signalled script_dir lab p e0 s"
  shows "signal_process_tree p sig s \<noteq> None" "signal_label_runtime_processes script_dir lab sig s \<noteq> None"
  using assms collect_returns [of e0 script_dir lab p "fst s" "snd s"]
  by (auto simp: signal_process_tree_def signal_label_runtime_processes_def signal_found_def split: prod.split)

lemma has_returns:
  assumes "pids_ok e0" "signalled script_dir lab p e0 (known, e)"
  shows "\<exists>l e2. (if finished then has_label_runtime_processes script_dir lab e else Some (True, e)) = Some (l, e2)"
  using collect_returns(2) [OF assms] by (cases finished) (auto simp: has_label_runtime_processes_def)

lemma continue_returns:
  assumes "pids_ok e0" "signalled script_dir lab p e0 (known, e)"
  shows "\<exists>f k e'. continue_pass script_dir lab p (finished, known, e) = Some (f, k, e')"
proof -
  have a: "signalled script_dir lab p e0 (known, if finished then e else signal_group SIGCONT p e)" using assms(2) signalled_group by simp
  obtain s1 where s1: "signal_process_tree p SIGCONT (known, if finished then e else signal_group SIGCONT p e) = Some s1"
    using signals_return(1) [OF assms(1) a] by blast
  obtain k e2 where "signal_label_runtime_processes script_dir lab SIGCONT s1 = Some (k, e2)"
    using signals_return(2) [OF assms(1) signalled_tree [OF a s1]] by fastforce
  then show ?thesis using s1 by (simp add: continue_pass_def reap_group_def)
qed

lemma terminate_returns:
  assumes "pids_ok e0" "signalled script_dir lab p e0 s"
  shows "\<exists>f s'. terminate_pass script_dir lab p (finished, s) = Some (f, s')"
proof -
  obtain s1 where s1: "signal_process_tree p SIGTERM s = Some s1" using signals_return(1) [OF assms] by blast
  obtain s2 where "signal_label_runtime_processes script_dir lab SIGTERM s1 = Some s2"
    using signals_return(2) [OF assms(1) signalled_tree [OF assms(2) s1]] by blast
  then show ?thesis using s1 by (auto simp: terminate_pass_def split: prod.split)
qed

lemma wait_returns:
  assumes "pids_ok e0" "signalled script_dir lab p e0 s"
  shows "\<exists>g f s'. wait_for_end script_dir lab p n (finished, s) = Some (g, f, s')"
  using assms(2)
proof (induction n arbitrary: finished s)
  case (Suc n)
  obtain known e where s: "s = (known, e)" by fastforce
  obtain f1 e1 where r: "reap_group p e = (f1, e1)" by fastforce
  have "signalled script_dir lab p e0 (known, e1)" using Suc.prems r by (auto simp: s reap_group_def signalled_look)
  then obtain l e2 where l: "(if f1 then has_label_runtime_processes script_dir lab e1 else Some (True, e1)) = Some (l, e2)"
    using has_returns [OF assms(1)] by blast
  have s2: "signalled script_dir lab p e0 (known, e2)" by (rule reap_and_look [OF Suc.prems [unfolded s] r l])
  show ?case
  proof (cases l)
    case True
    obtain s3 where s3: "signal_label_runtime_processes script_dir lab SIGTERM (known, e2) = Some s3"
      using signals_return(2) [OF assms(1) s2] by blast
    then show ?thesis using True r l Suc.IH [OF signalled_known [OF signalled_label [OF s2 s3]], of f1] by (simp add: s)
  next
    case False
    then show ?thesis using r l by (simp add: s split: prod.split) blast
  qed
qed (simp, blast)

lemma stop_returns:
  assumes "pids_ok e"
  shows "stop_process_group script_dir p lab e \<noteq> None"
proof (cases "p \<le> 0")
  case False
  have s0: "signalled script_dir lab p e ({}, e)" by (simp add: signalled_def)
  obtain f1 e1 where r: "reap_group p e = (f1, e1)" by fastforce
  have "signalled script_dir lab p e ({}, e1)" using s0 r by (auto simp: reap_group_def signalled_look)
  then obtain l e2 where l: "(if f1 then has_label_runtime_processes script_dir lab e1 else Some (True, e1)) = Some (l, e2)"
    using has_returns [OF assms] by blast
  have s2: "signalled script_dir lab p e ({}, e2)" by (rule reap_and_look [OF s0 r l])
  obtain f3 k3 e3 where c3: "continue_pass script_dir lab p (f1, {}, e2) = Some (f3, k3, e3)" using continue_returns [OF assms s2] by blast
  note s3 = signalled_continue [OF s2 c3]
  obtain f4 k4 e4 where c4: "continue_pass script_dir lab p (f3, k3, e3) = Some (f4, k4, e4)" using continue_returns [OF assms s3] by blast
  have s4: "signalled script_dir lab p e (k4, if f4 then e4 else signal_group SIGTERM p e4)"
    using signalled_continue [OF s3 c4] signalled_group by simp
  obtain f5 s5 where c5: "terminate_pass script_dir lab p (f4, k4, if f4 then e4 else signal_group SIGTERM p e4) = Some (f5, s5)"
    using terminate_returns [OF assms s4] by blast
  note s5 = signalled_terminate [OF s4 c5]
  obtain f6 s6 where c6: "terminate_pass script_dir lab p (f5, s5) = Some (f6, s6)" using terminate_returns [OF assms s5] by blast
  note s6 = signalled_terminate [OF s5 c6]
  obtain g f7 k7 e7 where c7: "wait_for_end script_dir lab p 10 (f6, s6) = Some (g, f7, k7, e7)" using wait_returns [OF assms s6] by fastforce
  have s7: "signalled script_dir lab p e (k7, if f7 then e7 else signal_group SIGKILL p e7)"
    using signalled_wait [OF s6 c7] signalled_group by simp
  obtain s8 where c8: "signal_process_tree p SIGKILL (k7, if f7 then e7 else signal_group SIGKILL p e7) = Some s8"
    using signals_return(1) [OF assms s7] by blast
  obtain s9 where c9: "signal_label_runtime_processes script_dir lab SIGKILL s8 = Some s9"
    using signals_return(2) [OF assms signalled_tree [OF s7 c8]] by blast
  show ?thesis using False r l c3 c4 c5 c6 c7 c8 c9 by (simp add: stop_process_group_def) blast
qed (simp add: stop_process_group_def)

text \<open>Nothing is left: the worker has ended, and then no process of the fuzzer was seen.\<close>

definition nothing_left :: "string \<Rightarrow> string \<Rightarrow> int \<Rightarrow> process_table \<Rightarrow> bool" where
  "nothing_left script_dir lab p e \<longleftrightarrow>
     (\<exists>t. ended e t p \<and> collect_label_runtime_processes script_dir lab (at_time (t + 1) e) = Some [])"

lemma looked_empty:
  assumes "signalled script_dir lab p e0 (known, e)" "reap_group p e = (finished, e1)"
    "(if finished then has_label_runtime_processes script_dir lab e1 else Some (True, e1)) = Some (l, e2)" "\<not> l"
  shows "nothing_left script_dir lab p e0"
proof -
  have f: "finished" "e1 = look e" "ended e (tick e) p" "collect_label_runtime_processes script_dir lab (look e) = Some []"
    using assms(2-4) by (auto simp: reap_group_def has_label_runtime_processes_def split: if_splits)
  have t: "tick (look e) = tick e + 1" by (simp add: look_def)
  have "collect_label_runtime_processes script_dir lab (at_time (tick (look e)) (look e)) = Some []" using f(4) collect_at_time(2) by metis
  then have "collect_label_runtime_processes script_dir lab (at_time (tick e + 1) e0) = Some []"
    using assms(1) unfolding t at_time_look by (simp add: signalled_def)
  then show ?thesis using f(3) same_streams [OF assms(1)] by (auto simp: nothing_left_def)
qed

lemma wait_gone:
  "signalled script_dir lab p e0 s \<Longrightarrow> wait_for_end script_dir lab p n (finished, s) = Some (True, f', s') \<Longrightarrow> nothing_left script_dir lab p e0"
proof (induction n arbitrary: finished s)
  case (Suc n)
  obtain known e where s: "s = (known, e)" by fastforce
  obtain f1 e1 where r: "reap_group p e = (f1, e1)" by fastforce
  obtain l e2 where l: "(if f1 then has_label_runtime_processes script_dir lab e1 else Some (True, e1)) = Some (l, e2)"
    using Suc.prems(2) r by (auto simp: s split: bind_splits)
  have s2: "signalled script_dir lab p e0 (known, e2)" by (rule reap_and_look [OF Suc.prems(1) [unfolded s] r l])
  show ?case
  proof (cases l)
    case True
    then obtain s3 where s3: "signal_label_runtime_processes script_dir lab SIGTERM (known, e2) = Some s3"
      "wait_for_end script_dir lab p n (f1, signal_known SIGTERM s3) = Some (True, f', s')"
      using Suc.prems(2) r l by (auto simp: s split: bind_splits)
    then show ?thesis using Suc.IH [OF signalled_known [OF signalled_label [OF s2 s3(1)]]] by blast
  next
    case False
    show ?thesis by (rule looked_empty [OF Suc.prems(1) [unfolded s] r l False])
  qed
qed simp

text \<open>If the grace was not enough, everything that was met is killed.\<close>

lemma stop_signals:
  assumes "stop_process_group script_dir p lab e = Some (gone, known, e')"
  shows "signalled script_dir lab p e (known, e') \<and> (\<not> gone \<longrightarrow> (\<forall>q \<in> known. 0 < q \<longrightarrow> (q, SIGKILL) \<in> set (sent e'))) \<and>
    (gone \<longrightarrow> p \<le> 0 \<or> nothing_left script_dir lab p e)"
proof (cases "p \<le> 0")
  case True
  then show ?thesis using assms by (simp add: stop_process_group_def signalled_def)
next
  case False
  have s0: "signalled script_dir lab p e ({}, e)" by (simp add: signalled_def)
  obtain f1 e1 where r: "reap_group p e = (f1, e1)" by fastforce
  obtain l e2 where l: "(if f1 then has_label_runtime_processes script_dir lab e1 else Some (True, e1)) = Some (l, e2)"
    using assms False r by (auto simp: stop_process_group_def split: bind_splits)
  have s2: "signalled script_dir lab p e ({}, e2)" by (rule reap_and_look [OF s0 r l])
  show ?thesis
  proof (cases l)
    case no: False
    then show ?thesis using assms False r l s2 looked_empty [OF s0 r l no] by (auto simp: stop_process_group_def split: bind_splits)
  next
    case True
    obtain f3 k3 e3 where c3: "continue_pass script_dir lab p (f1, {}, e2) = Some (f3, k3, e3)"
      using assms False r l True by (auto simp: stop_process_group_def split: bind_splits)
    obtain f4 k4 e4 where c4: "continue_pass script_dir lab p (f3, k3, e3) = Some (f4, k4, e4)"
      using assms False r l True c3 by (auto simp: stop_process_group_def split: bind_splits)
    define e4' where "e4' = (if f4 then e4 else signal_group SIGTERM p e4)"
    obtain f5 s5 where c5: "terminate_pass script_dir lab p (f4, k4, e4') = Some (f5, s5)"
      using assms False r l True c3 c4 by (auto simp: stop_process_group_def e4'_def split: bind_splits)
    obtain f6 s6 where c6: "terminate_pass script_dir lab p (f5, s5) = Some (f6, s6)"
      using assms False r l True c3 c4 c5 by (auto simp: stop_process_group_def e4'_def [symmetric] split: bind_splits)
    obtain g f7 k7 e7 where c7: "wait_for_end script_dir lab p 10 (f6, s6) = Some (g, f7, k7, e7)"
      using assms False r l True c3 c4 c5 c6 by (auto simp: stop_process_group_def e4'_def [symmetric] split: bind_splits)
    have s4: "signalled script_dir lab p e (k4, e4')"
      using signalled_continue [OF signalled_continue [OF s2 c3] c4] signalled_group by (simp add: e4'_def)
    note s6 = signalled_terminate [OF signalled_terminate [OF s4 c5] c6]
    have s7: "signalled script_dir lab p e (k7, e7)"
      by (rule signalled_wait [OF s6 c7])
    show ?thesis
    proof (cases g)
      case True
      then have "wait_for_end script_dir lab p 10 (f6, s6) = Some (True, f7, k7, e7)" using c7 by simp
      note n = wait_gone [OF s6 this]
      show ?thesis using True assms False r l \<open>l\<close> c3 c4 c5 c6 c7 s7 n
        by (simp add: stop_process_group_def e4'_def [symmetric])
    next
      case ng: False
      define e7' where "e7' = (if f7 then e7 else signal_group SIGKILL p e7)"
      obtain s8 s9 where k: "signal_process_tree p SIGKILL (k7, e7') = Some s8"
        "signal_label_runtime_processes script_dir lab SIGKILL s8 = Some s9" "\<not> gone" "(known, e') = signal_known SIGKILL s9"
        using assms False r l \<open>l\<close> c3 c4 c5 c6 c7 ng
        by (simp add: stop_process_group_def e4'_def [symmetric] e7'_def [symmetric] split: bind_splits)
      have "signalled script_dir lab p e (k7, e7')" using s7 signalled_group by (simp add: e7'_def)
      then have s9: "signalled script_dir lab p e s9" using signalled_label [OF signalled_tree [OF _ k(1)] k(2)] by blast
      obtain k9 e9 where p9: "s9 = (k9, e9)" by fastforce
      have "finite k9" using s9 by (simp add: p9 signalled_def)
      then show ?thesis using signalled_known [OF s9, of SIGKILL] k(3,4) by (auto simp: p9 signal_known_def fold_signals)
    qed
  qed
qed

end
