(* ===== verification/Legion_Corpora.thy ===== *)
theory Legion_Corpora
  imports Legion_Crash_Laws Legion_Sync_Laws Legion_Store Legion_Process
begin

text \<open>
  The properties of the folders, command lines and processes of Legion's scheduler: the store of seeds and crashes, the evaluation and synchronisation
  of corpora, the options, and the stopping of workers.
\<close>

section \<open>A sample store\<close>

definition demo_disk :: disk where
  "demo_disk = \<lparr>nodes =
     [([''in''], Dir), ([''in'', ''a''], File ''xy''), ([''in'', ''b''], File ''z''), ([''accum''], Dir), ([''global''], Dir),
      ([''AFL0''], Dir), ([''AFL0'', ''s''], File ''q''),
      ([''run_afl''], Dir), ([''run_afl'', ''output''], Dir), ([''run_afl'', ''output'', ''w''], Dir),
      ([''run_afl'', ''output'', ''w'', ''crashes''], Dir), ([''run_afl'', ''output'', ''w'', ''crashes'', ''id0''], File ''c''),
      ([''.round_crashes''], Dir), ([''.round_crashes'', ''AFL_0''], Dir),
      ([''.eval_seed_reports''], Dir), ([''.eval_seed_reports'', ''AFL_0''], Dir),
      ([''.eval_seed_reports'', ''AFL_0'', show_nat (unat (fnv ''q'')) @ ''.report''], File (unlines [''[EDGE]'', count_line 5 1]))],
     locked = {}, write_ok = (\<lambda>n. True), writes = 0\<rparr>"

lemma label_AFL: "sanitize_eval_label ''AFL'' = ''AFL''" "show_nat 0 = ''0''" "label_round ''AFL'' 0 = ''AFL_0''"
proof -
  show "sanitize_eval_label ''AFL'' = ''AFL''" by code_simp
  show "show_nat 0 = ''0''" by code_simp
  show "label_round ''AFL'' 0 = ''AFL_0''" by code_simp
qed

lemma demo_disk_ok: "disk_ok demo_disk" "locked demo_disk = {}" "granted demo_disk"
proof -
  have d: "distinct (map fst (disk.nodes demo_disk))" by (simp add: demo_disk_def)
  have "\<forall>p \<in> set (map fst (disk.nodes demo_disk)). p \<noteq> [] \<and> is_directory demo_disk (butlast p)"
    by (simp add: demo_disk_def is_directory_def node_at_def)
  moreover have "map_of (disk.nodes demo_disk) p \<noteq> None \<Longrightarrow> p \<in> set (map fst (disk.nodes demo_disk))" for p by (simp add: map_of_eq_None_iff)
  ultimately show "disk_ok demo_disk" using d unfolding disk_ok_def by blast
qed (simp_all add: demo_disk_def granted_def)

lemma demo_folders:
  "folder_fps demo_disk [''in''] = {show_nat (unat (fnv ''xy'')), show_nat (unat (fnv ''z''))}" "folder_fps demo_disk [''accum''] = {}"
  "folder_fps demo_disk [''AFL0''] = {show_nat (unat (fnv ''q''))}"
proof -
  have "set (seed_files demo_disk [''in'']) = {[''in'', ''a''], [''in'', ''b'']}" "set (seed_files demo_disk [''accum'']) = {}"
    "set (seed_files demo_disk [''AFL0'']) = {[''AFL0'', ''s'']}"
    by (auto simp: seed_files_def directory_iterator_def is_regular_file_def node_at_def demo_disk_def)
  moreover have "eval_file_fingerprint demo_disk [''in'', ''a''] = show_nat (unat (fnv ''xy''))"
    "eval_file_fingerprint demo_disk [''in'', ''b''] = show_nat (unat (fnv ''z''))" "eval_file_fingerprint demo_disk [''AFL0'', ''s''] = show_nat (unat (fnv ''q''))"
    by (simp_all add: eval_file_fingerprint_def contents_def node_at_def demo_disk_def)
  ultimately show "folder_fps demo_disk [''in''] = {show_nat (unat (fnv ''xy'')), show_nat (unat (fnv ''z''))}" "folder_fps demo_disk [''accum''] = {}"
    "folder_fps demo_disk [''AFL0''] = {show_nat (unat (fnv ''q''))}"
    unfolding folder_fps_seed_files [OF demo_disk_ok(1), symmetric] by simp_all
qed

text \<open>Three guards, and three processes of which two are each other's parents.\<close>

definition demo_guards :: trace_state where
  "demo_guards = snd (trace_pc_guard_init [0, 0] \<lparr>marks = None, names = None, tracing_array_size = 0, symbolize_edges = False, seed = 14, guard_cnt = 0\<rparr>)"

lemma demo_guards_ok: "trace_ok demo_guards" "tracing_array_size demo_guards < 2 ^ 32"
  by (simp_all add: demo_guards_def trace_pc_guard_init_def trace_ok_def)

definition demo_entry :: "string \<Rightarrow> proc_entry" where
  "demo_entry parent = \<lparr>status_file = Some (''PPid:'' @ parent), cwd_link = None, cmdline_file = None\<rparr>"

definition demo_processes :: process_table where
  "demo_processes = \<lparr>tick = 0, proc_dir = (\<lambda>t. [(''7'', demo_entry ''8''), (''self'', demo_entry ''1''), (''8'', demo_entry ''7''), (''9'', demo_entry ''1'')]),
     alive = (\<lambda>t p. True), ended = (\<lambda>t p. False), current_dir = (\<lambda>t. Some ''/w''), self_pid = 1, sent = []\<rparr>"

lemma demo_pids: "pid_entries (proc_dir demo_processes t) = Some [(7, demo_entry ''8''), (8, demo_entry ''7''), (9, demo_entry ''1'')]"
proof -
  have "digits_value ''7'' = 7" "digits_value ''8'' = 8" "digits_value ''9'' = 9" by code_simp+
  then have "pid_of_name ''7'' = Some 7" "pid_of_name ''8'' = Some 8" "pid_of_name ''9'' = Some 9" by (simp_all add: pid_of_name_def)
  moreover have "is_pid_directory_name ''7''" "is_pid_directory_name ''8''" "is_pid_directory_name ''9''" "\<not> is_pid_directory_name ''self''" by code_simp+
  ultimately show ?thesis by (simp add: demo_processes_def)
qed

section \<open>Properties\<close>

text \<open>
  C31. Synchronising the new seeds of a round, when their reports are cached and the copying command does what it says, brings into the global pool, byte for byte, seeds each of which contributes a target not covered by the ones before, and which together cover exactly the targets that all new seeds cover; the manifest then lists them, so that they are not synchronised again. Files, manifests and reports refine the abstract selection over features.
\<close>

theorem synchronisation_covers_targets:
  assumes "disk_ok d" "locked d = {}" "granted d" "\<forall>x \<in> {''.sync_state'', ''.sync_delta'', ''.sync_selected''}. no_file d [x]"
    "is_directory d [lab @ show_nat rnd]" "lab @ show_nat rnd \<noteq> ''.sync_delta''" "delta_ok [''global''] d"
    "manifest_ok d [''.sync_state'', label_round lab rnd @ ''.manifest'']"
    "load_seen_fingerprints d [''.sync_state'', label_round lab rnd @ ''.manifest''] = Some seen"
    "targets lab = Some t" "\<forall>fp \<in> folder_fps d [lab @ show_nat rnd] - initial - seen. cached lab rnd d fp = Some (F fp)"
    "pulls [''.sync_selected'', label_round lab rnd] sys"
  shows "\<exists>names all d'. sync_round_new_seeds_to_global sys opts targets lab rnd initial d = Some d' \<and>
    set all = folder_fps d [lab @ show_nat rnd] - initial - seen \<and>
    (\<forall>n \<in> set names. is_regular_file d [lab @ show_nat rnd, n] \<and> node_at d' [''global'', n] = node_at d [lab @ show_nat rnd, n]) \<and>
    (let picked = map (\<lambda>n. eval_file_fingerprint d [lab @ show_nat rnd, n]) names; fs = map F picked; gs = map F all in
       set picked \<subseteq> set all \<and> each_contributes fs t \<and>
       c0_edges t - (\<Union>f \<in> set fs. seed_edges f) = c0_edges t - (\<Union>f \<in> set gs. seed_edges f) \<and>
       c1_paths t - (\<Union>f \<in> set fs. seed_paths f) = c1_paths t - (\<Union>f \<in> set gs. seed_paths f) \<and>
       c2_crashes t - fingerprint ` set fs = c2_crashes t - fingerprint ` set gs \<and>
       c3_deep_edges t - (\<Union>f \<in> set fs. seed_edges f) = c3_deep_edges t - (\<Union>f \<in> set gs. seed_edges f) \<and>
       c4_low_freq_edges t - (\<Union>f \<in> set fs. seed_edges f) = c4_low_freq_edges t - (\<Union>f \<in> set gs. seed_edges f) \<and>
       load_seen_fingerprints d' [''.sync_state'', label_round lab rnd @ ''.manifest''] = Some (seen \<union> set picked))"
proof -
  obtain names all d' where s: "sync_round_new_seeds_to_global sys opts targets lab rnd initial d = Some d'"
    "set all = folder_fps d [lab @ show_nat rnd] - initial - seen"
    "\<forall>n \<in> set names. is_regular_file d [lab @ show_nat rnd, n] \<and> node_at d' [''global'', n] = node_at d [lab @ show_nat rnd, n]"
    "let picked = map (\<lambda>n. eval_file_fingerprint d [lab @ show_nat rnd, n]) names
     in set picked \<subseteq> set all \<and> consume_all (map F picked) t = consume_all (map F all) t \<and> each_contributes (map F picked) t \<and>
        load_seen_fingerprints d' [''.sync_state'', label_round lab rnd @ ''.manifest''] = Some (seen \<union> set picked) \<and>
        manifest_ok d' [''.sync_state'', label_round lab rnd @ ''.manifest'']"
    using synchronisation_covers [where d = d and lab = lab and rnd = rnd and targets = targets and sys = sys and initial = initial and opts = opts and F = F
        and seen = seen and t = t, OF assms(1-6) assms(7) [folded GLOBAL_POOL_NAME_def] assms(8-12), unfolded GLOBAL_POOL_NAME_def] by blast
  define picked where "picked = map (\<lambda>n. eval_file_fingerprint d [lab @ show_nat rnd, n]) names"
  have p: "set picked \<subseteq> set all" "consume_all (map F picked) t = consume_all (map F all) t" "each_contributes (map F picked) t"
    "load_seen_fingerprints d' [''.sync_state'', label_round lab rnd @ ''.manifest''] = Some (seen \<union> set picked)"
    using s(4) unfolding picked_def Let_def by blast+
  note cover = same_cover [OF p(2), THEN conjunct1] same_cover [OF p(2), THEN conjunct2, THEN conjunct1]
    same_cover [OF p(2), THEN conjunct2, THEN conjunct2, THEN conjunct1]
    same_cover [OF p(2), THEN conjunct2, THEN conjunct2, THEN conjunct2, THEN conjunct1]
    same_cover [OF p(2), THEN conjunct2, THEN conjunct2, THEN conjunct2, THEN conjunct2]
  show ?thesis
    by (rule exI [of _ names], rule exI [of _ all], rule exI [of _ d'], unfold Let_def picked_def [symmetric])
      (intro conjI s(1-3) p(1,3,4) cover)
qed

theorem synchronisation_covers_targets_witness:
  "\<exists>sys d'. sync_round_new_seeds_to_global sys no_options
       [''AFL'' \<mapsto> \<lparr>c0_edges = {5}, c1_paths = {}, c2_crashes = {}, c3_deep_edges = {}, c4_low_freq_edges = {}\<rparr>] ''AFL'' 0 {} demo_disk = Some d' \<and>
     node_at d' [''global'', ''s''] = Some (File ''q'')"
proof -
  let ?t = "\<lparr>c0_edges = {5}, c1_paths = {}, c2_crashes = {}, c3_deep_edges = {}, c4_low_freq_edges = {}\<rparr> :: sync_metric_targets"
  let ?sel = "[''.sync_selected'', ''AFL_0'']" and ?fp = "show_nat (unat (fnv ''q''))"
  define F where "F fp = \<lparr>seed_edges = {5}, seed_paths = {}, fingerprint = fp\<rparr>" for fp
  have l: "''AFL'' @ ''0'' = ''AFL0''" by simp
  note fps = demo_folders(3)
  have g: "getlines (unlines [''[EDGE]'', count_line 5 1]) = [''[EDGE]'', count_line 5 1]"
    by (rule getlines_unlines') (use count_line_plain in \<open>auto simp: newline_def\<close>)
  have n: "node_at demo_disk [''.eval_seed_reports'', ''AFL_0'', ?fp @ ''.report''] = Some (File (unlines [''[EDGE]'', count_line 5 1]))"
    by (simp add: node_at_def demo_disk_def)
  have c: "cached ''AFL'' 0 demo_disk ?fp = Some (F ?fp)"
    using n sync_count_line(1) [of 5 1] demo_disk_ok(2)
    by (simp add: cached_def load_cached_sync_seed_features_def eval_seed_report_cache_dir_def label_AFL Let_def is_regular_file_def
        parse_sync_seed_report_def g sync_header F_def del: One_nat_def)
  obtain sys where sys: "pulls ?sel sys" using pulls_exist [of "''.sync_selected''" "''AFL_0''"] by (auto simp: GLOBAL_POOL_NAME_def)
  have nf: "\<forall>x \<in> {''.sync_state'', ''.sync_delta'', ''.sync_selected''}. no_file demo_disk [x]"
    "is_directory demo_disk [''AFL0'']" "delta_ok [''global''] demo_disk"
    "manifest_ok demo_disk [''.sync_state'', ''AFL_0.manifest'']" "load_seen_fingerprints demo_disk [''.sync_state'', ''AFL_0.manifest''] = Some {}"
    by (simp_all add: no_file_def is_directory_def manifest_ok_def load_seen_fingerprints_def node_at_def demo_disk_def delta_ok_def)
  have al: "''AFL_0'' @ ''.manifest'' = ''AFL_0.manifest''" by simp
  obtain names all d' where s: "sync_round_new_seeds_to_global sys no_options [''AFL'' \<mapsto> ?t] ''AFL'' 0 {} demo_disk = Some d'"
    "set all = folder_fps demo_disk [''AFL0''] - {} - {}"
    "\<forall>n \<in> set names. is_regular_file demo_disk [''AFL0'', n] \<and> node_at d' [''global'', n] = node_at demo_disk [''AFL0'', n]"
    "c0_edges ?t - (\<Union>f \<in> set (map F (map (\<lambda>n. eval_file_fingerprint demo_disk [''AFL0'', n]) names)). seed_edges f) = c0_edges ?t - (\<Union>f \<in> set (map F all). seed_edges f)"
    using synchronisation_covers_targets [where d = demo_disk and lab = "''AFL''" and rnd = 0 and seen = "{}" and initial = "{}" and F = F and sys = sys and
        targets = "[''AFL'' \<mapsto> ?t]" and t = ?t and opts = no_options, unfolded label_AFL l al, OF demo_disk_ok nf(1,2) _ nf(3-5) _ _ sys] c fps
    by (auto simp: Let_def)
  have "names \<noteq> []" using s(4) unfolding s(2) fps set_map by (auto simp: F_def)
  then obtain m where m: "m \<in> set names" by (cases names) auto
  then have "is_regular_file demo_disk [''AFL0'', m]" using s(3) by blast
  then have "m = ''s''" by (auto simp: is_regular_file_def node_at_def demo_disk_def split: if_splits)
  then show ?thesis using s(1,3) m by (intro exI [of _ sys] exI [of _ d']) (auto simp: node_at_def demo_disk_def)
qed





text \<open>
  C33. Merging the outputs of the workers into the folder of the round, where every file is named by its fingerprint, is the union of the sets of fingerprints: it never removes or changes a file, adds nothing but fingerprints of the source, and adds all of them when the writes are granted.
\<close>

theorem accumulation_is_union:
  assumes "disk_ok d" "locked d = {}" "keyed {} d accum" "is_directory d source" "\<forall>n. \<not> inside accum (source @ [n])"
  shows "\<exists>d'. merge_seed_folder_into_accum source accum d = Some d' \<and> disk_ok d' \<and> keyed {} d' accum \<and>
    (\<forall>q. node_at d q \<noteq> None \<longrightarrow> node_at d' q = node_at d q) \<and>
    folder_fps d accum \<subseteq> folder_fps d' accum \<and> folder_fps d' accum \<subseteq> folder_fps d accum \<union> folder_fps d source \<and>
    ((\<forall>n. write_ok d n) \<longrightarrow> folder_fps d' accum = folder_fps d accum \<union> folder_fps d source)"
  using merge_accumulates [OF assms] unfolding kept_def granted_def by blast

theorem accumulation_is_union_witness:
  "\<exists>d'. merge_seed_folder_into_accum [''in''] [''accum''] demo_disk = Some d' \<and>
     folder_fps d' [''accum''] = {show_nat (unat (fnv ''xy'')), show_nat (unat (fnv ''z''))}"
proof -
  have k: "keyed {} demo_disk [''accum'']" "is_directory demo_disk [''in'']"
    by (auto simp: keyed_def is_directory_def node_at_def demo_disk_def)
  have "\<forall>n. \<not> inside [''accum''] ([''in''] @ [n])" "\<forall>n. write_ok demo_disk n" by (simp_all add: inside_def demo_disk_def)
  then show ?thesis using accumulation_is_union [OF demo_disk_ok(1,2) k] unfolding demo_folders by auto
qed








text \<open>
  C36. A manifest is read back as it was written: after appending fingerprints, loading gives those that were there before and the new ones, and if the write is refused, those that were there before; appending succeeds when its folder is there and the write is granted. The fingerprint of a readable file always is a line that can be read back.
\<close>

theorem manifests_read_back:
  assumes "manifest_ok d p" "p \<notin> locked d" "load_seen_fingerprints d p = Some seen" "\<forall>l \<in> set fps. plain_line l"
  shows "\<exists>ok d'. append_seen_fingerprints p fps d = (ok, d') \<and> manifest_ok d' p \<and>
    load_seen_fingerprints d' p = Some (if ok then seen \<union> set fps else seen) \<and>
    (is_directory d (butlast p) \<longrightarrow> (\<forall>n. write_ok d n) \<longrightarrow> ok) \<and>
    (\<forall>q. contents d q \<noteq> None \<longrightarrow> plain_line (eval_file_fingerprint d q))"
proof -
  obtain ok d' where a: "append_seen_fingerprints p fps d = (ok, d')" by fastforce
  have w: "ok \<longrightarrow> load_seen_fingerprints d' p = Some (seen \<union> set fps) \<and> manifest_ok d' p"
    using append_seen_load [of p fps d d' seen] a assms by (cases ok) simp_all
  have "\<not> ok \<longrightarrow> load_seen_fingerprints d' p = Some seen \<and> manifest_ok d' p" "is_directory d (butlast p) \<longrightarrow> (\<forall>n. write_ok d n) \<longrightarrow> ok"
    using append_seen_refused [OF a assms(1)] assms(1,3) by simp_all
  then show ?thesis using a w plain_show by (auto simp: eval_file_fingerprint_def)
qed

theorem manifests_read_back_witness:
  "\<exists>d'. append_seen_fingerprints [''in'', ''m''] [''17'', ''4''] demo_disk = (True, d') \<and> load_seen_fingerprints d' [''in'', ''m''] = Some {''17'', ''4''}"
proof -
  have "manifest_ok demo_disk [''in'', ''m'']" "[''in'', ''m''] \<notin> locked demo_disk" "load_seen_fingerprints demo_disk [''in'', ''m''] = Some {}"
    "is_directory demo_disk [''in'']" "\<forall>n. write_ok demo_disk n"
    by (simp_all add: manifest_ok_def load_seen_fingerprints_def is_directory_def node_at_def demo_disk_def)
  moreover have "\<forall>l \<in> set [''17'', ''4'']. plain_line l" by (simp add: plain_line_def chomp_def newline_def)
  ultimately show ?thesis using manifests_read_back [of demo_disk "[''in'', ''m'']" "{}" "[''17'', ''4'']"] by auto
qed


text \<open>
  C37. The report that the replay tool writes for a seed is read by the scheduler as what the run did: the edges with a non-zero count and the hash of the path.
\<close>

theorem seed_reports_read_back:
  assumes "trace_ok s" "tracing_array_size s < 2 ^ 32"
  shows "\<exists>report. seed_report target s (Some buf) = Some report \<and>
    (\<forall>d p fp. node_at d p = Some (File report) \<longrightarrow> p \<notin> locked d \<longrightarrow>
       parse_sync_seed_report d p \<lparr>seed_edges = {}, seed_paths = {}, fingerprint = fp\<rparr> =
         Some \<lparr>seed_edges = {of_nat i | i. i \<in> {1 .. tracing_array_size s} \<and> edge_hits target s buf i > 0},
               seed_paths = {fold murmur3_hash (counted s (target buf)) INITIAL_SEED}, fingerprint = fp\<rparr>)"
proof -
  have e: "of_nat ` set (edges_of target s buf) = ({of_nat i | i. i \<in> {1 .. tracing_array_size s} \<and> edge_hits target s buf i > 0} :: u64 set)"
    by (auto simp: edges_of_def simp del: upt_Suc)
  show ?thesis using seed_report_spec [OF assms(1), of target buf] parse_run [OF _ _ assms(2), of _ _ target buf] e
    by (intro exI [of _ "unlines (run_lines target s buf)"]) (simp add: path_of_def)
qed

theorem seed_reports_read_back_witness:
  "\<exists>report d. seed_report (\<lambda>buf. []) demo_guards (Some [7]) = Some report \<and> node_at d [''r''] = Some (File report) \<and>
     parse_sync_seed_report d [''r''] \<lparr>seed_edges = {}, seed_paths = {}, fingerprint = ''f''\<rparr> =
       Some \<lparr>seed_edges = {}, seed_paths = {INITIAL_SEED}, fingerprint = ''f''\<rparr>"
proof -
  obtain report where r: "seed_report (\<lambda>buf. []) demo_guards (Some [7]) = Some report"
    "\<forall>d p fp. node_at d p = Some (File report) \<longrightarrow> p \<notin> locked d \<longrightarrow>
       parse_sync_seed_report d p \<lparr>seed_edges = {}, seed_paths = {}, fingerprint = fp\<rparr> =
         Some \<lparr>seed_edges = {of_nat i | i. i \<in> {1 .. tracing_array_size demo_guards} \<and> edge_hits (\<lambda>buf. []) demo_guards [7] i > 0},
               seed_paths = {fold murmur3_hash (counted demo_guards []) INITIAL_SEED}, fingerprint = fp\<rparr>"
    using seed_reports_read_back [OF demo_guards_ok, of "\<lambda>buf. []" "[7]"] by blast
  let ?d = "\<lparr>nodes = [([''r''], File report)], locked = {}, write_ok = (\<lambda>n. True), writes = 0\<rparr>"
  have "node_at ?d [''r''] = Some (File report)" "[''r''] \<notin> locked ?d" by (simp_all add: node_at_def)
  moreover have "counted demo_guards [] = []" "edge_hits (\<lambda>buf. []) demo_guards [7] i = 0" for i by (simp_all add: counted_def edge_hits_def)
  ultimately show ?thesis using r by (intro exI [of _ report] exI [of _ ?d]) simp
qed


text \<open>
  C38. The options are independent of each other: the command line that asks for a combination of options is parsed to exactly this combination. The long mode implies a run, numbers are those of int, and the name of an option cannot be the source file.
\<close>

theorem options_read_back:
  assumes "flags_ok opts"
  shows "parse_args (arguments opts) no_options = Some opts"
  by (rule parse_args_arguments [OF assms])

theorem options_read_back_witness:
  "parse_args (arguments (no_options\<lparr>to_run := True, use_afl := True, round_number := 5, source_file := ''t.c''\<rparr>)) no_options =
     Some (no_options\<lparr>to_run := True, use_afl := True, round_number := 5, source_file := ''t.c''\<rparr>)"
  by (rule options_read_back) (simp add: flags_ok_def)


text \<open>
  C39. The search for the processes below a worker ends even if the parents read from /proc form cycles, and lists the worker first and every process that is reachable from it by parent links exactly once.
\<close>

theorem process_tree_complete:
  assumes "pid_entries (proc_dir e (tick e)) = Some xs" "0 < root_pid" "alive e (tick e) root_pid"
  shows "\<exists>tree. collect_process_tree root_pid e = Some tree \<and> distinct tree \<and> hd tree = root_pid \<and>
    set tree = {p. (root_pid, p) \<in> {(pp, p). \<exists>entry. (p, entry) \<in> set xs \<and> read_proc_ppid entry = Some pp}\<^sup>*}"
  by (rule tree_exact [OF assms])

theorem process_tree_complete_witness:
  "\<exists>tree. collect_process_tree 7 demo_processes = Some tree \<and> set tree = {7, 8}"
proof -
  have "pid_entries (proc_dir demo_processes (tick demo_processes)) = Some [(7, demo_entry ''8''), (8, demo_entry ''7''), (9, demo_entry ''1'')]"
    "alive demo_processes (tick demo_processes) 7" by (rule demo_pids, simp add: demo_processes_def)
  moreover have "read_proc_ppid (demo_entry ''8'') = Some 8" "read_proc_ppid (demo_entry ''7'') = Some 7" "read_proc_ppid (demo_entry ''1'') = Some 1"
    by code_simp+
  moreover have "{(pp, p). \<exists>entry. (p, entry) \<in> set [(7, demo_entry ''8''), (8, demo_entry ''7''), (9, demo_entry ''1'')] \<and> read_proc_ppid entry = Some pp} = {(8, 7), (7, 8), (1, 9 :: int)}"
    using calculation(3-5) by auto
  moreover have "{p. (7, p) \<in> {(8, 7), (7, 8), (1, 9 :: int)}\<^sup>*} = {7, 8}"
  proof (intro equalityI subsetI)
    fix p assume "p \<in> {p. (7, p) \<in> {(8, 7), (7, 8), (1, 9 :: int)}\<^sup>*}"
    then have "(7, p) \<in> {(8, 7), (7, 8), (1, 9 :: int)}\<^sup>*" by simp
    then show "p \<in> {7, 8}" by (induction rule: rtrancl_induct) auto
  qed auto
  ultimately show ?thesis using process_tree_complete [of demo_processes _ 7] by fastforce
qed





end
