(* ===== verification/Afl_Rng.thy ===== *)
theory Afl_Rng
  imports Prelude "HOL-Library.Multiset"
begin

text \<open>
  The random numbers of \<^verbatim>\<open>docker/AFL/afl-fuzz.c\<close>: \<open>UR\<close>, \<open>shuffle_ptrs\<close>,
  \<open>choose_block_len\<close> and \<open>locate_diffs\<close>. The values that libc's \<^verbatim>\<open>random()\<close> and the
  device \<^verbatim>\<open>/dev/urandom\<close> deliver are the two streams \<open>random_src\<close> and \<open>urandom_src\<close> of
  the state; nothing is assumed of them, so every theorem holds for every seed. The
  modulus by zero of \<^verbatim>\<open>random() % limit\<close> is \<^const>\<open>None\<close>.
\<close>

record afl_rng =
  rand_cnt :: u32
  random_src :: "nat \<Rightarrow> nat"
  random_pos :: nat
  urandom_src :: "nat \<Rightarrow> u32"
  urandom_pos :: nat
  run_over10m :: bool
  queue_cycle :: nat

definition RESEED_RNG :: nat where "RESEED_RNG = 10000"
definition HAVOC_BLK_SMALL :: nat where "HAVOC_BLK_SMALL = 32"
definition HAVOC_BLK_MEDIUM :: nat where "HAVOC_BLK_MEDIUM = 128"
definition HAVOC_BLK_LARGE :: nat where "HAVOC_BLK_LARGE = 1500"
definition HAVOC_BLK_XL :: nat where "HAVOC_BLK_XL = 32768"

lemmas blk_defs = HAVOC_BLK_SMALL_def HAVOC_BLK_MEDIUM_def HAVOC_BLK_LARGE_def HAVOC_BLK_XL_def

definition reseed :: "'a afl_rng_scheme \<Rightarrow> 'a afl_rng_scheme" where
  "reseed s =
     (if rand_cnt s = 0
      then s\<lparr>rand_cnt := of_nat (RESEED_RNG div 2 + unat (urandom_src s (urandom_pos s + 1)) mod RESEED_RNG),
             urandom_pos := urandom_pos s + 2\<rparr>
      else s\<lparr>rand_cnt := rand_cnt s - 1\<rparr>)"

definition UR :: "nat \<Rightarrow> 'a afl_rng_scheme \<Rightarrow> (nat \<times> 'a afl_rng_scheme) option" where
  "UR limit s =
     (let s1 = reseed s in
      if limit = 0 then None
      else Some (random_src s1 (random_pos s1) mod limit, s1\<lparr>random_pos := random_pos s1 + 1\<rparr>))"

text \<open>Shuffle an array of pointers. The bound \<^verbatim>\<open>cnt - 2\<close> is a 32-bit unsigned
  subtraction, so it wraps for fewer than two pointers; an index past the array is
  \<^const>\<open>None\<close>.\<close>

definition shuffle_body ::
  "nat \<Rightarrow> nat \<Rightarrow> 'x list \<times> 'a afl_rng_scheme \<Rightarrow> (bool \<times> 'x list \<times> 'a afl_rng_scheme) option" where
  "shuffle_body cnt i = (\<lambda>(ptrs, s). do {
     (r, s1) \<leftarrow> UR (cnt - i) s;
     let j = i + r;
     (if i < length ptrs \<and> j < length ptrs
      then Some (False, ptrs[i := ptrs ! j, j := ptrs ! i], s1) else None) })"

definition shuffle_ptrs :: "'x list \<Rightarrow> 'a afl_rng_scheme \<Rightarrow> (bool \<times> 'x list \<times> 'a afl_rng_scheme) option" where
  "shuffle_ptrs ptrs s =
     for_each (shuffle_body (length ptrs)) [0 ..< unat (of_nat (length ptrs) - 2 :: u32)] (ptrs, s)"

definition choose_block_len :: "nat \<Rightarrow> 'a afl_rng_scheme \<Rightarrow> (nat \<times> 'a afl_rng_scheme) option" where
  "choose_block_len limit s = do {
     let rlim = (if \<not> run_over10m s then 1 else min (queue_cycle s) 3);
     (r, s1) \<leftarrow> UR rlim s;
     (min_value, max_value, s2) \<leftarrow>
       (if r = 0 then Some (1, HAVOC_BLK_SMALL, s1)
        else if r = 1 then Some (HAVOC_BLK_SMALL, HAVOC_BLK_MEDIUM, s1)
        else do {
          (t, s') \<leftarrow> UR 10 s1;
          Some (if t \<noteq> 0 then (HAVOC_BLK_MEDIUM, HAVOC_BLK_LARGE, s')
                else (HAVOC_BLK_LARGE, HAVOC_BLK_XL, s')) });
     let min_value = (if min_value \<ge> limit then 1 else min_value);
     (k, s3) \<leftarrow> UR (min max_value limit + 1 - min_value) s2;
     Some (min_value + k, s3) }"

fun locate_diffs_loop :: "u8 list \<Rightarrow> u8 list \<Rightarrow> nat \<Rightarrow> int \<Rightarrow> int \<Rightarrow> int \<times> int" where
  "locate_diffs_loop (a # as) (b # bs) pos f_loc l_loc =
     (if a \<noteq> b
      then locate_diffs_loop as bs (Suc pos) (if f_loc = -1 then int pos else f_loc) (int pos)
      else locate_diffs_loop as bs (Suc pos) f_loc l_loc)"
| "locate_diffs_loop _ _ pos f_loc l_loc = (f_loc, l_loc)"

definition locate_diffs :: "u8 list \<Rightarrow> u8 list \<Rightarrow> nat \<Rightarrow> (int \<times> int) option" where
  "locate_diffs ptr1 ptr2 len =
     (if len \<le> length ptr1 \<and> len \<le> length ptr2
      then Some (locate_diffs_loop (take len ptr1) (take len ptr2) 0 (-1) (-1)) else None)"

section \<open>The random source as an interface\<close>

text \<open>The state a draw leaves behind differs from the state before in the counters of
  the generator only; what the fuzzer keeps elsewhere in the state is untouched.\<close>

definition same_rest :: "'a afl_rng_scheme \<Rightarrow> 'a afl_rng_scheme \<Rightarrow> bool" where
  "same_rest s t \<longleftrightarrow> (\<exists>c p q. t = s\<lparr>rand_cnt := c, random_pos := p, urandom_pos := q\<rparr>)"

lemma same_rest_refl [simp]: "same_rest s s"
  unfolding same_rest_def
  by (rule exI [of _ "rand_cnt s"], rule exI [of _ "random_pos s"], rule exI [of _ "urandom_pos s"]) simp

lemma same_rest_trans [trans]: "same_rest s t \<Longrightarrow> same_rest t u \<Longrightarrow> same_rest s u"
  unfolding same_rest_def by fastforce

lemma same_rest_more [simp]: "same_rest s t \<Longrightarrow> more t = more s"
  by (auto simp: same_rest_def)

lemma same_rest_fields:
  assumes "same_rest s t"
  shows "run_over10m t = run_over10m s" "queue_cycle t = queue_cycle s"
    "random_src t = random_src s" "urandom_src t = urandom_src s"
  using assms by (auto simp: same_rest_def)

lemma reseed_same_rest: "same_rest s (reseed s)"
proof (cases "rand_cnt s = 0")
  case True
  then show ?thesis unfolding same_rest_def reseed_def
    by (intro exI [of _ "of_nat (RESEED_RNG div 2 + unat (urandom_src s (urandom_pos s + 1)) mod RESEED_RNG)"]
        exI [of _ "random_pos s"] exI [of _ "urandom_pos s + 2"]) simp
next
  case False
  then show ?thesis unfolding same_rest_def reseed_def
    by (intro exI [of _ "rand_cnt s - 1"] exI [of _ "random_pos s"] exI [of _ "urandom_pos s"]) simp
qed

text \<open>The contract of a generator of bounded random numbers: total on a positive limit,
  undefined on zero, below the limit, and silent about everything else. The clients below
  and the havoc mutations rest on nothing more.\<close>

locale bounded_rng =
  fixes draw :: "nat \<Rightarrow> 's \<Rightarrow> (nat \<times> 's) option"
    and frame :: "'s \<Rightarrow> 's \<Rightarrow> bool"
  assumes draw_total: "0 < limit \<Longrightarrow> \<exists>r t. draw limit s = Some (r, t)"
    and draw_zero: "draw 0 s = None"
    and draw_bound: "draw limit s = Some (r, t) \<Longrightarrow> r < limit"
    and draw_frame: "draw limit s = Some (r, t) \<Longrightarrow> frame s t"
begin

lemma draw_obtain:
  assumes "0 < limit"
  obtains r t where "draw limit s = Some (r, t)" "r < limit" "frame s t"
  using draw_total [OF assms] draw_bound draw_frame by metis

lemma draw_Some_iff: "(\<exists>r t. draw limit s = Some (r, t)) \<longleftrightarrow> 0 < limit"
  by (metis draw_total draw_zero gr0I option.distinct(1))

end

interpretation ur: bounded_rng UR same_rest
proof
  fix limit r :: nat and s t :: "'a afl_rng_scheme"
  show "0 < limit \<Longrightarrow> \<exists>r t. UR limit s = Some (r, t)"
    by (simp add: UR_def Let_def)
  show "UR 0 s = None"
    by (simp add: UR_def Let_def)
  assume u: "UR limit s = Some (r, t)"
  then show "r < limit"
    by (auto simp: UR_def Let_def split: if_splits)
  from u have t: "t = (reseed s)\<lparr>random_pos := random_pos (reseed s) + 1\<rparr>"
    by (auto simp: UR_def Let_def split: if_splits)
  have "same_rest (reseed s) t" unfolding t same_rest_def
    by (intro exI [of _ "rand_cnt (reseed s)"] exI [of _ "random_pos (reseed s) + 1"]
        exI [of _ "urandom_pos (reseed s)"]) simp
  with reseed_same_rest show "same_rest s t" by (rule same_rest_trans)
qed

text \<open>The block length is between 1 and the limit, and never more than \<^verbatim>\<open>HAVOC_BLK_XL\<close>.\<close>

lemma choose_block_len_ok:
  assumes "0 < limit" and "run_over10m s \<longrightarrow> 0 < queue_cycle s"
  obtains n t where "choose_block_len limit s = Some (n, t)" "1 \<le> n" "n \<le> limit"
    "n \<le> HAVOC_BLK_XL" "same_rest s t"
proof -
  define rlim where "rlim = (if \<not> run_over10m s then 1 else min (queue_cycle s) 3)"
  have "0 < rlim" using assms(2) by (simp add: rlim_def)
  then obtain r s1 where r: "UR rlim s = Some (r, s1)" "same_rest s s1"
    using ur.draw_obtain by metis
  define pick where "pick = (if r = 0 then Some (1, HAVOC_BLK_SMALL, s1)
        else if r = 1 then Some (HAVOC_BLK_SMALL, HAVOC_BLK_MEDIUM, s1)
        else do {
          (t, s') \<leftarrow> UR 10 s1;
          Some (if t \<noteq> 0 then (HAVOC_BLK_MEDIUM, HAVOC_BLK_LARGE, s')
                else (HAVOC_BLK_LARGE, HAVOC_BLK_XL, s')) })"
  obtain lo hi s2 where p: "pick = Some (lo, hi, s2)" "1 \<le> lo" "lo \<le> hi" "hi \<le> HAVOC_BLK_XL" "same_rest s s2"
  proof -
    obtain t s' where t: "UR 10 s1 = Some (t, s')" "same_rest s1 s'"
      using ur.draw_obtain [of 10 s1] by (metis zero_less_numeral)
    have "same_rest s s'" using r(2) t(2) by (rule same_rest_trans)
    then have "r = 0 \<or> r = 1 \<or> r > 1 \<and> t = 0 \<or> r > 1 \<and> t \<noteq> 0" by linarith
    then show ?thesis
    proof (elim disjE conjE)
      assume "r = 0"
      with r(2) show ?thesis
        by (intro that [of 1 HAVOC_BLK_SMALL s1]) (simp_all add: pick_def blk_defs)
    next
      assume "r = 1"
      with r(2) show ?thesis
        by (intro that [of HAVOC_BLK_SMALL HAVOC_BLK_MEDIUM s1]) (simp_all add: pick_def blk_defs)
    next
      assume "1 < r" "t = 0"
      with t(1) \<open>same_rest s s'\<close> show ?thesis
        by (intro that [of HAVOC_BLK_LARGE HAVOC_BLK_XL s']) (simp_all add: pick_def blk_defs)
    next
      assume "1 < r" "t \<noteq> 0"
      with t(1) \<open>same_rest s s'\<close> show ?thesis
        by (intro that [of HAVOC_BLK_MEDIUM HAVOC_BLK_LARGE s']) (simp_all add: pick_def blk_defs)
    qed
  qed
  define lo' where "lo' = (if lo \<ge> limit then 1 else lo)"
  have lo': "1 \<le> lo'" "lo' \<le> min hi limit" using p assms(1) by (auto simp: lo'_def)
  then obtain k s3 where k: "UR (min hi limit + 1 - lo') s2 = Some (k, s3)" "k < min hi limit + 1 - lo'"
    "same_rest s2 s3"
    using ur.draw_obtain [of "min hi limit + 1 - lo'" s2] by (metis add.commute less_Suc_eq_le plus_1_eq_Suc zero_less_diff)
  have "choose_block_len limit s = Some (lo' + k, s3)"
    using r(1) p(1) k(1) unfolding choose_block_len_def rlim_def pick_def lo'_def by simp
  moreover have "lo' + k \<le> limit" "lo' + k \<le> HAVOC_BLK_XL" "1 \<le> lo' + k"
    using k(2) lo' p(4) by auto
  moreover have "same_rest s s3" using p(5) k(3) by (rule same_rest_trans)
  ultimately show ?thesis using that by blast
qed

text \<open>A shuffle of two or more pointers permutes them.\<close>

lemma unat_minus_2_u32: "2 \<le> n \<Longrightarrow> n < 2 ^ 32 \<Longrightarrow> unat (of_nat n - 2 :: u32) = n - 2"
  by (subst unat_sub) (simp_all add: word_le_nat_alt unat_of_nat)

lemma shuffle_ptrs_mset:
  assumes "2 \<le> length ptrs" "length ptrs < 2 ^ 32"
  shows "\<exists>ptrs' t. shuffle_ptrs ptrs s = Some (False, ptrs', t) \<and> mset ptrs' = mset ptrs"
proof -
  let ?n = "length ptrs"
  let ?P = "\<lambda>(xs, t). length xs = ?n \<and> mset xs = mset ptrs"
  have step: "\<exists>b'. shuffle_body ?n i b = Some (False, b') \<and> ?P b'" if "i < ?n - 2" "?P b" for i b
  proof -
    obtain xs t where b: "b = (xs, t)" by (cases b)
    have "0 < ?n - i" using that(1) by simp
    then obtain r t' where r: "UR (?n - i) t = Some (r, t')" "r < ?n - i"
      using ur.draw_obtain by metis
    with that b have "shuffle_body ?n i b = Some (False, xs[i := xs ! (i + r), i + r := xs ! i], t')"
      by (auto simp: shuffle_body_def Let_def)
    moreover have "mset (xs[i := xs ! (i + r), i + r := xs ! i]) = mset xs"
      using that r b by (intro mset_swap) auto
    ultimately show ?thesis using that b by auto
  qed
  have "\<exists>b'. for_each (shuffle_body ?n) is b = Some (False, b') \<and> ?P b'"
    if "set is \<subseteq> {..< ?n - 2}" "?P b" for "is" b
    using that
  proof (induction "is" arbitrary: b)
    case Nil
    then show ?case by simp
  next
    case (Cons i "is")
    then have i: "i < ?n - 2" and "is": "set is \<subseteq> {..< ?n - 2}" by auto
    from step [OF i Cons.prems(2)] obtain b1 where
      b1: "shuffle_body ?n i b = Some (False, b1)" "?P b1" by blast
    from Cons.IH [OF "is" b1(2)] obtain b2 where
      "for_each (shuffle_body ?n) is b1 = Some (False, b2)" "?P b2" by blast
    with b1 show ?case by simp
  qed
  moreover have "set [0 ..< ?n - 2] \<subseteq> {..< ?n - 2}" "?P (ptrs, s)" by auto
  ultimately obtain b' where "for_each (shuffle_body ?n) [0 ..< ?n - 2] (ptrs, s) = Some (False, b')" "?P b'"
    by blast
  then show ?thesis
    by (cases b') (simp add: shuffle_ptrs_def unat_minus_2_u32 [OF assms])
qed

text \<open>\<open>locate_diffs\<close> finds the first and the last differing offset.\<close>

lemma locate_diffs_loop_spec:
  assumes "length as = length bs" "f = -1 \<longleftrightarrow> l = -1" "-1 \<le> f"
  shows "locate_diffs_loop as bs pos f l =
    (let D = {i. i < length as \<and> as ! i \<noteq> bs ! i} in
     if D = {} then (f, l)
     else ((if f = -1 then int (pos + Min D) else f), int (pos + Max D)))"
  using assms
proof (induction as bs pos f l rule: locate_diffs_loop.induct)
  case (1 a as b bs pos f l)
  define D' where "D' = {i. i < length as \<and> as ! i \<noteq> bs ! i}"
  have D: "{i. i < length (a # as) \<and> (a # as) ! i \<noteq> (b # bs) ! i} =
      (if a \<noteq> b then {0} else {}) \<union> Suc ` D'"
    by (auto simp: D'_def less_Suc_eq_0_disj)
  have fin: "finite D'" by (simp add: D'_def)
  have mm: "Min (Suc ` D') = Suc (Min D')" "Max (Suc ` D') = Suc (Max D')" if "D' \<noteq> {}"
    using fin that by (simp_all add: mono_Min_commute mono_Max_commute mono_Suc)
  have mx: "Max (insert 0 (Suc ` D')) = Suc (Max D')" if "D' \<noteq> {}"
    using fin that mm by (simp add: Max_insert)
  have mn: "Min (insert 0 (Suc ` D')) = 0"
    using fin by (cases "D' = {}") (simp_all add: Min_insert)
  show ?case
  proof (cases "a \<noteq> b")
    case True
    with 1 have ih: "locate_diffs_loop as bs (Suc pos) (if f = -1 then int pos else f) (int pos) =
       (if D' = {} then ((if f = -1 then int pos else f), int pos)
        else ((if f = -1 then int pos else f), int (Suc pos + Max D')))"
      by (auto simp: D'_def Let_def)
    with True D mx mn show ?thesis by (auto simp: Let_def)
  next
    case False
    with 1 have "locate_diffs_loop as bs (Suc pos) f l =
       (if D' = {} then (f, l)
        else ((if f = -1 then int (Suc pos + Min D') else f), int (Suc pos + Max D')))"
      by (auto simp: D'_def Let_def)
    with False D mm show ?thesis by (auto simp: Let_def)
  qed
qed auto

end
