(* ===== verification/Afl_Bitmap.thy ===== *)
theory Afl_Bitmap
  imports Afl_Rng
begin

text \<open>
  The coverage bitmap of \<^verbatim>\<open>docker/AFL/afl-fuzz.c\<close>: \<open>has_new_bits\<close>, the three counters,
  \<open>simplify_trace\<close>, \<open>classify_counts\<close> and \<open>minimize_bits\<close>, in the 64-bit
  flavour (\<^verbatim>\<open>WORD_SIZE_64\<close>). The routines work on whole machine words for speed; the
  lemmas show that each computes what the byte-by-byte description in its comment says.
\<close>

section \<open>State and operations\<close>

definition MAP_SIZE :: nat where "MAP_SIZE = 65536"

record afl_map = afl_rng +
  trace_bits :: "u8 list"
  virgin_bits :: "u8 list"
  virgin_tmout :: "u8 list"
  virgin_crash :: "u8 list"
  var_bytes :: "u8 list"
  bitmap_changed :: bool

datatype virgin = VIRGIN_BITS | VIRGIN_TMOUT | VIRGIN_CRASH

fun virgin_map :: "virgin \<Rightarrow> 'a afl_map_scheme \<Rightarrow> u8 list" where
  "virgin_map VIRGIN_BITS s = virgin_bits s"
| "virgin_map VIRGIN_TMOUT s = virgin_tmout s"
| "virgin_map VIRGIN_CRASH s = virgin_crash s"

fun set_virgin_map :: "virgin \<Rightarrow> u8 list \<Rightarrow> 'a afl_map_scheme \<Rightarrow> 'a afl_map_scheme" where
  "set_virgin_map VIRGIN_BITS m s = s\<lparr>virgin_bits := m\<rparr>"
| "set_virgin_map VIRGIN_TMOUT m s = s\<lparr>virgin_tmout := m\<rparr>"
| "set_virgin_map VIRGIN_CRASH m s = s\<lparr>virgin_crash := m\<rparr>"

primrec has_new_bits_loop :: "nat \<Rightarrow> u8 list \<Rightarrow> u8 list \<Rightarrow> u8 \<Rightarrow> u8 \<times> u8 list" where
  "has_new_bits_loop 0 cur vir ret = (ret, vir)"
| "has_new_bits_loop (Suc i) cur vir ret =
     (let current = load_le (take 8 cur) :: u64;
          virgin = load_le (take 8 vir) :: u64;
          hit = (current \<noteq> 0 \<and> current AND virgin \<noteq> 0);
          ret' = (if hit \<and> ret < 2
                  then (if list_ex (\<lambda>k. cur ! k \<noteq> 0 \<and> vir ! k = 0xff) [0, 1, 2, 3, 4, 5, 6, 7] then 2 else 1)
                  else ret);
          virgin' = (if hit then virgin AND NOT current else virgin);
          (r, rest) = has_new_bits_loop i (drop 8 cur) (drop 8 vir) ret'
      in (r, store_le 8 virgin' @ rest))"

definition has_new_bits :: "virgin \<Rightarrow> 'a afl_map_scheme \<Rightarrow> u8 \<times> 'a afl_map_scheme" where
  "has_new_bits v s =
     (let (ret, m) = has_new_bits_loop (MAP_SIZE div 8) (trace_bits s) (virgin_map v s) 0;
          s1 = set_virgin_map v m s
      in (ret, if ret \<noteq> 0 \<and> v = VIRGIN_BITS then s1\<lparr>bitmap_changed := True\<rparr> else s1))"

definition popcount_word :: "u32 \<Rightarrow> u32" where
  "popcount_word v0 =
     (let v1 = v0 - (drop_bit 1 v0 AND 0x55555555);
          v2 = (v1 AND 0x33333333) + (drop_bit 2 v1 AND 0x33333333)
      in drop_bit 24 (((v2 + drop_bit 4 v2) AND 0xF0F0F0F) * 0x01010101))"

primrec count_bits_loop :: "nat \<Rightarrow> u8 list \<Rightarrow> u32 \<Rightarrow> u32" where
  "count_bits_loop 0 mem ret = ret"
| "count_bits_loop (Suc i) mem ret =
     (let v = load_le (take 4 mem) :: u32
      in count_bits_loop i (drop 4 mem)
           (if v = 0xffffffff then ret + 32 else ret + popcount_word v))"

definition count_bits :: "u8 list \<Rightarrow> u32" where
  "count_bits mem = count_bits_loop (MAP_SIZE div 4) mem 0"

definition FF :: "nat \<Rightarrow> u32" where
  "FF b = push_bit (8 * b) 0xff"

primrec count_bytes_loop :: "nat \<Rightarrow> u8 list \<Rightarrow> u32 \<Rightarrow> u32" where
  "count_bytes_loop 0 mem ret = ret"
| "count_bytes_loop (Suc i) mem ret =
     (let v = load_le (take 4 mem) :: u32
      in count_bytes_loop i (drop 4 mem)
           (if v = 0 then ret
            else ret + of_bool (v AND FF 0 \<noteq> 0) + of_bool (v AND FF 1 \<noteq> 0)
                     + of_bool (v AND FF 2 \<noteq> 0) + of_bool (v AND FF 3 \<noteq> 0)))"

definition count_bytes :: "u8 list \<Rightarrow> u32" where
  "count_bytes mem = count_bytes_loop (MAP_SIZE div 4) mem 0"

primrec count_non_255_loop :: "nat \<Rightarrow> u8 list \<Rightarrow> u32 \<Rightarrow> u32" where
  "count_non_255_loop 0 mem ret = ret"
| "count_non_255_loop (Suc i) mem ret =
     (let v = load_le (take 4 mem) :: u32
      in count_non_255_loop i (drop 4 mem)
           (if v = 0xffffffff then ret
            else ret + of_bool (v AND FF 0 \<noteq> FF 0) + of_bool (v AND FF 1 \<noteq> FF 1)
                     + of_bool (v AND FF 2 \<noteq> FF 2) + of_bool (v AND FF 3 \<noteq> FF 3)))"

definition count_non_255_bytes :: "u8 list \<Rightarrow> u32" where
  "count_non_255_bytes mem = count_non_255_loop (MAP_SIZE div 4) mem 0"

definition simplify_lookup :: "u8 \<Rightarrow> u8" where
  "simplify_lookup b = (if b = 0 then 1 else 128)"

definition simplify_step :: "u8 list \<Rightarrow> u8 list" where
  "simplify_step mem8 =
     (if (load_le mem8 :: u64) \<noteq> 0
      then map (\<lambda>k. simplify_lookup (mem8 ! k)) [0, 1, 2, 3, 4, 5, 6, 7]
      else store_le 8 (0x0101010101010101 :: u64))"

definition count_class_lookup8 :: "u8 \<Rightarrow> u8" where
  "count_class_lookup8 b =
     (if b = 0 then 0 else if b = 1 then 1 else if b = 2 then 2 else if b = 3 then 4
      else if b \<le> 7 then 8 else if b \<le> 15 then 16 else if b \<le> 31 then 32
      else if b \<le> 127 then 64 else 128)"

definition count_class_lookup16 :: "u16 \<Rightarrow> u16" where
  "count_class_lookup16 w =
     push_bit 8 (ucast (count_class_lookup8 (ucast (drop_bit 8 w)))) OR
     ucast (count_class_lookup8 (ucast w))"

definition classify_step :: "u8 list \<Rightarrow> u8 list" where
  "classify_step mem8 =
     (if (load_le mem8 :: u64) \<noteq> 0
      then concat (map (\<lambda>k. store_le 2 (count_class_lookup16 (load_le (take 2 (drop (2 * k) mem8))))) [0, 1, 2, 3])
      else mem8)"

primrec word_loop :: "(u8 list \<Rightarrow> u8 list) \<Rightarrow> nat \<Rightarrow> u8 list \<Rightarrow> u8 list" where
  "word_loop f 0 mem = mem"
| "word_loop f (Suc i) mem = f (take 8 mem) @ word_loop f i (drop 8 mem)"

definition simplify_trace :: "u8 list \<Rightarrow> u8 list" where
  "simplify_trace mem = word_loop simplify_step (MAP_SIZE div 8) mem"

definition classify_counts :: "u8 list \<Rightarrow> u8 list" where
  "classify_counts mem = word_loop classify_step (MAP_SIZE div 8) mem"

fun minimize_bits_loop :: "u8 list \<Rightarrow> u8 list \<Rightarrow> nat \<Rightarrow> u8 list" where
  "minimize_bits_loop dst [] i = dst"
| "minimize_bits_loop dst (b # src) i =
     minimize_bits_loop
       (if b \<noteq> 0 then dst[i div 8 := dst ! (i div 8) OR push_bit (i mod 8) 1] else dst) src (Suc i)"

definition minimize_bits :: "u8 list \<Rightarrow> u8 list \<Rightarrow> u8 list" where
  "minimize_bits dst src = minimize_bits_loop dst (take MAP_SIZE src) 0"

section \<open>New bits\<close>

text \<open>The byte-level description: how new a trace is against a virgin map, and what the
  map becomes.\<close>

definition novelty :: "u8 list \<Rightarrow> u8 list \<Rightarrow> u8" where
  "novelty cur vir =
     (if \<exists>k < length cur. cur ! k \<noteq> 0 \<and> vir ! k = 0xff then 2
      else if \<exists>k < length cur. cur ! k AND vir ! k \<noteq> 0 then 1 else 0)"

definition clear_seen :: "u8 list \<Rightarrow> u8 list \<Rightarrow> u8 list" where
  "clear_seen vir cur = map2 (\<lambda>v c. v AND NOT c) vir cur"

lemma u8_order [simp]:
  "\<not> (2 :: u8) \<le> 1" "(1 :: u8) \<le> 2" "\<not> (1 :: u8) \<le> 0" "\<not> (2 :: u8) \<le> 0" "(1 :: u8) < 2" "(0 :: u8) < 2"
  by (simp_all add: word_le_nat_alt word_less_nat_alt)

lemma novelty_max:
  "(if p \<or> q then 2 else if r \<or> t then 1 else 0) =
   max (if p then 2 else if r then 1 else 0) (if q then 2 else if t then 1 else (0 :: u8))"
  by (cases p; cases q; cases r; cases t) (simp_all add: max_def)

lemma novelty_append:
  assumes "length a = length b"
  shows "novelty (a @ c) (b @ d) = max (novelty a b) (novelty c d)"
proof -
  have ex: "(\<exists>k < length (a @ c). P ((a @ c) ! k) ((b @ d) ! k)) \<longleftrightarrow>
      (\<exists>k < length a. P (a ! k) (b ! k)) \<or> (\<exists>k < length c. P (c ! k) (d ! k))"
    for P :: "u8 \<Rightarrow> u8 \<Rightarrow> bool"
  proof
    assume "\<exists>k < length (a @ c). P ((a @ c) ! k) ((b @ d) ! k)"
    then obtain k where k: "k < length a + length c" "P ((a @ c) ! k) ((b @ d) ! k)" by auto
    then show "(\<exists>k < length a. P (a ! k) (b ! k)) \<or> (\<exists>k < length c. P (c ! k) (d ! k))"
      using assms by (cases "k < length a") (auto simp: nth_append intro: exI [of _ "k - length a"])
  next
    assume "(\<exists>k < length a. P (a ! k) (b ! k)) \<or> (\<exists>k < length c. P (c ! k) (d ! k))"
    then show "\<exists>k < length (a @ c). P ((a @ c) ! k) ((b @ d) ! k)"
    proof
      assume "\<exists>k < length a. P (a ! k) (b ! k)"
      then show ?thesis using assms by (auto simp: nth_append intro: exI)
    next
      assume "\<exists>k < length c. P (c ! k) (d ! k)"
      then obtain k where "k < length c" "P (c ! k) (d ! k)" by auto
      then show ?thesis using assms
        by (intro exI [of _ "length a + k"]) (simp add: nth_append)
    qed
  qed
  show ?thesis
    unfolding novelty_def
    unfolding ex [of "\<lambda>x y. x \<noteq> 0 \<and> y = 0xff"] ex [of "\<lambda>x y. x AND y \<noteq> 0"]
    by (rule novelty_max)
qed

lemma load_le_and_eq_0_iff:
  assumes "length xs = length ys" "8 * length xs \<le> LENGTH('a::len)"
  shows "(load_le xs :: 'a word) AND load_le ys = 0 \<longleftrightarrow> (\<forall>k < length xs. xs ! k AND ys ! k = 0)"
proof -
  have "(load_le xs :: 'a word) AND load_le ys = 0 \<longleftrightarrow> (\<forall>b \<in> set (map2 (AND) xs ys). b = 0)"
    using assms by (simp add: load_le_and load_le_eq_0_iff)
  also have "\<dots> \<longleftrightarrow> (\<forall>k < length xs. xs ! k AND ys ! k = 0)"
    using assms by (force simp: set_zip in_set_conv_nth)
  finally show ?thesis .
qed

lemma all_lt_8: "(\<exists>k < 8. P k) \<longleftrightarrow> list_ex P [0, 1, 2, 3, 4, 5, 6, 7 :: nat]"
  by (simp add: numeral_eq_Suc less_Suc_eq, blast)

lemma u8_le_2: "r \<le> 2 \<Longrightarrow> r = 0 \<or> r = 1 \<or> r = 2" for r :: u8
proof -
  assume "r \<le> 2"
  then have "unat r \<le> 2" by (simp add: word_le_nat_alt)
  then have "unat r = unat (0 :: u8) \<or> unat r = unat (1 :: u8) \<or> unat r = unat (2 :: u8)"
    by simp linarith
  then show ?thesis by (simp only: word_unat_eq_iff)
qed

text \<open>One 64-bit step on eight bytes.\<close>

lemma step_virgin:
  assumes "length c = 8" "length v = 8"
  shows "store_le 8 (if (load_le c :: u64) \<noteq> 0 \<and> load_le c AND load_le v \<noteq> (0 :: u64)
           then load_le v AND NOT (load_le c) else (load_le v :: u64)) = clear_seen v c"
proof (cases "(load_le c :: u64) AND load_le v = 0")
  case True
  then have z: "\<forall>k < 8. c ! k AND v ! k = 0"
    using assms by (simp add: load_le_and_eq_0_iff)
  have same: "v ! k AND NOT (c ! k) = v ! k" if "k < 8" for k
  proof (rule bit_eqI)
    fix n
    have "\<not> bit (c ! k AND v ! k) n" using z that by simp
    then show "bit (v ! k AND NOT (c ! k)) n = bit (v ! k) n"
      by (auto simp: bit_and_iff bit_not_iff dest: bit_imp_le_length)
  qed
  have "clear_seen v c = v"
    using assms same by (intro nth_equalityI) (simp_all add: clear_seen_def)
  moreover have "store_le 8 (load_le v :: u64) = v"
    using store_le_load_le [of v, where 'a = 64] assms by simp
  ultimately show ?thesis using True by simp
next
  case False
  then have "(load_le c :: u64) \<noteq> 0" by auto
  moreover have "(load_le v :: u64) AND NOT (load_le c) = load_le (clear_seen v c)"
    using load_le_and_not [of v c, where 'a = 64] assms by (simp add: clear_seen_def)
  moreover have "store_le 8 (load_le (clear_seen v c) :: u64) = clear_seen v c"
    using store_le_load_le [of "clear_seen v c", where 'a = 64] assms by (simp add: clear_seen_def)
  ultimately show ?thesis using False by simp
qed

lemma step_novelty:
  assumes "length c = 8" "length v = 8"
  shows "novelty c v =
    (if (load_le c :: u64) \<noteq> 0 \<and> load_le c AND load_le v \<noteq> (0 :: u64)
     then (if list_ex (\<lambda>k. c ! k \<noteq> 0 \<and> v ! k = 0xff) [0, 1, 2, 3, 4, 5, 6, 7] then 2 else 1) else 0)"
proof -
  have a: "(load_le c :: u64) AND load_le v = 0 \<longleftrightarrow> \<not> (\<exists>k < 8. c ! k AND v ! k \<noteq> 0)"
    using assms by (simp add: load_le_and_eq_0_iff)
  have b: "(load_le c :: u64) AND load_le v = 0" if "(load_le c :: u64) = 0"
    using that by simp
  have ff: "x AND 0xff = x" for x :: u8
  proof -
    have "(0xff :: u8) = - 1" by simp
    then show ?thesis by (simp only: and.right_neutral)
  qed
  have "\<exists>k < 8. c ! k AND v ! k \<noteq> 0" if "\<exists>k < 8. c ! k \<noteq> 0 \<and> v ! k = 0xff"
    using that ff by metis
  with a b show ?thesis
    unfolding novelty_def all_lt_8 [symmetric] using assms by auto
qed

lemma has_new_bits_loop_spec:
  assumes "length cur = 8 * n" "length vir = 8 * n" "ret \<le> 2"
  shows "has_new_bits_loop n cur vir ret = (max ret (novelty cur vir), clear_seen vir cur)"
  using assms
proof (induction n arbitrary: cur vir ret)
  case 0
  then show ?case by (simp add: novelty_def clear_seen_def)
next
  case (Suc n)
  define c v where "c = take 8 cur" and "v = take 8 vir"
  have len: "length c = 8" "length v = 8" using Suc.prems by (simp_all add: c_def v_def)
  define hit where "hit \<longleftrightarrow> (load_le c :: u64) \<noteq> 0 \<and> load_le c AND load_le v \<noteq> (0 :: u64)"
  have nth: "c ! k = cur ! k" "v ! k = vir ! k" if "k < 8" for k
    using that by (simp_all add: c_def v_def)
  then have lx: "list_ex (\<lambda>k. cur ! k \<noteq> 0 \<and> vir ! k = 0xff) [0, 1, 2, 3, 4, 5, 6, 7] \<longleftrightarrow>
      list_ex (\<lambda>k. c ! k \<noteq> 0 \<and> v ! k = 0xff) [0, 1, 2, 3, 4, 5, 6, 7]"
    by simp
  define ret' where "ret' = (if hit \<and> ret < 2
      then (if list_ex (\<lambda>k. c ! k \<noteq> 0 \<and> v ! k = 0xff) [0, 1, 2, 3, 4, 5, 6, 7] then 2 else 1) else ret)"
  have nov: "novelty c v = (if hit then (if list_ex (\<lambda>k. c ! k \<noteq> 0 \<and> v ! k = 0xff) [0, 1, 2, 3, 4, 5, 6, 7]
      then 2 else 1) else 0)"
    using step_novelty [OF len] by (simp add: hit_def)
  have retc: "ret = 0 \<or> ret = 1 \<or> ret = 2" using Suc.prems(3)
    by (rule u8_le_2)
  have ret': "ret' = max ret (novelty c v)" "ret' \<le> 2"
    using retc nov by (elim disjE; simp add: ret'_def max_def)+
  have sv: "store_le 8 (if hit then load_le v AND NOT (load_le c) else (load_le v :: u64)) = clear_seen v c"
    using step_virgin [OF len] unfolding hit_def .
  have split: "cur = c @ drop 8 cur" "vir = v @ drop 8 vir"
    by (simp_all add: c_def v_def)
  have "novelty cur vir = max (novelty c v) (novelty (drop 8 cur) (drop 8 vir))"
    using novelty_append [of c v "drop 8 cur" "drop 8 vir"] len split by simp
  moreover have "clear_seen vir cur = clear_seen v c @ clear_seen (drop 8 vir) (drop 8 cur)"
    using split len unfolding clear_seen_def by (metis map_append zip_append)
  moreover have "has_new_bits_loop n (drop 8 cur) (drop 8 vir) ret' =
      (max ret' (novelty (drop 8 cur) (drop 8 vir)), clear_seen (drop 8 vir) (drop 8 cur))"
    using Suc.prems ret' by (intro Suc.IH) simp_all
  moreover have "has_new_bits_loop (Suc n) cur vir ret =
      (let (r, rest) = has_new_bits_loop n (drop 8 cur) (drop 8 vir) ret'
       in (r, clear_seen v c @ rest))"
    by (simp only: has_new_bits_loop.simps Let_def lx c_def [symmetric] v_def [symmetric]
        hit_def [symmetric] ret'_def [symmetric] sv)
  ultimately show ?case
    using ret' by (simp add: max.assoc)
qed


lemma novelty_clear_seen:
  assumes "length cur = length vir"
  shows "novelty cur (clear_seen vir cur) = 0"
proof -
  have z: "cur ! k AND clear_seen vir cur ! k = 0" if "k < length cur" for k
    using that assms
    by (intro bit_eqI) (simp add: clear_seen_def bit_and_iff bit_not_iff)
  have "clear_seen vir cur ! k \<noteq> 0xff" if "k < length cur" "cur ! k \<noteq> 0" for k
  proof
    assume "clear_seen vir cur ! k = 0xff"
    then have "clear_seen vir cur ! k = - 1" by simp
    with z [OF that(1)] that(2) show False by simp
  qed
  with z show ?thesis by (auto simp: novelty_def)
qed

lemma length_clear_seen [simp]: "length (clear_seen vir cur) = min (length vir) (length cur)"
  by (simp add: clear_seen_def)

lemma has_new_bits_unfold:
  assumes "length (trace_bits s) = MAP_SIZE" "length (virgin_map v s) = MAP_SIZE"
  shows "has_new_bits v s =
    (let r = novelty (trace_bits s) (virgin_map v s);
         s1 = set_virgin_map v (clear_seen (virgin_map v s) (trace_bits s)) s
     in (r, if r \<noteq> 0 \<and> v = VIRGIN_BITS then s1\<lparr>bitmap_changed := True\<rparr> else s1))"
proof -
  have "8 * (MAP_SIZE div 8) = MAP_SIZE" by (simp add: MAP_SIZE_def)
  then show ?thesis
    using has_new_bits_loop_spec [of "trace_bits s" "MAP_SIZE div 8" "virgin_map v s" 0] assms
    by (simp add: has_new_bits_def Let_def)
qed

section \<open>Word-at-a-time table lookups\<close>

text \<open>A routine that walks the map eight bytes at a time and treats every byte alike is a
  \<^const>\<open>map\<close> over the bytes; the shortcut for an all-zero word must agree with the table.\<close>

locale chunk_map =
  fixes step :: "u8 list \<Rightarrow> u8 list" and byte :: "u8 \<Rightarrow> u8"
  assumes step_map: "length c = 8 \<Longrightarrow> step c = map byte c"
begin

lemma loop_map: "length mem = 8 * n \<Longrightarrow> word_loop step n mem = map byte mem"
proof (induction n arbitrary: mem)
  case 0
  then show ?case by simp
next
  case (Suc n)
  then have "word_loop step (Suc n) mem = map byte (take 8 mem) @ map byte (drop 8 mem)"
    by (simp add: step_map)
  then show ?case by (metis append_take_drop_id map_append)
qed

lemma loop_map_size: "length mem = MAP_SIZE \<Longrightarrow> word_loop step (MAP_SIZE div 8) mem = map byte mem"
  by (rule loop_map) (simp add: MAP_SIZE_def)

end

lemma length_8_conv:
  assumes "length c = 8"
  obtains c0 c1 c2 c3 c4 c5 c6 c7 where "c = [c0, c1, c2, c3, c4, c5, c6, c7]"
proof -
  have "c = map (\<lambda>k. c ! k) [0 ..< 8]" using assms by (simp add: map_nth flip: assms)
  also have "[0 ..< 8] = [0, 1, 2, 3, 4, 5, 6, 7 :: nat]" by (simp add: upt_rec)
  finally show ?thesis using that by simp
qed

lemma store_le_lookup16:
  "store_le 2 (count_class_lookup16 (load_le [a, b])) = [count_class_lookup8 a, count_class_lookup8 b]"
proof -
  have st: "store_le 2 (load_le [x, y] :: u16) = [x, y]" for x y
    using store_le_load_le [of "[x, y]", where 'a = 16] by (simp add: numeral_2_eq_2)
  have "ucast (load_le [a, b] :: u16) = a" "ucast (drop_bit 8 (load_le [a, b] :: u16)) = b"
    using st [of a b] by (simp_all add: numeral_2_eq_2)
  then have "count_class_lookup16 (load_le [a, b]) = load_le [count_class_lookup8 a, count_class_lookup8 b]"
    by (simp add: count_class_lookup16_def or.commute)
  with st show ?thesis by simp
qed

interpretation simplify: chunk_map simplify_step simplify_lookup
proof
  fix c :: "u8 list"
  assume len: "length c = 8"
  then obtain c0 c1 c2 c3 c4 c5 c6 c7 where c: "c = [c0, c1, c2, c3, c4, c5, c6, c7]"
    by (rule length_8_conv)
  show "simplify_step c = map simplify_lookup c"
  proof (cases "(load_le c :: u64) = 0")
    case True
    then have "\<forall>b \<in> set c. b = 0" using len by (simp add: load_le_eq_0_iff)
    then have "map simplify_lookup c = replicate 8 1"
      by (simp add: c simplify_lookup_def numeral_eq_Suc)
    moreover have "store_le 8 (0x0101010101010101 :: u64) = replicate 8 1"
      by code_simp
    ultimately show ?thesis using True by (simp add: simplify_step_def)
  next
    case False
    then show ?thesis unfolding simplify_step_def by (simp add: c)
  qed
qed

interpretation classify: chunk_map classify_step count_class_lookup8
proof
  fix c :: "u8 list"
  assume len: "length c = 8"
  then obtain c0 c1 c2 c3 c4 c5 c6 c7 where c: "c = [c0, c1, c2, c3, c4, c5, c6, c7]"
    by (rule length_8_conv)
  show "classify_step c = map count_class_lookup8 c"
  proof (cases "(load_le c :: u64) = 0")
    case True
    then have "\<forall>b \<in> set c. b = 0" using len by (simp add: load_le_eq_0_iff)
    then have "map count_class_lookup8 c = c"
      by (simp add: c count_class_lookup8_def)
    with True show ?thesis by (simp add: classify_step_def)
  next
    case False
    have t: "take 2 (drop (2 * 0) c) = [c0, c1]" "take 2 (drop (2 * 1) c) = [c2, c3]"
      "take 2 (drop (2 * 2) c) = [c4, c5]" "take 2 (drop (2 * 3) c) = [c6, c7]"
      by (simp_all add: c numeral_eq_Suc)
    have "classify_step c = concat (map (\<lambda>k. store_le 2 (count_class_lookup16 (load_le (take 2 (drop (2 * k) c)))))
        [0, 1, 2, 3])"
      using False by (simp add: classify_step_def)
    also have "\<dots> = map count_class_lookup8 c"
      by (simp only: list.map concat.simps t store_le_lookup16) (simp add: c)
    finally show ?thesis .
  qed
qed

end
