(* ===== verification/Afl_Queue.thy ===== *)
theory Afl_Queue
  imports Afl_Bitmap
begin

text \<open>
  The queue of test cases of \<^verbatim>\<open>docker/AFL/afl-fuzz.c\<close>: \<open>add_to_queue\<close> with its skip
  pointers, the \<^verbatim>\<open>.state\<close> markers \<open>mark_as_det_done\<close>, \<open>mark_as_variable\<close> and
  \<open>mark_as_redundant\<close>, and the selection of favoured entries, \<open>update_bitmap_score\<close> and
  \<open>cull_queue\<close>. The linked list is the list \<open>queue\<close> in the order of its \<^verbatim>\<open>next\<close>
  pointers; a pointer to an entry is its index. Files are a map from paths to contents;
  \<^const>\<open>None\<close> is a stop of the program (\<^verbatim>\<open>PFATAL\<close> or a null dereference).
\<close>

section \<open>State and operations\<close>

record queue_entry =
  fname :: string
  len :: nat
  cal_failed :: nat
  trim_done :: bool
  was_fuzzed :: bool
  passed_det :: bool
  has_new_cov :: bool
  var_behavior :: bool
  favored :: bool
  fs_redundant :: bool
  bitmap_size :: nat
  exec_cksum :: u32
  exec_us :: u64
  handicap :: nat
  depth :: nat
  trace_mini :: "u8 list option"
  tc_ref :: u32
  next_100 :: "nat option"

record afl_queue = afl_map +
  out_dir :: string
  files :: "string \<rightharpoonup> u8 list"
  time_src :: "nat \<Rightarrow> nat"
  time_pos :: nat
  queue :: "queue_entry list"
  q_prev100 :: nat
  top_rated :: "nat option list"
  queued_paths :: nat
  queued_variable :: nat
  queued_discovered :: nat
  queued_favored :: nat
  queued_with_cov :: nat
  pending_not_fuzzed :: u32
  pending_favored :: u32
  cur_depth :: nat
  max_depth :: nat
  cycles_wo_finds :: nat
  last_path_time :: nat
  score_changed :: bool
  dumb_mode :: bool

definition get_cur_time_us :: "'a afl_queue_scheme \<Rightarrow> nat \<times> 'a afl_queue_scheme" where
  "get_cur_time_us s = (time_src s (time_pos s), s\<lparr>time_pos := time_pos s + 1\<rparr>)"

definition get_cur_time :: "'a afl_queue_scheme \<Rightarrow> nat \<times> 'a afl_queue_scheme" where
  "get_cur_time s = (time_src s (time_pos s) div 1000, s\<lparr>time_pos := time_pos s + 1\<rparr>)"

definition upd_entry :: "nat \<Rightarrow> (queue_entry \<Rightarrow> queue_entry) \<Rightarrow> 'a afl_queue_scheme \<Rightarrow> 'a afl_queue_scheme" where
  "upd_entry q f s = s\<lparr>queue := (queue s)[q := f (queue s ! q)]\<rparr>"

definition create_excl :: "string \<Rightarrow> u8 list \<Rightarrow> 'a afl_queue_scheme \<Rightarrow> 'a afl_queue_scheme option" where
  "create_excl fn c s = (if files s fn = None then Some (s\<lparr>files := (files s)(fn \<mapsto> c)\<rparr>) else None)"

definition unlink :: "string \<Rightarrow> 'a afl_queue_scheme \<Rightarrow> 'a afl_queue_scheme option" where
  "unlink fn s = (if files s fn = None then None else Some (s\<lparr>files := (files s)(fn := None)\<rparr>))"

definition mark_as_det_done :: "nat \<Rightarrow> 'a afl_queue_scheme \<Rightarrow> 'a afl_queue_scheme option" where
  "mark_as_det_done q s = do {
     fn \<leftarrow> after_last_slash (fname (queue s ! q));
     s1 \<leftarrow> create_excl (out_dir s @ ''/queue/.state/deterministic_done/'' @ fn) [] s;
     Some (upd_entry q (\<lambda>e. e\<lparr>passed_det := True\<rparr>) s1) }"

text \<open>\<^verbatim>\<open>symlink\<close> fails exactly when the link name is taken, and then the exclusive
  creation fails as well; a link is a file that holds its destination.\<close>

definition mark_as_variable :: "nat \<Rightarrow> 'a afl_queue_scheme \<Rightarrow> 'a afl_queue_scheme option" where
  "mark_as_variable q s = do {
     fn \<leftarrow> after_last_slash (fname (queue s ! q));
     let ldest = map (\<lambda>c. of_nat (of_char c)) (''../../'' @ fn);
     s1 \<leftarrow> create_excl (out_dir s @ ''/queue/.state/variable_behavior/'' @ fn) ldest s;
     Some (upd_entry q (\<lambda>e. e\<lparr>var_behavior := True\<rparr>) s1) }"

definition redundant_path :: "string \<Rightarrow> string \<Rightarrow> string" where
  "redundant_path dir fn = dir @ ''/queue/.state/redundant_edges/'' @ fn"

definition mark_as_redundant :: "nat \<Rightarrow> bool \<Rightarrow> 'a afl_queue_scheme \<Rightarrow> 'a afl_queue_scheme option" where
  "mark_as_redundant q st s =
     (if st = fs_redundant (queue s ! q) then Some s
      else do {
        let s1 = upd_entry q (\<lambda>e. e\<lparr>fs_redundant := st\<rparr>) s;
        fn \<leftarrow> after_last_slash (fname (queue s ! q));
        (if st then create_excl (redundant_path (out_dir s) fn) [] s1
         else unlink (redundant_path (out_dir s) fn) s1) })"

definition new_entry :: "string \<Rightarrow> nat \<Rightarrow> nat \<Rightarrow> bool \<Rightarrow> queue_entry" where
  "new_entry fn l d pd =
     \<lparr>fname = fn, len = l, cal_failed = 0, trim_done = False, was_fuzzed = False, passed_det = pd,
      has_new_cov = False, var_behavior = False, favored = False, fs_redundant = False,
      bitmap_size = 0, exec_cksum = 0, exec_us = 0, handicap = 0, depth = d,
      trace_mini = None, tc_ref = 0, next_100 = None\<rparr>"

definition add_to_queue :: "string \<Rightarrow> nat \<Rightarrow> bool \<Rightarrow> 'a afl_queue_scheme \<Rightarrow> 'a afl_queue_scheme" where
  "add_to_queue fn l pd s =
     (let q = new_entry fn l (cur_depth s + 1) pd;
          n = length (queue s);
          s1 = s\<lparr>max_depth := (if depth q > max_depth s then depth q else max_depth s)\<rparr>;
          s2 = s1\<lparr>queue := queue s1 @ [q], q_prev100 := (if queue s1 = [] then 0 else q_prev100 s1)\<rparr>;
          s3 = s2\<lparr>queued_paths := queued_paths s2 + 1, pending_not_fuzzed := pending_not_fuzzed s2 + 1,
                  cycles_wo_finds := 0\<rparr>;
          s4 = (if (queued_paths s3 - 1) mod 100 = 0 \<and> queued_paths s3 > 1
                then (upd_entry (q_prev100 s3) (\<lambda>e. e\<lparr>next_100 := Some n\<rparr>) s3)\<lparr>q_prev100 := n\<rparr>
                else s3);
          (t, s5) = get_cur_time s4
      in s5\<lparr>last_path_time := t\<rparr>)"

text \<open>The walk to the entry of a given index that the splicing code does: first along the
  \<^verbatim>\<open>next_100\<close> pointers, then along \<^verbatim>\<open>next\<close>.\<close>

fun seek_100 :: "nat \<Rightarrow> queue_entry list \<Rightarrow> nat \<Rightarrow> nat \<Rightarrow> (nat \<times> nat) option" where
  "seek_100 0 es target tid = None"
| "seek_100 (Suc fuel) es target tid =
     (if tid \<ge> 100
      then (if target < length es
            then (case next_100 (es ! target) of None \<Rightarrow> None | Some t \<Rightarrow> seek_100 fuel es t (tid - 100))
            else None)
      else Some (target, tid))"

definition seek_entry :: "queue_entry list \<Rightarrow> nat \<Rightarrow> nat option" where
  "seek_entry es tid = (case seek_100 (tid + 1) es 0 tid of None \<Rightarrow> None | Some (t, r) \<Rightarrow> Some (t + r))"

definition fav_factor :: "queue_entry \<Rightarrow> u64" where
  "fav_factor e = exec_us e * of_nat (len e)"

definition release_slot :: "nat \<Rightarrow> 'a afl_queue_scheme \<Rightarrow> 'a afl_queue_scheme" where
  "release_slot w s =
     upd_entry w (\<lambda>e. let r = tc_ref e - 1
                      in if r = 0 then e\<lparr>tc_ref := r, trace_mini := None\<rparr> else e\<lparr>tc_ref := r\<rparr>) s"

definition win_slot :: "nat \<Rightarrow> nat \<Rightarrow> 'a afl_queue_scheme \<Rightarrow> 'a afl_queue_scheme" where
  "win_slot q i s =
     (let s1 = s\<lparr>top_rated := (top_rated s)[i := Some q]\<rparr>;
          s2 = upd_entry q (\<lambda>e. e\<lparr>tc_ref := tc_ref e + 1\<rparr>) s1;
          s3 = (if trace_mini (queue s2 ! q) = None
                then upd_entry q (\<lambda>e. e\<lparr>trace_mini :=
                       Some (minimize_bits (replicate (MAP_SIZE div 8) 0) (trace_bits s2))\<rparr>) s2
                else s2)
      in s3\<lparr>score_changed := True\<rparr>)"

definition score_body :: "nat \<Rightarrow> u64 \<Rightarrow> nat \<Rightarrow> 'a afl_queue_scheme \<Rightarrow> 'a afl_queue_scheme" where
  "score_body q ff i s =
     (if trace_bits s ! i \<noteq> 0
      then (case top_rated s ! i of
              Some w \<Rightarrow> (if ff > fav_factor (queue s ! w) then s
                         else win_slot q i (release_slot w s))
            | None \<Rightarrow> win_slot q i s)
      else s)"

definition update_bitmap_score :: "nat \<Rightarrow> 'a afl_queue_scheme \<Rightarrow> 'a afl_queue_scheme" where
  "update_bitmap_score q s = fold (score_body q (fav_factor (queue s ! q))) [0 ..< MAP_SIZE] s"

definition take_winner :: "nat \<Rightarrow> u8 list \<times> 'a afl_queue_scheme \<Rightarrow> (u8 list \<times> 'a afl_queue_scheme) option" where
  "take_winner i = (\<lambda>(temp_v, s).
     case top_rated s ! i of
       None \<Rightarrow> Some (temp_v, s)
     | Some w \<Rightarrow>
         (if bit (temp_v ! (i div 8)) (i mod 8)
          then (case trace_mini (queue s ! w) of
                  None \<Rightarrow> None
                | Some m \<Rightarrow>
                    (let temp_v' = map2 (\<lambda>t b. if b \<noteq> 0 then t AND NOT b else t) temp_v m;
                         s1 = upd_entry w (\<lambda>e. e\<lparr>favored := True\<rparr>) s;
                         s2 = s1\<lparr>queued_favored := queued_favored s1 + 1\<rparr>
                     in Some (temp_v', if \<not> was_fuzzed (queue s2 ! w)
                                       then s2\<lparr>pending_favored := pending_favored s2 + 1\<rparr> else s2)))
          else Some (temp_v, s)))"

definition cull_queue :: "'a afl_queue_scheme \<Rightarrow> 'a afl_queue_scheme option" where
  "cull_queue s =
     (if dumb_mode s \<or> \<not> score_changed s then Some s
      else do {
        let s1 = s\<lparr>score_changed := False, queued_favored := 0, pending_favored := 0,
                   queue := map (\<lambda>e. e\<lparr>favored := False\<rparr>) (queue s)\<rparr>;
        (temp_v, s2) \<leftarrow> foldM take_winner [0 ..< MAP_SIZE] (replicate (MAP_SIZE div 8) 255, s1);
        foldM (\<lambda>q t. mark_as_redundant q (\<not> favored (queue t ! q)) t) [0 ..< length (queue s2)] s2 })"


section \<open>Compacted traces\<close>

definition has_bit :: "u8 list \<Rightarrow> nat \<Rightarrow> bool" where
  "has_bit m i \<longleftrightarrow> bit (m ! (i div 8)) (i mod 8)"

lemma minimize_bits_loop_spec:
  assumes "i + length src \<le> 8 * length dst"
  shows "length (minimize_bits_loop dst src i) = length dst \<and>
    (\<forall>k < 8 * length dst. has_bit (minimize_bits_loop dst src i) k \<longleftrightarrow>
       has_bit dst k \<or> i \<le> k \<and> k < i + length src \<and> src ! (k - i) \<noteq> 0)"
  using assms
proof (induction dst src i rule: minimize_bits_loop.induct)
  case (1 dst i)
  then show ?case by auto
next
  case (2 dst b src i)
  define dst' where "dst' = (if b \<noteq> 0 then dst[i div 8 := dst ! (i div 8) OR push_bit (i mod 8) 1] else dst)"
  have i: "i div 8 < length dst" using "2.prems" by (simp add: less_mult_imp_div_less mult.commute)
  have h: "has_bit dst' k \<longleftrightarrow> has_bit dst k \<or> k = i \<and> b \<noteq> 0" for k
  proof (cases "k div 8 = i div 8")
    case True
    then have "k mod 8 = i mod 8 \<longleftrightarrow> k = i" by (metis div_mult_mod_eq)
    with True i show ?thesis
      by (auto simp: has_bit_def dst'_def bit_or_iff bit_exp_iff possible_bit_def)
  next
    case False
    then show ?thesis by (auto simp: has_bit_def dst'_def)
  qed
  have "length dst' = length dst" by (simp add: dst'_def)
  with "2.IH" "2.prems" have "length (minimize_bits_loop dst' src (Suc i)) = length dst \<and>
    (\<forall>k < 8 * length dst. has_bit (minimize_bits_loop dst' src (Suc i)) k \<longleftrightarrow>
       has_bit dst' k \<or> Suc i \<le> k \<and> k < Suc i + length src \<and> src ! (k - Suc i) \<noteq> 0)"
    by (simp add: dst'_def)
  moreover have "Suc i \<le> k \<and> k < Suc i + length src \<and> src ! (k - Suc i) \<noteq> 0 \<or> k = i \<and> b \<noteq> 0 \<longleftrightarrow>
      i \<le> k \<and> k < i + length (b # src) \<and> (b # src) ! (k - i) \<noteq> 0" for k
    by (cases "k = i") (auto simp: nth_Cons')
  ultimately show ?case using h by (simp add: dst'_def [symmetric]) blast
qed

abbreviation compact :: "u8 list \<Rightarrow> u8 list" where
  "compact tr \<equiv> minimize_bits (replicate (MAP_SIZE div 8) 0) tr"

lemma compact_spec:
  assumes "length tr = MAP_SIZE"
  shows "length (compact tr) = MAP_SIZE div 8"
    and "i < MAP_SIZE \<Longrightarrow> has_bit (compact tr) i \<longleftrightarrow> tr ! i \<noteq> 0"
proof -
  have m: "8 * (MAP_SIZE div 8) = MAP_SIZE" by (simp add: MAP_SIZE_def)
  have z: "\<not> has_bit (replicate (MAP_SIZE div 8) 0) k" if "k < MAP_SIZE" for k
    using that m by (simp add: has_bit_def)
  from minimize_bits_loop_spec [of 0 tr "replicate (MAP_SIZE div 8) 0"] assms m z
  show "length (compact tr) = MAP_SIZE div 8"
    and "i < MAP_SIZE \<Longrightarrow> has_bit (compact tr) i \<longleftrightarrow> tr ! i \<noteq> 0"
    by (simp_all add: minimize_bits_def)
qed

section \<open>Skip pointers\<close>

definition skip_inv :: "'a afl_queue_scheme \<Rightarrow> bool" where
  "skip_inv s \<longleftrightarrow>
     queued_paths s = length (queue s) \<and>
     (queue s \<noteq> [] \<longrightarrow> q_prev100 s = 100 * ((length (queue s) - 1) div 100)) \<and>
     (\<forall>k < length (queue s). k mod 100 = 0 \<longrightarrow>
        next_100 (queue s ! k) = (if k + 100 < length (queue s) then Some (k + 100) else None))"

lemma add_to_queue_frame [simp]:
  "trace_bits (add_to_queue fn l pd s) = trace_bits s"
  "top_rated (add_to_queue fn l pd s) = top_rated s"
  "length (queue (add_to_queue fn l pd s)) = Suc (length (queue s))"
  "queued_paths (add_to_queue fn l pd s) = Suc (queued_paths s)"
  by (simp_all add: add_to_queue_def Let_def get_cur_time_def upd_entry_def)

lemma queue_add_to_queue:
  "queue (add_to_queue fn l pd s) =
     (let qs = queue s @ [new_entry fn l (cur_depth s + 1) pd];
          p = (if queue s = [] then 0 else q_prev100 s)
      in if queued_paths s mod 100 = 0 \<and> queued_paths s > 0
         then qs[p := (qs ! p)\<lparr>next_100 := Some (length (queue s))\<rparr>] else qs)"
  by (simp add: add_to_queue_def Let_def get_cur_time_def upd_entry_def)

lemma q_prev100_add_to_queue:
  "q_prev100 (add_to_queue fn l pd s) =
     (if queued_paths s mod 100 = 0 \<and> queued_paths s > 0 then length (queue s)
      else if queue s = [] then 0 else q_prev100 s)"
  by (simp add: add_to_queue_def Let_def get_cur_time_def upd_entry_def)

lemma next_100_new_entry [simp]: "next_100 (new_entry fn l d pd) = None"
  by (simp add: new_entry_def)

lemma add_to_queue_skip_inv:
  assumes "skip_inv s"
  shows "skip_inv (add_to_queue fn l pd s)"
proof -
  let ?n = "length (queue s)" and ?s = "add_to_queue fn l pd s"
  let ?e = "new_entry fn l (cur_depth s + 1) pd"
  have qp: "queued_paths s = ?n" and
    nx: "\<And>k. k < ?n \<Longrightarrow> k mod 100 = 0 \<Longrightarrow>
      next_100 (queue s ! k) = (if k + 100 < ?n then Some (k + 100) else None)" and
    pp: "?n > 0 \<Longrightarrow> q_prev100 s = 100 * ((?n - 1) div 100)"
    using assms by (auto simp: skip_inv_def)
  show ?thesis
  proof (cases "?n mod 100 = 0 \<and> ?n > 0")
    case False
    then have q: "queue ?s = queue s @ [?e]" "q_prev100 ?s = (if ?n = 0 then 0 else q_prev100 s)"
      by (auto simp: queue_add_to_queue q_prev100_add_to_queue qp Let_def)
    have "next_100 (queue ?s ! k) = (if k + 100 < Suc ?n then Some (k + 100) else None)"
      if "k < Suc ?n" "k mod 100 = 0" for k
    proof (cases "k < ?n")
      case True
      have "k + 100 \<noteq> ?n" using that(2) False True by presburger
      with nx [OF True that(2)] True show ?thesis by (auto simp: q nth_append)
    next
      case False
      with that show ?thesis by (simp add: q nth_append less_Suc_eq)
    qed
    moreover have "q_prev100 ?s = 100 * (?n div 100)"
    proof (cases "?n = 0")
      case True
      then show ?thesis by (simp add: q)
    next
      case n: False
      with False have "(?n - 1) div 100 = ?n div 100"
        using div_Suc [of "?n - 1" 100] by simp
      with n pp show ?thesis by (simp add: q)
    qed
    ultimately show ?thesis by (simp add: skip_inv_def qp)
  next
    case True
    define p where "p = 100 * ((?n - 1) div 100)"
    have p: "p < ?n" "p + 100 = ?n" "p mod 100 = 0" using True div_mult_mod_eq [of ?n 100] div_Suc [of "?n - 1" 100]
      by (auto simp: p_def)
    have pq: "q_prev100 s = p" using pp True by (simp add: p_def)
    have q: "queue ?s = (queue s @ [?e])[p := (queue s ! p)\<lparr>next_100 := Some ?n\<rparr>]" "q_prev100 ?s = ?n"
      using True p(1) by (auto simp: queue_add_to_queue q_prev100_add_to_queue qp Let_def pq nth_append)
    have "next_100 (queue ?s ! k) = (if k + 100 < Suc ?n then Some (k + 100) else None)"
      if "k < Suc ?n" "k mod 100 = 0" for k
    proof (cases "k < ?n")
      case kn: True
      show ?thesis
      proof (cases "k = p")
        case True
        with p show ?thesis by (simp add: q nth_append)
      next
        case False
        have "k div 100 \<noteq> p div 100" using False that(2) p(3) by (metis div_mult_mod_eq)
        moreover have "k < p + 100" using kn p(2) by simp
        moreover have "k mod 100 = 0" "p mod 100 = 0" using that(2) p(3) .
        ultimately have "k + 100 < ?n" using p(2) False by auto
        with nx [OF kn that(2)] False kn show ?thesis by (simp add: q nth_append)
      qed
    next
      case False
      with that p show ?thesis by (simp add: q nth_append less_Suc_eq)
    qed
    with True show ?thesis by (auto simp: skip_inv_def qp q)
  qed
qed

lemma seek_100_skip:
  assumes "skip_inv s" "t mod 100 = 0" "t + tid < length (queue s)" "tid div 100 < fuel"
  shows "seek_100 fuel (queue s) t tid = Some (t + 100 * (tid div 100), tid mod 100)"
  using assms(2-)
proof (induction fuel arbitrary: t tid)
  case 0
  then show ?case by simp
next
  case (Suc fuel)
  show ?case
  proof (cases "tid \<ge> 100")
    case True
    with Suc.prems have "next_100 (queue s ! t) = Some (t + 100)"
      using assms(1) unfolding skip_inv_def by auto
    moreover have "seek_100 fuel (queue s) (t + 100) (tid - 100) =
        Some (t + 100 + 100 * ((tid - 100) div 100), (tid - 100) mod 100)"
      using Suc.prems True by (intro Suc.IH) (auto simp: le_div_geq)
    ultimately show ?thesis using Suc.prems True by (simp add: le_div_geq le_mod_geq)
  next
    case False
    then show ?thesis by simp
  qed
qed

lemma seek_entry_index:
  assumes "skip_inv s" "tid < length (queue s)"
  shows "seek_entry (queue s) tid = Some tid"
  using seek_100_skip [OF assms(1), of 0 tid "tid + 1"] assms(2)
  by (simp add: seek_entry_def le_imp_less_Suc)


section \<open>Ratings\<close>

definition slots :: "'a afl_queue_scheme \<Rightarrow> nat \<Rightarrow> nat set" where
  "slots s e = {i. i < MAP_SIZE \<and> top_rated s ! i = Some e}"

text \<open>What the ratings keep: a winner is an entry of the queue, its reference count is the number of the
  indices it holds, and it has a compacted trace exactly when it holds one. With \<open>cov\<close> the compacted trace
  also has the bits of the indices held, which takes targets whose trace is the same in every run.\<close>

definition entry_ok :: "bool \<Rightarrow> nat set \<Rightarrow> queue_entry \<Rightarrow> bool" where
  "entry_ok cov S e \<longleftrightarrow> unat (tc_ref e) = card S \<and>
     (case trace_mini e of
        None \<Rightarrow> S = {}
      | Some m \<Rightarrow> S \<noteq> {} \<and> length m = MAP_SIZE div 8 \<and> (cov \<longrightarrow> (\<forall>i \<in> S. has_bit m i)))"

definition rating_inv_for :: "bool \<Rightarrow> 'a afl_queue_scheme \<Rightarrow> bool" where
  "rating_inv_for cov s \<longleftrightarrow>
     length (trace_bits s) = MAP_SIZE \<and> length (top_rated s) = MAP_SIZE \<and>
     (\<forall>i < MAP_SIZE. \<forall>e. top_rated s ! i = Some e \<longrightarrow> e < length (queue s)) \<and>
     (\<forall>e < length (queue s). entry_ok cov (slots s e) (queue s ! e))"

abbreviation rating_inv :: "'a afl_queue_scheme \<Rightarrow> bool" where "rating_inv \<equiv> rating_inv_for True"
abbreviation refs_inv :: "'a afl_queue_scheme \<Rightarrow> bool" where "refs_inv \<equiv> rating_inv_for False"

lemma rating_refs: "rating_inv s \<Longrightarrow> refs_inv s"
  by (auto simp: rating_inv_for_def entry_ok_def split: option.splits)

text \<open>An entry whose compacted trace is kept from an earlier run covers the current trace.\<close>

definition mini_covers :: "nat \<Rightarrow> 'a afl_queue_scheme \<Rightarrow> bool" where
  "mini_covers q s \<longleftrightarrow>
     (\<forall>m. trace_mini (queue s ! q) = Some m \<longrightarrow>
        (\<forall>i < MAP_SIZE. trace_bits s ! i \<noteq> 0 \<longrightarrow> has_bit m i))"

lemma finite_slots [simp]: "finite (slots s e)"
  by (simp add: slots_def)

lemma card_slots_le: "card (slots s e) \<le> MAP_SIZE"
proof -
  have "slots s e \<subseteq> {..< MAP_SIZE}" by (auto simp: slots_def)
  then show ?thesis by (metis card_lessThan card_mono finite_lessThan)
qed

lemma unat_plus1: "unat x < MAP_SIZE \<Longrightarrow> unat (x + 1) = unat x + 1" for x :: u32
  by (subst unat_add_lem [THEN iffD1]) (simp_all add: MAP_SIZE_def)

lemma unat_minus1: "unat x \<noteq> 0 \<Longrightarrow> unat (x - 1) = unat x - 1" for x :: u32
  by (subst unat_sub) (simp_all add: word_le_nat_alt)

definition lose_ref :: "queue_entry \<Rightarrow> queue_entry" where
  "lose_ref e = (let r = tc_ref e - 1
                 in if r = 0 then e\<lparr>tc_ref := r, trace_mini := None\<rparr> else e\<lparr>tc_ref := r\<rparr>)"

definition gain_ref :: "u8 list \<Rightarrow> queue_entry \<Rightarrow> queue_entry" where
  "gain_ref tr e = (let e1 = e\<lparr>tc_ref := tc_ref e + 1\<rparr>
                    in if trace_mini e = None then e1\<lparr>trace_mini := Some (compact tr)\<rparr> else e1)"

lemma release_slot_alt: "release_slot w s = upd_entry w lose_ref s"
  unfolding release_slot_def lose_ref_def [abs_def] ..

lemma win_slot_alt:
  "q < length (queue s) \<Longrightarrow>
   win_slot q i s = s\<lparr>top_rated := (top_rated s)[i := Some q],
     queue := (queue s)[q := gain_ref (trace_bits s) (queue s ! q)], score_changed := True\<rparr>"
  by (simp add: win_slot_def upd_entry_def gain_ref_def Let_def)

lemma entry_ok_lose:
  assumes "entry_ok cov S e" "i \<in> S" "finite S"
  shows "entry_ok cov (S - {i}) (lose_ref e)"
proof -
  have c: "unat (tc_ref e) = card S" "card S \<noteq> 0" using assms by (auto simp: entry_ok_def)
  have u: "unat (tc_ref e - 1) = card (S - {i})"
    using c unat_minus1 [of "tc_ref e"] assms by simp
  have "card (S - {i}) = 0 \<longleftrightarrow> S - {i} = {}" using assms(3) by simp
  moreover have "tc_ref e - 1 = 0 \<longleftrightarrow> card (S - {i}) = 0"
    using u by (metis unat_eq_zero)
  ultimately show ?thesis
    using assms u by (auto simp: entry_ok_def lose_ref_def Let_def split: option.splits)
qed

lemma entry_ok_gain:
  assumes "entry_ok cov S e" "finite S" "i \<notin> S" "card S < MAP_SIZE" "length tr = MAP_SIZE" "i < MAP_SIZE"
    and "tr ! i \<noteq> 0" "\<And>m. cov \<Longrightarrow> trace_mini e = Some m \<Longrightarrow> has_bit m i"
  shows "entry_ok cov (insert i S) (gain_ref tr e)"
proof -
  have u: "unat (tc_ref e + 1) = card (insert i S)"
    using assms unat_plus1 [of "tc_ref e"] by (simp add: entry_ok_def)
  show ?thesis
    using assms u compact_spec [OF assms(5)]
    by (auto simp: entry_ok_def gain_ref_def Let_def split: option.splits)
qed

text \<open>One slot of the map.\<close>

lemma score_body_step:
  assumes inv: "rating_inv_for cov s" and q: "q < length (queue s)" and cov: "cov \<longrightarrow> mini_covers q s"
    and i: "i < MAP_SIZE"
  shows "rating_inv_for cov (score_body q ff i s) \<and> (cov \<longrightarrow> mini_covers q (score_body q ff i s)) \<and>
    length (queue (score_body q ff i s)) = length (queue s) \<and>
    trace_bits (score_body q ff i s) = trace_bits s"
proof (cases "trace_bits s ! i = 0 \<or> (\<exists>w. top_rated s ! i = Some w \<and> ff > fav_factor (queue s ! w))")
  case True
  then have "score_body q ff i s = s" by (auto simp: score_body_def)
  with inv cov show ?thesis by simp
next
  case False
  then have tb: "trace_bits s ! i \<noteq> 0" by simp
  have lt: "length (top_rated s) = MAP_SIZE" "length (trace_bits s) = MAP_SIZE"
    using inv by (simp_all add: rating_inv_for_def)
  define s0 where "s0 = (case top_rated s ! i of None \<Rightarrow> s | Some w \<Rightarrow> release_slot w s)"
  define S0 where "S0 e = slots s e - {i}" for e
  have body: "score_body q ff i s = win_slot q i s0"
    using False by (auto simp: score_body_def s0_def split: option.splits)
  have s0: "length (queue s0) = length (queue s)" "top_rated s0 = top_rated s" "trace_bits s0 = trace_bits s"
    by (auto simp: s0_def release_slot_alt upd_entry_def split: option.splits)
  have ok0: "entry_ok cov (S0 e) (queue s0 ! e)" if "e < length (queue s)" for e
  proof (cases "top_rated s ! i = Some e")
    case True
    then have "i \<in> slots s e" using i by (simp add: slots_def)
    with True that inv show ?thesis
      by (simp add: s0_def S0_def release_slot_alt upd_entry_def rating_inv_for_def entry_ok_lose)
  next
    case False
    then have "S0 e = slots s e" by (auto simp: S0_def slots_def)
    moreover have "queue s0 ! e = queue s ! e"
      using False by (auto simp: s0_def release_slot_alt upd_entry_def nth_upd split: option.splits)
    ultimately show ?thesis using that inv by (simp add: rating_inv_for_def)
  qed
  have m0: "has_bit m k" if cov "trace_mini (queue s0 ! q) = Some m" "k < MAP_SIZE" "trace_bits s ! k \<noteq> 0" for m k
  proof -
    have "trace_mini (queue s ! q) = Some m"
      using that(2) q by (auto simp: s0_def release_slot_alt upd_entry_def nth_upd lose_ref_def Let_def
          split: option.splits if_splits)
    with cov that show ?thesis by (simp add: mini_covers_def)
  qed
  have "S0 q \<subseteq> {..< MAP_SIZE} - {i}" by (auto simp: S0_def slots_def)
  then have "card (S0 q) \<le> card ({..< MAP_SIZE} - {i})"
    by (intro card_mono) auto
  also have "\<dots> < MAP_SIZE" using i by simp
  finally have cq: "card (S0 q) < MAP_SIZE" .
  let ?s = "win_slot q i s0"
  have w: "?s = s0\<lparr>top_rated := (top_rated s)[i := Some q],
      queue := (queue s0)[q := gain_ref (trace_bits s) (queue s0 ! q)], score_changed := True\<rparr>"
    using q s0 by (simp add: win_slot_alt)
  have okq: "entry_ok cov (insert i (S0 q)) (gain_ref (trace_bits s) (queue s0 ! q))"
    using ok0 [OF q] cq lt i tb m0 by (intro entry_ok_gain) (simp_all add: S0_def)
  have sl: "slots ?s e = (if e = q then insert i (S0 q) else S0 e)" for e
    using i lt by (auto simp: slots_def S0_def w nth_upd)
  have "entry_ok cov (slots ?s e) (queue ?s ! e)" if "e < length (queue ?s)" for e
  proof -
    have "e < length (queue s)" using that s0 by (simp add: w)
    then show ?thesis unfolding sl using ok0 okq s0 by (auto simp: w nth_upd)
  qed
  moreover have "e < length (queue ?s)" if "k < MAP_SIZE" "top_rated ?s ! k = Some e" for k e
    using that q lt inv s0 by (auto simp: w nth_upd rating_inv_for_def split: if_splits)
  ultimately have "rating_inv_for cov ?s" using lt s0 by (simp add: rating_inv_for_def w)
  moreover have "cov \<longrightarrow> mini_covers q ?s"
    using m0 compact_spec [OF lt(2)] q s0
    by (auto simp: mini_covers_def w gain_ref_def Let_def split: if_splits)
  ultimately show ?thesis using body s0 by (simp add: w)
qed

lemma update_bitmap_score_inv:
  assumes "rating_inv_for cov s" "q < length (queue s)" "cov \<longrightarrow> mini_covers q s"
  shows "rating_inv_for cov (update_bitmap_score q s)"
proof -
  have "rating_inv_for cov (fold (score_body q ff) is s)" if "set is \<subseteq> {..< MAP_SIZE}" for ff "is"
    using assms that
  proof (induction "is" arbitrary: s)
    case Nil
    then show ?case by simp
  next
    case (Cons i "is")
    with score_body_step [of cov s q i ff] show ?case by auto
  qed
  then show ?thesis by (simp add: update_bitmap_score_def subset_iff)
qed

section \<open>Favoured entries\<close>

text \<open>What the first loop of \<open>cull_queue\<close> keeps: a bit already removed from \<^verbatim>\<open>temp_v\<close> is
  a bit of a favoured entry, no slot below the counter is still open, the counters count
  the favoured entries, and an entry whose bits are gone is never taken twice.\<close>

definition favs :: "'a afl_queue_scheme \<Rightarrow> nat set" where
  "favs s = {e. e < length (queue s) \<and> favored (queue s ! e)}"

definition cull_inv :: "nat \<Rightarrow> u8 list \<times> 'a afl_queue_scheme \<Rightarrow> bool" where
  "cull_inv n = (\<lambda>(tv, s). rating_inv s \<and> length tv = MAP_SIZE div 8 \<and>
     (\<forall>i < MAP_SIZE. \<not> has_bit tv i \<longrightarrow>
        (\<exists>e \<in> favs s. \<exists>m. trace_mini (queue s ! e) = Some m \<and> has_bit m i)) \<and>
     (\<forall>e \<in> favs s. slots s e \<noteq> {} \<and> (\<forall>i \<in> slots s e. \<not> has_bit tv i)) \<and>
     (\<forall>i < n. top_rated s ! i \<noteq> None \<longrightarrow> \<not> has_bit tv i) \<and>
     queued_favored s = card (favs s) \<and>
     unat (pending_favored s) = card {e \<in> favs s. \<not> was_fuzzed (queue s ! e)})"

lemma finite_favs [simp]: "finite (favs s)"
  by (simp add: favs_def)


lemma card_rated_le:
  assumes "\<And>e. e \<in> A \<Longrightarrow> slots s e \<noteq> {}"
  shows "card A \<le> MAP_SIZE"
proof -
  have "A \<subseteq> (\<lambda>i. the (top_rated s ! i)) ` {..< MAP_SIZE}"
    using assms by (force simp: slots_def)
  then have "card A \<le> card {..< MAP_SIZE}"
    by (intro surj_card_le) auto
  then show ?thesis by simp
qed

lemma has_bit_remove:
  assumes "length tv = MAP_SIZE div 8" "length m = MAP_SIZE div 8" "i < MAP_SIZE"
  shows "has_bit (map2 (\<lambda>t b. if b \<noteq> 0 then t AND NOT b else t) tv m) i \<longleftrightarrow> has_bit tv i \<and> \<not> has_bit m i"
proof -
  have "i div 8 < MAP_SIZE div 8" using assms(3) by (simp add: MAP_SIZE_def)
  then show ?thesis using assms(1,2)
    by (auto simp: has_bit_def bit_and_iff bit_not_iff)
qed

lemma rating_inv_flag:
  assumes "rating_inv_for cov s" "length (queue t) = length (queue s)" "top_rated t = top_rated s"
    "trace_bits t = trace_bits s"
    "\<And>e. e < length (queue s) \<Longrightarrow> tc_ref (queue t ! e) = tc_ref (queue s ! e) \<and>
        trace_mini (queue t ! e) = trace_mini (queue s ! e)"
  shows "rating_inv_for cov t"
  using assms by (simp add: rating_inv_for_def slots_def entry_ok_def)

lemma rated_mini:
  assumes "rating_inv_for cov s" "i < MAP_SIZE" "top_rated s ! i = Some w"
  obtains m where "w < length (queue s)" "i \<in> slots s w" "trace_mini (queue s ! w) = Some m"
    "length m = MAP_SIZE div 8" "cov \<longrightarrow> (\<forall>k \<in> slots s w. has_bit m k)"
proof -
  have w: "w < length (queue s)" and i: "i \<in> slots s w"
    using assms by (auto simp: rating_inv_for_def slots_def)
  then have "entry_ok cov (slots s w) (queue s ! w)" using assms(1) by (simp add: rating_inv_for_def)
  with i w that show ?thesis by (auto simp: entry_ok_def split: option.splits)
qed

lemma take_winner_step:
  assumes inv: "cull_inv i b" and i: "i < MAP_SIZE"
  shows "\<exists>b'. take_winner i b = Some b' \<and> cull_inv (Suc i) b'"
proof -
  obtain tv s where b: "b = (tv, s)" by (cases b)
  have ri: "rating_inv s" and ltv: "length tv = MAP_SIZE div 8"
    and cov: "\<And>k. k < MAP_SIZE \<Longrightarrow> \<not> has_bit tv k \<Longrightarrow>
        \<exists>e \<in> favs s. \<exists>m. trace_mini (queue s ! e) = Some m \<and> has_bit m k"
    and fv: "\<And>e. e \<in> favs s \<Longrightarrow> slots s e \<noteq> {} \<and> (\<forall>k \<in> slots s e. \<not> has_bit tv k)"
    and lo: "\<And>k. k < i \<Longrightarrow> top_rated s ! k \<noteq> None \<Longrightarrow> \<not> has_bit tv k"
    and qf: "queued_favored s = card (favs s)"
    and pf: "unat (pending_favored s) = card {e \<in> favs s. \<not> was_fuzzed (queue s ! e)}"
    using inv by (simp_all add: b cull_inv_def)
  show ?thesis
  proof (cases "\<exists>w. top_rated s ! i = Some w \<and> has_bit tv i")
    case False
    then have "take_winner i b = Some b"
      by (auto simp: b take_winner_def has_bit_def split: option.splits)
    moreover have "cull_inv (Suc i) b"
      using inv False by (auto simp: b cull_inv_def less_Suc_eq)
    ultimately show ?thesis by blast
  next
    case True
    then obtain w where w: "top_rated s ! i = Some w" "has_bit tv i" by blast
    obtain m where wl: "w < length (queue s)" and iw: "i \<in> slots s w" and m: "trace_mini (queue s ! w) = Some m"
      "length m = MAP_SIZE div 8" "\<forall>k \<in> slots s w. has_bit m k"
      by (rule rated_mini [OF ri i w(1)]) simp
    define tv' where "tv' = map2 (\<lambda>t b. if b \<noteq> 0 then t AND NOT b else t) tv m"
    have tv': "length tv' = MAP_SIZE div 8"
      "\<And>k. k < MAP_SIZE \<Longrightarrow> has_bit tv' k \<longleftrightarrow> has_bit tv k \<and> \<not> has_bit m k"
      using ltv m(2) has_bit_remove by (simp_all add: tv'_def)
    define t where "t = s\<lparr>queue := (queue s)[w := (queue s ! w)\<lparr>favored := True\<rparr>],
      queued_favored := queued_favored s + 1,
      pending_favored := (if was_fuzzed (queue s ! w) then pending_favored s else pending_favored s + 1)\<rparr>"
    have tw: "take_winner i b = Some (tv', t)"
      using w m(1) wl by (simp add: b take_winner_def has_bit_def tv'_def t_def upd_entry_def Let_def)
    have wn: "w \<notin> favs s" using fv iw w(2) by blast
    have fav: "favs t = insert w (favs s)"
      using wl by (auto simp: favs_def t_def nth_upd)
    have sl: "slots t = slots s" by (simp add: slots_def t_def fun_eq_iff)
    have mi: "trace_mini (queue t ! e) = trace_mini (queue s ! e)" for e
      by (cases "e < length (queue s)") (auto simp: t_def nth_upd)
    have wf: "was_fuzzed (queue t ! e) = was_fuzzed (queue s ! e)" for e
      by (cases "e < length (queue s)") (auto simp: t_def nth_upd)
    have slb: "k < MAP_SIZE" if "k \<in> slots s e" for k e using that by (simp add: slots_def)
    have "card (insert w (favs s)) \<le> MAP_SIZE"
      using fv iw by (intro card_rated_le [of _ s]) auto
    then have cf: "card (favs s) < MAP_SIZE" using wn by simp
    have "card {e \<in> favs s. \<not> was_fuzzed (queue s ! e)} \<le> card (favs s)"
      by (intro card_mono) auto
    then have pb: "unat (pending_favored s) < MAP_SIZE" using pf cf by simp
    have pend: "{e \<in> favs t. \<not> was_fuzzed (queue t ! e)} =
        (if was_fuzzed (queue s ! w) then {e \<in> favs s. \<not> was_fuzzed (queue s ! e)}
         else insert w {e \<in> favs s. \<not> was_fuzzed (queue s ! e)})"
      unfolding fav wf by auto
    have "rating_inv t"
      by (rule rating_inv_flag [OF ri]) (auto simp: t_def nth_upd)
    moreover have "\<exists>e \<in> favs t. \<exists>m. trace_mini (queue t ! e) = Some m \<and> has_bit m k"
      if "k < MAP_SIZE" "\<not> has_bit tv' k" for k
      using that tv'(2) cov m(1) unfolding fav mi by (metis insertCI)
    moreover have "slots t e \<noteq> {} \<and> (\<forall>k \<in> slots t e. \<not> has_bit tv' k)" if "e \<in> favs t" for e
      using that fv iw m(3) slb unfolding fav sl by (metis empty_iff insertE tv'(2))
    moreover have "\<not> has_bit tv' k" if "k < Suc i" "top_rated t ! k \<noteq> None" for k
      using that lo i m(3) iw tv'(2) by (auto simp: t_def less_Suc_eq)
    moreover have "queued_favored t = card (favs t)"
      using qf wn by (simp add: fav) (simp add: t_def)
    moreover have "unat (pending_favored t) = card {e \<in> favs t. \<not> was_fuzzed (queue t ! e)}"
      using pf wn pb unfolding pend by (simp add: t_def unat_plus1)
    ultimately have "cull_inv (Suc i) (tv', t)"
      using tv'(1) by (simp add: cull_inv_def)
    with tw show ?thesis by blast
  qed
qed

text \<open>The redundancy markers on disk agree with the flags of the entries.\<close>

definition marker :: "'a afl_queue_scheme \<Rightarrow> nat \<Rightarrow> string" where
  "marker s q = redundant_path (out_dir s) (the (after_last_slash (fname (queue s ! q))))"

definition marker_inv :: "'a afl_queue_scheme \<Rightarrow> bool" where
  "marker_inv s \<longleftrightarrow>
     (\<forall>q < length (queue s). CHR ''/'' \<in> set (fname (queue s ! q)) \<and>
        (files s (marker s q) \<noteq> None \<longleftrightarrow> fs_redundant (queue s ! q))) \<and>
     inj_on (marker s) {..< length (queue s)}"

lemma mark_as_redundant_step:
  assumes inv: "marker_inv s" and q: "q < length (queue s)"
  shows "\<exists>t. mark_as_redundant q st s = Some t \<and> marker_inv t \<and>
     t = s\<lparr>queue := (queue s)[q := (queue s ! q)\<lparr>fs_redundant := st\<rparr>], files := files t\<rparr>"
proof -
  define t where "t = s\<lparr>queue := (queue s)[q := (queue s ! q)\<lparr>fs_redundant := st\<rparr>],
    files := (if st = fs_redundant (queue s ! q) then files s
              else if st then (files s)(marker s q \<mapsto> []) else (files s)(marker s q := None))\<rparr>"
  obtain f where f: "after_last_slash (fname (queue s ! q)) = Some f"
    using inv q by (auto simp: marker_inv_def after_last_slash_def)
  then have mf: "marker s q = redundant_path (out_dir s) f" by (simp add: marker_def)
  have mk: "marker t = marker s"
    by (rule ext) (auto simp: marker_def t_def nth_upd )
  have fn: "fname (queue t ! e) = fname (queue s ! e)" for e
    by (auto simp: t_def nth_upd)
  have same: "mark_as_redundant q st s = Some t"
  proof (cases "st = fs_redundant (queue s ! q)")
    case True
    then have "(queue s)[q := (queue s ! q)\<lparr>fs_redundant := st\<rparr>] = queue s" by simp
    with True show ?thesis by (simp add: mark_as_redundant_def t_def)
  next
    case False
    have "files s (marker s q) \<noteq> None \<longleftrightarrow> fs_redundant (queue s ! q)"
      using inv q by (simp add: marker_inv_def)
    with False f show ?thesis
      by (auto simp: mark_as_redundant_def t_def create_excl_def unlink_def upd_entry_def mf Let_def)
  qed
  have "marker s e \<noteq> marker s q" if "e < length (queue s)" "e \<noteq> q" for e
    using inv that q by (auto simp: marker_inv_def inj_on_def)
  then have "files t (marker t e) \<noteq> None \<longleftrightarrow> fs_redundant (queue t ! e)" if "e < length (queue s)" for e
    using that inv q unfolding mk by (auto simp: marker_inv_def t_def nth_upd)
  then have "marker_inv t"
    using inv fn by (simp add: marker_inv_def mk) (simp add: t_def)
  moreover have "t = s\<lparr>queue := (queue s)[q := (queue s ! q)\<lparr>fs_redundant := st\<rparr>], files := files t\<rparr>"
    by (simp add: t_def)
  ultimately show ?thesis using same by blast
qed


definition same_marks :: "'a afl_queue_scheme \<Rightarrow> 'a afl_queue_scheme \<Rightarrow> bool" where
  "same_marks s t \<longleftrightarrow> files t = files s \<and> out_dir t = out_dir s \<and> length (queue t) = length (queue s) \<and>
     (\<forall>e. fname (queue t ! e) = fname (queue s ! e)) \<and>
     (\<forall>e. fs_redundant (queue t ! e) = fs_redundant (queue s ! e)) \<and> top_rated t = top_rated s"

lemma same_marks_inv: "same_marks s t \<Longrightarrow> marker_inv s \<Longrightarrow> marker_inv t"
  by (simp add: same_marks_def marker_inv_def marker_def inj_on_def)

lemma take_winner_marks: "take_winner i (tv, s) = Some (tv', t) \<Longrightarrow> same_marks s t"
  by (auto simp: take_winner_def same_marks_def upd_entry_def nth_upd Let_def split: option.splits if_splits)

lemma take_winners_marks:
  assumes "foldM take_winner is b = Some b'" "same_marks s (snd b)"
  shows "same_marks s (snd b')"
  using assms
proof (induction "is" arbitrary: b)
  case Nil
  then show ?case by simp
next
  case (Cons i "is")
  then obtain b1 where b1: "take_winner i b = Some b1" "foldM take_winner is b1 = Some b'"
    by (auto split: option.splits)
  then have "same_marks (snd b) (snd b1)" by (metis prod.collapse take_winner_marks)
  with Cons.prems(2) have "same_marks s (snd b1)" by (simp add: same_marks_def)
  with Cons.IH b1(2) show ?case by blast
qed

text \<open>The second loop: exactly the entries that are not favoured carry a marker.\<close>

lemma mark_loop:
  assumes "marker_inv s"
  shows "\<exists>t. foldM (\<lambda>q t. mark_as_redundant q (\<not> favored (queue t ! q)) t) [0 ..< length (queue s)] s = Some t \<and>
    marker_inv t \<and> t = s\<lparr>queue := queue t, files := files t\<rparr> \<and>
    queue t = map (\<lambda>e. e\<lparr>fs_redundant := \<not> favored e\<rparr>) (queue s)"
proof -
  let ?n = "length (queue s)"
  let ?I = "\<lambda>k t. marker_inv t \<and> t = s\<lparr>queue := queue t, files := files t\<rparr> \<and>
     queue t = map (\<lambda>e. e\<lparr>fs_redundant := \<not> favored e\<rparr>) (take k (queue s)) @ drop k (queue s)"
  have step: "\<exists>t'. mark_as_redundant k (\<not> favored (queue t ! k)) t = Some t' \<and> ?I (Suc k) t'"
    if k: "k < ?n" and t: "?I k t" for k t
  proof -
    have q: "queue t = map (\<lambda>e. e\<lparr>fs_redundant := \<not> favored e\<rparr>) (take k (queue s)) @ drop k (queue s)"
      and fr: "t = s\<lparr>queue := queue t, files := files t\<rparr>" using t by blast+
    have kt: "k < length (queue t)" "queue t ! k = queue s ! k"
      using k by (simp_all add: q nth_append)
    obtain t' where t': "mark_as_redundant k (\<not> favored (queue t ! k)) t = Some t'" "marker_inv t'"
      "t' = t\<lparr>queue := (queue t)[k := (queue t ! k)\<lparr>fs_redundant := \<not> favored (queue t ! k)\<rparr>], files := files t'\<rparr>"
      using mark_as_redundant_step [of t k] t kt by blast
    have "queue t' = (queue t)[k := (queue s ! k)\<lparr>fs_redundant := \<not> favored (queue s ! k)\<rparr>]"
      using kt by (subst t'(3)) simp
    also have "\<dots> = map (\<lambda>e. e\<lparr>fs_redundant := \<not> favored e\<rparr>) (take (Suc k) (queue s)) @ drop (Suc k) (queue s)"
      using k by (simp add: q list_update_append take_Suc_conv_app_nth Cons_nth_drop_Suc [symmetric])
    finally have "queue t' = map (\<lambda>e. e\<lparr>fs_redundant := \<not> favored e\<rparr>) (take (Suc k) (queue s)) @ drop (Suc k) (queue s)" .
    moreover have "t' = s\<lparr>queue := queue t', files := files t'\<rparr>"
      by (subst t'(3), subst fr) (subst (2) t'(3), simp)
    ultimately show ?thesis using t' by blast
  qed
  have "?I 0 s" using assms by simp
  from foldM_upt [of ?I s ?n, OF this step] show ?thesis by auto
qed

lemma cull_queue_spec:
  assumes ri: "rating_inv s" and mi: "marker_inv s" and nd: "\<not> dumb_mode s" and sc: "score_changed s"
  shows "\<exists>t. cull_queue s = Some t \<and> rating_inv t \<and> marker_inv t \<and> top_rated t = top_rated s \<and>
    (\<forall>i < MAP_SIZE. top_rated s ! i \<noteq> None \<longrightarrow>
       (\<exists>e \<in> favs t. \<exists>m. trace_mini (queue t ! e) = Some m \<and> has_bit m i)) \<and>
    (\<forall>e \<in> favs t. slots t e \<noteq> {}) \<and>
    (\<forall>e < length (queue t). fs_redundant (queue t ! e) \<longleftrightarrow> \<not> favored (queue t ! e)) \<and>
    queued_favored t = card (favs t) \<and>
    unat (pending_favored t) = card {e \<in> favs t. \<not> was_fuzzed (queue t ! e)}"
proof -
  define s1 where "s1 = s\<lparr>score_changed := False, queued_favored := 0, pending_favored := 0,
    queue := map (\<lambda>e. e\<lparr>favored := False\<rparr>) (queue s)\<rparr>"
  define ones where "ones = replicate (MAP_SIZE div 8) (255 :: u8)"
  have all: "has_bit ones i" if "i < MAP_SIZE" for i
  proof -
    have "i div 8 < MAP_SIZE div 8" using that by (simp add: MAP_SIZE_def)
    moreover have "bit (255 :: u8) (i mod 8)"
    proof -
      have "(255 :: u8) = - 1" by simp
      then show ?thesis by (simp only: bit_minus_1_iff) (simp add: possible_bit_def)
    qed
    ultimately show ?thesis by (simp add: has_bit_def ones_def)
  qed
  have f1: "favs s1 = {}" by (auto simp: favs_def s1_def)
  have q1: "length (queue s1) = length (queue s)" by (simp add: s1_def)
  have "rating_inv s1" by (rule rating_inv_flag [OF ri]) (auto simp: s1_def)
  then have c0: "cull_inv 0 (ones, s1)"
    using all f1 by (auto simp: cull_inv_def ones_def) (simp_all add: s1_def)
  obtain b where b: "foldM take_winner [0 ..< MAP_SIZE] (ones, s1) = Some b" "cull_inv MAP_SIZE b"
    using foldM_upt [of cull_inv "(ones, s1)" MAP_SIZE take_winner, OF c0 take_winner_step] by blast
  obtain tv s2 where b2: "b = (tv, s2)" by (cases b)
  have m1: "marker_inv s1"
    using mi by (auto simp: marker_inv_def marker_def s1_def inj_on_def)
  have sm: "same_marks s1 s2"
    using take_winners_marks [OF b(1), of s1] by (simp add: b2 same_marks_def)
  with m1 have m2: "marker_inv s2" by (blast intro: same_marks_inv)
  obtain t where t: "foldM (\<lambda>q t. mark_as_redundant q (\<not> favored (queue t ! q)) t) [0 ..< length (queue s2)] s2 = Some t"
    "marker_inv t" "t = s2\<lparr>queue := queue t, files := files t\<rparr>"
    "queue t = map (\<lambda>e. e\<lparr>fs_redundant := \<not> favored e\<rparr>) (queue s2)"
    using mark_loop [OF m2] by blast
  have tf: "top_rated t = top_rated s2" "trace_bits t = trace_bits s2"
    "queued_favored t = queued_favored s2" "pending_favored t = pending_favored s2"
    by (subst t(3), simp)+
  have fv: "favs t = favs s2" and sl: "slots t = slots s2"
    by (auto simp: favs_def t(4) slots_def tf fun_eq_iff)
  have en: "trace_mini (queue t ! e) = trace_mini (queue s2 ! e)" "was_fuzzed (queue t ! e) = was_fuzzed (queue s2 ! e)"
    if "e \<in> favs s2" for e using that by (simp_all add: t(4) favs_def)
  have ci: "rating_inv s2"
    "\<And>k. k < MAP_SIZE \<Longrightarrow> \<not> has_bit tv k \<Longrightarrow>
        \<exists>e \<in> favs s2. \<exists>m. trace_mini (queue s2 ! e) = Some m \<and> has_bit m k"
    "\<And>e. e \<in> favs s2 \<Longrightarrow> slots s2 e \<noteq> {}"
    "\<And>k. k < MAP_SIZE \<Longrightarrow> top_rated s2 ! k \<noteq> None \<Longrightarrow> \<not> has_bit tv k"
    "queued_favored s2 = card (favs s2)"
    "unat (pending_favored s2) = card {e \<in> favs s2. \<not> was_fuzzed (queue s2 ! e)}"
    using b(2) by (simp_all add: b2 cull_inv_def)
  have tr: "top_rated s2 = top_rated s" using sm by (simp add: same_marks_def s1_def)
  have "cull_queue s = Some t"
    using nd sc b(1) t(1) by (simp add: cull_queue_def s1_def [symmetric] ones_def [symmetric] b2 Let_def)
  moreover have "rating_inv t" by (rule rating_inv_flag [OF ci(1)]) (simp_all add: tf t(4))
  moreover have "\<exists>e \<in> favs t. \<exists>m. trace_mini (queue t ! e) = Some m \<and> has_bit m i"
    if "i < MAP_SIZE" "top_rated s ! i \<noteq> None" for i
    using ci(2,4) [OF that(1)] that(2) en fv tr by metis
  moreover have "fs_redundant (queue t ! e) \<longleftrightarrow> \<not> favored (queue t ! e)" if "e < length (queue t)" for e
    using that by (simp add: t(4))
  moreover have "{e \<in> favs t. \<not> was_fuzzed (queue t ! e)} = {e \<in> favs s2. \<not> was_fuzzed (queue s2 ! e)}"
    using en fv by blast
  ultimately show ?thesis
    using t(2) tr tf ci(3,5,6) fv sl by (intro exI [of _ t]) simp
qed

section \<open>Entries never fuzzed\<close>

definition unfuzzed :: "queue_entry list \<Rightarrow> nat" where
  "unfuzzed es = length (filter (\<lambda>e. \<not> was_fuzzed e) es)"

text \<open>The counter of entries never fuzzed is right, up to the width of the counter.\<close>

definition pending_inv :: "'a afl_queue_scheme \<Rightarrow> bool" where
  "pending_inv s \<longleftrightarrow> pending_not_fuzzed s = of_nat (unfuzzed (queue s))"

lemma unfuzzed_upd:
  "i < length es \<Longrightarrow> \<not> was_fuzzed (es ! i) \<Longrightarrow> was_fuzzed e \<Longrightarrow> Suc (unfuzzed (es[i := e])) = unfuzzed es"
proof (induction es arbitrary: i)
  case (Cons x es)
  then show ?case by (cases i) (auto simp: unfuzzed_def)
qed simp

lemma unfuzzed_map: "unfuzzed es = length (filter Not (map was_fuzzed es))"
  by (simp add: unfuzzed_def filter_map comp_def)

lemma unfuzzed_same: "was_fuzzed e = was_fuzzed (es ! i) \<Longrightarrow> unfuzzed (es[i := e]) = unfuzzed es"
proof (cases "i < length es")
  case True
  assume "was_fuzzed e = was_fuzzed (es ! i)"
  with True have "map was_fuzzed (es[i := e]) = map was_fuzzed es" by (simp add: map_update list_update_same_conv)
  then show ?thesis by (simp only: unfuzzed_map)
qed (simp add: list_update_beyond)

lemma add_to_queue_pending:
  assumes "pending_inv s"
  shows "pending_inv (add_to_queue fn l pd s)"
proof -
  have "unfuzzed (queue (add_to_queue fn l pd s)) = Suc (unfuzzed (queue s))"
    by (auto simp: queue_add_to_queue Let_def unfuzzed_same) (simp_all add: unfuzzed_def new_entry_def)
  moreover have "pending_not_fuzzed (add_to_queue fn l pd s) = pending_not_fuzzed s + 1"
    by (simp add: add_to_queue_def Let_def get_cur_time_def upd_entry_def)
  ultimately show ?thesis using assms by (simp add: pending_inv_def)
qed

section \<open>Culling without assumptions on the traces\<close>

text \<open>Whatever the traces: if \<open>cull_queue\<close> gets past the marker files it has changed nothing but the flags, the
  counters of favored entries and the markers, and no winner lacks its compacted trace.\<close>

definition blank_flags :: "queue_entry \<Rightarrow> queue_entry" where
  "blank_flags e = e\<lparr>favored := False, fs_redundant := False\<rparr>"

definition blank :: "'a afl_queue_scheme \<Rightarrow> 'a afl_queue_scheme" where
  "blank s = s\<lparr>queue := map blank_flags (queue s), queued_favored := 0, pending_favored := 0, score_changed := False, files := Map.empty\<rparr>"

lemma blank_simps [simp]:
  "blank (s\<lparr>queued_favored := a\<rparr>) = blank s" "blank (s\<lparr>pending_favored := b\<rparr>) = blank s"
  "blank (s\<lparr>score_changed := c\<rparr>) = blank s" "blank (s\<lparr>files := f\<rparr>) = blank s"
  by (simp_all add: blank_def)

lemma blank_upd_entry: "(\<And>e. blank_flags (g e) = blank_flags e) \<Longrightarrow> blank (upd_entry w g s) = blank s"
  by (cases "w < length (queue s)") (simp_all add: blank_def upd_entry_def map_update list_update_same_conv list_update_beyond)

lemma blank_flags_simps [simp]:
  "blank_flags (e\<lparr>favored := x\<rparr>) = blank_flags e" "blank_flags (e\<lparr>fs_redundant := y\<rparr>) = blank_flags e"
  by (simp_all add: blank_flags_def)

lemma take_winner_blank: "take_winner i (tv, s) = Some (tv', t) \<Longrightarrow> blank t = blank s"
  by (auto simp: take_winner_def Let_def blank_upd_entry split: option.splits if_splits)

lemma mark_as_redundant_blank: "mark_as_redundant q st s = Some t \<Longrightarrow> blank t = blank s"
  by (auto simp: mark_as_redundant_def create_excl_def unlink_def Let_def blank_upd_entry split: bind_splits if_splits option.splits)

lemma foldM_same:
  assumes "foldM f xs s = Some t" "\<And>x a b. x \<in> set xs \<Longrightarrow> f x a = Some b \<Longrightarrow> h b = h a"
  shows "h t = h s"
  using assms
proof (induction xs arbitrary: s)
  case (Cons x xs)
  then obtain c where c: "f x s = Some c" "foldM f xs c = Some t" by (auto split: option.splits)
  have "h t = h c" by (rule Cons.IH [OF c(2)]) (rule Cons.prems(2), simp_all)
  then show ?case using Cons.prems(2) [of x s c] c(1) by simp
qed simp

lemma cull_queue_blank:
  assumes "cull_queue s = Some t"
  shows "blank t = blank s"
proof (cases "dumb_mode s \<or> \<not> score_changed s")
  case False
  let ?s1 = "s\<lparr>score_changed := False, queued_favored := 0, pending_favored := 0, queue := map (\<lambda>e. e\<lparr>favored := False\<rparr>) (queue s)\<rparr>"
  obtain tv s2 where w: "foldM take_winner [0 ..< MAP_SIZE] (replicate (MAP_SIZE div 8) 255, ?s1) = Some (tv, s2)"
    and m: "foldM (\<lambda>q t. mark_as_redundant q (\<not> favored (queue t ! q)) t) [0 ..< length (queue s2)] s2 = Some t"
    using assms False by (auto simp: cull_queue_def Let_def split: bind_splits)
  have "blank t = blank s2" by (rule foldM_same [OF m]) (rule mark_as_redundant_blank)
  also have "\<dots> = blank ?s1"
    using foldM_same [OF w, of "\<lambda>b. blank (snd b)"] take_winner_blank by (metis prod.collapse snd_conv)
  also have "\<dots> = blank s" by (simp add: blank_def comp_def)
  finally show ?thesis .
qed (use assms in \<open>auto simp: cull_queue_def\<close>)

lemma blank_nth:
  assumes "blank t = blank s"
  shows "length (queue t) = length (queue s)" "i < length (queue s) \<Longrightarrow> blank_flags (queue t ! i) = blank_flags (queue s ! i)"
proof -
  have "map blank_flags (queue t) = map blank_flags (queue s)" using arg_cong [OF assms, of queue] by (simp add: blank_def)
  then show "length (queue t) = length (queue s)" "i < length (queue s) \<Longrightarrow> blank_flags (queue t ! i) = blank_flags (queue s ! i)"
    by (metis length_map, metis length_map nth_map)
qed

end
