(* ===== verification/Afl_Dict.thy ===== *)
theory Afl_Dict
  imports Afl_Queue
begin

text \<open>
  The dictionaries of \<^verbatim>\<open>docker/AFL/afl-fuzz.c\<close>: the built-in interesting values, the
  user dictionary (\<open>load_extras_file\<close>, a parser of \<^verbatim>\<open>name="value"\<close> lines) and the
  automatic one (\<open>maybe_add_auto\<close>, \<open>save_auto\<close>, \<open>load_auto\<close>). Bytes of a line are
  \<^typ>\<open>u8\<close> values; \<^verbatim>\<open>qsort\<close> is the stable merge sort of glibc.
\<close>

section \<open>Interesting values\<close>

definition interesting_8 :: "u8 list" where
  "interesting_8 = [-128, -1, 0, 1, 16, 32, 64, 100, 127]"

definition INTERESTING_16 :: "int list" where
  "INTERESTING_16 = [-32768, -129, 128, 255, 256, 512, 1000, 1024, 4096, 32767]"

definition INTERESTING_32 :: "int list" where
  "INTERESTING_32 = [-2147483648, -100663046, -32769, 32768, 65535, 65536, 100663045, 2147483647]"

text \<open>The signed values of the two wider tables; \<open>interesting_16\<close> and \<open>interesting_32\<close> are
  their conversions to the unsigned type of the cell they are stored in.\<close>

definition interesting_16_s :: "int list" where
  "interesting_16_s = map sint interesting_8 @ INTERESTING_16"

definition interesting_32_s :: "int list" where
  "interesting_32_s = map sint interesting_8 @ INTERESTING_16 @ INTERESTING_32"

definition interesting_16 :: "u16 list" where
  "interesting_16 = map word_of_int interesting_16_s"

definition interesting_32 :: "u32 list" where
  "interesting_32 = map word_of_int interesting_32_s"

section \<open>The automatic dictionary\<close>

definition MAX_DICT_FILE :: nat where "MAX_DICT_FILE = 128"
definition MIN_AUTO_EXTRA :: nat where "MIN_AUTO_EXTRA = 3"
definition MAX_AUTO_EXTRA :: nat where "MAX_AUTO_EXTRA = 32"
definition USE_AUTO_EXTRAS :: nat where "USE_AUTO_EXTRAS = 50"
definition MAX_AUTO_EXTRAS :: nat where "MAX_AUTO_EXTRAS = USE_AUTO_EXTRAS * 10"
definition MAX_DET_EXTRAS :: nat where "MAX_DET_EXTRAS = 200"
definition MAX_LINE :: nat where "MAX_LINE = 8192"

record extra_data =
  data :: "u8 list"
  hit_cnt :: nat

abbreviation extra_len :: "extra_data \<Rightarrow> nat" where
  "extra_len e \<equiv> length (data e)"

record afl_dict = afl_queue +
  in_dir :: string
  extras :: "extra_data list"
  a_extras :: "extra_data list"
  auto_changed :: bool

definition tolower :: "u8 \<Rightarrow> u8" where
  "tolower c = (if 65 \<le> c \<and> c \<le> 90 then c + 32 else c)"

fun memcmp_nocase :: "u8 list \<Rightarrow> u8 list \<Rightarrow> bool" where
  "memcmp_nocase (a # as) (b # bs) = (if tolower a \<noteq> tolower b then True else memcmp_nocase as bs)"
| "memcmp_nocase _ _ = False"

definition sort_extras_len :: "extra_data list \<Rightarrow> extra_data list" where
  "sort_extras_len = sort_key extra_len"

definition sort_extras_use_d :: "extra_data list \<Rightarrow> extra_data list" where
  "sort_extras_use_d = sort_key (\<lambda>e. - int (hit_cnt e))"

definition all_same :: "u8 list \<Rightarrow> bool" where
  "all_same mem \<longleftrightarrow> mem \<noteq> [] \<and> list_all (\<lambda>b. b = hd mem) mem"

text \<open>The comparison of a \<^verbatim>\<open>u16\<close> with an element of the \<^verbatim>\<open>s16\<close> table happens after
  promotion to \<^verbatim>\<open>int\<close>, so a negative element never compares equal; the 32-bit one converts
  the signed operand.\<close>

definition builtin_value :: "u8 list \<Rightarrow> bool" where
  "builtin_value mem \<longleftrightarrow>
     (length mem = 2 \<and> list_ex (\<lambda>v. uint (load_le mem :: u16) = v \<or> load_le mem = SWAP16 (word_of_int v)) interesting_16_s) \<or>
     (length mem = 4 \<and> list_ex (\<lambda>v. load_le mem = (word_of_int v :: u32) \<or> load_le mem = SWAP32 (word_of_int v)) interesting_32_s)"

definition matches_extra :: "u8 list \<Rightarrow> extra_data list \<Rightarrow> bool" where
  "matches_extra mem ex =
     list_ex (\<lambda>e. \<not> memcmp_nocase (data e) mem)
       (takeWhile (\<lambda>e. extra_len e = length mem) (dropWhile (\<lambda>e. extra_len e < length mem) ex))"

fun bump_hit :: "u8 list \<Rightarrow> extra_data list \<Rightarrow> extra_data list option" where
  "bump_hit mem [] = None"
| "bump_hit mem (e # es) =
     (if extra_len e = length mem \<and> \<not> memcmp_nocase (data e) mem
      then Some (e\<lparr>hit_cnt := hit_cnt e + 1\<rparr> # es)
      else map_option ((#) e) (bump_hit mem es))"

definition sort_a_extras :: "extra_data list \<Rightarrow> extra_data list" where
  "sort_a_extras es =
     (let by_use = sort_extras_use_d es
      in sort_extras_len (take (min USE_AUTO_EXTRAS (length es)) by_use) @ drop (min USE_AUTO_EXTRAS (length es)) by_use)"

definition maybe_add_auto :: "u8 list \<Rightarrow> 'a afl_dict_scheme \<Rightarrow> 'a afl_dict_scheme option" where
  "maybe_add_auto mem s =
     (if all_same mem then Some s
      else if builtin_value mem then Some s
      else if matches_extra mem (extras s) then Some s
      else let s1 = s\<lparr>auto_changed := True\<rparr> in
        case bump_hit mem (a_extras s1) of
          Some es \<Rightarrow> Some (s1\<lparr>a_extras := sort_a_extras es\<rparr>)
        | None \<Rightarrow>
            (if length (a_extras s1) < MAX_AUTO_EXTRAS
             then Some (s1\<lparr>a_extras := sort_a_extras (a_extras s1 @ [\<lparr>data = mem, hit_cnt = 0\<rparr>])\<rparr>)
             else do {
               (r, s2) \<leftarrow> UR ((MAX_AUTO_EXTRAS + 1) div 2) s1;
               let i = MAX_AUTO_EXTRAS div 2 + r;
               Some (s2\<lparr>a_extras := sort_a_extras ((a_extras s2)[i := \<lparr>data = mem, hit_cnt = 0\<rparr>])\<rparr>) }))"

text \<open>Decimal numerals zero-padded to a width (\<^verbatim>\<open>%06u\<close>).\<close>

definition pad0 :: "nat \<Rightarrow> nat \<Rightarrow> string" where
  "pad0 w n = replicate (w - length (show_nat n)) CHR ''0'' @ show_nat n"

definition save_auto :: "'a afl_dict_scheme \<Rightarrow> 'a afl_dict_scheme" where
  "save_auto s =
     (if \<not> auto_changed s then s
      else fold (\<lambda>i t. t\<lparr>files := (files t)(out_dir t @ ''/queue/.state/auto_extras/auto_'' @ pad0 6 i \<mapsto> data (a_extras t ! i))\<rparr>)
             [0 ..< min USE_AUTO_EXTRAS (length (a_extras s))] (s\<lparr>auto_changed := False\<rparr>))"

definition load_auto_body :: "nat \<Rightarrow> 'a afl_dict_scheme \<Rightarrow> (bool \<times> 'a afl_dict_scheme) option" where
  "load_auto_body i s =
     (case files s (in_dir s @ ''/.state/auto_extras/auto_'' @ pad0 6 i) of
        None \<Rightarrow> Some (True, s)
      | Some c \<Rightarrow>
          (let tmp = take (MAX_AUTO_EXTRA + 1) c in
           if length tmp \<ge> MIN_AUTO_EXTRA \<and> length tmp \<le> MAX_AUTO_EXTRA
           then map_option (\<lambda>t. (False, t)) (maybe_add_auto tmp s) else Some (False, s)))"

definition load_auto :: "'a afl_dict_scheme \<Rightarrow> (bool \<times> 'a afl_dict_scheme) option" where
  "load_auto s = for_each load_auto_body [0 ..< USE_AUTO_EXTRAS] s"

section \<open>The user dictionary\<close>

datatype dict_error =
    Malformed_value nat | Malformed_keyword nat | Empty_keyword nat
  | Non_printable nat | Invalid_escape nat | Keyword_too_big nat
  | Unable_to_open | Levels_not_supported | Extra_too_big | No_usable_files

definition isspace :: "u8 \<Rightarrow> bool" where "isspace c \<longleftrightarrow> c = 32 \<or> 9 \<le> c \<and> c \<le> 13"
definition isdigit :: "u8 \<Rightarrow> bool" where "isdigit c \<longleftrightarrow> 48 \<le> c \<and> c \<le> 57"
definition isalnum :: "u8 \<Rightarrow> bool" where
  "isalnum c \<longleftrightarrow> isdigit c \<or> 65 \<le> c \<and> c \<le> 90 \<or> 97 \<le> c \<and> c \<le> 122"
definition isxdigit :: "u8 \<Rightarrow> bool" where
  "isxdigit c \<longleftrightarrow> isdigit c \<or> 65 \<le> c \<and> c \<le> 70 \<or> 97 \<le> c \<and> c \<le> 102"

definition hex_val :: "u8 \<Rightarrow> u8" where
  "hex_val c = (let l = tolower c in if l \<le> 57 then l - 48 else l - 87)"

text \<open>\<^verbatim>\<open>fgets\<close>: at most \<^verbatim>\<open>MAX_LINE - 1\<close> bytes, up to and including a newline.\<close>

fun take_line :: "nat \<Rightarrow> u8 list \<Rightarrow> u8 list \<times> u8 list" where
  "take_line 0 bs = ([], bs)"
| "take_line (Suc n) [] = ([], [])"
| "take_line (Suc n) (b # bs) =
     (if b = 10 then ([b], bs) else (let (l, r) = take_line n bs in (b # l, r)))"

lemma take_line_length: "take_line n bs = (l, r) \<Longrightarrow> length l + length r = length bs"
  by (induction n bs arbitrary: l r rule: take_line.induct) (auto split: if_splits prod.splits)

fun fgets_lines :: "nat \<Rightarrow> u8 list \<Rightarrow> u8 list list" where
  "fgets_lines 0 bs = []"
| "fgets_lines (Suc fuel) bs =
     (if bs = [] then [] else let (l, r) = take_line (MAX_LINE - 1) bs in l # fgets_lines fuel r)"

definition trim :: "u8 list \<Rightarrow> u8 list" where
  "trim l = (let c = dropWhile isspace (takeWhile (\<lambda>b. b \<noteq> 0) l) in rev (dropWhile isspace (rev c)))"

definition digits_val :: "u8 list \<Rightarrow> int" where
  "digits_val ds = foldl (\<lambda>a d. 10 * a + (uint d - 48)) 0 (takeWhile isdigit ds)"

definition atoi :: "u8 list \<Rightarrow> int" where
  "atoi l = (case dropWhile isspace l of
       [] \<Rightarrow> 0
     | c # cs \<Rightarrow> (if c = 45 then - digits_val cs else if c = 43 then digits_val cs else digits_val (c # cs)))"

fun decode_keyword :: "nat \<Rightarrow> u8 list \<Rightarrow> dict_error + u8 list" where
  "decode_keyword ln [] = Inr []"
| "decode_keyword ln (c # cs) =
     (if 1 \<le> c \<and> c \<le> 31 \<or> 128 \<le> c then Inl (Non_printable ln)
      else if c = 92
      then (case cs of
              [] \<Rightarrow> Inl (Invalid_escape ln)
            | d # ds \<Rightarrow>
                (if d = 92 \<or> d = 34 then map_sum id ((#) d) (decode_keyword ln ds)
                 else case ds of
                   h # l # rest \<Rightarrow>
                     (if d = 120 \<and> isxdigit h \<and> isxdigit l
                      then map_sum id ((#) (push_bit 4 (hex_val h) OR hex_val l)) (decode_keyword ln rest)
                      else Inl (Invalid_escape ln))
                 | _ \<Rightarrow> Inl (Invalid_escape ln)))
      else map_sum id ((#) c) (decode_keyword ln cs))"

text \<open>One line: \<open>Inr None\<close> skips it, \<open>Inr (Some d)\<close> is the token it adds.\<close>

definition parse_dict_line :: "nat \<Rightarrow> nat \<Rightarrow> u8 list \<Rightarrow> dict_error + u8 list option" where
  "parse_dict_line ln dict_level l =
     (let t = trim l in
      if t = [] \<or> hd t = 35 then Inr None
      else if last t \<noteq> 34 then Inl (Malformed_value ln)
      else let
        p1 = dropWhile (\<lambda>c. isalnum c \<or> c = 95) (butlast t);
        at = (p1 \<noteq> [] \<and> hd p1 = 64);
        p2 = (if at then tl p1 else p1)
      in if at \<and> atoi p2 mod 2 ^ 32 > int dict_level then Inr None
      else let
        p3 = (if at then dropWhile isdigit p2 else p2);
        p4 = dropWhile (\<lambda>c. isspace c \<or> c = 61) p3
      in if p4 = [] \<or> hd p4 \<noteq> 34 then Inl (Malformed_keyword ln)
      else if tl p4 = [] then Inl (Empty_keyword ln)
      else case decode_keyword ln (tl p4) of
        Inl e \<Rightarrow> Inl e
      | Inr d \<Rightarrow> (if length d > MAX_DICT_FILE then Inl (Keyword_too_big ln) else Inr (Some d)))"

fun load_lines :: "nat \<Rightarrow> nat \<Rightarrow> u8 list list \<Rightarrow> extra_data list \<Rightarrow> dict_error + extra_data list" where
  "load_lines ln dict_level [] ex = Inr ex"
| "load_lines ln dict_level (l # ls) ex =
     (case parse_dict_line (ln + 1) dict_level l of
        Inl e \<Rightarrow> Inl e
      | Inr None \<Rightarrow> load_lines (ln + 1) dict_level ls ex
      | Inr (Some d) \<Rightarrow> load_lines (ln + 1) dict_level ls (ex @ [\<lparr>data = d, hit_cnt = 0\<rparr>]))"

definition load_extras_file :: "u8 list \<Rightarrow> nat \<Rightarrow> extra_data list \<Rightarrow> dict_error + extra_data list" where
  "load_extras_file content dict_level ex =
     load_lines 0 dict_level (fgets_lines (length content) content) ex"

text \<open>What \<^verbatim>\<open>opendir\<close> finds at the given path: a directory with its entries (whether regular,
  and the contents), a plain file, or nothing that can be opened.\<close>

datatype dir_read = Is_dir "(bool \<times> u8 list) list" | Is_file "u8 list" | Cannot_open

fun load_dir :: "(bool \<times> u8 list) list \<Rightarrow> extra_data list \<Rightarrow> dict_error + extra_data list" where
  "load_dir [] ex = Inr ex"
| "load_dir ((reg, c) # es) ex =
     (if \<not> reg \<or> c = [] then load_dir es ex
      else if length c > MAX_DICT_FILE then Inl Extra_too_big
      else load_dir es (ex @ [\<lparr>data = c, hit_cnt = 0\<rparr>]))"

definition load_extras :: "dir_read \<Rightarrow> bool \<Rightarrow> nat \<Rightarrow> extra_data list \<Rightarrow> dict_error + extra_data list" where
  "load_extras d has_level dict_level ex =
     (case (case d of
        Cannot_open \<Rightarrow> Inl Unable_to_open
      | Is_file c \<Rightarrow> load_extras_file c dict_level ex
      | Is_dir es \<Rightarrow> (if has_level then Inl Levels_not_supported else load_dir es ex)) of
        Inl e \<Rightarrow> Inl e
      | Inr r \<Rightarrow> (if r = [] then Inl No_usable_files else Inr (sort_extras_len r)))"

section \<open>Invariants of the dictionaries\<close>

definition extras_ok :: "extra_data list \<Rightarrow> bool" where
  "extras_ok ex \<longleftrightarrow> sorted (map extra_len ex) \<and> (\<forall>e \<in> set ex. 1 \<le> extra_len e \<and> extra_len e \<le> MAX_DICT_FILE)"

definition nocase_eq :: "u8 list \<Rightarrow> u8 list \<Rightarrow> bool" where
  "nocase_eq a b \<longleftrightarrow> map tolower a = map tolower b"

lemma memcmp_nocase_iff: "length a = length b \<Longrightarrow> memcmp_nocase a b \<longleftrightarrow> \<not> nocase_eq a b"
  by (induction a b rule: memcmp_nocase.induct) (auto simp: nocase_eq_def)

lemma nocase_eq_refl [simp]: "nocase_eq a a"
  by (simp add: nocase_eq_def)

lemma nocase_eq_length: "nocase_eq a b \<Longrightarrow> length a = length b"
  using map_eq_imp_length_eq nocase_eq_def by blast

text \<open>Tokens a decoded keyword can hold; the length bound of the loader.\<close>

lemma map_sum_Cons: "map_sum id ((#) x) r = Inr d \<Longrightarrow> d \<noteq> []"
  by (cases r) auto

lemma decode_keyword_nonempty:
  assumes "decode_keyword ln cs = Inr d" "cs \<noteq> []"
  shows "d \<noteq> []"
proof -
  obtain c cs' where cs: "cs = c # cs'" using assms(2) by (cases cs) auto
  have "decode_keyword ln (c # cs') = Inr d" using assms(1) cs by simp
  then show ?thesis
    by (subst (asm) decode_keyword.simps)
      (auto simp del: decode_keyword.simps split: if_splits list.splits dest: map_sum_Cons)
qed

lemma parse_dict_line_len:
  "parse_dict_line ln dl l = Inr (Some d) \<Longrightarrow> 1 \<le> length d \<and> length d \<le> MAX_DICT_FILE"
  by (auto simp: parse_dict_line_def Let_def Suc_le_eq dest!: decode_keyword_nonempty
      split: if_splits sum.splits)

lemma load_lines_len:
  assumes "load_lines ln dl ls ex = Inr r" "\<forall>e \<in> set ex. 1 \<le> extra_len e \<and> extra_len e \<le> MAX_DICT_FILE"
  shows "\<forall>e \<in> set r. 1 \<le> extra_len e \<and> extra_len e \<le> MAX_DICT_FILE"
  using assms
proof (induction ln dl ls ex rule: load_lines.induct)
  case (1 ln dl ex)
  then show ?case by simp
next
  case (2 ln dl l ls ex)
  show ?case
  proof (cases "parse_dict_line (ln + 1) dl l")
    case (Inl e)
    with 2 show ?thesis by simp
  next
    case (Inr r')
    show ?thesis
    proof (cases r')
      case None
      with 2 Inr show ?thesis by simp
    next
      case (Some d)
      with Inr have "1 \<le> length d \<and> length d \<le> MAX_DICT_FILE" by (auto dest: parse_dict_line_len)
      with 2 Inr Some show ?thesis by (simp add: ball_Un)
    qed
  qed
qed

lemma load_dir_len:
  assumes "load_dir es ex = Inr r" "\<forall>e \<in> set ex. 1 \<le> extra_len e \<and> extra_len e \<le> MAX_DICT_FILE"
  shows "\<forall>e \<in> set r. 1 \<le> extra_len e \<and> extra_len e \<le> MAX_DICT_FILE"
  using assms
  by (induction es ex rule: load_dir.induct) (auto split: if_splits simp: Suc_le_eq)

lemma load_extras_ok:
  assumes "load_extras d hl dl ex = Inr r" "extras_ok ex"
  shows "extras_ok r \<and> r \<noteq> []"
proof -
  obtain x where x: "(case d of Cannot_open \<Rightarrow> Inl Unable_to_open
      | Is_file c \<Rightarrow> load_extras_file c dl ex
      | Is_dir es \<Rightarrow> (if hl then Inl Levels_not_supported else load_dir es ex)) = Inr x"
    "x \<noteq> []" "r = sort_extras_len x"
    using assms(1) by (auto simp: load_extras_def split: sum.splits if_splits)
  have ex: "\<forall>e \<in> set ex. 1 \<le> extra_len e \<and> extra_len e \<le> MAX_DICT_FILE"
    using assms(2) unfolding extras_ok_def by (rule conjunct2)
  have "\<forall>e \<in> set x. 1 \<le> extra_len e \<and> extra_len e \<le> MAX_DICT_FILE"
  proof (cases d)
    case (Is_dir es)
    with x(1) have "load_dir es ex = Inr x" by (simp only: dir_read.case split: if_splits) simp
    with ex show ?thesis by (rule load_dir_len [rotated])
  next
    case (Is_file c)
    with x(1) have "load_lines 0 dl (fgets_lines (length c) c) ex = Inr x"
      by (simp only: dir_read.case load_extras_file_def)
    with ex show ?thesis by (rule load_lines_len [rotated])
  next
    case Cannot_open
    with x(1) show ?thesis by (simp only: dir_read.case) simp
  qed
  moreover have "set r = set x" "sorted (map extra_len r)"
    using x(3) by (simp_all add: sort_extras_len_def)
  ultimately show ?thesis using x(2) by (auto simp: extras_ok_def)
qed

section \<open>The automatic dictionary stays well-formed\<close>

definition fold_case :: "extra_data \<Rightarrow> u8 list" where
  "fold_case e = map tolower (data e)"

text \<open>With \<open>apart\<close> no token is one of the user dictionary as well, which holds unless the tokens of an earlier
  session were loaded before the user dictionary.\<close>

definition auto_ok_for :: "bool \<Rightarrow> 'a afl_dict_scheme \<Rightarrow> bool" where
  "auto_ok_for apart s \<longleftrightarrow>
     length (a_extras s) \<le> MAX_AUTO_EXTRAS \<and>
     distinct (map fold_case (a_extras s)) \<and>
     sorted (map extra_len (take USE_AUTO_EXTRAS (a_extras s))) \<and>
     (\<forall>a \<in> set (take USE_AUTO_EXTRAS (a_extras s)). \<forall>b \<in> set (drop USE_AUTO_EXTRAS (a_extras s)). hit_cnt b \<le> hit_cnt a) \<and>
     (apart \<longrightarrow> (\<forall>e \<in> set (a_extras s). \<forall>x \<in> set (extras s). fold_case e \<noteq> fold_case x))"

abbreviation auto_ok :: "'a afl_dict_scheme \<Rightarrow> bool" where "auto_ok \<equiv> auto_ok_for True"

lemma mset_sort_a_extras [simp]: "mset (sort_a_extras es) = mset es"
  unfolding sort_a_extras_def Let_def sort_extras_len_def sort_extras_use_d_def mset_append mset_sort
  by (metis append_take_drop_id mset_append mset_sort)

lemma set_sort_a_extras [simp]: "set (sort_a_extras es) = set es"
  by (metis mset_sort_a_extras set_mset_mset)

lemma length_sort_a_extras [simp]: "length (sort_a_extras es) = length es"
  by (metis mset_sort_a_extras size_mset)

lemma distinct_sort_a_extras [simp]: "distinct (map f (sort_a_extras es)) = distinct (map f es)"
  by (rule mset_eq_imp_distinct_iff) simp

lemma take_sort_a_extras:
  "take USE_AUTO_EXTRAS (sort_a_extras es) = sort_extras_len (take USE_AUTO_EXTRAS (sort_extras_use_d es))"
  "drop USE_AUTO_EXTRAS (sort_a_extras es) = drop USE_AUTO_EXTRAS (sort_extras_use_d es)"
  by (auto simp: sort_a_extras_def Let_def sort_extras_len_def sort_extras_use_d_def min_def)

lemma sort_a_extras_head:
  "sorted (map extra_len (take USE_AUTO_EXTRAS (sort_a_extras es)))"
  "a \<in> set (take USE_AUTO_EXTRAS (sort_a_extras es)) \<Longrightarrow> b \<in> set (drop USE_AUTO_EXTRAS (sort_a_extras es)) \<Longrightarrow>
     hit_cnt b \<le> hit_cnt a"
proof -
  show "sorted (map extra_len (take USE_AUTO_EXTRAS (sort_a_extras es)))"
    by (simp add: take_sort_a_extras sort_extras_len_def)
  assume "a \<in> set (take USE_AUTO_EXTRAS (sort_a_extras es))" "b \<in> set (drop USE_AUTO_EXTRAS (sort_a_extras es))"
  then have ab: "a \<in> set (take USE_AUTO_EXTRAS (sort_extras_use_d es))" "b \<in> set (drop USE_AUTO_EXTRAS (sort_extras_use_d es))"
    by (simp_all add: take_sort_a_extras sort_extras_len_def)
  have "sorted (map (\<lambda>e. - int (hit_cnt e))
      (take USE_AUTO_EXTRAS (sort_extras_use_d es) @ drop USE_AUTO_EXTRAS (sort_extras_use_d es)))"
    by (simp only: append_take_drop_id) (simp add: sort_extras_use_d_def)
  then have "\<forall>x \<in> set (take USE_AUTO_EXTRAS (sort_extras_use_d es)). \<forall>y \<in> set (drop USE_AUTO_EXTRAS (sort_extras_use_d es)).
      hit_cnt y \<le> hit_cnt x"
    by (simp only: map_append sorted_append) auto
  with ab show "hit_cnt b \<le> hit_cnt a" by blast
qed

lemma auto_okI:
  assumes "length es \<le> MAX_AUTO_EXTRAS" "distinct (map fold_case es)"
    "apart \<longrightarrow> (\<forall>e \<in> set es. \<forall>x \<in> set (extras s). fold_case e \<noteq> fold_case x)" "a_extras s = sort_a_extras es"
  shows "auto_ok_for apart s"
  using assms sort_a_extras_head unfolding auto_ok_for_def by simp

lemma matches_extra_iff:
  assumes "sorted (map extra_len ex)"
  shows "matches_extra mem ex \<longleftrightarrow> (\<exists>x \<in> set ex. fold_case x = map tolower mem)"
  using assms
proof (induction ex)
  case (Cons e es)
  have *: "takeWhile (\<lambda>e. extra_len e = n) xs = filter (\<lambda>e. extra_len e = n) xs"
    if "sorted (map extra_len xs)" "\<forall>x \<in> set xs. n \<le> extra_len x" for n xs
    using that by (induction xs) (auto intro!: filter_False [symmetric])
  have len: "fold_case x = map tolower mem \<Longrightarrow> extra_len x = length mem" for x
    by (metis fold_case_def length_map)
  have eq: "extra_len x = length mem \<Longrightarrow> memcmp_nocase (data x) mem \<longleftrightarrow> fold_case x \<noteq> map tolower mem" for x
    by (simp add: memcmp_nocase_iff nocase_eq_def fold_case_def)
  show ?case
  proof (cases "extra_len e < length mem")
    case True
    then show ?thesis using Cons len [of e] by (auto simp: matches_extra_def)
  next
    case False
    with Cons.prems have "\<forall>x \<in> set (e # es). length mem \<le> extra_len x" by fastforce
    then have "matches_extra mem (e # es) = list_ex (\<lambda>e. \<not> memcmp_nocase (data e) mem) (filter (\<lambda>e. extra_len e = length mem) (e # es))"
      using False Cons.prems unfolding matches_extra_def by (subst * [symmetric]) simp_all
    then show ?thesis using len eq by (auto simp: list_ex_iff)
  qed
qed (simp add: matches_extra_def)

lemma bump_hit_None: "bump_hit mem es = None \<longleftrightarrow> (\<forall>e \<in> set es. fold_case e \<noteq> map tolower mem)"
proof (induction es)
  case (Cons e es)
  have "(extra_len e = length mem \<and> \<not> memcmp_nocase (data e) mem) \<longleftrightarrow> fold_case e = map tolower mem"
    by (metis fold_case_def length_map memcmp_nocase_iff nocase_eq_def)
  with Cons show ?case by simp
qed simp

lemma bump_hit_Some:
  assumes "bump_hit mem es = Some es'"
  shows "length es' = length es \<and> map fold_case es' = map fold_case es"
  using assms by (induction es arbitrary: es') (auto split: if_splits simp: fold_case_def)

text \<open>The four outcomes: nothing to add, a repeated token, a new one, and one that replaces an
  entry of the lower half of a full list.\<close>

lemma maybe_add_auto_cases [case_names same bump app evict]:
  obtains "maybe_add_auto mem s = Some s"
  | es where "bump_hit mem (a_extras s) = Some es"
      "maybe_add_auto mem s = Some (s\<lparr>auto_changed := True, a_extras := sort_a_extras es\<rparr>)"
  | "bump_hit mem (a_extras s) = None" "\<not> matches_extra mem (extras s)" "length (a_extras s) < MAX_AUTO_EXTRAS"
      "maybe_add_auto mem s =
         Some (s\<lparr>auto_changed := True, a_extras := sort_a_extras (a_extras s @ [\<lparr>data = mem, hit_cnt = 0\<rparr>])\<rparr>)"
  | r t where "bump_hit mem (a_extras s) = None" "\<not> matches_extra mem (extras s)" "r < 250"
      "same_rest (s\<lparr>auto_changed := True\<rparr>) t"
      "maybe_add_auto mem s =
         Some (t\<lparr>a_extras := sort_a_extras ((a_extras t)[250 + r := \<lparr>data = mem, hit_cnt = 0\<rparr>])\<rparr>)"
proof (cases "all_same mem \<or> builtin_value mem \<or> matches_extra mem (extras s)")
  case True
  then show ?thesis by (intro that(1)) (auto simp: maybe_add_auto_def)
next
  case rej: False
  show ?thesis
  proof (cases "bump_hit mem (a_extras s)")
    case (Some es)
    then show ?thesis using rej by (intro that(2)) (simp_all add: maybe_add_auto_def)
  next
    case None
    show ?thesis
    proof (cases "length (a_extras s) < MAX_AUTO_EXTRAS")
      case True
      then show ?thesis using rej None by (intro that(3)) (simp_all add: maybe_add_auto_def)
    next
      case False
      obtain r t where r: "UR 250 (s\<lparr>auto_changed := True\<rparr>) = Some (r, t)" "r < 250" "same_rest (s\<lparr>auto_changed := True\<rparr>) t"
        using ur.draw_obtain [of 250 "s\<lparr>auto_changed := True\<rparr>"] by auto
      have n: "Suc MAX_AUTO_EXTRAS div 2 = 250" "MAX_AUTO_EXTRAS div 2 = 250"
        by (simp_all add: MAX_AUTO_EXTRAS_def USE_AUTO_EXTRAS_def)
      show ?thesis using rej None False r by (intro that(4) [of r t]) (simp_all add: maybe_add_auto_def n)
    qed
  qed
qed

lemma maybe_add_auto_ok:
  assumes ok: "auto_ok_for apart s" and srt: "sorted (map extra_len (extras s))"
  shows "\<exists>s'. maybe_add_auto mem s = Some s' \<and> auto_ok_for apart s' \<and> extras s' = extras s"
proof -
  let ?new = "\<lparr>data = mem, hit_cnt = 0\<rparr>"
  let ?A = "a_extras s"
  have fresh: "(\<forall>x \<in> set (extras s). fold_case ?new \<noteq> fold_case x) \<and> fold_case ?new \<notin> set (map fold_case ?A)"
    if "bump_hit mem ?A = None" "\<not> matches_extra mem (extras s)"
  proof -
    have "fold_case ?new = map tolower mem" by (simp add: fold_case_def)
    with that srt show ?thesis by (auto simp: matches_extra_iff bump_hit_None)
  qed
  have len: "length ?A \<le> MAX_AUTO_EXTRAS" and dist: "distinct (map fold_case ?A)"
    and apart: "apart \<Longrightarrow> \<forall>e \<in> set ?A. \<forall>x \<in> set (extras s). fold_case e \<noteq> fold_case x"
    using ok by (auto simp: auto_ok_for_def)
  show ?thesis
  proof (cases mem s rule: maybe_add_auto_cases)
    case same
    then show ?thesis using ok by simp
  next
    case (bump es)
    then have es: "length es = length ?A" "map fold_case es = map fold_case ?A" by (auto dest: bump_hit_Some)
    then have "fold_case ` set es = fold_case ` set ?A" by (metis set_map)
    then have "\<forall>e \<in> set es. \<forall>x \<in> set (extras s). fold_case e \<noteq> fold_case x" if apart
      using apart [OF that] by (metis (no_types, lifting) image_iff)
    with bump len dist es show ?thesis by (auto intro!: auto_okI [of es])
  next
    case app
    have new: "\<forall>x \<in> set (extras s). fold_case ?new \<noteq> fold_case x" "fold_case ?new \<notin> set (map fold_case ?A)"
      using fresh app(1,2) by blast+
    have "\<forall>e \<in> set (?A @ [?new]). \<forall>x \<in> set (extras s). fold_case e \<noteq> fold_case x" if apart
      using apart [OF that] new(1) by simp
    moreover have "distinct (map fold_case (?A @ [?new]))" using dist new(2) by simp
    ultimately show ?thesis using app(3,4) by (auto intro!: auto_okI [of "?A @ [?new]"])
  next
    case (evict r t)
    have t: "a_extras t = ?A" "extras t = extras s" using evict(4) by (auto simp: same_rest_def)
    have new: "\<forall>x \<in> set (extras s). fold_case ?new \<noteq> fold_case x" "fold_case ?new \<notin> set (map fold_case ?A)"
      using fresh evict(1,2) by blast+
    have "distinct (map fold_case (?A[250 + r := ?new]))"
      using dist new by (auto simp: map_update intro: distinct_list_update)
    moreover have "\<forall>e \<in> set (?A[250 + r := ?new]). \<forall>x \<in> set (extras s). fold_case e \<noteq> fold_case x" if apart
      using apart [OF that] new set_update_subset_insert [of ?A "250 + r" ?new] by blast
    ultimately show ?thesis using evict(5) len t
      by (auto intro!: auto_okI [of "?A[250 + r := ?new]"])
  qed
qed

end
