(* ===== verification/Afl_Checks.thy ===== *)
theory Afl_Checks
  imports Afl_Dict
begin

text \<open>
  The duplicate filters of the deterministic stages of \<^verbatim>\<open>docker/AFL/afl-fuzz.c\<close>
  (\<open>could_be_bitflip\<close>, \<open>could_be_arith\<close>, \<open>could_be_interest\<close>) and \<open>next_p2\<close>, each with an exact
  description of the values it accepts.
\<close>

section \<open>The filters\<close>

definition ARITH_MAX :: nat where "ARITH_MAX = 35"

text \<open>The loop \<^verbatim>\<open>while (!(xor_val & 1))\<close>; the caller has already excluded zero, the only value on
  which it would not stop.\<close>

function strip_zeros :: "nat \<Rightarrow> u32 \<Rightarrow> nat \<times> u32" where
  "strip_zeros sh x = (if x = 0 \<or> x AND 1 \<noteq> 0 then (sh, x) else strip_zeros (sh + 1) (drop_bit 1 x))"
  by auto
termination
proof (relation "measure (\<lambda>(sh, x). unat x)")
  fix sh and x :: u32
  assume "\<not> (x = 0 \<or> x AND 1 \<noteq> 0)"
  then have "0 < unat x" by (simp add: unat_gt_0)
  then show "((sh + 1, drop_bit 1 x), sh, x) \<in> measure (\<lambda>(sh, x). unat x)"
    by (simp add: drop_bit_eq_div unat_div)
qed simp

declare strip_zeros.simps [simp del]

definition could_be_bitflip :: "u32 \<Rightarrow> bool" where
  "could_be_bitflip xor_val =
     (if xor_val = 0 then True
      else let (sh, x) = strip_zeros 0 xor_val in
        if x = 1 \<or> x = 3 \<or> x = 15 then True
        else if sh mod 8 \<noteq> 0 then False
        else x = 0xff \<or> x = 0xffff \<or> x = 0xffffffff)"

text \<open>One of the loops of \<open>could_be_arith\<close>: how many lanes differ, and the two values of the last
  one that does.\<close>

definition lane_diffs :: "(nat \<Rightarrow> u32) \<Rightarrow> (nat \<Rightarrow> u32) \<Rightarrow> nat \<Rightarrow> nat \<times> u32 \<times> u32 \<Rightarrow> nat \<times> u32 \<times> u32" where
  "lane_diffs a b n = fold (\<lambda>i (diffs, ov, nv). if a i \<noteq> b i then (diffs + 1, a i, b i) else (diffs, ov, nv)) [0 ..< n]"

definition lane8 :: "u32 \<Rightarrow> nat \<Rightarrow> u8" where "lane8 v i = ucast (drop_bit (8 * i) v)"
definition lane16 :: "u32 \<Rightarrow> nat \<Rightarrow> u16" where "lane16 v i = ucast (drop_bit (16 * i) v)"

definition could_be_arith :: "u32 \<Rightarrow> u32 \<Rightarrow> nat \<Rightarrow> bool" where
  "could_be_arith old_val new_val blen =
     (if old_val = new_val then True
      else let (diffs, ov, nv) = lane_diffs (\<lambda>i. ucast (lane8 old_val i)) (\<lambda>i. ucast (lane8 new_val i)) blen (0, 0, 0) in
        if diffs = 1 \<and> ((ucast (ov - nv) :: u8) \<le> of_nat ARITH_MAX \<or> (ucast (nv - ov) :: u8) \<le> of_nat ARITH_MAX) then True
        else if blen = 1 then False
        else let (diffs, ov, nv) = lane_diffs (\<lambda>i. ucast (lane16 old_val i)) (\<lambda>i. ucast (lane16 new_val i)) (blen div 2) (0, ov, nv);
                 ov' = (ucast (SWAP16 (ucast ov)) :: u32); nv' = ucast (SWAP16 (ucast nv)) in
          if diffs = 1 \<and> ((ucast (ov - nv) :: u16) \<le> of_nat ARITH_MAX \<or> (ucast (nv - ov) :: u16) \<le> of_nat ARITH_MAX) then True
          else if diffs = 1 \<and> ((ucast (ov' - nv') :: u16) \<le> of_nat ARITH_MAX \<or> (ucast (nv' - ov') :: u16) \<le> of_nat ARITH_MAX) then True
          else blen = 4 \<and>
            (old_val - new_val \<le> of_nat ARITH_MAX \<or> new_val - old_val \<le> of_nat ARITH_MAX \<or>
             SWAP32 old_val - SWAP32 new_val \<le> of_nat ARITH_MAX \<or> SWAP32 new_val - SWAP32 old_val \<le> of_nat ARITH_MAX))"

definition put8 :: "nat \<Rightarrow> u8 \<Rightarrow> u32 \<Rightarrow> u32" where
  "put8 i v old = (old AND NOT (push_bit (i * 8) 0xff)) OR push_bit (i * 8) (ucast v)"

definition put16 :: "nat \<Rightarrow> u16 \<Rightarrow> u32 \<Rightarrow> u32" where
  "put16 i v old = (old AND NOT (push_bit (i * 8) 0xffff)) OR push_bit (i * 8) (ucast v)"

definition could_be_interest :: "u32 \<Rightarrow> u32 \<Rightarrow> nat \<Rightarrow> bool \<Rightarrow> bool" where
  "could_be_interest old_val new_val blen check_le =
     (if old_val = new_val then True
      else if list_ex (\<lambda>i. list_ex (\<lambda>v. new_val = put8 i v old_val) interesting_8) [0 ..< blen] then True
      else if blen = 2 \<and> \<not> check_le then False
      else if list_ex (\<lambda>i. list_ex (\<lambda>v. new_val = put16 i v old_val \<or> blen > 2 \<and> new_val = put16 i (SWAP16 v) old_val)
                interesting_16) [0 ..< blen - 1] then True
      else blen = 4 \<and> check_le \<and> list_ex (\<lambda>v. new_val = v) interesting_32)"

text \<open>\<open>next_p2\<close>: the shift drops the top bit, so above \<^verbatim>\<open>2^31\<close> the loop never ends.\<close>

partial_function (option) next_p2_loop :: "u32 \<Rightarrow> u32 \<Rightarrow> u32 option" where
  "next_p2_loop val ret = (if val > ret then next_p2_loop val (push_bit 1 ret) else Some ret)"

definition next_p2 :: "u32 \<Rightarrow> u32 option" where
  "next_p2 val = next_p2_loop val 1"

section \<open>What the filters accept\<close>

subsection \<open>Bit flips\<close>

lemma strip_zeros_spec:
  assumes "x \<noteq> 0" "strip_zeros sh x = (sh', y)"
  shows "sh \<le> sh' \<and> x = push_bit (sh' - sh) y \<and> y = drop_bit (sh' - sh) x \<and> odd y"
  using assms
proof (induction sh x rule: strip_zeros.induct)
  case (1 sh x)
  show ?case
  proof (cases "x AND 1 = 0")
    case True
    then have ev: "even x" by (simp add: and_one_eq even_iff_mod_2_eq_zero)
    then have "push_bit 1 (drop_bit 1 x) = x"
      using bits_ident [of 1 x] by (simp only: take_bit_eq_mod power_one_right even_iff_mod_2_eq_zero add_0_right)
    with 1(2) have d: "drop_bit 1 x \<noteq> 0" "x = push_bit 1 (drop_bit 1 x)" by (metis push_bit_of_0, simp)
    from 1(3) True 1(2) have "strip_zeros (sh + 1) (drop_bit 1 x) = (sh', y)"
      by (subst (asm) strip_zeros.simps) simp
    then have IH: "sh + 1 \<le> sh'" "drop_bit 1 x = push_bit (sh' - (sh + 1)) y"
      "y = drop_bit (sh' - (sh + 1)) (drop_bit 1 x)" "odd y"
      using 1(1) [OF _ d(1)] 1(2) True by blast+
    from IH(1) have sh: "sh' - sh = Suc (sh' - (sh + 1))" by simp
    have "x = push_bit (sh' - sh) y" unfolding sh by (metis IH(2) d(2) push_bit_push_bit plus_1_eq_Suc)
    moreover have "y = drop_bit (sh' - sh) x" unfolding sh by (metis IH(3) drop_bit_drop_bit Suc_eq_plus1)
    ultimately show ?thesis using IH(1,4) by simp
  next
    case False
    with 1 have "sh' = sh" "y = x" by (subst (asm) strip_zeros.simps; simp)+
    with False show ?thesis by (simp add: and_one_eq odd_iff_mod_2_eq_one)
  qed
qed

lemma strip_zeros_unique:
  assumes "x = push_bit sh (mask w)" "0 < w" "sh + w \<le> 32"
  shows "strip_zeros 0 x = (sh, mask w)"
proof -
  obtain sh' y where st: "strip_zeros 0 x = (sh', y)" by fastforce
  have b: "bit x n \<longleftrightarrow> sh \<le> n \<and> n < sh + w" for n
    using assms(2,3) by (auto simp: assms(1) bit_simps)
  have x: "x \<noteq> 0" using b [of sh] assms(2) by auto
  with st have y: "x = push_bit sh' y" "y = drop_bit sh' x" "odd y" using strip_zeros_spec by fastforce+
  have "sh' < 32" using x y(1) by (rule_tac ccontr) (simp add: push_bit_eq_0_iff)
  then have "bit x sh'" using y(3) by (subst y(1)) (simp add: bit_simps bit_0)
  moreover have "\<not> bit x n" if "n < sh'" for n using that by (subst y(1)) (simp add: bit_simps)
  ultimately have "sh' = sh" using b assms(2) by (meson linorder_neqE_nat not_less order_refl trans_less_add1 less_add_same_cancel1)
  moreover have "y = mask w"
    by (rule bit_word_eqI) (use b assms(3) in \<open>auto simp: y(2) \<open>sh' = sh\<close> bit_simps\<close>)
  ultimately show ?thesis using st by simp
qed

lemma ex_six:
  "(\<exists>w. (w \<in> {a, b, c} \<or> w \<in> {d, e, f} \<and> Q) \<and> P w) \<longleftrightarrow> P a \<or> P b \<or> P c \<or> (P d \<or> P e \<or> P f) \<and> Q"
  by auto

lemma mask_nums: "mask 1 = (1 :: u32)" "mask 2 = (3 :: u32)" "mask 4 = (15 :: u32)"
  "mask 8 = (0xff :: u32)" "mask 16 = (0xffff :: u32)" "mask 32 = (0xffffffff :: u32)"
  by (simp_all add: mask_eq_exp_minus_1)

text \<open>The flips the first stages perform: one, two or four bits anywhere; one, two or four bytes at a
  byte boundary.\<close>

definition flip_shape :: "nat \<Rightarrow> nat \<Rightarrow> bool" where
  "flip_shape sh w \<longleftrightarrow> w \<in> {1, 2, 4} \<or> w \<in> {8, 16, 32} \<and> sh mod 8 = 0"

lemma could_be_bitflip_iff:
  "could_be_bitflip x \<longleftrightarrow>
     x = 0 \<or> (\<exists>sh w. flip_shape sh w \<and> sh + w \<le> 32 \<and> x = push_bit sh (mask w))"
  (is "_ \<longleftrightarrow> x = 0 \<or> ?flip")
proof (cases "x = 0")
  case False
  obtain sh y where st: "strip_zeros 0 x = (sh, y)" by fastforce
  with False have y: "x = push_bit sh y" "y = drop_bit sh x" using strip_zeros_spec by fastforce+
  have fits: "sh + w \<le> 32" if "y = mask w" "0 < w" "w \<le> 32" for w
  proof -
    have "bit y (w - 1)" using that by (simp add: bit_simps)
    then have "bit x (sh + (w - 1))" using y(2) by (simp add: bit_simps)
    then show ?thesis using that(2) by (auto dest: bit_imp_le_length)
  qed
  have acc: "could_be_bitflip x \<longleftrightarrow> (\<exists>w. flip_shape sh w \<and> y = mask w)"
  proof -
    have "(\<exists>w. flip_shape sh w \<and> y = mask w) \<longleftrightarrow>
        y = mask 1 \<or> y = mask 2 \<or> y = mask 4 \<or> (y = mask 8 \<or> y = mask 16 \<or> y = mask 32) \<and> sh mod 8 = 0"
      unfolding flip_shape_def by (rule ex_six)
    then show ?thesis
      unfolding could_be_bitflip_def st mask_nums using False by simp
  qed
  have "?flip \<longleftrightarrow> (\<exists>w. flip_shape sh w \<and> y = mask w)"
  proof
    assume ?flip
    then obtain sh' w where w: "flip_shape sh' w" "sh' + w \<le> 32" "x = push_bit sh' (mask w)"
      by blast
    then have "sh = sh'" "y = mask w" using strip_zeros_unique [of x sh' w] st by (auto simp: flip_shape_def)
    with w show "\<exists>w. flip_shape sh w \<and> y = mask w" by auto
  next
    assume "\<exists>w. flip_shape sh w \<and> y = mask w"
    then obtain w where w: "flip_shape sh w" "y = mask w" by blast
    moreover have "0 < w" "w \<le> 32" using w(1) by (auto simp: flip_shape_def)
    ultimately show ?flip using fits y(1) by blast
  qed
  with acc False show ?thesis by simp
qed (simp add: could_be_bitflip_def)

subsection \<open>Powers of two\<close>

lemma next_p2_loop_spec:
  assumes "unat val \<le> 2 ^ 31" "k \<le> 31" "k = 0 \<or> 2 ^ (k - 1) < unat val"
  shows "\<exists>m \<le> 31. next_p2_loop val (2 ^ k) = Some (2 ^ m) \<and> unat val \<le> 2 ^ m \<and> (m = 0 \<or> 2 ^ (m - 1) < unat val)"
  using assms
proof (induction "31 - k" arbitrary: k)
  case 0
  then have "k = 31" by simp
  then show ?case using 0 by (subst next_p2_loop.simps) (auto simp: word_less_nat_alt intro!: exI [of _ 31])
next
  case (Suc d)
  have k: "unat (2 ^ k :: u32) = 2 ^ k" using Suc.prems by (intro unat_two_power) simp
  show ?case
  proof (cases "val > 2 ^ k")
    case True
    then have "2 ^ k < unat val" using k by (simp add: word_less_nat_alt)
    then have "\<exists>m \<le> 31. next_p2_loop val (2 ^ Suc k) = Some (2 ^ m) \<and> unat val \<le> 2 ^ m \<and> (m = 0 \<or> 2 ^ (m - 1) < unat val)"
      using Suc by (intro Suc.hyps(1)) auto
    then show ?thesis using True by (subst next_p2_loop.simps) (simp add: push_bit_eq_mult mult.commute)
  next
    case False
    then show ?thesis using Suc.prems k
      by (subst next_p2_loop.simps) (auto simp: word_less_nat_alt intro!: exI [of _ k])
  qed
qed

text \<open>Up to \<^verbatim>\<open>2^31\<close> the loop ends with the least power of two that is not below its argument.\<close>

lemma next_p2_spec:
  assumes "unat val \<le> 2 ^ 31"
  shows "\<exists>m \<le> 31. next_p2 val = Some (2 ^ m) \<and> unat val \<le> 2 ^ m \<and> (\<forall>j. unat val \<le> 2 ^ j \<longrightarrow> m \<le> j)"
proof -
  obtain m where m: "m \<le> 31" "next_p2_loop val (2 ^ 0) = Some (2 ^ m)" "unat val \<le> 2 ^ m" "m = 0 \<or> 2 ^ (m - 1) < unat val"
    using next_p2_loop_spec [OF assms, of 0] by auto
  have "m \<le> j" if "unat val \<le> 2 ^ j" for j
  proof (rule ccontr)
    assume "\<not> m \<le> j"
    then have "2 ^ j \<le> (2 :: nat) ^ (m - 1)" by (intro power_increasing) auto
    moreover have "2 ^ (m - 1) < unat val" using m(4) \<open>\<not> m \<le> j\<close> by simp
    ultimately show False using that by linarith
  qed
  with m show ?thesis by (auto simp: next_p2_def)
qed

lemma next_p2_loop_diverges:
  assumes "next_p2_loop val ret = Some y"
  shows "2 ^ 31 < unat val \<longrightarrow> \<not> (ret = 0 \<or> (\<exists>k \<le> 31. ret = 2 ^ k))"
proof (rule next_p2_loop.raw_induct [OF _ assms])
  fix loop :: "u32 \<Rightarrow> u32 \<Rightarrow> u32 option" and val ret y :: u32
  assume IH: "\<And>val ret y. loop val ret = Some y \<Longrightarrow> 2 ^ 31 < unat val \<longrightarrow> \<not> (ret = 0 \<or> (\<exists>k \<le> 31. ret = 2 ^ k))"
    and res: "(if ret < val then loop val (push_bit 1 ret) else Some ret) = Some y"
  show "2 ^ 31 < unat val \<longrightarrow> \<not> (ret = 0 \<or> (\<exists>k \<le> 31. ret = 2 ^ k))"
  proof (intro impI notI)
    assume big: "2 ^ 31 < unat val" and ret: "ret = 0 \<or> (\<exists>k \<le> 31. ret = 2 ^ k)"
    have less: "ret < val"
    proof -
      from ret have "unat ret \<le> 2 ^ 31"
        by (auto simp: unat_two_power power_increasing [of _ 31 "2 :: nat", simplified])
      with big show ?thesis by (simp add: word_less_nat_alt)
    qed
    have "push_bit 1 ret = 0 \<or> (\<exists>k \<le> 31. push_bit 1 ret = 2 ^ k)"
    proof (cases "\<exists>k \<le> 30. ret = 2 ^ k")
      case True
      then obtain k where "k \<le> 30" "ret = 2 ^ k" by blast
      then have "Suc k \<le> 31" "push_bit 1 ret = 2 ^ Suc k" by (simp_all add: push_bit_eq_mult mult.commute)
      then show ?thesis by blast
    next
      case False
      have "\<And>k. k \<le> 31 \<Longrightarrow> \<not> k \<le> 30 \<Longrightarrow> k = (31 :: nat)" by linarith
      with ret False have "ret = 0 \<or> ret = 2 ^ 31" by metis
      then show ?thesis by (auto simp: push_bit_eq_mult)
    qed
    moreover have "loop val (push_bit 1 ret) = Some y" using res less by simp
    ultimately show False using IH big by blast
  qed
qed

lemma next_p2_total_iff: "(\<exists>p. next_p2 val = Some p) \<longleftrightarrow> unat val \<le> 2 ^ 31"
proof
  assume "\<exists>p. next_p2 val = Some p"
  then obtain p where "next_p2_loop val 1 = Some p" by (auto simp: next_p2_def)
  then have "2 ^ 31 < unat val \<longrightarrow> \<not> (1 = (0 :: u32) \<or> (\<exists>k \<le> 31. 1 = (2 :: u32) ^ k))" by (rule next_p2_loop_diverges)
  moreover have "\<exists>k \<le> 31. 1 = (2 :: u32) ^ k" by (rule exI [of _ 0]) simp
  ultimately show "unat val \<le> 2 ^ 31" by (meson not_less)
next
  assume "unat val \<le> 2 ^ 31"
  then show "\<exists>p. next_p2 val = Some p" using next_p2_spec by blast
qed

subsection \<open>Arithmetic\<close>

definition near :: "'a::len word \<Rightarrow> 'a word \<Rightarrow> bool" where
  "near a b \<longleftrightarrow> (\<exists>j \<le> ARITH_MAX. b = a + of_nat j \<or> b = a - of_nat j)"

lemma le_of_nat_iff:
  assumes "n < 2 ^ LENGTH('a::len)"
  shows "(w :: 'a word) \<le> of_nat n \<longleftrightarrow> (\<exists>j \<le> n. w = of_nat j)"
proof -
  have u: "unat (of_nat n :: 'a word) = n"
    using assms by (simp add: unat_of_nat take_bit_nat_eq_self_iff)
  show ?thesis
  proof
    assume "w \<le> of_nat n"
    then have "unat w \<le> n" "w = of_nat (unat w)" by (simp_all add: word_le_nat_alt u)
    then show "\<exists>j \<le> n. w = of_nat j" by blast
  next
    assume "\<exists>j \<le> n. w = of_nat j"
    then show "w \<le> of_nat n" using assms
      by (auto simp: word_le_nat_alt u unat_of_nat intro: order_trans [OF take_bit_nat_less_eq_self])
  qed
qed

lemma near_iff:
  fixes a b :: "'a::len word"
  assumes "ARITH_MAX < 2 ^ LENGTH('a)"
  shows "near a b \<longleftrightarrow> a - b \<le> of_nat ARITH_MAX \<or> b - a \<le> of_nat ARITH_MAX"
proof -
  have "a - b = c \<longleftrightarrow> b = a - c" "b - a = c \<longleftrightarrow> b = a + c" for c by (auto simp: algebra_simps)
  then show ?thesis unfolding near_def le_of_nat_iff [OF assms] by blast
qed

lemma lane_diffs_spec:
  "lane_diffs a b n (0, ov, nv) =
     (let d = filter (\<lambda>i. a i \<noteq> b i) [0 ..< n] in
      (length d, if d = [] then ov else a (last d), if d = [] then nv else b (last d)))"
  unfolding lane_diffs_def by (induction n) (auto simp: Let_def)

lemma single_filter_iff:
  "length (filter P [0 ..< n]) = 1 \<and> Q (last (filter P [0 ..< n])) \<longleftrightarrow>
     (\<exists>i < n. P i \<and> (\<forall>j < n. P j \<longrightarrow> j = i) \<and> Q i)"
proof (cases "length (filter P [0 ..< n]) = 1")
  case True
  then obtain i where i: "filter P [0 ..< n] = [i]" by (metis One_nat_def length_0_conv length_Suc_conv)
  then have m: "j \<in> set (filter P [0 ..< n]) \<longleftrightarrow> j = i" for j by (simp del: set_filter)
  then have "j < n \<and> P j \<longleftrightarrow> j = i" for j by (simp only: set_filter set_upt mem_Collect_eq atLeastLessThan_iff) simp
  then have "i < n" "P i" "\<forall>j < n. P j \<longrightarrow> j = i" by blast+
  then have "Q i \<longleftrightarrow> (\<exists>i < n. P i \<and> (\<forall>j < n. P j \<longrightarrow> j = i) \<and> Q i)" by blast
  with i show ?thesis by simp
next
  case False
  have "\<not> (\<exists>i < n. P i \<and> (\<forall>j < n. P j \<longrightarrow> j = i))"
  proof
    assume "\<exists>i < n. P i \<and> (\<forall>j < n. P j \<longrightarrow> j = i)"
    then obtain i where i: "i < n" "P i" "\<forall>j < n. P j \<longrightarrow> j = i" by blast
    have "j \<in> set (filter P [0 ..< n]) \<longleftrightarrow> j \<in> {i}" for j
    proof
      assume "j \<in> set (filter P [0 ..< n])"
      then have "j < n" "P j" by simp_all
      then have "j = i" using i(3) by blast
      then show "j \<in> {i}" by blast
    next
      assume "j \<in> {i}"
      then have "j = i" by blast
      then show "j \<in> set (filter P [0 ..< n])" using i(1,2) by simp
    qed
    then have "set (filter P [0 ..< n]) = {i}" by (rule set_eqI)
    moreover have "distinct (filter P [0 ..< n])" by simp
    ultimately have "length (filter P [0 ..< n]) = card {i}" by (metis distinct_card)
    with False show False by simp
  qed
  with False show ?thesis by blast
qed

text \<open>One lane of the old value, eight or sixteen bits wide and aligned, differs from the new one.\<close>

definition one_lane :: "(u32 \<Rightarrow> nat \<Rightarrow> 'a::len word) \<Rightarrow> nat \<Rightarrow> (nat \<Rightarrow> bool) \<Rightarrow> u32 \<Rightarrow> u32 \<Rightarrow> bool" where
  "one_lane lane n Q old new \<longleftrightarrow>
     (\<exists>i < n. lane old i \<noteq> lane new i \<and> (\<forall>j < n. lane old j \<noteq> lane new j \<longrightarrow> j = i) \<and> Q i)"

lemma ucast_u32_back: "LENGTH('a::len) \<le> 32 \<Longrightarrow> ucast (ucast x :: u32) = (x :: 'a word)"
  by (rule bit_word_eqI) (simp add: bit_ucast_iff)

lemma lanes_one:
  fixes lane :: "u32 \<Rightarrow> nat \<Rightarrow> 'a::len word"
  assumes "LENGTH('a) \<le> 32" "lane_diffs (\<lambda>i. ucast (lane old i)) (\<lambda>i. ucast (lane new i)) n (0, ov0, nv0) = (d, ov, nv)"
  shows "d = 1 \<and> Q (ucast ov) (ucast nv) \<longleftrightarrow> one_lane lane n (\<lambda>i. Q (lane old i) (lane new i)) old new"
proof -
  let ?D = "filter (\<lambda>i. lane old i \<noteq> lane new i) [0 ..< n]"
  have inj: "(ucast x :: u32) = ucast y \<longleftrightarrow> x = y" for x y :: "'a word"
    using assms(1) by (metis ucast_u32_back)
  have "d = length ?D" "?D \<noteq> [] \<Longrightarrow> ov = ucast (lane old (last ?D)) \<and> nv = ucast (lane new (last ?D))"
    using assms(2) unfolding lane_diffs_spec inj by (auto simp: Let_def)
  then have "d = 1 \<and> Q (ucast ov) (ucast nv) \<longleftrightarrow>
      length ?D = 1 \<and> Q (lane old (last ?D)) (lane new (last ?D))"
    using assms(1) by (cases "?D = []") (auto simp: ucast_u32_back)
  also have "\<dots> \<longleftrightarrow> one_lane lane n (\<lambda>i. Q (lane old i) (lane new i)) old new"
    unfolding one_lane_def by (rule single_filter_iff)
  finally show ?thesis .
qed

text \<open>The values \<open>could_be_arith\<close> accepts: those within \<^verbatim>\<open>ARITH_MAX\<close> of the old value in one aligned
  lane of one, two or four bytes (the other lanes unchanged), in either byte order.\<close>

definition arith_reach :: "nat \<Rightarrow> u32 \<Rightarrow> u32 \<Rightarrow> bool" where
  "arith_reach blen old new \<longleftrightarrow> old = new \<or>
     one_lane lane8 blen (\<lambda>i. near (lane8 old i) (lane8 new i)) old new \<or>
     blen \<noteq> 1 \<and> one_lane lane16 (blen div 2)
       (\<lambda>i. near (lane16 old i) (lane16 new i) \<or> near (SWAP16 (lane16 old i)) (SWAP16 (lane16 new i))) old new \<or>
     blen = 4 \<and> (near old new \<or> near (SWAP32 old) (SWAP32 new))"

lemma could_be_arith_iff: "could_be_arith old new blen \<longleftrightarrow> arith_reach blen old new"
proof (cases "old = new")
  case False
  obtain d ov nv where l8: "lane_diffs (\<lambda>i. ucast (lane8 old i)) (\<lambda>i. ucast (lane8 new i)) blen (0, 0, 0) = (d, ov, nv)"
    by (metis prod_cases3)
  obtain d' ov' nv' where l16: "lane_diffs (\<lambda>i. ucast (lane16 old i)) (\<lambda>i. ucast (lane16 new i)) (blen div 2) (0, ov, nv) = (d', ov', nv')"
    by (metis prod_cases3)
  have fits: "ARITH_MAX < 2 ^ LENGTH(8)" "ARITH_MAX < 2 ^ LENGTH(16)" "ARITH_MAX < 2 ^ LENGTH(32)"
    by (simp_all add: ARITH_MAX_def)
  have down: "is_down (ucast :: u32 \<Rightarrow> u8)" "is_down (ucast :: u32 \<Rightarrow> u16)" by (simp_all add: is_down)
  have c8: "(ucast (x - y :: u32) :: u8) = ucast x - ucast y" and c16: "(ucast (x - y :: u32) :: u16) = ucast x - ucast y" for x y
    unfolding word_sub_wi [of x y] ucast_down_wi [OF down(1)] ucast_down_wi [OF down(2)]
    by (simp_all only: ucast_eq flip: wi_hom_sub)
  have b16: "ucast (ucast x :: u32) = x" for x :: u16 by (rule ucast_u32_back) simp
  have e8: "d = 1 \<and> near (ucast ov :: u8) (ucast nv) \<longleftrightarrow> one_lane lane8 blen (\<lambda>i. near (lane8 old i) (lane8 new i)) old new"
    by (rule lanes_one [OF _ l8]) simp
  have e16: "d' = 1 \<and> (near (ucast ov' :: u16) (ucast nv') \<or> near (SWAP16 (ucast ov')) (SWAP16 (ucast nv'))) \<longleftrightarrow>
      one_lane lane16 (blen div 2)
       (\<lambda>i. near (lane16 old i) (lane16 new i) \<or> near (SWAP16 (lane16 old i)) (SWAP16 (lane16 new i))) old new"
    by (rule lanes_one [OF _ l16]) simp
  show ?thesis
    unfolding could_be_arith_def arith_reach_def l8 prod.case Let_def l16 c8 c16 b16
      near_iff [OF fits(1), symmetric] near_iff [OF fits(2), symmetric] near_iff [OF fits(3), symmetric]
      disj_assoc [symmetric] e8 [symmetric] e16 [symmetric]
    using False by auto
qed (simp add: could_be_arith_def arith_reach_def)

end
