(* ===== verification/Afl_Exec.thy ===== *)
theory Afl_Exec
  imports Afl_Checks
begin

text \<open>
  Running the target, from \<^verbatim>\<open>docker/AFL/afl-fuzz.c\<close>: \<open>run_target\<close>, \<open>calibrate_case\<close>,
  \<open>describe_op\<close>, \<open>save_if_interesting\<close>, \<open>common_fuzz_stuff\<close>, \<open>trim_case\<close> and \<open>calculate_score\<close>,
  with \<open>hash32\<close> of \<^verbatim>\<open>docker/AFL/hash.h\<close>. The fuzzed program is a parameter of the state: what the
  \<^emph>\<open>n\<close>-th execution on a given input under a given timeout is observed to do. Signals that arrive
  during a run (Ctrl-C, SIGUSR1) are part of the observation. A FATAL or PFATAL exit of the
  process is \<^const>\<open>None\<close>.
\<close>

section \<open>State\<close>

datatype fault = FAULT_NONE | FAULT_TMOUT | FAULT_CRASH | FAULT_ERROR | FAULT_NOINST | FAULT_NOBITS

datatype stage_val = STAGE_VAL_NONE | STAGE_VAL_LE | STAGE_VAL_BE

datatype wait_status = Signaled nat | Exited nat

record run_obs =
  status :: wait_status
  child_timed_out :: bool
  raw_trace :: "u8 list"
  exec_ms :: nat
  got_sigint :: bool
  got_sigusr1 :: bool

datatype run_result = Comm_error bool | Run run_obs

record afl_exec = afl_dict +
  target :: "nat \<Rightarrow> u8 list \<Rightarrow> nat \<Rightarrow> run_result"
  fsrv_hello :: nat
  post_handler :: "(u8 list \<Rightarrow> u8 list option) option"
  freq_src :: "nat \<Rightarrow> nat"
  exec_pos :: nat
  freq_pos :: nat
  testcase :: "u8 list"
  forksrv_pid :: nat
  stop_soon :: bool
  skip_requested :: bool
  exec_tmout :: nat
  hang_tmout :: nat
  crash_mode :: fault
  dumb_forksrv :: bool
  no_forkserver :: bool
  uses_asan :: bool
  fast_cal :: bool
  resuming_fuzz :: bool
  exit_when_done :: bool
  bench_until_crash :: bool
  kill_signal :: nat
  slowest_exec_ms :: nat
  total_execs :: nat
  total_crashes :: nat
  total_tmouts :: nat
  unique_crashes :: nat
  unique_tmouts :: nat
  unique_hangs :: nat
  last_crash_time :: nat
  last_hang_time :: nat
  last_crash_execs :: nat
  subseq_tmouts :: nat
  cur_skipped_paths :: nat
  total_cal_us :: u64
  total_cal_cycles :: u64
  total_bitmap_size :: u64
  total_bitmap_entries :: u64
  var_byte_count :: nat
  start_time :: u64
  last_ms :: u64
  last_stats_ms :: u64
  stats_update_freq :: nat
  stage_short :: string
  stage_cur :: int
  stage_max :: int
  stage_cur_byte :: int
  stage_cur_val :: int
  stage_val_type :: stage_val
  current_entry :: nat
  splicing_with :: int
  syncing_party :: "string option"
  syncing_case :: nat
  bytes_trim_in :: nat
  bytes_trim_out :: nat
  trim_execs :: nat
  crash_readme :: "u8 list"
  tried :: "u8 list list"

definition KEEP_UNIQUE_HANG :: nat where "KEEP_UNIQUE_HANG = 500"
definition KEEP_UNIQUE_CRASH :: nat where "KEEP_UNIQUE_CRASH = 5000"
definition TMOUT_LIMIT :: nat where "TMOUT_LIMIT = 250"
definition CAL_CYCLES :: nat where "CAL_CYCLES = 8"
definition CAL_CYCLES_LONG :: nat where "CAL_CYCLES_LONG = 40"
definition MSAN_ERROR :: nat where "MSAN_ERROR = 86"
definition EXEC_FAIL_SIG :: u32 where "EXEC_FAIL_SIG = 0xfee1dead"
definition HASH_CONST :: u32 where "HASH_CONST = 0xa5b35705"

section \<open>Checksums\<close>

definition ROL64 :: "u64 \<Rightarrow> nat \<Rightarrow> u64" where
  "ROL64 x r = push_bit r x OR drop_bit (64 - r) x"

primrec hash32_loop :: "nat \<Rightarrow> u8 list \<Rightarrow> u64 \<Rightarrow> u64" where
  "hash32_loop 0 key h1 = h1"
| "hash32_loop (Suc n) key h1 =
     (let k1 = (load_le (take 8 key) :: u64) * 0x87c37b91114253d5;
          k2 = ROL64 k1 31 * 0x4cf5ad432745937f
      in hash32_loop n (drop 8 key) (ROL64 (h1 XOR k2) 27 * 5 + 0x52dce729))"

definition hash32 :: "u8 list \<Rightarrow> u32 \<Rightarrow> u32" where
  "hash32 key seed =
     (let h1 = hash32_loop (length key div 8) key (ucast (seed XOR of_nat (length key)));
          h2 = (h1 XOR drop_bit 33 h1) * 0xff51afd7ed558ccd;
          h3 = (h2 XOR drop_bit 33 h2) * 0xc4ceb9fe1a85ec53
      in ucast (h3 XOR drop_bit 33 h3))"

section \<open>The status screen\<close>

text \<open>The part of \<open>show_stats\<close> that feeds back into fuzzing: the refresh rate, the ten-minute mark,
  the periodic save of tokens and bitmap, and the two environment variables that end a session.
  The smoothed execution speed, a floating-point value, only determines the next refresh
  interval, which is read from a stream.\<close>

definition write_bitmap :: "'a afl_exec_scheme \<Rightarrow> 'a afl_exec_scheme" where
  "write_bitmap s =
     (if \<not> bitmap_changed s then s
      else s\<lparr>bitmap_changed := False, files := (files s)(out_dir s @ ''/fuzz_bitmap'' \<mapsto> virgin_bits s)\<rparr>)"

definition show_stats :: "'a afl_exec_scheme \<Rightarrow> 'a afl_exec_scheme" where
  "show_stats s =
     (let (cur, s1) = get_cur_time s; cur_ms = of_nat cur :: u64 in
      if cur_ms - last_ms s1 < 200 then s1
      else let
        s2 = (if cur_ms - start_time s1 > 600000 then s1\<lparr>run_over10m := True\<rparr> else s1);
        s3 = s2\<lparr>last_ms := cur_ms, stats_update_freq := max 1 (freq_src s2 (freq_pos s2)), freq_pos := freq_pos s2 + 1\<rparr>;
        s4 = (if cur_ms - last_stats_ms s3 > 60000 then write_bitmap (save_auto (s3\<lparr>last_stats_ms := cur_ms\<rparr>)) else s3);
        s5 = (if \<not> dumb_mode s4 \<and> cycles_wo_finds s4 > 100 \<and> pending_not_fuzzed s4 = 0 \<and> exit_when_done s4
              then s4\<lparr>stop_soon := True\<rparr> else s4)
      in (if total_crashes s5 > 0 \<and> bench_until_crash s5 then s5\<lparr>stop_soon := True\<rparr> else s5))"

section \<open>Executing the target\<close>

definition use_execve :: "'a afl_exec_scheme \<Rightarrow> bool" where
  "use_execve s \<longleftrightarrow> (dumb_mode s \<and> \<not> dumb_forksrv s) \<or> no_forkserver s"

text \<open>The fork server either completes its handshake, under some process id, or the fuzzer gives
  up.\<close>

definition init_forkserver :: "'a afl_exec_scheme \<Rightarrow> 'a afl_exec_scheme option" where
  "init_forkserver s = (if fsrv_hello s = 0 then None else Some (s\<lparr>forksrv_pid := fsrv_hello s\<rparr>))"

definition shm_region :: "u8 list \<Rightarrow> u8 list" where
  "shm_region raw = take MAP_SIZE (raw @ replicate MAP_SIZE 0)"

definition wexitstatus :: "wait_status \<Rightarrow> nat" where
  "wexitstatus st = (case st of Exited c \<Rightarrow> c | Signaled _ \<Rightarrow> 0)"

definition run_outcome :: "nat \<Rightarrow> run_obs \<Rightarrow> 'a afl_exec_scheme \<Rightarrow> fault \<times> 'a afl_exec_scheme" where
  "run_outcome timeout ob s =
     (case (status ob, stop_soon s) of
        (Signaled sig, False) \<Rightarrow>
          ((if child_timed_out ob \<and> sig = 9 then FAULT_TMOUT else FAULT_CRASH), s\<lparr>kill_signal := sig\<rparr>)
      | (st, _) \<Rightarrow>
          (if uses_asan s \<and> wexitstatus st = MSAN_ERROR then (FAULT_CRASH, s\<lparr>kill_signal := 0\<rparr>)
           else if use_execve s \<and> (load_le (take 4 (shm_region (raw_trace ob))) :: u32) = EXEC_FAIL_SIG then (FAULT_ERROR, s)
           else (FAULT_NONE, if \<not> timeout > exec_tmout s \<and> slowest_exec_ms s < exec_ms ob
                             then s\<lparr>slowest_exec_ms := exec_ms ob\<rparr> else s)))"

definition run_target :: "nat \<Rightarrow> 'a afl_exec_scheme \<Rightarrow> (fault \<times> 'a afl_exec_scheme) option" where
  "run_target timeout s =
     (let r = target s (exec_pos s) (testcase s) timeout;
          s1 = s\<lparr>trace_bits := replicate MAP_SIZE 0, exec_pos := exec_pos s + 1\<rparr>
      in case r of
        Comm_error sigint \<Rightarrow>
          (let s2 = s1\<lparr>stop_soon := stop_soon s1 \<or> sigint\<rparr>
           in if \<not> use_execve s2 \<and> stop_soon s2 then Some (FAULT_NONE, s2) else None)
      | Run ob \<Rightarrow>
          (let s2 = s1\<lparr>stop_soon := stop_soon s1 \<or> got_sigint ob, skip_requested := skip_requested s1 \<or> got_sigusr1 ob,
                       total_execs := total_execs s1 + 1, trace_bits := classify_counts (shm_region (raw_trace ob))\<rparr>
           in Some (run_outcome timeout ob s2)))"

definition write_to_testcase :: "u8 list \<Rightarrow> nat \<Rightarrow> 'a afl_exec_scheme \<Rightarrow> 'a afl_exec_scheme option" where
  "write_to_testcase mem l s = (if l \<le> length mem then Some (s\<lparr>testcase := take l mem\<rparr>) else None)"

definition write_with_gap :: "u8 list \<Rightarrow> nat \<Rightarrow> nat \<Rightarrow> nat \<Rightarrow> 'a afl_exec_scheme \<Rightarrow> 'a afl_exec_scheme option" where
  "write_with_gap mem l skip_at skip_len s =
     (if skip_at + skip_len \<le> l \<and> l \<le> length mem
      then Some (s\<lparr>testcase := take skip_at mem @ drop (skip_at + skip_len) (take l mem)\<rparr>) else None)"

section \<open>Calibration\<close>

record cal_state =
  cal_fault :: fault
  new_bits :: u8
  var_detected :: bool
  first_trace :: "u8 list"

definition mark_var_bytes :: "u8 list \<Rightarrow> u8 list \<Rightarrow> u8 list \<Rightarrow> u8 list" where
  "mark_var_bytes vb ft tr = map2 (\<lambda>v d. if v = 0 \<and> d then 1 else v) vb (map2 (\<lambda>f t. f \<noteq> t) ft tr)"

definition cal_check :: "nat \<Rightarrow> nat \<Rightarrow> cal_state \<times> 'a afl_exec_scheme \<Rightarrow> nat \<times> cal_state \<times> 'a afl_exec_scheme" where
  "cal_check q mx = (\<lambda>(c, s).
     let cksum = hash32 (trace_bits s) HASH_CONST in
     if exec_cksum (queue s ! q) \<noteq> cksum
     then let (hnb, s1) = has_new_bits VIRGIN_BITS s; c1 = c\<lparr>new_bits := max (new_bits c) hnb\<rparr> in
       if exec_cksum (queue s1 ! q) \<noteq> 0
       then let vb = mark_var_bytes (var_bytes s1) (first_trace c1) (trace_bits s1)
            in (if vb \<noteq> var_bytes s1 then CAL_CYCLES_LONG else mx, c1\<lparr>var_detected := True\<rparr>, s1\<lparr>var_bytes := vb\<rparr>)
       else (mx, c1\<lparr>first_trace := trace_bits s1\<rparr>, upd_entry q (\<lambda>e. e\<lparr>exec_cksum := cksum\<rparr>) s1)
     else (mx, c, s))"

definition cal_body :: "nat \<Rightarrow> u8 list \<Rightarrow> nat \<Rightarrow> bool \<Rightarrow> nat \<Rightarrow> nat \<Rightarrow> cal_state \<times> 'a afl_exec_scheme \<Rightarrow>
    (bool \<times> nat \<times> cal_state \<times> 'a afl_exec_scheme) option" where
  "cal_body q use_mem use_tmout first_run cur mx = (\<lambda>(c, s0). do {
     let s = s0\<lparr>stage_cur := int cur, stage_max := int mx\<rparr>;
     let s1 = (if \<not> first_run \<and> cur mod stats_update_freq s = 0 then show_stats s else s);
     s2 \<leftarrow> write_to_testcase use_mem (len (queue s1 ! q)) s1;
     (fault, s3) \<leftarrow> run_target use_tmout s2;
     (if stop_soon s3 \<or> fault \<noteq> crash_mode s3 then Some (True, mx, c\<lparr>cal_fault := fault\<rparr>, s3)
      else if \<not> dumb_mode s3 \<and> cur = 0 \<and> count_bytes (trace_bits s3) = 0
      then Some (True, mx, c\<lparr>cal_fault := FAULT_NOINST\<rparr>, s3)
      else let (mx', c', s4) = cal_check q mx (c\<lparr>cal_fault := fault\<rparr>, s3) in Some (False, mx', c', s4)) })"

lemma cal_body_max:
  assumes "cal_body q m t f cur mx cs = Some (b, mx', cs')"
  shows "mx' = mx \<or> mx' = CAL_CYCLES_LONG"
  using assms
  by (auto simp: cal_body_def cal_check_def Let_def split: prod.splits if_splits bind_splits)

function cal_loop :: "nat \<Rightarrow> u8 list \<Rightarrow> nat \<Rightarrow> bool \<Rightarrow> nat \<Rightarrow> nat \<Rightarrow> cal_state \<times> 'a afl_exec_scheme \<Rightarrow>
    (bool \<times> nat \<times> cal_state \<times> 'a afl_exec_scheme) option" where
  "cal_loop q use_mem use_tmout first_run cur mx cs =
     (if cur < mx
      then (case cal_body q use_mem use_tmout first_run cur mx cs of
              None \<Rightarrow> None
            | Some (True, mx', cs') \<Rightarrow> Some (True, mx', cs')
            | Some (False, mx', cs') \<Rightarrow> cal_loop q use_mem use_tmout first_run (cur + 1) mx' cs')
      else Some (False, mx, cs))"
  by pat_completeness auto
termination
  by (relation "measure (\<lambda>(q, m, t, f, cur, mx, cs). max CAL_CYCLES_LONG mx - cur)")
    (auto dest!: cal_body_max)

declare cal_loop.simps [simp del]

definition cal_tmout :: "bool \<Rightarrow> 'a afl_exec_scheme \<Rightarrow> nat" where
  "cal_tmout from_queue s =
     (if \<not> from_queue \<or> resuming_fuzz s then max (exec_tmout s + 50) (exec_tmout s * 125 div 100) else exec_tmout s)"

definition cal_stats :: "nat \<Rightarrow> nat \<Rightarrow> nat \<Rightarrow> nat \<Rightarrow> 'a afl_exec_scheme \<Rightarrow> 'a afl_exec_scheme" where
  "cal_stats q handi start_us mx s =
     (let (stop_us, s1) = get_cur_time_us s;
          us = of_nat stop_us - of_nat start_us :: u64;
          s2 = s1\<lparr>total_cal_us := total_cal_us s1 + us, total_cal_cycles := total_cal_cycles s1 + of_nat mx\<rparr>;
          bs = unat (count_bytes (trace_bits s2));
          s3 = upd_entry q (\<lambda>e. e\<lparr>exec_us := us div of_nat mx, bitmap_size := bs, handicap := handi, cal_failed := 0\<rparr>) s2
      in update_bitmap_score q
           (s3\<lparr>total_bitmap_size := total_bitmap_size s3 + of_nat bs, total_bitmap_entries := total_bitmap_entries s3 + 1\<rparr>))"

definition cal_finish :: "nat \<Rightarrow> cal_state \<Rightarrow> 'a afl_exec_scheme \<Rightarrow> 'a afl_exec_scheme option" where
  "cal_finish q c s = do {
     let s1 = (if new_bits c = 2 \<and> \<not> has_new_cov (queue s ! q)
               then (upd_entry q (\<lambda>e. e\<lparr>has_new_cov := True\<rparr>) s)\<lparr>queued_with_cov := queued_with_cov s + 1\<rparr> else s);
     (if var_detected c
      then do {
        let s2 = s1\<lparr>var_byte_count := unat (count_bytes (var_bytes s1))\<rparr>;
        (if \<not> var_behavior (queue s2 ! q)
         then do { s3 \<leftarrow> mark_as_variable q s2; Some (s3\<lparr>queued_variable := queued_variable s3 + 1\<rparr>) }
         else Some s2) }
      else Some s1) }"

definition cal_start :: "nat \<Rightarrow> 'a afl_exec_scheme \<Rightarrow> (cal_state \<times> 'a afl_exec_scheme) option" where
  "cal_start q s = do {
     let s1 = upd_entry q (\<lambda>e. e\<lparr>cal_failed := cal_failed e + 1\<rparr>) s;
     s2 \<leftarrow> (if \<not> use_execve s1 \<and> forksrv_pid s1 = 0 then init_forkserver s1 else Some s1);
     let c = \<lparr>cal_fault = FAULT_NONE, new_bits = 0, var_detected = False, first_trace = replicate MAP_SIZE 0\<rparr>;
     (if exec_cksum (queue s2 ! q) \<noteq> 0
      then let (hnb, s3) = has_new_bits VIRGIN_BITS s2
           in Some (c\<lparr>first_trace := trace_bits s2, new_bits := hnb\<rparr>, s3)
      else Some (c, s2)) }"

definition calibrate_case :: "nat \<Rightarrow> u8 list \<Rightarrow> nat \<Rightarrow> bool \<Rightarrow> 'a afl_exec_scheme \<Rightarrow> (fault \<times> 'a afl_exec_scheme) option" where
  "calibrate_case q use_mem handi from_queue s = do {
     let first_run = (exec_cksum (queue s ! q) = 0);
     (c, s1) \<leftarrow> cal_start q s;
     let (start_us, s2) = get_cur_time_us s1;
     (aborted, mx, c', s3) \<leftarrow>
       cal_loop q use_mem (cal_tmout from_queue s) first_run 0 (if fast_cal s then 3 else CAL_CYCLES) (c, s2);
     let s4 = (if aborted then s3 else cal_stats q handi start_us mx s3);
     let fault = (if \<not> aborted \<and> \<not> dumb_mode s4 \<and> first_run \<and> cal_fault c' = FAULT_NONE \<and> new_bits c' = 0
                  then FAULT_NOBITS else cal_fault c');
     s5 \<leftarrow> cal_finish q c' s4;
     let s6 = s5\<lparr>stage_cur := stage_cur s, stage_max := stage_max s\<rparr>;
     Some (fault, if first_run then s6 else show_stats s6) }"

section \<open>Keeping test cases\<close>

definition show_signed :: "int \<Rightarrow> string" where
  "show_signed v = (if v < 0 then CHR ''-'' # show_nat (nat (- v)) else CHR ''+'' # show_nat (nat v))"

definition describe_op :: "u8 \<Rightarrow> 'a afl_exec_scheme \<Rightarrow> string" where
  "describe_op hnb s =
     (case syncing_party s of
        Some p \<Rightarrow> ''sync:'' @ p @ '',src:'' @ pad0 6 (syncing_case s)
      | None \<Rightarrow>
          ''src:'' @ pad0 6 (current_entry s) @
          (if splicing_with s \<ge> 0 then ''+'' @ pad0 6 (nat (splicing_with s)) else []) @
          '',op:'' @ stage_short s @
          (if stage_cur_byte s \<ge> 0
           then '',pos:'' @ show_nat (nat (stage_cur_byte s)) @
                (if stage_val_type s \<noteq> STAGE_VAL_NONE
                 then '',val:'' @ (if stage_val_type s = STAGE_VAL_BE then ''be:'' else []) @ show_signed (stage_cur_val s)
                 else [])
           else '',rep:'' @ show_nat (nat (stage_cur_val s mod 2 ^ 32)))) @
     (if hnb = 2 then '',+cov'' else [])"

definition write_crash_readme :: "'a afl_exec_scheme \<Rightarrow> 'a afl_exec_scheme" where
  "write_crash_readme s =
     (case create_excl (out_dir s @ ''/crashes/README.txt'') (crash_readme s) s of None \<Rightarrow> s | Some t \<Rightarrow> t)"

definition keep_in_queue :: "u8 list \<Rightarrow> u8 \<Rightarrow> 'a afl_exec_scheme \<Rightarrow> 'a afl_exec_scheme option" where
  "keep_in_queue mem hnb s = do {
     let fn = out_dir s @ ''/queue/id:'' @ pad0 6 (queued_paths s) @ '','' @ describe_op hnb s;
     let s1 = add_to_queue fn (length mem) False s;
     let top = length (queue s1) - 1;
     let s2 = (if hnb = 2
               then (upd_entry top (\<lambda>e. e\<lparr>has_new_cov := True\<rparr>) s1)\<lparr>queued_with_cov := queued_with_cov s1 + 1\<rparr> else s1);
     let s3 = upd_entry top (\<lambda>e. e\<lparr>exec_cksum := hash32 (trace_bits s2) HASH_CONST\<rparr>) s2;
     (res, s4) \<leftarrow> calibrate_case top mem ((queue_cycle s3 + (2 ^ 32 - 1)) mod 2 ^ 32) False s3;
     (if res = FAULT_ERROR then None else create_excl fn mem s4) }"

definition keep_crash :: "u8 list \<Rightarrow> 'a afl_exec_scheme \<Rightarrow> 'a afl_exec_scheme option" where
  "keep_crash mem s =
     (let s1 = s\<lparr>total_crashes := total_crashes s + 1\<rparr> in
      if unique_crashes s1 \<ge> KEEP_UNIQUE_CRASH then Some s1
      else let
        (hnb, s2) = (if dumb_mode s1 then (1, s1)
                     else has_new_bits VIRGIN_CRASH (s1\<lparr>trace_bits := simplify_trace (trace_bits s1)\<rparr>))
      in if hnb = 0 then Some s2
      else let
        s3 = (if unique_crashes s2 = 0 then write_crash_readme s2 else s2);
        fn = out_dir s3 @ ''/crashes/id:'' @ pad0 6 (unique_crashes s3) @ '',sig:'' @ pad0 2 (kill_signal s3) @ '','' @ describe_op 0 s3;
        (t, s4) = get_cur_time (s3\<lparr>unique_crashes := unique_crashes s3 + 1\<rparr>)
      in create_excl fn mem (s4\<lparr>last_crash_time := t, last_crash_execs := total_execs s4\<rparr>))"

definition save_hang :: "u8 list \<Rightarrow> 'a afl_exec_scheme \<Rightarrow> 'a afl_exec_scheme option" where
  "save_hang mem s =
     (let fn = out_dir s @ ''/hangs/id:'' @ pad0 6 (unique_hangs s) @ '','' @ describe_op 0 s;
          (t, s1) = get_cur_time (s\<lparr>unique_hangs := unique_hangs s + 1\<rparr>)
      in create_excl fn mem (s1\<lparr>last_hang_time := t\<rparr>))"

definition keep_tmout :: "u8 list \<Rightarrow> 'a afl_exec_scheme \<Rightarrow> 'a afl_exec_scheme option" where
  "keep_tmout mem s =
     (let s1 = s\<lparr>total_tmouts := total_tmouts s + 1\<rparr> in
      if unique_hangs s1 \<ge> KEEP_UNIQUE_HANG then Some s1
      else let
        (hnb, s2) = (if dumb_mode s1 then (1, s1)
                     else has_new_bits VIRGIN_TMOUT (s1\<lparr>trace_bits := simplify_trace (trace_bits s1)\<rparr>))
      in if hnb = 0 then Some s2
      else let s3 = s2\<lparr>unique_tmouts := unique_tmouts s2 + 1\<rparr> in
        if exec_tmout s3 < hang_tmout s3
        then do {
          s4 \<leftarrow> write_to_testcase mem (length mem) s3;
          (new_fault, s5) \<leftarrow> run_target (hang_tmout s4) s4;
          (if \<not> stop_soon s5 \<and> new_fault = FAULT_CRASH then keep_crash mem s5
           else if stop_soon s5 \<or> new_fault \<noteq> FAULT_TMOUT then Some s5
           else save_hang mem s5) }
        else save_hang mem s3)"

definition save_if_interesting :: "u8 list \<Rightarrow> fault \<Rightarrow> 'a afl_exec_scheme \<Rightarrow> (bool \<times> 'a afl_exec_scheme) option" where
  "save_if_interesting mem fault s = do {
     let (hnb, s1) = (if fault = crash_mode s then has_new_bits VIRGIN_BITS s else (0, s));
     (if fault = crash_mode s \<and> hnb = 0
      then Some (False, if crash_mode s1 \<noteq> FAULT_NONE then s1\<lparr>total_crashes := total_crashes s1 + 1\<rparr> else s1)
      else do {
        let keeping = (fault = crash_mode s);
        s2 \<leftarrow> (if keeping then keep_in_queue mem hnb s1 else Some s1);
        s3 \<leftarrow> (case fault of
                 FAULT_TMOUT \<Rightarrow> keep_tmout mem s2
               | FAULT_CRASH \<Rightarrow> keep_crash mem s2
               | FAULT_ERROR \<Rightarrow> None
               | _ \<Rightarrow> Some s2);
        Some (keeping, s3) }) }"

text \<open>The list \<open>tried\<close> records what the stages hand over, for the statements about them; nothing
  reads it.\<close>

definition common_fuzz_stuff :: "u8 list \<Rightarrow> 'a afl_exec_scheme \<Rightarrow> (bool \<times> 'a afl_exec_scheme) option" where
  "common_fuzz_stuff out_buf s0 = do {
     let s = s0\<lparr>tried := tried s0 @ [out_buf]\<rparr>;
     (case (case post_handler s of None \<Rightarrow> Some out_buf | Some h \<Rightarrow> h out_buf) of
        None \<Rightarrow> Some (False, s)
      | Some buf \<Rightarrow>
          if post_handler s \<noteq> None \<and> buf = [] then Some (False, s)
          else do {
            s1 \<leftarrow> write_to_testcase buf (length buf) s;
            (fault, s2) \<leftarrow> run_target (exec_tmout s1) s1;
            (if stop_soon s2 then Some (True, s2)
             else if fault = FAULT_TMOUT \<and> subseq_tmouts s2 > TMOUT_LIMIT
             then Some (True, s2\<lparr>subseq_tmouts := subseq_tmouts s2 + 1, cur_skipped_paths := cur_skipped_paths s2 + 1\<rparr>)
             else let s3 = s2\<lparr>subseq_tmouts := (if fault = FAULT_TMOUT then subseq_tmouts s2 + 1 else 0)\<rparr> in
               if skip_requested s3
               then Some (True, s3\<lparr>skip_requested := False, cur_skipped_paths := cur_skipped_paths s3 + 1\<rparr>)
               else do {
                 (k, s4) \<leftarrow> save_if_interesting buf fault s3;
                 let s5 = s4\<lparr>queued_discovered := queued_discovered s4 + of_bool k\<rparr>;
                 Some (False, if stage_cur s5 mod int (stats_update_freq s5) = 0 \<or> stage_cur s5 + 1 = stage_max s5
                              then show_stats s5 else s5) }) }) }"

section \<open>Trimming\<close>

definition TRIM_MIN_BYTES :: nat where "TRIM_MIN_BYTES = 4"
definition TRIM_START_STEPS :: nat where "TRIM_START_STEPS = 16"
definition TRIM_END_STEPS :: nat where "TRIM_END_STEPS = 1024"

lemmas trim_consts = TRIM_MIN_BYTES_def TRIM_START_STEPS_def TRIM_END_STEPS_def

record trim_state =
  remove_pos :: nat
  len_p2 :: nat
  needs_write :: bool
  clean_trace :: "u8 list"
  trim_buf :: "u8 list"
  trim_exec :: nat
  trim_fault :: fault

abbreviation next_p2_nat :: "nat \<Rightarrow> nat option" where
  "next_p2_nat n \<equiv> map_option unat (next_p2 (of_nat n))"

definition trim_keep :: "nat \<Rightarrow> nat \<Rightarrow> trim_state \<times> 'a afl_exec_scheme \<Rightarrow> (trim_state \<times> 'a afl_exec_scheme) option" where
  "trim_keep q trim_avail = (\<lambda>(t, s). do {
     let l = len (queue s ! q);
     let s1 = upd_entry q (\<lambda>e. e\<lparr>len := l - trim_avail\<rparr>) s;
     p2 \<leftarrow> next_p2_nat (l - trim_avail);
     buf \<leftarrow> memmove (trim_buf t) (remove_pos t) (remove_pos t + trim_avail) (l - remove_pos t - trim_avail);
     Some (t\<lparr>len_p2 := p2, trim_buf := buf, needs_write := True,
             clean_trace := (if needs_write t then clean_trace t else trace_bits s)\<rparr>, s1) })"

definition trim_step :: "nat \<Rightarrow> nat \<Rightarrow> trim_state \<times> 'a afl_exec_scheme \<Rightarrow>
    (bool \<times> trim_state \<times> 'a afl_exec_scheme) option" where
  "trim_step q remove_len = (\<lambda>(t, s). do {
     let l = len (queue s ! q);
     let trim_avail = min remove_len (l - remove_pos t);
     s1 \<leftarrow> write_with_gap (trim_buf t) l (remove_pos t) trim_avail s;
     (fault, s2) \<leftarrow> run_target (exec_tmout s1) s1;
     let s3 = s2\<lparr>trim_execs := trim_execs s2 + 1\<rparr>;
     let t1 = t\<lparr>trim_fault := fault\<rparr>;
     (if stop_soon s3 \<or> fault = FAULT_ERROR then Some (True, t1, s3)
      else do {
        (t2, s4) \<leftarrow> (if hash32 (trace_bits s3) HASH_CONST = exec_cksum (queue s3 ! q)
                     then trim_keep q trim_avail (t1, s3)
                     else Some (t1\<lparr>remove_pos := remove_pos t1 + remove_len\<rparr>, s3));
        let s5 = (if trim_exec t2 mod stats_update_freq s4 = 0 then show_stats s4 else s4);
        Some (False, t2\<lparr>trim_exec := trim_exec t2 + 1\<rparr>, s5\<lparr>stage_cur := stage_cur s5 + 1\<rparr>) }) })"

text \<open>The inner loop, with one unit of fuel per execution: each either shortens the input or moves the
  cut forward.\<close>

primrec trim_pass :: "nat \<Rightarrow> nat \<Rightarrow> nat \<Rightarrow> trim_state \<times> 'a afl_exec_scheme \<Rightarrow>
    (bool \<times> trim_state \<times> 'a afl_exec_scheme) option" where
  "trim_pass 0 q remove_len ts = None"
| "trim_pass (Suc fuel) q remove_len ts =
     (if remove_pos (fst ts) < len (queue (snd ts) ! q)
      then (case trim_step q remove_len ts of
              None \<Rightarrow> None
            | Some (stop, ts') \<Rightarrow> (if stop then Some (True, ts') else trim_pass fuel q remove_len ts'))
      else Some (False, ts))"

function trim_loop :: "nat \<Rightarrow> nat \<Rightarrow> trim_state \<times> 'a afl_exec_scheme \<Rightarrow>
    (bool \<times> trim_state \<times> 'a afl_exec_scheme) option" where
  "trim_loop q remove_len ts =
     (if remove_len \<ge> max (len_p2 (fst ts) div TRIM_END_STEPS) TRIM_MIN_BYTES
      then (case trim_pass (len (queue (snd ts) ! q) + 1) q remove_len
                  ((fst ts)\<lparr>remove_pos := remove_len\<rparr>,
                   (snd ts)\<lparr>stage_cur := 0, stage_max := int (len (queue (snd ts) ! q) div remove_len)\<rparr>) of
              None \<Rightarrow> None
            | Some (stop, ts') \<Rightarrow> (if stop then Some (True, ts') else trim_loop q (remove_len div 2) ts'))
      else Some (False, ts))"
  by pat_completeness auto
termination
  by (relation "measure (\<lambda>(q, r, ts). r)") (auto simp: TRIM_MIN_BYTES_def)

declare trim_loop.simps [simp del]

definition trim_write :: "nat \<Rightarrow> trim_state \<Rightarrow> 'a afl_exec_scheme \<Rightarrow> 'a afl_exec_scheme option" where
  "trim_write q t s = do {
     let fn = fname (queue s ! q);
     s1 \<leftarrow> create_excl fn (take (len (queue s ! q)) (trim_buf t)) (case unlink fn s of None \<Rightarrow> s | Some u \<Rightarrow> u);
     Some (update_bitmap_score q (s1\<lparr>trace_bits := clean_trace t\<rparr>)) }"

definition trim_case :: "nat \<Rightarrow> u8 list \<Rightarrow> 'a afl_exec_scheme \<Rightarrow> (fault \<times> u8 list \<times> 'a afl_exec_scheme) option" where
  "trim_case q in_buf s =
     (let l = len (queue s ! q) in
      if l < 5 then Some (FAULT_NONE, in_buf, s)
      else do {
        let s1 = s\<lparr>bytes_trim_in := bytes_trim_in s + l\<rparr>;
        p2 \<leftarrow> next_p2_nat l;
        let t = \<lparr>remove_pos = 0, len_p2 = p2, needs_write = False, clean_trace = [], trim_buf = in_buf,
                 trim_exec = 0, trim_fault = FAULT_NONE\<rparr>;
        (stop, t1, s2) \<leftarrow> trim_loop q (max (p2 div TRIM_START_STEPS) TRIM_MIN_BYTES) (t, s1);
        s3 \<leftarrow> (if \<not> stop \<and> needs_write t1 then trim_write q t1 s2 else Some s2);
        Some (trim_fault t1, trim_buf t1, s3\<lparr>bytes_trim_out := bytes_trim_out s3 + len (queue s3 ! q)\<rparr>) })"

section \<open>Scheduling weight\<close>

definition HAVOC_MAX_MULT :: nat where "HAVOC_MAX_MULT = 16"

text \<open>The comparisons and products with decimal fractions are exact on the integers they are applied
  to, so they are written over the integers.\<close>

definition speed_score :: "nat \<Rightarrow> nat \<Rightarrow> nat" where
  "speed_score us avg =
     (if us > 10 * avg then 10
      else if us > 4 * avg then 25
      else if us > 2 * avg then 50
      else if 3 * us > 4 * avg then 75
      else if us * 4 < avg then 300
      else if us * 3 < avg then 200
      else if us * 2 < avg then 150
      else 100)"

definition coverage_score :: "nat \<Rightarrow> nat \<Rightarrow> nat \<Rightarrow> nat" where
  "coverage_score bs avg p =
     (if 3 * bs > 10 * avg then p * 3
      else if bs > 2 * avg then p * 2
      else if 3 * bs > 4 * avg then p * 3 div 2
      else if bs * 3 < avg then p div 4
      else if bs * 2 < avg then p div 2
      else if 3 * bs < 2 * avg then p * 3 div 4
      else p)"

definition depth_score :: "nat \<Rightarrow> nat \<Rightarrow> nat" where
  "depth_score d p =
     (if d \<le> 3 then p else if d \<le> 7 then p * 2 else if d \<le> 13 then p * 3 else if d \<le> 25 then p * 4 else p * 5)"

definition calculate_score :: "nat \<Rightarrow> 'a afl_exec_scheme \<Rightarrow> (nat \<times> 'a afl_exec_scheme) option" where
  "calculate_score q s =
     (if total_cal_cycles s = 0 \<or> total_bitmap_entries s = 0 then None
      else let
        e = queue s ! q;
        avg_exec_us = unat (ucast (total_cal_us s div total_cal_cycles s) :: u32);
        avg_bitmap_size = unat (ucast (total_bitmap_size s div total_bitmap_entries s) :: u32);
        p1 = coverage_score (bitmap_size e) avg_bitmap_size (speed_score (unat (exec_us e)) avg_exec_us);
        (p2, h) = (if handicap e \<ge> 4 then (p1 * 4, handicap e - 4)
                   else if handicap e > 0 then (p1 * 2, handicap e - 1) else (p1, handicap e));
        p3 = depth_score (depth e) p2
      in Some (min p3 (HAVOC_MAX_MULT * 100), upd_entry q (\<lambda>e. e\<lparr>handicap := h\<rparr>) s))"

end
