(* ===== verification/Afl_Exec_Laws.thy ===== *)
theory Afl_Exec_Laws
  imports Afl_Exec
begin

text \<open>
  What running test cases leaves alone and what it establishes: a frame relation that every
  operation of \<^verbatim>\<open>Afl_Exec\<close> respects (the stage registers, the options, the dictionaries and the
  entries already in the queue), the caps on kept crashes and hangs, which test cases are kept, and
  what trimming does.
\<close>

section \<open>The frame\<close>

definition maps_ok :: "'a afl_map_scheme \<Rightarrow> bool" where
  "maps_ok s \<longleftrightarrow> length (trace_bits s) = MAP_SIZE \<and> length (virgin_bits s) = MAP_SIZE \<and>
     length (virgin_tmout s) = MAP_SIZE \<and> length (virgin_crash s) = MAP_SIZE \<and> length (var_bytes s) = MAP_SIZE"

definition caps_ok :: "'a afl_exec_scheme \<Rightarrow> bool" where
  "caps_ok s \<longleftrightarrow> unique_crashes s \<le> KEEP_UNIQUE_CRASH \<and> unique_hangs s \<le> KEEP_UNIQUE_HANG"

definition options :: "'a afl_exec_scheme \<Rightarrow> _" where
  "options s = ((target s, fsrv_hello s, post_handler s, freq_src s, exec_tmout s, hang_tmout s, crash_mode s, dumb_mode s),
     (dumb_forksrv s, no_forkserver s, uses_asan s, fast_cal s, resuming_fuzz s, out_dir s, in_dir s, extras s, a_extras s),
     (queue_cycle s, random_src s, random_pos s, rand_cnt s, urandom_src s, urandom_pos s, crash_readme s, tried s, cur_depth s),
     (current_entry s, splicing_with s, syncing_party s, syncing_case s, stage_short s, stage_cur_byte s, stage_cur_val s, stage_val_type s),
     stage_cur s, stage_max s, afl_exec.more s)"

definition identity :: "queue_entry \<Rightarrow> _" where
  "identity e = (fname e, len e, depth e, was_fuzzed e, passed_det e, trim_done e)"

definition queue_same :: "'a afl_exec_scheme \<Rightarrow> 'a afl_exec_scheme \<Rightarrow> bool" where
  "queue_same s t \<longleftrightarrow> length (queue t) = length (queue s) \<and>
     (\<forall>i < length (queue s). identity (queue t ! i) = identity (queue s ! i))"

definition keeps_most :: "'a afl_exec_scheme \<Rightarrow> 'a afl_exec_scheme \<Rightarrow> bool" where
  "keeps_most s t \<longleftrightarrow> (maps_ok s \<longrightarrow> maps_ok t) \<and> (skip_inv s \<longrightarrow> skip_inv t) \<and> (caps_ok s \<longrightarrow> caps_ok t) \<and>
     (0 < stats_update_freq s \<longrightarrow> 0 < stats_update_freq t) \<and> (pending_inv s \<longrightarrow> pending_inv t)"

definition keeps_invs :: "'a afl_exec_scheme \<Rightarrow> 'a afl_exec_scheme \<Rightarrow> bool" where
  "keeps_invs s t \<longleftrightarrow> keeps_most s t \<and> (refs_inv s \<longrightarrow> refs_inv t)"

lemmas keeps_defs = keeps_invs_def keeps_most_def

text \<open>The frame, and the frame without the ratings, which are broken for a moment while a slot of the map
  changes hands.\<close>

definition open_frame :: "'a afl_exec_scheme \<Rightarrow> 'a afl_exec_scheme \<Rightarrow> bool" where
  "open_frame s t \<longleftrightarrow> options t = options s \<and> queue_same s t \<and> keeps_most s t"

definition frame :: "'a afl_exec_scheme \<Rightarrow> 'a afl_exec_scheme \<Rightarrow> bool" where
  "frame s t \<longleftrightarrow> options t = options s \<and> queue_same s t \<and> keeps_invs s t"

lemma frame_open: "frame s t \<longleftrightarrow> open_frame s t \<and> (refs_inv s \<longrightarrow> refs_inv t)"
  by (auto simp: frame_def open_frame_def keeps_invs_def)

lemma open_frame_refl [simp]: "open_frame s s"
  by (simp add: open_frame_def queue_same_def keeps_defs)

lemma frame_refl [simp]: "frame s s"
  by (simp add: frame_open)

lemma queue_same_trans: "queue_same s t \<Longrightarrow> queue_same t u \<Longrightarrow> queue_same s u"
  by (simp add: queue_same_def)

lemma open_frame_trans [trans]: "open_frame s t \<Longrightarrow> open_frame t u \<Longrightarrow> open_frame s u"
  unfolding open_frame_def keeps_most_def using queue_same_trans by auto

lemma frame_trans [trans]: "frame s t \<Longrightarrow> frame t u \<Longrightarrow> frame s u"
  unfolding frame_open using open_frame_trans by blast

text \<open>A change outside everything the frame mentions, and a change of an entry.\<close>

lemma open_frame_silent:
  assumes "options t = options s" "queue t = queue s" "q_prev100 t = q_prev100 s" "queued_paths t = queued_paths s"
    "length (trace_bits t) = length (trace_bits s)" "length (virgin_bits t) = length (virgin_bits s)"
    "length (virgin_tmout t) = length (virgin_tmout s)" "length (virgin_crash t) = length (virgin_crash s)"
    "length (var_bytes t) = length (var_bytes s)" "unique_crashes t = unique_crashes s" "unique_hangs t = unique_hangs s"
    "stats_update_freq s \<le> stats_update_freq t \<or> 0 < stats_update_freq t" "pending_not_fuzzed t = pending_not_fuzzed s"
  shows "open_frame s t"
  using assms by (auto simp: open_frame_def queue_same_def keeps_most_def maps_ok_def skip_inv_def caps_ok_def pending_inv_def)

lemma refs_silent:
  assumes "queue t = queue s" "top_rated t = top_rated s" "length (trace_bits t) = length (trace_bits s)" "refs_inv s"
  shows "refs_inv t"
  using assms by (simp add: rating_inv_for_def slots_def)

lemma frame_silent:
  assumes "options t = options s" "queue t = queue s" "q_prev100 t = q_prev100 s" "queued_paths t = queued_paths s"
    "length (trace_bits t) = length (trace_bits s)" "length (virgin_bits t) = length (virgin_bits s)"
    "length (virgin_tmout t) = length (virgin_tmout s)" "length (virgin_crash t) = length (virgin_crash s)"
    "length (var_bytes t) = length (var_bytes s)" "unique_crashes t = unique_crashes s" "unique_hangs t = unique_hangs s"
    "stats_update_freq s \<le> stats_update_freq t \<or> 0 < stats_update_freq t" "pending_not_fuzzed t = pending_not_fuzzed s"
    "top_rated t = top_rated s"
  shows "frame s t"
  unfolding frame_open using refs_silent [of t s] assms by (blast intro: open_frame_silent)

lemma open_frame_upd_entry:
  assumes "\<And>e. identity (f e) = identity e" "\<And>e. next_100 (f e) = next_100 e"
  shows "open_frame s (upd_entry q f s)"
proof -
  have "was_fuzzed (f (queue s ! q)) = was_fuzzed (queue s ! q)" using assms(1) [of "queue s ! q"] by (simp add: identity_def)
  then have "pending_inv s \<longrightarrow> pending_inv (upd_entry q f s)" by (simp add: pending_inv_def upd_entry_def unfuzzed_same)
  then show ?thesis
    using assms by (auto simp: open_frame_def queue_same_def keeps_most_def maps_ok_def skip_inv_def caps_ok_def options_def upd_entry_def nth_upd)
qed

lemma refs_upd_entry:
  assumes "\<And>e. tc_ref (f e) = tc_ref e" "\<And>e. trace_mini (f e) = trace_mini e" "refs_inv s"
  shows "refs_inv (upd_entry q f s)"
  by (rule rating_inv_flag [OF assms(3)]) (use assms(1,2) in \<open>auto simp: upd_entry_def nth_upd\<close>)

lemma frame_upd_entry:
  assumes "\<And>e. identity (f e) = identity e" "\<And>e. next_100 (f e) = next_100 e"
    "\<And>e. tc_ref (f e) = tc_ref e" "\<And>e. trace_mini (f e) = trace_mini e"
  shows "frame s (upd_entry q f s)"
  unfolding frame_open using open_frame_upd_entry [OF assms(1,2)] refs_upd_entry [OF assms(3,4)] by blast

lemma open_frame_fold:
  assumes "\<And>i t. open_frame t (f i t)"
  shows "open_frame s (fold f is s)"
proof (induction "is" arbitrary: s)
  case (Cons i "is")
  have "open_frame s (f i s)" by (rule assms)
  also have "open_frame (f i s) (fold f is (f i s))" by (rule Cons)
  finally show ?case by simp
qed simp

lemma frame_fold:
  assumes "\<And>i t. frame t (f i t)"
  shows "frame s (fold f is s)"
proof (induction "is" arbitrary: s)
  case (Cons i "is")
  have "frame s (f i s)" by (rule assms)
  also have "frame (f i s) (fold f is (f i s))" by (rule Cons)
  finally show ?case by simp
qed simp

lemma frame_save_auto: "frame s (save_auto s)"
proof (cases "auto_changed s")
  case True
  have "frame s (s\<lparr>auto_changed := False\<rparr>)" by (rule frame_silent) (simp_all add: options_def)
  also have "frame (s\<lparr>auto_changed := False\<rparr>) (save_auto s)"
    unfolding save_auto_def using True
    by (simp only: if_False not_True_eq_False) (rule frame_fold, rule frame_silent, simp_all add: options_def)
  finally show ?thesis .
qed (simp add: save_auto_def)

lemma frame_write_bitmap: "frame s (write_bitmap s)"
  by (rule frame_silent) (auto simp: options_def write_bitmap_def)

lemma frame_get_cur_time: "frame s (snd (get_cur_time s))" "frame s (snd (get_cur_time_us s))"
  by (rule frame_silent; simp add: options_def get_cur_time_def get_cur_time_us_def)+

lemma frame_show_stats: "frame s (show_stats s)"
proof -
  obtain cur s1 where g: "get_cur_time s = (cur, s1)" by fastforce
  then have f1: "frame s s1" using frame_get_cur_time(1) [of s] by simp
  show ?thesis
  proof (cases "(of_nat cur :: u64) - last_ms s1 < 200")
    case True
    then show ?thesis using f1 by (simp add: show_stats_def g)
  next
    case False
    define s2 where "s2 = (if (of_nat cur :: u64) - start_time s1 > 600000 then s1\<lparr>run_over10m := True\<rparr> else s1)"
    define s3 where "s3 = s2\<lparr>last_ms := of_nat cur, stats_update_freq := max 1 (freq_src s2 (freq_pos s2)), freq_pos := freq_pos s2 + 1\<rparr>"
    define s4 where "s4 = (if (of_nat cur :: u64) - last_stats_ms s3 > 60000 then write_bitmap (save_auto (s3\<lparr>last_stats_ms := of_nat cur\<rparr>)) else s3)"
    define s5 where "s5 = (if \<not> dumb_mode s4 \<and> cycles_wo_finds s4 > 100 \<and> pending_not_fuzzed s4 = 0 \<and> exit_when_done s4
              then s4\<lparr>stop_soon := True\<rparr> else s4)"
    define s6 where "s6 = (if total_crashes s5 > 0 \<and> bench_until_crash s5 then s5\<lparr>stop_soon := True\<rparr> else s5)"
    have "show_stats s = s6"
      using False by (simp only: show_stats_def g prod.case Let_def if_False s2_def s3_def s4_def s5_def s6_def)
    moreover have "frame s1 s2" by (rule frame_silent) (simp_all add: options_def s2_def)
    moreover have "frame s2 s3" by (rule frame_silent) (simp_all add: options_def s3_def less_max_iff_disj)
    moreover have "frame s3 s4"
    proof -
      have "frame s3 (s3\<lparr>last_stats_ms := of_nat cur\<rparr>)" by (rule frame_silent) (simp_all add: options_def)
      from frame_trans [OF frame_trans [OF this frame_save_auto] frame_write_bitmap] show ?thesis by (simp add: s4_def)
    qed
    moreover have "frame s4 s5" by (rule frame_silent) (simp_all add: options_def s5_def)
    moreover have "frame s5 s6" by (rule frame_silent) (simp_all add: options_def s6_def)
    ultimately show ?thesis using f1 by (metis frame_trans)
  qed
qed

lemma length_shm_region [simp]: "length (shm_region raw) = MAP_SIZE"
  by (simp add: shm_region_def)

lemma length_classify_counts [simp]: "length mem = MAP_SIZE \<Longrightarrow> length (classify_counts mem) = MAP_SIZE"
  unfolding classify_counts_def by (subst classify.loop_map_size) auto

lemma length_simplify_trace [simp]: "length mem = MAP_SIZE \<Longrightarrow> length (simplify_trace mem) = MAP_SIZE"
  unfolding simplify_trace_def by (subst simplify.loop_map_size) auto

lemma frame_has_new_bits: 
  assumes "maps_ok s" "has_new_bits v s = (r, t)"
  shows "frame s t" "queue t = queue s" "trace_bits t = trace_bits s"
proof -
  have "length (virgin_map v s) = MAP_SIZE" using assms(1) by (cases v) (simp_all add: maps_ok_def)
  then have t: "t = (let s1 = set_virgin_map v (clear_seen (virgin_map v s) (trace_bits s)) s
     in if r \<noteq> 0 \<and> v = VIRGIN_BITS then s1\<lparr>bitmap_changed := True\<rparr> else s1)"
    using assms by (auto simp: has_new_bits_unfold maps_ok_def Let_def)
  show "frame s t" unfolding t Let_def
    by (rule frame_silent; cases v; use assms(1) in \<open>simp add: options_def clear_seen_def maps_ok_def\<close>)
  show "queue t = queue s" "trace_bits t = trace_bits s" unfolding t Let_def by (cases v; simp)+
qed

lemma run_target_outcome:
  assumes "run_target tm s = Some (f, t)"
  shows "frame s (t\<lparr>trace_bits := trace_bits s\<rparr>)" "length (trace_bits t) = MAP_SIZE" "queue t = queue s"
    "exec_pos t = exec_pos s + 1" "unique_hangs t = unique_hangs s"
    "stop_soon t \<or> (\<exists>ob. target s (exec_pos s) (testcase s) tm = Run ob \<and> trace_bits t = classify_counts (shm_region (raw_trace ob)))"
proof -
  consider sig where "t = s\<lparr>trace_bits := replicate MAP_SIZE 0, exec_pos := exec_pos s + 1, stop_soon := stop_soon s \<or> sig\<rparr>"
      "stop_soon s \<or> sig"
    | ob where "target s (exec_pos s) (testcase s) tm = Run ob"
      "(f, t) = run_outcome tm ob (s\<lparr>exec_pos := exec_pos s + 1,
         stop_soon := stop_soon s \<or> got_sigint ob, skip_requested := skip_requested s \<or> got_sigusr1 ob, total_execs := total_execs s + 1,
         trace_bits := classify_counts (shm_region (raw_trace ob))\<rparr>)"
    using assms by (auto simp: run_target_def Let_def split: run_result.splits if_splits)
  note c = this
  have o: "u = s\<lparr>kill_signal := kill_signal u, slowest_exec_ms := slowest_exec_ms u\<rparr>" if "(f, u) = run_outcome tm ob s" for f u ob s
    using that by (auto simp: run_outcome_def split: wait_status.splits if_splits prod.splits bool.splits)
  show "frame s (t\<lparr>trace_bits := trace_bits s\<rparr>)"
    using c
  proof cases
    case (1 sig)
    show ?thesis unfolding 1(1) by (rule frame_silent) (simp_all add: options_def)
  next
    case (2 ob)
    show ?thesis by (subst o [OF 2(2)], rule frame_silent) (simp_all add: options_def)
  qed
  have "length (trace_bits t) = MAP_SIZE \<and> queue t = queue s \<and> exec_pos t = exec_pos s + 1 \<and>
    unique_hangs t = unique_hangs s \<and>
    (stop_soon t \<or> (\<exists>ob. target s (exec_pos s) (testcase s) tm = Run ob \<and> trace_bits t = classify_counts (shm_region (raw_trace ob))))"
    using c
  proof cases
    case (2 ob)
    from o [OF 2(2)] have "trace_bits t = classify_counts (shm_region (raw_trace ob))" "queue t = queue s" "exec_pos t = exec_pos s + 1"
      "unique_hangs t = unique_hangs s"
      by (auto dest: arg_cong [of t _ trace_bits] arg_cong [of t _ queue] arg_cong [of t _ exec_pos] arg_cong [of t _ unique_hangs])
    with 2(1) show ?thesis by simp
  qed simp_all
  then show "length (trace_bits t) = MAP_SIZE" "queue t = queue s" "exec_pos t = exec_pos s + 1" "unique_hangs t = unique_hangs s"
    "stop_soon t \<or> (\<exists>ob. target s (exec_pos s) (testcase s) tm = Run ob \<and> trace_bits t = classify_counts (shm_region (raw_trace ob)))"
    by blast+
qed

lemma frame_run_target:
  assumes "run_target tm s = Some (f, t)"
  shows "frame s t"
proof -
  have "options (t\<lparr>trace_bits := x\<rparr>) = options t" "queue_same s (t\<lparr>trace_bits := x\<rparr>) = queue_same s t" 
    "skip_inv (t\<lparr>trace_bits := x\<rparr>) = skip_inv t" "caps_ok (t\<lparr>trace_bits := x\<rparr>) = caps_ok t" "pending_inv (t\<lparr>trace_bits := x\<rparr>) = pending_inv t" for x
    by (simp_all add: options_def queue_same_def skip_inv_def caps_ok_def pending_inv_def)
  moreover have "refs_inv t" if "refs_inv (t\<lparr>trace_bits := trace_bits s\<rparr>)"
    using that run_target_outcome(2) [OF assms] by (simp add: rating_inv_for_def slots_def)
  ultimately show ?thesis using run_target_outcome(1,2) [OF assms] by (simp add: frame_def keeps_defs maps_ok_def)
qed

lemma frame_write_to_testcase: "write_to_testcase mem l s = Some t \<Longrightarrow> frame s t"
  by (auto simp: write_to_testcase_def options_def split: if_splits intro!: frame_silent)

lemma frame_write_with_gap: "write_with_gap mem l a b s = Some t \<Longrightarrow> frame s t"
  by (auto simp: write_with_gap_def options_def split: if_splits intro!: frame_silent)

lemma frame_create_excl: "create_excl fn c s = Some t \<Longrightarrow> frame s t"
  by (auto simp: create_excl_def options_def split: if_splits intro!: frame_silent)

lemma frame_init_forkserver: "init_forkserver s = Some t \<Longrightarrow> frame s t"
  by (auto simp: init_forkserver_def options_def split: if_splits intro!: frame_silent)

lemma frame_mark_as_variable:
  assumes "mark_as_variable q s = Some t"
  shows "frame s t"
proof -
  obtain fn c u where "create_excl fn c s = Some u" "t = upd_entry q (\<lambda>e. e\<lparr>var_behavior := True\<rparr>) u"
    using assms by (auto simp: mark_as_variable_def Let_def split: bind_splits)
  moreover have "frame u (upd_entry q (\<lambda>e. e\<lparr>var_behavior := True\<rparr>) u)"
    by (rule frame_upd_entry) (simp_all add: identity_def)
  ultimately show ?thesis by (metis frame_create_excl frame_trans)
qed

lemma open_frame_update_bitmap_score: "open_frame s (update_bitmap_score q s)"
  unfolding update_bitmap_score_def
proof (rule open_frame_fold)
  fix ff i and s :: "'a afl_exec_scheme"
  have rel: "open_frame s (release_slot w s)" for w and s :: "'a afl_exec_scheme"
    unfolding release_slot_def by (rule open_frame_upd_entry) (simp_all add: identity_def Let_def)
  have win: "open_frame s (win_slot q i s)" for s :: "'a afl_exec_scheme"
  proof -
    define s1 where "s1 = s\<lparr>top_rated := (top_rated s)[i := Some q]\<rparr>"
    define s2 where "s2 = upd_entry q (\<lambda>e. e\<lparr>tc_ref := tc_ref e + 1\<rparr>) s1"
    define s3 where "s3 = (if trace_mini (queue s2 ! q) = None
      then upd_entry q (\<lambda>e. e\<lparr>trace_mini := Some (minimize_bits (replicate (MAP_SIZE div 8) 0) (trace_bits s2))\<rparr>) s2 else s2)"
    have "open_frame s s1" by (rule open_frame_silent) (simp_all add: options_def s1_def)
    also have "open_frame s1 s2" unfolding s2_def by (rule open_frame_upd_entry) (simp_all add: identity_def)
    also have "open_frame s2 s3" unfolding s3_def by (auto intro!: open_frame_upd_entry simp: identity_def)
    also have "open_frame s3 (s3\<lparr>score_changed := True\<rparr>)" by (rule open_frame_silent) (simp_all add: options_def)
    finally show ?thesis by (simp only: win_slot_def Let_def s1_def s2_def s3_def)
  qed
  show "open_frame s (score_body q ff i s)"
    unfolding score_body_def using win win [of "release_slot _ s"] rel [of s] by (auto split: option.splits intro: open_frame_trans)
qed

lemma frame_update_bitmap_score: "q < length (queue s) \<Longrightarrow> frame s (update_bitmap_score q s)"
  unfolding frame_open using open_frame_update_bitmap_score update_bitmap_score_inv [of False s q] by auto

section \<open>Calibration\<close>

text \<open>Calibration uses the stage counters and puts them back; between, they are left out of the
  comparison.\<close>

definition xframe :: "'a afl_exec_scheme \<Rightarrow> 'a afl_exec_scheme \<Rightarrow> bool" where
  "xframe s t \<longleftrightarrow> frame (s\<lparr>stage_cur := 0, stage_max := 0\<rparr>) (t\<lparr>stage_cur := 0, stage_max := 0\<rparr>)"

lemma regs_invs:
  "refs_inv (s\<lparr>stage_cur := a, stage_max := b\<rparr>) = refs_inv s" "pending_inv (s\<lparr>stage_cur := a, stage_max := b\<rparr>) = pending_inv s"
  "maps_ok (s\<lparr>stage_cur := a, stage_max := b\<rparr>) = maps_ok s" "skip_inv (s\<lparr>stage_cur := a, stage_max := b\<rparr>) = skip_inv s"
  "caps_ok (s\<lparr>stage_cur := a, stage_max := b\<rparr>) = caps_ok s"
  by (simp_all add: rating_inv_for_def slots_def pending_inv_def maps_ok_def skip_inv_def caps_ok_def)

lemma frame_regs:
  "frame s t \<Longrightarrow> frame (s\<lparr>stage_cur := a, stage_max := b\<rparr>) (t\<lparr>stage_cur := a, stage_max := b\<rparr>)"
  by (auto simp: frame_def queue_same_def keeps_defs options_def regs_invs)

lemma xframe_regs: "xframe s t \<Longrightarrow> frame s (t\<lparr>stage_cur := stage_cur s, stage_max := stage_max s\<rparr>)"
  using frame_regs [of "s\<lparr>stage_cur := 0, stage_max := 0\<rparr>" "t\<lparr>stage_cur := 0, stage_max := 0\<rparr>", where a = "stage_cur s" and b = "stage_max s"]
  by (simp add: xframe_def)

lemma frame_xframe: "frame s t \<Longrightarrow> xframe s t"
  by (simp add: xframe_def frame_regs)

lemma xframe_refl [simp]: "xframe s s" "xframe s (s\<lparr>stage_cur := a, stage_max := b\<rparr>)"
  by (simp_all add: xframe_def)

lemma xframe_trans [trans]: "xframe s t \<Longrightarrow> xframe t u \<Longrightarrow> xframe s u"
  unfolding xframe_def by (rule frame_trans)

lemma xframe_maps: "xframe s t \<Longrightarrow> maps_ok s \<Longrightarrow> maps_ok t"
  by (auto simp: xframe_def frame_def keeps_defs maps_ok_def)

lemma xframe_queue:
  assumes "xframe s t"
  shows "length (queue t) = length (queue s)" "i < length (queue s) \<Longrightarrow> identity (queue t ! i) = identity (queue s ! i)"
  using assms by (auto simp: xframe_def frame_def queue_same_def)

abbreviation cal_ok :: "cal_state \<times> 'a afl_exec_scheme \<Rightarrow> bool" where
  "cal_ok cs \<equiv> maps_ok (snd cs) \<and> length (first_trace (fst cs)) = MAP_SIZE"

lemma cal_check_frame:
  assumes "cal_ok (c, s)" "cal_check q mx (c, s) = (mx', c', t)"
  shows "xframe s t \<and> cal_ok (c', t)"
proof (cases "exec_cksum (queue s ! q) = hash32 (trace_bits s) HASH_CONST")
  case True
  with assms show ?thesis by (auto simp: cal_check_def)
next
  case False
  obtain hnb s1 where h: "has_new_bits VIRGIN_BITS s = (hnb, s1)" by fastforce
  from frame_has_new_bits [OF _ h] assms(1) have f: "frame s s1" "queue s1 = queue s" "trace_bits s1 = trace_bits s" by auto
  then have m: "maps_ok s1" using assms(1) by (auto simp: frame_def keeps_defs)
  show ?thesis
  proof (cases "exec_cksum (queue s1 ! q) = 0")
    case True
    have "frame s1 (upd_entry q (\<lambda>e. e\<lparr>exec_cksum := hash32 (trace_bits s) HASH_CONST\<rparr>) s1)"
      by (rule frame_upd_entry) (simp_all add: identity_def)
    then have "frame s t" "maps_ok t" "c' = c\<lparr>new_bits := max (new_bits c) hnb, first_trace := trace_bits s1\<rparr>"
      using assms(2) False True h f(1) m
      by (auto simp: cal_check_def Let_def intro: frame_trans) (auto simp: frame_def keeps_defs)
    then show ?thesis using m by (auto simp: frame_xframe maps_ok_def)
  next
    case nz: False
    let ?vb = "mark_var_bytes (var_bytes s1) (first_trace c) (trace_bits s1)"
    have len: "length ?vb = length (var_bytes s1)" using m assms(1) by (simp add: mark_var_bytes_def maps_ok_def)
    have "frame s1 (s1\<lparr>var_bytes := ?vb\<rparr>)" by (rule frame_silent) (simp_all add: options_def len)
    moreover have "t = s1\<lparr>var_bytes := ?vb\<rparr>" "first_trace c' = first_trace c"
      using assms(2) False nz h by (auto simp: cal_check_def Let_def split: if_splits)
    ultimately show ?thesis using f(1) m assms(1) len
      by (auto intro: frame_xframe frame_trans simp: maps_ok_def)
  qed
qed

lemma cal_body_frame:
  assumes "cal_ok (c, s)" "cal_body q mem tm fr cur mx (c, s) = Some (b, mx', c', t)"
  shows "xframe s t \<and> cal_ok (c', t)"
proof -
  define s0 where "s0 = s\<lparr>stage_cur := int cur, stage_max := int mx\<rparr>"
  define s1 where "s1 = (if \<not> fr \<and> cur mod stats_update_freq s0 = 0 then show_stats s0 else s0)"
  from assms(2) obtain s2 fault s3 where r: "write_to_testcase mem (len (queue s1 ! q)) s1 = Some s2" "run_target tm s2 = Some (fault, s3)"
    unfolding cal_body_def prod.case s0_def [symmetric] Let_def s1_def [symmetric] by (auto split: bind_splits)
  have e: "b \<and> t = s3 \<and> first_trace c' = first_trace c \<or> (\<exists>c1. first_trace c1 = first_trace c \<and> cal_check q mx (c1, s3) = (mx', c', t))"
    using assms(2) unfolding cal_body_def prod.case s0_def [symmetric] Let_def s1_def [symmetric]
    by (simp add: r split: if_splits prod.splits) (auto intro!: exI [of _ "c\<lparr>cal_fault := fault\<rparr>"])
  have "xframe s s0" by (simp add: s0_def)
  also have "xframe s0 s1" using frame_xframe [OF frame_show_stats [of s0]] by (simp add: s1_def)
  also (xframe_trans) have "xframe s1 s3" using r by (meson frame_run_target frame_trans frame_write_to_testcase frame_xframe)
  finally have x: "xframe s s3" .
  with assms(1) have m: "maps_ok s3" by (simp add: xframe_maps)
  from e show ?thesis
  proof
    assume "\<exists>c1. first_trace c1 = first_trace c \<and> cal_check q mx (c1, s3) = (mx', c', t)"
    then obtain c1 where "first_trace c1 = first_trace c" "cal_check q mx (c1, s3) = (mx', c', t)" by blast
    then have "xframe s3 t \<and> cal_ok (c', t)" using m assms(1) by (intro cal_check_frame [of c1]) auto
    with x show ?thesis by (auto intro: xframe_trans)
  qed (use x m assms(1) in auto)
qed

lemma cal_loop_frame:
  assumes "cal_loop q mem tm fr cur mx cs = Some (b, mx', c', t)" "cal_ok cs"
  shows "xframe (snd cs) t \<and> cal_ok (c', t)"
  using assms
proof (induction q mem tm fr cur mx cs rule: cal_loop.induct)
  case (1 q mem tm fr cur mx cs)
  show ?case
  proof (cases "cur < mx")
    case True
    then obtain b1 mx1 c1 s1 where bd: "cal_body q mem tm fr cur mx cs = Some (b1, mx1, c1, s1)"
      using 1(2) by (subst (asm) cal_loop.simps) (auto split: option.splits)
    obtain c s where cs: "cs = (c, s)" by fastforce
    from cal_body_frame [OF _ bd [unfolded cs]] 1(3) have f: "xframe s s1 \<and> cal_ok (c1, s1)" by (simp add: cs)
    show ?thesis
    proof (cases b1)
      case True
      with 1(2) bd f \<open>cur < mx\<close> show ?thesis by (subst (asm) cal_loop.simps) (auto simp: cs)
    next
      case False
      with 1(2) bd \<open>cur < mx\<close> have "cal_loop q mem tm fr (cur + 1) mx1 (c1, s1) = Some (b, mx', c', t)"
        by (subst (asm) cal_loop.simps) simp
      with 1(1) [OF True bd] False f have "xframe s1 t \<and> cal_ok (c', t)" by auto
      with f show ?thesis by (auto simp: cs intro: xframe_trans)
    qed
  next
    case False
    with 1(2,3) show ?thesis by (subst (asm) cal_loop.simps) auto
  qed
qed

lemma cal_start_frame:
  assumes "cal_start q s = Some (c, t)" "maps_ok s"
  shows "frame s t \<and> cal_ok (c, t)"
proof -
  define s1 where "s1 = upd_entry q (\<lambda>e. e\<lparr>cal_failed := cal_failed e + 1\<rparr>) s"
  have "frame s s1" unfolding s1_def by (rule frame_upd_entry) (simp_all add: identity_def)
  moreover obtain s2 where s2: "(if \<not> use_execve s1 \<and> forksrv_pid s1 = 0 then init_forkserver s1 else Some s1) = Some s2"
    using assms(1) unfolding cal_start_def Let_def s1_def [symmetric] by (auto split: bind_splits)
  moreover from s2 have "frame s1 s2" by (auto split: if_splits intro: frame_init_forkserver)
  ultimately have f: "frame s s2" "maps_ok s2" using assms(2) by (metis frame_trans, metis frame_def frame_trans keeps_defs)
  obtain hnb s3 where h: "has_new_bits VIRGIN_BITS s2 = (hnb, s3)" by fastforce
  from frame_has_new_bits [OF f(2) h] f have g: "frame s s3" "maps_ok s3" by (metis frame_trans, metis frame_def keeps_defs)
  show ?thesis
    using assms(1) s2 f g h unfolding cal_start_def Let_def s1_def [symmetric]
    by (auto split: if_splits simp: maps_ok_def)
qed

lemma frame_cal_stats:
  assumes "q < length (queue s)"
  shows "frame s (cal_stats q h st mx s)"
proof -
  obtain stop s1 where g: "get_cur_time_us s = (stop, s1)" by fastforce
  define us where "us = (of_nat stop - of_nat st :: u64)"
  define s2 where "s2 = s1\<lparr>total_cal_us := total_cal_us s1 + us, total_cal_cycles := total_cal_cycles s1 + of_nat mx\<rparr>"
  define bs where "bs = unat (count_bytes (trace_bits s2))"
  define s3 where "s3 = upd_entry q (\<lambda>e. e\<lparr>exec_us := us div of_nat mx, bitmap_size := bs, handicap := h, cal_failed := 0\<rparr>) s2"
  define s4 where "s4 = s3\<lparr>total_bitmap_size := total_bitmap_size s3 + of_nat bs, total_bitmap_entries := total_bitmap_entries s3 + 1\<rparr>"
  have "frame s s1" using frame_get_cur_time(2) [of s] g by simp
  also have "frame s1 s2" by (rule frame_silent) (simp_all add: options_def s2_def)
  also have "frame s2 s3" unfolding s3_def by (rule frame_upd_entry) (simp_all add: identity_def)
  also have "frame s3 s4" by (rule frame_silent) (simp_all add: options_def s4_def)
  also have "frame s4 (update_bitmap_score q s4)" using assms g by (intro frame_update_bitmap_score) (auto simp: s4_def s3_def s2_def upd_entry_def get_cur_time_us_def)
  finally show ?thesis
    by (simp only: cal_stats_def g prod.case Let_def us_def s2_def bs_def s3_def s4_def)
qed

lemma frame_cal_finish:
  assumes "cal_finish q c s = Some t"
  shows "frame s t"
proof -
  define s1 where "s1 = (if new_bits c = 2 \<and> \<not> has_new_cov (queue s ! q)
               then (upd_entry q (\<lambda>e. e\<lparr>has_new_cov := True\<rparr>) s)\<lparr>queued_with_cov := queued_with_cov s + 1\<rparr> else s)"
  define s2 where "s2 = s1\<lparr>var_byte_count := unat (count_bytes (var_bytes s1))\<rparr>"
  have "frame s (upd_entry q (\<lambda>e. e\<lparr>has_new_cov := True\<rparr>) s)" by (rule frame_upd_entry) (simp_all add: identity_def)
  also have "frame (upd_entry q (\<lambda>e. e\<lparr>has_new_cov := True\<rparr>) s)
      ((upd_entry q (\<lambda>e. e\<lparr>has_new_cov := True\<rparr>) s)\<lparr>queued_with_cov := queued_with_cov s + 1\<rparr>)"
    by (rule frame_silent) (simp_all add: options_def)
  finally have "frame s s1" by (simp add: s1_def)
  moreover have "frame s1 s2" by (rule frame_silent) (simp_all add: options_def s2_def)
  moreover have "frame s3 (s3\<lparr>queued_variable := n\<rparr>)" for s3 :: "'a afl_exec_scheme" and n
    by (rule frame_silent) (simp_all add: options_def)
  ultimately show ?thesis
    using assms unfolding cal_finish_def Let_def s1_def [symmetric] s2_def [symmetric]
    by (auto split: if_splits bind_splits) (metis frame_mark_as_variable frame_trans)+
qed

lemma frame_calibrate_case:
  assumes "calibrate_case q mem h fq s = Some (f, t)" "maps_ok s" "q < length (queue s)"
  shows "frame s t"
proof -
  define fr where "fr = (exec_cksum (queue s ! q) = 0)"
  obtain c s1 where st: "cal_start q s = Some (c, s1)"
    using assms(1) unfolding calibrate_case_def Let_def by (auto split: bind_splits)
  obtain us s2 where g: "get_cur_time_us s1 = (us, s2)" by fastforce
  obtain ab mx c' s3 where lp: "cal_loop q mem (cal_tmout fq s) fr 0 (if fast_cal s then 3 else CAL_CYCLES) (c, s2) = Some (ab, mx, c', s3)"
    using assms(1) unfolding calibrate_case_def Let_def fr_def [symmetric]
    by (auto simp: st g split: bind_splits)
  define s4 where "s4 = (if ab then s3 else cal_stats q h us mx s3)"
  obtain s5 where fin: "cal_finish q c' s4 = Some s5"
    and t: "t = (let s6 = s5\<lparr>stage_cur := stage_cur s, stage_max := stage_max s\<rparr> in if fr then s6 else show_stats s6)"
    using assms(1) unfolding calibrate_case_def Let_def fr_def [symmetric]
    by (auto simp: st g lp s4_def [symmetric] split: bind_splits)
  from cal_start_frame [OF st assms(2)] have f1: "frame s s1" "cal_ok (c, s1)" by auto
  have f2: "frame s1 s2" using frame_get_cur_time(2) [of s1] g by simp
  with f1 have "cal_ok (c, s2)" by (auto simp: frame_def keeps_defs)
  from cal_loop_frame [OF lp] this have "xframe s2 s3" by auto
  moreover have "q < length (queue s3)"
    using assms(3) f1 f2 calculation by (auto simp: xframe_def frame_def queue_same_def)
  then have "frame s3 s4" by (simp add: s4_def frame_cal_stats)
  moreover have "frame s4 s5" by (rule frame_cal_finish [OF fin])
  ultimately have "xframe s s5" using f1 f2 by (meson frame_xframe xframe_trans)
  then have "frame s (s5\<lparr>stage_cur := stage_cur s, stage_max := stage_max s\<rparr>)" by (rule xframe_regs)
  then show ?thesis unfolding t Let_def using frame_show_stats frame_trans by (metis (full_types))
qed

section \<open>Keeping test cases\<close>

definition grow :: "'a afl_exec_scheme \<Rightarrow> 'a afl_exec_scheme \<Rightarrow> bool" where
  "grow s t \<longleftrightarrow> options t = options s \<and> length (queue s) \<le> length (queue t) \<and>
     (\<forall>i < length (queue s). identity (queue t ! i) = identity (queue s ! i)) \<and> keeps_invs s t"

lemma frame_grow: "frame s t \<Longrightarrow> grow s t"
  by (auto simp: frame_def queue_same_def grow_def)

lemma grow_refl [simp]: "grow s s"
  by (simp add: frame_grow)

lemma keeps_invs_trans: "keeps_invs s t \<Longrightarrow> keeps_invs t u \<Longrightarrow> keeps_invs s u"
  by (simp add: keeps_defs)

lemma grow_trans [trans]:
  assumes "grow s t" "grow t u"
  shows "grow s u"
proof -
  have "i < length (queue s) \<Longrightarrow> identity (queue u ! i) = identity (queue s ! i)" for i
    using assms unfolding grow_def by (metis less_le_trans)
  then show ?thesis using assms keeps_invs_trans unfolding grow_def by auto
qed

lemma grow_maps: "grow s t \<Longrightarrow> maps_ok s \<Longrightarrow> maps_ok t"
  by (simp add: grow_def keeps_defs)

lemma add_to_queue_refs:
  assumes "refs_inv s"
  shows "refs_inv (add_to_queue fn l pd s)"
proof -
  let ?t = "add_to_queue fn l pd s"
  have e: "entry_ok False S (queue ?t ! i) \<longleftrightarrow> entry_ok False S (if i < length (queue s) then queue s ! i else new_entry fn l (cur_depth s + 1) pd)"
    if "i < Suc (length (queue s))" for i S
    using that by (auto simp: queue_add_to_queue Let_def nth_append nth_upd entry_ok_def)
  have sl: "slots ?t = slots s" by (simp add: slots_def fun_eq_iff)
  have n: "slots s (length (queue s)) = {}" using assms by (auto simp: rating_inv_for_def slots_def)
  have "entry_ok False (slots ?t i) (queue ?t ! i)" if "i < Suc (length (queue s))" for i
    unfolding e [OF that] sl using that assms n
    by (cases "i = length (queue s)") (simp_all add: rating_inv_for_def entry_ok_def [of _ "{}"] new_entry_def)
  then show ?thesis using assms by (auto simp: rating_inv_for_def less_Suc_eq)
qed

lemma grow_add_to_queue: "grow s (add_to_queue fn l pd s)"
proof -
  let ?t = "add_to_queue fn l pd s"
  have "options ?t = options s"
    by (simp add: add_to_queue_def Let_def get_cur_time_def upd_entry_def options_def)
  moreover have "identity (queue ?t ! i) = identity (queue s ! i)" if "i < length (queue s)" for i
    using that by (simp add: queue_add_to_queue Let_def nth_append nth_upd identity_def)
  moreover have "keeps_invs s ?t"
    unfolding keeps_defs
    by (auto simp: add_to_queue_skip_inv add_to_queue_refs add_to_queue_pending caps_ok_def maps_ok_def)
      (simp_all add: add_to_queue_def Let_def get_cur_time_def upd_entry_def)
  ultimately show ?thesis by (simp add: grow_def)
qed

lemma last_add_to_queue:
  assumes "skip_inv s"
  shows "queue (add_to_queue fn l pd s) ! length (queue s) = new_entry fn l (cur_depth s + 1) pd"
proof -
  have "q_prev100 s < length (queue s)" if "queued_paths s > 0"
  proof -
    have "length (queue s) > 0" "q_prev100 s = 100 * ((length (queue s) - 1) div 100)"
      using assms that by (auto simp: skip_inv_def)
    then show ?thesis using div_times_less_eq_dividend [of "length (queue s) - 1" 100] by linarith
  qed
  then show ?thesis using assms
    by (auto simp: queue_add_to_queue Let_def nth_append nth_upd skip_inv_def)
qed

lemma keep_in_queue_spec:
  assumes "keep_in_queue mem hnb s = Some t" "maps_ok s" "skip_inv s"
  shows "grow s t \<and> length (queue t) = length (queue s) + 1 \<and>
    len (queue t ! length (queue s)) = length mem \<and> depth (queue t ! length (queue s)) = cur_depth s + 1 \<and>
    files t (fname (queue t ! length (queue s))) = Some mem"
proof -
  define fn where "fn = out_dir s @ ''/queue/id:'' @ pad0 6 (queued_paths s) @ '','' @ describe_op hnb s"
  define s1 where "s1 = add_to_queue fn (length mem) False s"
  define top where "top = length (queue s1) - 1"
  define s2 where "s2 = (if hnb = 2
    then (upd_entry top (\<lambda>e. e\<lparr>has_new_cov := True\<rparr>) s1)\<lparr>queued_with_cov := queued_with_cov s1 + 1\<rparr> else s1)"
  define s3 where "s3 = upd_entry top (\<lambda>e. e\<lparr>exec_cksum := hash32 (trace_bits s2) HASH_CONST\<rparr>) s2"
  obtain res s4 where c: "calibrate_case top mem ((queue_cycle s3 + (2 ^ 32 - 1)) mod 2 ^ 32) False s3 = Some (res, s4)"
    and x: "create_excl fn mem s4 = Some t"
    using assms(1) unfolding keep_in_queue_def Let_def fn_def [symmetric] s1_def [symmetric] top_def [symmetric]
      s2_def [symmetric] s3_def [symmetric]
    by (auto split: bind_splits if_splits)
  have g1: "grow s s1" unfolding s1_def by (rule grow_add_to_queue)
  have "frame s1 (upd_entry top (\<lambda>e. e\<lparr>has_new_cov := True\<rparr>) s1)" by (rule frame_upd_entry) (simp_all add: identity_def)
  also have "frame (upd_entry top (\<lambda>e. e\<lparr>has_new_cov := True\<rparr>) s1)
      ((upd_entry top (\<lambda>e. e\<lparr>has_new_cov := True\<rparr>) s1)\<lparr>queued_with_cov := queued_with_cov s1 + 1\<rparr>)"
    by (rule frame_silent) (simp_all add: options_def)
  finally have "frame s1 s2" by (simp add: s2_def)
  also have "frame s2 s3" unfolding s3_def by (rule frame_upd_entry) (simp_all add: identity_def)
  finally have f3: "frame s1 s3" .
  have "maps_ok s3" using assms(2) g1 f3 by (auto simp: grow_def frame_def keeps_defs)
  moreover have "top < length (queue s3)" using f3 by (auto simp: top_def s1_def frame_def queue_same_def)
  ultimately have "frame s3 s4" by (rule frame_calibrate_case [OF c])
  with f3 frame_create_excl [OF x] have f: "frame s1 t" by (metis frame_trans)
  have l1: "length (queue s1) = length (queue s) + 1" by (simp add: s1_def)
  with f have i: "length (queue t) = length (queue s) + 1" "identity (queue t ! length (queue s)) = identity (queue s1 ! length (queue s))"
    by (auto simp: frame_def queue_same_def)
  with last_add_to_queue [OF assms(3)] have
    "identity (queue t ! length (queue s)) = identity (new_entry fn (length mem) (cur_depth s + 1) False)"
    by (simp add: s1_def)
  then show ?thesis using i g1 f x
    by (auto simp: identity_def new_entry_def create_excl_def split: if_splits intro: grow_trans frame_grow)
qed

text \<open>Files are only ever added by exclusive creation.\<close>

lemma create_excl_files: "create_excl fn c s = Some t \<Longrightarrow> files s \<subseteq>\<^sub>m files t"
  by (auto simp: create_excl_def map_le_def split: if_splits)

lemma write_crash_readme_spec: "frame s (write_crash_readme s) \<and> files s \<subseteq>\<^sub>m files (write_crash_readme s) \<and>
    queue (write_crash_readme s) = queue s \<and> unique_crashes (write_crash_readme s) = unique_crashes s"
  unfolding write_crash_readme_def
  by (auto split: option.splits dest: frame_create_excl create_excl_files) (auto simp: create_excl_def split: if_splits)

lemma frame_count:
  assumes "options t = options s" "queue t = queue s" "q_prev100 t = q_prev100 s" "queued_paths t = queued_paths s"
    "trace_bits t = trace_bits s" "virgin_bits t = virgin_bits s" "virgin_tmout t = virgin_tmout s"
    "virgin_crash t = virgin_crash s" "var_bytes t = var_bytes s" "stats_update_freq t = stats_update_freq s"
    "caps_ok s \<Longrightarrow> caps_ok t" "top_rated t = top_rated s" "pending_not_fuzzed t = pending_not_fuzzed s"
  shows "frame s t"
  using assms refs_silent [of t s] by (auto simp: frame_def queue_same_def keeps_defs maps_ok_def skip_inv_def pending_inv_def)

lemma dedup_frame:
  assumes "(if dumb_mode s then (1, s) else has_new_bits v (s\<lparr>trace_bits := simplify_trace (trace_bits s)\<rparr>)) = (hnb, t)"
    "maps_ok s"
  shows "frame s t \<and> files t = files s \<and> queue t = queue s \<and> unique_crashes t = unique_crashes s \<and> unique_hangs t = unique_hangs s"
proof (cases "dumb_mode s")
  case False
  let ?s = "s\<lparr>trace_bits := simplify_trace (trace_bits s)\<rparr>"
  have "frame s ?s" using assms(2) by (intro frame_silent) (simp_all add: options_def maps_ok_def)
  moreover have "maps_ok ?s" using assms(2) by (simp add: maps_ok_def)
  ultimately have "frame s t" using assms False frame_has_new_bits(1) by (metis frame_trans)
  moreover have "files t = files s \<and> queue t = queue s \<and> unique_crashes t = unique_crashes s \<and> unique_hangs t = unique_hangs s"
    using assms(1) False by (cases v) (auto simp: has_new_bits_def Let_def split: prod.splits if_splits)
  ultimately show ?thesis by simp
qed (use assms in simp)

lemma keep_crash_spec:
  assumes "keep_crash mem s = Some t" "maps_ok s"
  shows "frame s t \<and> files s \<subseteq>\<^sub>m files t \<and> unique_crashes t \<le> max (unique_crashes s) KEEP_UNIQUE_CRASH"
proof -
  define s1 where "s1 = s\<lparr>total_crashes := total_crashes s + 1\<rparr>"
  have f1: "frame s s1" by (rule frame_silent) (simp_all add: options_def s1_def)
  have m1: "maps_ok s1" using assms(2) by (simp add: s1_def maps_ok_def)
  show ?thesis
  proof (cases "unique_crashes s1 \<ge> KEEP_UNIQUE_CRASH")
    case True
    then have "t = s1" using assms(1) by (simp add: keep_crash_def Let_def s1_def)
    with f1 show ?thesis by (simp add: s1_def)
  next
    case cap: False
    obtain hnb s2 where d: "(if dumb_mode s1 then (1, s1)
        else has_new_bits VIRGIN_CRASH (s1\<lparr>trace_bits := simplify_trace (trace_bits s1)\<rparr>)) = (hnb, s2)" by fastforce
    note f2 = dedup_frame [OF d m1]
    have k: "keep_crash mem s = (if hnb = 0 then Some s2
      else let
        s3 = (if unique_crashes s2 = 0 then write_crash_readme s2 else s2);
        fn = out_dir s3 @ ''/crashes/id:'' @ pad0 6 (unique_crashes s3) @ '',sig:'' @ pad0 2 (kill_signal s3) @ '','' @ describe_op 0 s3;
        (t, s4) = get_cur_time (s3\<lparr>unique_crashes := unique_crashes s3 + 1\<rparr>)
      in create_excl fn mem (s4\<lparr>last_crash_time := t, last_crash_execs := total_execs s4\<rparr>))"
      unfolding keep_crash_def Let_def s1_def [symmetric] d using cap by simp
    show ?thesis
    proof (cases "hnb = 0")
      case True
      then have "t = s2" using assms(1) by (simp add: k)
      with f1 f2 show ?thesis by (auto simp: s1_def intro: frame_trans)
    next
      case False
      define s3 where "s3 = (if unique_crashes s2 = 0 then write_crash_readme s2 else s2)"
      define s4 where "s4 = s3\<lparr>unique_crashes := unique_crashes s3 + 1\<rparr>"
      obtain now s5 where g: "get_cur_time s4 = (now, s5)" by fastforce
      define s6 where "s6 = s5\<lparr>last_crash_time := now, last_crash_execs := total_execs s5\<rparr>"
      obtain fn where x: "create_excl fn mem s6 = Some t"
        using assms(1) False unfolding k Let_def s3_def [symmetric] s4_def [symmetric] g prod.case s6_def [symmetric]
        by (simp only: if_False)
      have f3: "frame s2 s3 \<and> files s2 \<subseteq>\<^sub>m files s3 \<and> unique_crashes s3 = unique_crashes s2"
        using write_crash_readme_spec [of s2] by (simp add: s3_def)
      have "unique_crashes s3 < KEEP_UNIQUE_CRASH" using cap f2 f3 by simp
      then have "frame s3 s4" by (intro frame_count) (auto simp: s4_def options_def caps_ok_def)
      moreover have "frame s4 s5" using frame_get_cur_time(1) [of s4] g by simp
      moreover have "frame s5 s6" by (rule frame_silent) (simp_all add: options_def s6_def)
      ultimately have "frame s t" using f1 f2 f3 frame_create_excl [OF x] by (metis frame_trans)
      moreover have "files s6 = files s3" "unique_crashes s6 = unique_crashes s3 + 1"
        using g by (auto simp: s6_def s4_def get_cur_time_def)
      ultimately show ?thesis
        using create_excl_files [OF x] x f2 f3 \<open>unique_crashes s3 < KEEP_UNIQUE_CRASH\<close>
        by (auto simp: s1_def create_excl_def split: if_splits intro: map_le_trans)
    qed
  qed
qed

lemma save_hang_frame:
  assumes "save_hang mem s = Some t" "unique_hangs s < KEEP_UNIQUE_HANG"
  shows "frame s t"
proof -
  define s1 where "s1 = s\<lparr>unique_hangs := unique_hangs s + 1\<rparr>"
  obtain now s2 where g: "get_cur_time s1 = (now, s2)" by fastforce
  define s3 where "s3 = s2\<lparr>last_hang_time := now\<rparr>"
  obtain fn where x: "create_excl fn mem s3 = Some t"
    using assms(1) unfolding save_hang_def Let_def s1_def [symmetric] g prod.case s3_def [symmetric] by blast
  have "frame s s1" using assms(2) by (intro frame_count) (auto simp: s1_def options_def caps_ok_def)
  also have "frame s1 s2" using frame_get_cur_time(1) [of s1] g by simp
  also have "frame s2 s3" by (rule frame_silent) (simp_all add: options_def s3_def)
  also have "frame s3 t" by (rule frame_create_excl [OF x])
  finally show ?thesis .
qed

lemma keep_tmout_frame:
  assumes "keep_tmout mem s = Some t" "maps_ok s"
  shows "frame s t"
proof -
  define s1 where "s1 = s\<lparr>total_tmouts := total_tmouts s + 1\<rparr>"
  have f1: "frame s s1" by (rule frame_silent) (simp_all add: options_def s1_def)
  have m1: "maps_ok s1" using assms(2) by (simp add: s1_def maps_ok_def)
  obtain hnb s2 where d: "(if dumb_mode s1 then (1, s1)
      else has_new_bits VIRGIN_TMOUT (s1\<lparr>trace_bits := simplify_trace (trace_bits s1)\<rparr>)) = (hnb, s2)" by fastforce
  note f2 = dedup_frame [OF d m1]
  define s3 where "s3 = s2\<lparr>unique_tmouts := unique_tmouts s2 + 1\<rparr>"
  have f3: "frame s2 s3" by (rule frame_silent) (simp_all add: options_def s3_def)
  have k: "keep_tmout mem s =
     (if unique_hangs s1 \<ge> KEEP_UNIQUE_HANG then Some s1 else if hnb = 0 then Some s2
      else if exec_tmout s3 < hang_tmout s3
        then do {
          s4 \<leftarrow> write_to_testcase mem (length mem) s3;
          (new_fault, s5) \<leftarrow> run_target (hang_tmout s4) s4;
          (if \<not> stop_soon s5 \<and> new_fault = FAULT_CRASH then keep_crash mem s5
           else if stop_soon s5 \<or> new_fault \<noteq> FAULT_TMOUT then Some s5
           else save_hang mem s5) }
        else save_hang mem s3)"
    unfolding keep_tmout_def Let_def s1_def [symmetric] d prod.case s3_def [symmetric] ..
  have f13: "frame s s3" using f1 f2 f3 by (metis frame_trans)
  show ?thesis
  proof (cases "unique_hangs s1 \<ge> KEEP_UNIQUE_HANG \<or> hnb = 0")
    case True
    then have "t = s1 \<or> t = s2" using assms(1) unfolding k by (auto split: if_splits)
    then show ?thesis using f1 f2 by (auto intro: frame_trans)
  next
    case go: False
    then have h3: "unique_hangs s3 < KEEP_UNIQUE_HANG" using f2 by (simp add: s1_def s3_def)
    show ?thesis
    proof (cases "exec_tmout s3 < hang_tmout s3")
      case False
      then have "save_hang mem s3 = Some t" using assms(1) go unfolding k by simp
      with h3 show ?thesis using f13 save_hang_frame frame_trans by metis
    next
      case True
      then obtain s4 nf s5 where r: "write_to_testcase mem (length mem) s3 = Some s4" "run_target (hang_tmout s4) s4 = Some (nf, s5)"
        and e: "keep_crash mem s5 = Some t \<or> t = s5 \<or> save_hang mem s5 = Some t"
        using assms(1) go unfolding k by (simp split: bind_splits if_splits) (auto split: if_splits)
      have f5: "frame s s5" using f13 r by (meson frame_run_target frame_trans frame_write_to_testcase)
      have "unique_hangs s4 = unique_hangs s3" using r(1) by (auto simp: write_to_testcase_def split: if_splits)
      then have h: "unique_hangs s5 < KEEP_UNIQUE_HANG" using h3 run_target_outcome(5) [OF r(2)] by simp
      have "maps_ok s5" using f5 assms(2) by (simp add: frame_def keeps_defs)
      then have "frame s5 t" using e h keep_crash_spec [of mem s5 t] save_hang_frame [of mem s5 t] by auto
      with f5 show ?thesis by (rule frame_trans)
    qed
  qed
qed

lemma save_if_interesting_grow:
  assumes "save_if_interesting mem fault s = Some (k, t)" "maps_ok s" "skip_inv s"
  shows "grow s t"
proof -
  obtain hnb s1 where h: "(if fault = crash_mode s then has_new_bits VIRGIN_BITS s else (0, s)) = (hnb, s1)" by fastforce
  have f1: "frame s s1" using h assms(2) frame_has_new_bits(1) by (auto split: if_splits)
  have inv1: "maps_ok s1" "skip_inv s1" using f1 assms by (auto simp: frame_def keeps_defs)
  show ?thesis
  proof (cases "fault = crash_mode s \<and> hnb = 0")
    case True
    have "frame s1 (s1\<lparr>total_crashes := n\<rparr>)" for n by (rule frame_silent) (simp_all add: options_def)
    then have "frame s1 t" using assms(1) True h unfolding save_if_interesting_def Let_def by (auto split: if_splits)
    with f1 show ?thesis by (metis frame_grow frame_trans)
  next
    case False
    obtain s2 where s2: "(if fault = crash_mode s then keep_in_queue mem hnb s1 else Some s1) = Some s2"
      and s3: "(case fault of FAULT_TMOUT \<Rightarrow> keep_tmout mem s2 | FAULT_CRASH \<Rightarrow> keep_crash mem s2 | FAULT_ERROR \<Rightarrow> None | _ \<Rightarrow> Some s2) = Some t"
      using assms(1) False unfolding save_if_interesting_def Let_def h prod.case by (auto split: bind_splits)
    have g2: "grow s1 s2" using s2 keep_in_queue_spec [OF _ inv1] by (auto split: if_splits)
    then have "maps_ok s2" using inv1(1) by (rule grow_maps)
    then have "frame s2 t" using s3 keep_tmout_frame [of mem s2 t] keep_crash_spec [of mem s2 t] by (auto split: fault.splits)
    with f1 g2 show ?thesis by (metis frame_grow grow_trans)
  qed
qed

lemma save_if_interesting_kept:
  assumes "save_if_interesting mem (crash_mode s) s = Some (k, t)" "maps_ok s" "skip_inv s"
    "crash_mode s = FAULT_NONE \<or> crash_mode s = FAULT_CRASH"
  shows "k \<longleftrightarrow> novelty (trace_bits s) (virgin_bits s) \<noteq> 0"
    and "k \<Longrightarrow> length (queue t) = length (queue s) + 1 \<and> len (queue t ! length (queue s)) = length mem \<and>
           files t (fname (queue t ! length (queue s))) = Some mem"
    and "\<not> k \<Longrightarrow> queue t = queue s \<and> files t = files s"
proof -
  obtain hnb s1 where h: "has_new_bits VIRGIN_BITS s = (hnb, s1)" by fastforce
  then have hn: "hnb = novelty (trace_bits s) (virgin_bits s)"
    using assms(2) by (simp add: has_new_bits_unfold maps_ok_def Let_def)
  have q1: "frame s s1" "queue s1 = queue s" using frame_has_new_bits [OF assms(2) h] by auto
  have fl: "files s1 = files s" using h by (auto simp: has_new_bits_def Let_def split: prod.splits if_splits)
  have inv1: "maps_ok s1" "skip_inv s1" using q1 assms by (auto simp: frame_def keeps_defs)
  show "k \<longleftrightarrow> novelty (trace_bits s) (virgin_bits s) \<noteq> 0"
    using assms(1) unfolding save_if_interesting_def hn [symmetric] h Let_def
    by (auto split: if_splits bind_splits)
  show "\<not> k \<Longrightarrow> queue t = queue s \<and> files t = files s"
    using assms(1) q1(2) fl unfolding save_if_interesting_def h Let_def
    by (auto split: if_splits bind_splits)
  assume k
  then obtain s2 where s2: "keep_in_queue mem hnb s1 = Some s2"
    and s3: "(case crash_mode s of FAULT_TMOUT \<Rightarrow> keep_tmout mem s2 | FAULT_CRASH \<Rightarrow> keep_crash mem s2 | FAULT_ERROR \<Rightarrow> None | _ \<Rightarrow> Some s2) = Some t"
    using assms(1) unfolding save_if_interesting_def h Let_def by (auto split: if_splits bind_splits)
  note kq = keep_in_queue_spec [OF s2 inv1]
  then have "maps_ok s2" using inv1(1) grow_maps by blast
  then have "frame s2 t \<and> files s2 \<subseteq>\<^sub>m files t"
    using s3 assms(4) keep_crash_spec [of mem s2 t] by auto
  with kq q1(2) show "length (queue t) = length (queue s) + 1 \<and> len (queue t ! length (queue s)) = length mem \<and>
      files t (fname (queue t ! length (queue s))) = Some mem"
    by (auto simp: frame_def queue_same_def identity_def map_le_def) (metis domI)
qed

section \<open>One test case\<close>

text \<open>What a stage may rely on: the executor appends its argument to \<open>tried\<close>, leaves the options and
  stage registers alone, and may extend the queue.\<close>

definition ran :: "u8 list \<Rightarrow> 'a afl_exec_scheme \<Rightarrow> 'a afl_exec_scheme \<Rightarrow> bool" where
  "ran b s t \<longleftrightarrow> grow (s\<lparr>tried := tried s @ [b]\<rparr>) t"

lemma common_fuzz_stuff_ran:
  assumes "common_fuzz_stuff b s = Some (r, t)" "maps_ok s" "skip_inv s"
  shows "ran b s t"
proof -
  define s0 where "s0 = s\<lparr>tried := tried s @ [b]\<rparr>"
  have inv0: "maps_ok s0" "skip_inv s0" using assms(2,3) by (simp_all add: s0_def maps_ok_def skip_inv_def)
  define pb where "pb = (case post_handler s0 of None \<Rightarrow> Some b | Some h \<Rightarrow> h b)"
  show ?thesis
  proof (cases "pb = None \<or> post_handler s0 \<noteq> None \<and> pb = Some []")
    case True
    then have "t = s0" using assms(1)
      unfolding common_fuzz_stuff_def Let_def s0_def [symmetric] pb_def [symmetric] by auto
    then show ?thesis by (simp add: ran_def s0_def)
  next
    case False
    then obtain buf where pb: "pb = Some buf" "\<not> (post_handler s0 \<noteq> None \<and> buf = [])" by auto
    from assms(1) obtain s1 fault s2 where r: "write_to_testcase buf (length buf) s0 = Some s1"
      "run_target (exec_tmout s1) s1 = Some (fault, s2)"
      unfolding common_fuzz_stuff_def Let_def s0_def [symmetric] pb_def [symmetric] pb option.case if_not_P [OF pb(2)]
      by (auto split: bind_splits)
    define s3 where "s3 = s2\<lparr>subseq_tmouts := (if fault = FAULT_TMOUT then subseq_tmouts s2 + 1 else 0)\<rparr>"
    have f2: "frame s0 s2" using r by (meson frame_run_target frame_trans frame_write_to_testcase)
    have f3: "frame s2 s3" by (rule frame_silent) (simp_all add: options_def s3_def)
    have inv3: "maps_ok s3" "skip_inv s3" using f2 f3 inv0 by (auto simp: frame_def keeps_defs)
    have e: "common_fuzz_stuff b s =
        (if stop_soon s2 then Some (True, s2)
         else if fault = FAULT_TMOUT \<and> subseq_tmouts s2 > TMOUT_LIMIT
         then Some (True, s2\<lparr>subseq_tmouts := subseq_tmouts s2 + 1, cur_skipped_paths := cur_skipped_paths s2 + 1\<rparr>)
         else if skip_requested s3
         then Some (True, s3\<lparr>skip_requested := False, cur_skipped_paths := cur_skipped_paths s3 + 1\<rparr>)
         else do {
           (k, s4) \<leftarrow> save_if_interesting buf fault s3;
           let s5 = s4\<lparr>queued_discovered := queued_discovered s4 + of_bool k\<rparr>;
           Some (False, if stage_cur s5 mod int (stats_update_freq s5) = 0 \<or> stage_cur s5 + 1 = stage_max s5
                        then show_stats s5 else s5) })"
      unfolding common_fuzz_stuff_def Let_def s0_def [symmetric] pb_def [symmetric] pb option.case if_not_P [OF pb(2)]
      by (simp add: r s3_def)
    have sil: "frame u (u\<lparr>subseq_tmouts := a, cur_skipped_paths := c\<rparr>)" "frame u (u\<lparr>skip_requested := False, cur_skipped_paths := c\<rparr>)"
      "frame u (u\<lparr>queued_discovered := c\<rparr>)" for u :: "'a afl_exec_scheme" and a c
      by (rule frame_silent; simp add: options_def)+
    have "grow s0 t"
    proof (cases "stop_soon s2 \<or> fault = FAULT_TMOUT \<and> subseq_tmouts s2 > TMOUT_LIMIT \<or> skip_requested s3")
      case True
      then have "frame s2 t" using assms(1) e f3 sil by (auto split: if_splits intro: frame_trans)
      with f2 show ?thesis by (metis frame_grow frame_trans)
    next
      case False
      then obtain k s4 where k: "save_if_interesting buf fault s3 = Some (k, s4)"
        using assms(1) e by (auto split: bind_splits if_splits)
      define s5 where "s5 = s4\<lparr>queued_discovered := queued_discovered s4 + of_bool k\<rparr>"
      have "t = s5 \<or> t = show_stats s5" using assms(1) e False by (auto simp: k Let_def s5_def)
      then have "frame s5 t" using frame_show_stats [of s5] by auto
      moreover have "frame s4 s5" by (simp only: s5_def sil(3))
      moreover have "grow s3 s4" by (rule save_if_interesting_grow [OF k inv3])
      ultimately show ?thesis using f2 f3 by (metis frame_grow grow_trans)
    qed
    then show ?thesis by (simp add: ran_def s0_def)
  qed
qed

section \<open>Scores\<close>

lemma speed_score_bounds: "10 \<le> speed_score us avg \<and> speed_score us avg \<le> 300"
  by (simp add: speed_score_def)

lemma speed_score_mono: "us \<le> us' \<Longrightarrow> speed_score us' avg \<le> speed_score us avg"
  by (simp add: speed_score_def)

lemma coverage_score_mono: "bs \<le> bs' \<Longrightarrow> p \<le> p' \<Longrightarrow> coverage_score bs avg p \<le> coverage_score bs' avg p'"
  by (simp add: coverage_score_def; linarith)

lemma coverage_score_bounds: "p div 4 \<le> coverage_score bs avg p \<and> coverage_score bs avg p \<le> 3 * p"
  by (simp add: coverage_score_def; linarith)

lemma depth_score_mono: "d \<le> d' \<Longrightarrow> p \<le> p' \<Longrightarrow> depth_score d p \<le> depth_score d' p'"
  by (simp add: depth_score_def)

lemma depth_score_ge: "p \<le> depth_score d p"
  by (simp add: depth_score_def)

lemma calculate_score_bounds:
  "(calculate_score q s = None \<longleftrightarrow> total_cal_cycles s = 0 \<or> total_bitmap_entries s = 0) \<and>
   (\<forall>p t. calculate_score q s = Some (p, t) \<longrightarrow> 2 \<le> p \<and> p \<le> 1600)"
proof -
  have "2 \<le> depth_score d (coverage_score bs a2 (speed_score us a1) * m)" if "1 \<le> m" for d bs a2 us a1 m
  proof -
    have "2 \<le> speed_score us a1 div 4" using speed_score_bounds [of us a1] by linarith
    also have "\<dots> \<le> coverage_score bs a2 (speed_score us a1)" using coverage_score_bounds by blast
    also have "\<dots> \<le> coverage_score bs a2 (speed_score us a1) * m" using that by simp
    also have "\<dots> \<le> depth_score d (coverage_score bs a2 (speed_score us a1) * m)" by (rule depth_score_ge)
    finally show ?thesis .
  qed
  note low = this [of 1, simplified] this [of 2, simplified] this [of 4, simplified]
  show ?thesis
    by (auto simp: calculate_score_def Let_def HAVOC_MAX_MULT_def low split: if_splits prod.splits)
qed

text \<open>Faster, better covering, deeper entries are not given less time.\<close>

lemma calculate_score_mono:
  assumes "calculate_score q s = Some (p, t)" "calculate_score q' s = Some (p', t')"
    "exec_us (queue s ! q') \<le> exec_us (queue s ! q)" "bitmap_size (queue s ! q) \<le> bitmap_size (queue s ! q')"
    "depth (queue s ! q) \<le> depth (queue s ! q')" "handicap (queue s ! q) = handicap (queue s ! q')"
  shows "p \<le> p'"
proof -
  have us: "unat (exec_us (queue s ! q')) \<le> unat (exec_us (queue s ! q))" using assms(3) by (simp add: word_le_nat_alt)
  have c: "coverage_score (bitmap_size (queue s ! q)) a2 (speed_score (unat (exec_us (queue s ! q))) a1)
      \<le> coverage_score (bitmap_size (queue s ! q')) a2 (speed_score (unat (exec_us (queue s ! q'))) a1)" for a1 a2
    using assms(4) us by (intro coverage_score_mono speed_score_mono)
  show ?thesis using assms(1,2,6) c assms(5)
    by (auto simp: calculate_score_def Let_def split: if_splits intro!: min.mono depth_score_mono)
qed

end
