(* ===== verification/Afl_Trim.thy ===== *)
theory Afl_Trim
  imports Afl_Exec_Laws "HOL-Library.Sublist"
begin

text \<open>
  \<open>trim_case\<close>: it always ends, reads and writes within the buffer, only ever deletes bytes, keeps the
  first four, and what it keeps has been seen to behave like the original.
\<close>

lemma queue_save_auto [simp]: "queue (save_auto s) = queue s"
proof -
  have "queue (fold (\<lambda>i t. t\<lparr>files := (files t)(f t i \<mapsto> g t i)\<rparr>) is s) = queue s"
    for f g and "is" :: "nat list" and s :: "'a afl_dict_scheme"
    by (induction "is" arbitrary: s) simp_all
  then show ?thesis by (simp add: save_auto_def)
qed

lemma queue_show_stats [simp]: "queue (show_stats s) = queue s"
  by (auto simp: show_stats_def Let_def get_cur_time_def write_bitmap_def)

definition answers :: "'a afl_exec_scheme \<Rightarrow> bool" where
  "answers s \<longleftrightarrow> (\<forall>n b tm. \<exists>ob. target s n b tm = Run ob)"

lemma answers_frame: "frame s t \<Longrightarrow> answers s \<Longrightarrow> answers t"
  by (simp add: frame_def options_def answers_def)

lemma run_target_total:
  assumes "answers s"
  shows "\<exists>f t ob. run_target tm s = Some (f, t) \<and> target s (exec_pos s) (testcase s) tm = Run ob \<and>
    trace_bits t = classify_counts (shm_region (raw_trace ob))"
proof -
  obtain ob where ob: "target s (exec_pos s) (testcase s) tm = Run ob" using assms unfolding answers_def by blast
  then obtain f t where r: "run_target tm s = Some (f, t)" by (fastforce simp: run_target_def Let_def)
  then have "trace_bits t = classify_counts (shm_region (raw_trace ob))"
    by (auto simp: run_target_def Let_def ob run_outcome_def split: wait_status.splits if_splits bool.splits)
  with r ob show ?thesis by blast
qed

text \<open>A test case is \<^emph>\<open>vouched for\<close> when some execution of it was seen to have the checksum of the entry.\<close>

definition vouched :: "'a afl_exec_scheme \<Rightarrow> u32 \<Rightarrow> u8 list \<Rightarrow> bool" where
  "vouched s cks b \<longleftrightarrow> (\<exists>n ob. target s n b (exec_tmout s) = Run ob \<and>
     hash32 (classify_counts (shm_region (raw_trace ob))) HASH_CONST = cks)"

lemma vouched_frame: "frame s t \<Longrightarrow> vouched t = vouched s"
  by (intro ext) (simp add: vouched_def frame_def options_def)

definition trim_inv :: "nat \<Rightarrow> u8 list \<Rightarrow> u32 \<Rightarrow> trim_state \<times> 'a afl_exec_scheme \<Rightarrow> bool" where
  "trim_inv q b0 cks = (\<lambda>(t, s).
     let l = len (queue s ! q) in
     q < length (queue s) \<and> maps_ok s \<and> answers s \<and> exec_cksum (queue s ! q) = cks \<and>
     length (trim_buf t) = length b0 \<and> 4 \<le> l \<and> l \<le> length b0 \<and> length b0 \<le> 2 ^ 31 \<and>
     subseq (take l (trim_buf t)) b0 \<and>
     (\<not> needs_write t \<longrightarrow> l = length b0 \<and> trim_buf t = b0) \<and>
     (needs_write t \<longrightarrow> length (clean_trace t) = MAP_SIZE \<and> vouched s cks (take l (trim_buf t))))"

text \<open>Deleting a block.\<close>

lemma memmove_delete:
  assumes "pos + avail \<le> l" "l \<le> length buf"
  shows "\<exists>b. memmove buf pos (pos + avail) (l - pos - avail) = Some b \<and> length b = length buf \<and>
    take (l - avail) b = take pos buf @ drop (pos + avail) (take l buf)"
proof -
  obtain k where k: "l = pos + avail + k" using assms(1) le_Suc_ex by blast
  have "drop (pos + avail) (take l buf) = take k (drop (pos + avail) buf)" by (simp add: k drop_take)
  moreover have "memmove buf pos (pos + avail) (l - pos - avail) =
      Some (take pos buf @ take k (drop (pos + avail) buf) @ drop (pos + k) buf)"
    using assms(2) k by (simp add: memmove_def)
  ultimately show ?thesis using assms(2) k by simp
qed

lemma subseq_delete: "subseq (take pos b @ drop (pos + n) b) b"
proof -
  have "b = take pos b @ take n (drop pos b) @ drop (pos + n) b"
    by (metis add.commute append_take_drop_id drop_drop)
  then show ?thesis by (metis list_emb_append_mono list_emb_append2 subseq_order.order_refl)
qed

lemma trim_keep_ok:
  assumes inv: "trim_inv q b0 cks (t, s)" and pos: "4 \<le> remove_pos t" "0 < avail" "remove_pos t + avail \<le> len (queue s ! q)"
    and v: "vouched s cks (take (remove_pos t) (trim_buf t) @ drop (remove_pos t + avail) (take (len (queue s ! q)) (trim_buf t)))"
  shows "\<exists>t' s'. trim_keep q avail (t, s) = Some (t', s') \<and> trim_inv q b0 cks (t', s') \<and>
    remove_pos t' = remove_pos t \<and> len (queue s' ! q) = len (queue s ! q) - avail \<and> needs_write t' \<and>
    trim_fault t' = trim_fault t \<and> stop_soon s' = stop_soon s \<and> target s' = target s \<and> exec_tmout s' = exec_tmout s \<and> fname (queue s' ! q) = fname (queue s ! q)"
proof -
  let ?l = "len (queue s ! q)"
  define s1 where "s1 = upd_entry q (\<lambda>e. e\<lparr>len := ?l - avail\<rparr>) s"
  have i: "q < length (queue s)" "maps_ok s" "answers s" "exec_cksum (queue s ! q) = cks"
    "length (trim_buf t) = length b0" "?l \<le> length b0" "length b0 \<le> 2 ^ 31" "subseq (take ?l (trim_buf t)) b0"
    using inv by (auto simp: trim_inv_def Let_def)
  have "unat (of_nat (?l - avail) :: u32) \<le> 2 ^ 31"
    using i(6,7) mod_less_eq_dividend [of "?l - avail" "2 ^ 32"] by (simp add: unat_of_nat)
  then obtain p2 where p2: "next_p2 (of_nat (?l - avail)) = Some p2" using next_p2_total_iff by blast
  obtain b where b: "memmove (trim_buf t) (remove_pos t) (remove_pos t + avail) (?l - remove_pos t - avail) = Some b"
    "length b = length (trim_buf t)"
    "take (?l - avail) b = take (remove_pos t) (trim_buf t) @ drop (remove_pos t + avail) (take ?l (trim_buf t))"
    using memmove_delete [of "remove_pos t" avail ?l "trim_buf t"] pos i by auto
  define t' where "t' = t\<lparr>len_p2 := unat p2, trim_buf := b, needs_write := True,
    clean_trace := (if needs_write t then clean_trace t else trace_bits s)\<rparr>"
  have k: "trim_keep q avail (t, s) = Some (t', s1)"
    using b(1) by (simp add: trim_keep_def Let_def p2 t'_def s1_def)
  have q1: "queue s1 ! q = (queue s ! q)\<lparr>len := ?l - avail\<rparr>" using i(1) by (simp add: s1_def upd_entry_def)
  have "take (remove_pos t) (trim_buf t) = take (remove_pos t) (take ?l (trim_buf t))" using pos by simp
  then have "subseq (take (?l - avail) b) (take ?l (trim_buf t))" unfolding b(3) by (metis subseq_delete)
  then have sub: "subseq (take (?l - avail) b) b0" using i(8) by (rule subseq_order.trans)
  have "vouched s1 cks (take (?l - avail) b)" using v by (simp add: vouched_def s1_def upd_entry_def b(3))
  moreover have "length (clean_trace t') = MAP_SIZE" using inv i(2) by (auto simp: trim_inv_def Let_def t'_def maps_ok_def)
  moreover have "maps_ok s1" "answers s1" "length (queue s1) = length (queue s)"
    using i(2,3) by (simp_all add: s1_def upd_entry_def maps_ok_def answers_def)
  ultimately have "trim_inv q b0 cks (t', s1)"
    using i pos sub q1 b(2) by (auto simp: trim_inv_def Let_def t'_def)
  then show ?thesis using k q1 by (auto simp: t'_def s1_def upd_entry_def)
qed

lemma trim_step_ok:
  assumes inv: "trim_inv q b0 cks (t, s)" and pos: "4 \<le> remove_pos t" "remove_pos t < len (queue s ! q)" "0 < rl"
  shows "\<exists>stop t' s'. trim_step q rl (t, s) = Some (stop, t', s') \<and> trim_inv q b0 cks (t', s') \<and> 4 \<le> remove_pos t' \<and>
    fname (queue s' ! q) = fname (queue s ! q) \<and> target s' = target s \<and> exec_tmout s' = exec_tmout s \<and>
    (stop \<longrightarrow> stop_soon s' \<or> trim_fault t' = FAULT_ERROR) \<and>
    (\<not> stop \<longrightarrow> len (queue s' ! q) - remove_pos t' < len (queue s ! q) - remove_pos t)"
proof -
  let ?l = "len (queue s ! q)" and ?p = "remove_pos t"
  define av where "av = min rl (?l - ?p)"
  have i: "q < length (queue s)" "maps_ok s" "answers s" "exec_cksum (queue s ! q) = cks"
    "length (trim_buf t) = length b0" "?l \<le> length b0" using inv by (auto simp: trim_inv_def Let_def)
  have av: "0 < av" "?p + av \<le> ?l" "av \<le> rl" using pos by (auto simp: av_def)
  define gap where "gap = take ?p (trim_buf t) @ drop (?p + av) (take ?l (trim_buf t))"
  define s1 where "s1 = s\<lparr>testcase := gap\<rparr>"
  have w: "write_with_gap (trim_buf t) ?l ?p av s = Some s1"
    using av i(5,6) by (simp add: write_with_gap_def s1_def gap_def)
  have a1: "answers s1" using i(3) by (simp add: s1_def answers_def)
  from run_target_total [OF a1, of "exec_tmout s1"] obtain fault s2 ob where r: "run_target (exec_tmout s1) s1 = Some (fault, s2)"
    "target s1 (exec_pos s1) (testcase s1) (exec_tmout s1) = Run ob" "trace_bits s2 = classify_counts (shm_region (raw_trace ob))" by blast
  define s3 where "s3 = s2\<lparr>trim_execs := trim_execs s2 + 1\<rparr>"
  define t1 where "t1 = t\<lparr>trim_fault := fault\<rparr>"
  have "frame s s1" by (rule frame_silent) (simp_all add: options_def s1_def)
  also have "frame s1 s2" by (rule frame_run_target [OF r(1)])
  also have "frame s2 s3" by (rule frame_silent) (simp_all add: options_def s3_def)
  finally have f3: "frame s s3" .
  have q3: "queue s3 = queue s" using run_target_outcome(3) [OF r(1)] by (simp add: s3_def s1_def)
  have fs: "maps_ok s3" "answers s3" "vouched s3 = vouched s" "target s3 = target s" "exec_tmout s3 = exec_tmout s"
    using f3 i(2) answers_frame [OF f3 i(3)] vouched_frame [OF f3] by (simp_all add: frame_def keeps_defs options_def)
  have inv3: "trim_inv q b0 cks (t1\<lparr>remove_pos := x\<rparr>, s3)" for x
    using inv q3 fs by (auto simp: trim_inv_def Let_def t1_def)
  from inv3 [of ?p] have inv3': "trim_inv q b0 cks (t1, s3)" by (simp add: t1_def)
  have st: "trim_step q rl (t, s) =
     (if stop_soon s3 \<or> fault = FAULT_ERROR then Some (True, t1, s3)
      else do {
        (t2, s4) \<leftarrow> (if hash32 (trace_bits s3) HASH_CONST = exec_cksum (queue s3 ! q)
                     then trim_keep q av (t1, s3) else Some (t1\<lparr>remove_pos := remove_pos t1 + rl\<rparr>, s3));
        let s5 = (if trim_exec t2 mod stats_update_freq s4 = 0 then show_stats s4 else s4);
        Some (False, t2\<lparr>trim_exec := trim_exec t2 + 1\<rparr>, s5\<lparr>stage_cur := stage_cur s5 + 1\<rparr>) })"
    unfolding trim_step_def prod.case Let_def av_def [symmetric] by (simp add: w r s3_def t1_def)
  show ?thesis
  proof (cases "stop_soon s3 \<or> fault = FAULT_ERROR")
    case True
    then show ?thesis using st inv3' pos q3 fs by (intro exI [of _ True]) (simp add: t1_def)
  next
    case go: False
    obtain t2 s4 where k: "(if hash32 (trace_bits s3) HASH_CONST = exec_cksum (queue s3 ! q)
        then trim_keep q av (t1, s3) else Some (t1\<lparr>remove_pos := remove_pos t1 + rl\<rparr>, s3)) = Some (t2, s4)"
      "trim_inv q b0 cks (t2, s4)" "4 \<le> remove_pos t2" "len (queue s4 ! q) - remove_pos t2 < ?l - ?p"
      "fname (queue s4 ! q) = fname (queue s ! q)" "target s4 = target s" "exec_tmout s4 = exec_tmout s"
    proof (cases "hash32 (trace_bits s3) HASH_CONST = exec_cksum (queue s3 ! q)")
      case True
      then have "hash32 (classify_counts (shm_region (raw_trace ob))) HASH_CONST = cks" using r(3) q3 i(4) by (simp add: s3_def)
      then have "vouched s3 cks gap" using r(2) unfolding fs(3) vouched_def by (auto simp: s1_def)
      then show ?thesis using that trim_keep_ok [OF inv3' , of av] True pos(1) av q3 fs by (auto simp: t1_def gap_def)
    next
      case False
      then show ?thesis using that [of "t1\<lparr>remove_pos := remove_pos t1 + rl\<rparr>" s3] inv3 pos q3 fs by (auto simp: t1_def)
    qed
    define s5 where "s5 = (if trim_exec t2 mod stats_update_freq s4 = 0 then show_stats s4 else s4)"
    have f5: "frame s4 s5" by (simp add: s5_def frame_show_stats)
    have q5: "queue s5 = queue s4" by (simp add: s5_def)
    have "maps_ok s5" "answers s5" "vouched s5 = vouched s4" "target s5 = target s4" "exec_tmout s5 = exec_tmout s4"
      using f5 k(2) answers_frame [OF f5] vouched_frame [OF f5]
      by (simp_all add: frame_def keeps_defs options_def trim_inv_def Let_def)
    then have "trim_inv q b0 cks (t2\<lparr>trim_exec := trim_exec t2 + 1\<rparr>, s5\<lparr>stage_cur := stage_cur s5 + 1\<rparr>)"
      using k(2) q5 by (auto simp: trim_inv_def Let_def maps_ok_def answers_def vouched_def)
    moreover have "trim_step q rl (t, s) = Some (False, t2\<lparr>trim_exec := trim_exec t2 + 1\<rparr>, s5\<lparr>stage_cur := stage_cur s5 + 1\<rparr>)"
      using st go k(1) by (simp add: s5_def Let_def)
    ultimately show ?thesis using k(3-) q5 \<open>target s5 = target s4\<close> \<open>exec_tmout s5 = exec_tmout s4\<close>
      by (intro exI [of _ False]) simp
  qed
qed

abbreviation trim_same :: "nat \<Rightarrow> 'a afl_exec_scheme \<Rightarrow> 'a afl_exec_scheme \<Rightarrow> bool" where
  "trim_same q s s' \<equiv> fname (queue s' ! q) = fname (queue s ! q) \<and> target s' = target s \<and> exec_tmout s' = exec_tmout s"

lemma trim_pass_ok:
  assumes "trim_inv q b0 cks (t, s)" "4 \<le> remove_pos t" "0 < rl" "len (queue s ! q) - remove_pos t < fuel"
  shows "\<exists>stop t' s'. trim_pass fuel q rl (t, s) = Some (stop, t', s') \<and> trim_inv q b0 cks (t', s') \<and>
    trim_same q s s' \<and> (stop \<longrightarrow> stop_soon s' \<or> trim_fault t' = FAULT_ERROR)"
  using assms
proof (induction fuel arbitrary: t s)
  case (Suc fuel)
  show ?case
  proof (cases "remove_pos t < len (queue s ! q)")
    case True
    from trim_step_ok [OF Suc.prems(1,2) True Suc.prems(3)] obtain stop t1 s1 where
      st: "trim_step q rl (t, s) = Some (stop, t1, s1)" "trim_inv q b0 cks (t1, s1)" "4 \<le> remove_pos t1" "trim_same q s s1"
        "stop \<longrightarrow> stop_soon s1 \<or> trim_fault t1 = FAULT_ERROR"
        "\<not> stop \<longrightarrow> len (queue s1 ! q) - remove_pos t1 < len (queue s ! q) - remove_pos t" by blast
    show ?thesis
    proof (cases stop)
      case True
      with st \<open>remove_pos t < len (queue s ! q)\<close> show ?thesis by (intro exI [of _ True]) simp
    next
      case False
      with st(6) Suc.prems(4) have "len (queue s1 ! q) - remove_pos t1 < fuel" by linarith
      from Suc.IH [OF st(2,3) Suc.prems(3) this] st False True show ?thesis by simp
    qed
  next
    case False
    then show ?thesis using Suc.prems(1) by (intro exI [of _ False]) simp
  qed
qed simp

lemma trim_loop_ok:
  assumes "trim_inv q b0 cks ts"
  shows "\<exists>stop t' s'. trim_loop q rl ts = Some (stop, t', s') \<and> trim_inv q b0 cks (t', s') \<and> trim_same q (snd ts) s' \<and>
    (stop \<longrightarrow> stop_soon s' \<or> trim_fault t' = FAULT_ERROR)"
  using assms
proof (induction q rl ts rule: trim_loop.induct)
  case (1 q rl ts)
  obtain t s where ts: "ts = (t, s)" by fastforce
  show ?case
  proof (cases "rl \<ge> max (len_p2 t div TRIM_END_STEPS) TRIM_MIN_BYTES")
    case True
    then have rl: "4 \<le> rl" "0 < rl" by (simp_all add: trim_consts)
    define t0 s0 where "t0 = t\<lparr>remove_pos := rl\<rparr>" and "s0 = s\<lparr>stage_cur := 0, stage_max := int (len (queue s ! q) div rl)\<rparr>"
    have "trim_inv q b0 cks (t0, s0)"
      using 1(2) by (simp add: ts trim_inv_def Let_def t0_def s0_def maps_ok_def answers_def vouched_def)
    moreover have "len (queue s0 ! q) - remove_pos t0 < len (queue s ! q) + 1" by (simp add: s0_def)
    ultimately obtain stop t1 s1 where p: "trim_pass (len (queue s ! q) + 1) q rl (t0, s0) = Some (stop, t1, s1)"
      "trim_inv q b0 cks (t1, s1)" "trim_same q s0 s1" "stop \<longrightarrow> stop_soon s1 \<or> trim_fault t1 = FAULT_ERROR"
      using trim_pass_ok [of q b0 cks t0 s0 rl "len (queue s ! q) + 1"] rl unfolding t0_def by fastforce
    have lp: "trim_loop q rl ts = (if stop then Some (True, t1, s1) else trim_loop q (rl div 2) (t1, s1))"
      using True p(1) by (subst trim_loop.simps) (simp add: ts t0_def s0_def)
    show ?thesis
    proof (cases stop)
      case True
      with lp p show ?thesis by (intro exI [of _ True]) (simp add: ts s0_def)
    next
      case False
      have "\<exists>stop t' s'. trim_loop q (rl div 2) (t1, s1) = Some (stop, t', s') \<and> trim_inv q b0 cks (t', s') \<and>
          trim_same q (snd (t1, s1)) s' \<and> (stop \<longrightarrow> stop_soon s' \<or> trim_fault t' = FAULT_ERROR)"
        using True p(1,2) False by (intro 1(1) [of "(stop, t1, s1)"]) (simp_all add: ts t0_def s0_def)
      with lp False p(3) show ?thesis by (auto simp: ts s0_def)
    qed
  next
    case False
    then have "trim_loop q rl ts = Some (False, t, s)" by (subst trim_loop.simps) (simp add: ts del: max.bounded_iff)
    then show ?thesis using 1(2) by (intro exI [of _ False]) (simp add: ts)
  qed
qed

lemma score_files_fold:
  assumes "\<And>i t. files (f i t) = files t"
  shows "files (fold f is s) = files s"
  using assms by (induction "is" arbitrary: s) simp_all

lemma files_update_bitmap_score [simp]: "files (update_bitmap_score q s) = files s"
  unfolding update_bitmap_score_def
  by (rule score_files_fold)
    (simp add: score_body_def win_slot_def release_slot_def upd_entry_def Let_def split: option.splits)

lemma unlink_None: "files (case unlink fn s of None \<Rightarrow> s | Some u \<Rightarrow> u) fn = None"
  by (simp add: unlink_def)

lemma trim_write_ok:
  assumes "trim_inv q b0 cks (t, s)"
  shows "\<exists>s'. trim_write q t s = Some s' \<and> len (queue s' ! q) = len (queue s ! q) \<and> fname (queue s' ! q) = fname (queue s ! q) \<and>
    files s' (fname (queue s ! q)) = Some (take (len (queue s ! q)) (trim_buf t)) \<and> stop_soon s' = stop_soon s"
proof -
  let ?u = "case unlink (fname (queue s ! q)) s of None \<Rightarrow> s | Some u \<Rightarrow> u"
  let ?c = "take (len (queue s ! q)) (trim_buf t)"
  define s1 where "s1 = ?u\<lparr>files := (files ?u)(fname (queue s ! q) \<mapsto> ?c)\<rparr>"
  have "create_excl (fname (queue s ! q)) ?c ?u = Some s1" by (simp add: create_excl_def unlink_None s1_def)
  moreover define s2 where "s2 = update_bitmap_score q (s1\<lparr>trace_bits := clean_trace t\<rparr>)"
  ultimately have w: "trim_write q t s = Some s2" by (simp add: trim_write_def Let_def)
  have q1: "queue s1 = queue s" by (simp add: s1_def unlink_def)
  have "open_frame (s1\<lparr>trace_bits := clean_trace t\<rparr>) s2" unfolding s2_def by (rule open_frame_update_bitmap_score)
  then have "identity (queue s2 ! q) = identity (queue s ! q)"
    using assms q1 by (auto simp: open_frame_def queue_same_def trim_inv_def Let_def)
  moreover have "stop_soon s2 = stop_soon s" 
  proof -
    have "stop_soon (fold (score_body q ff) is u) = stop_soon u" for ff "is" and u :: "'a afl_exec_scheme"
      by (induction "is" arbitrary: u)
        (simp_all add: score_body_def win_slot_def release_slot_def upd_entry_def Let_def split: option.splits)
    then show ?thesis by (simp add: s2_def update_bitmap_score_def s1_def unlink_def)
  qed
  ultimately show ?thesis using w by (simp add: identity_def s2_def s1_def)
qed

lemma trim_case_spec:
  assumes "q < length (queue s)" "maps_ok s" "answers s" "len (queue s ! q) = length b" "length b \<le> 2 ^ 31"
  shows "\<exists>f b' t. trim_case q b s = Some (f, b', t) \<and> length b' = length b \<and>
    (let l = len (queue t ! q) in
      l \<le> length b \<and> min 4 (length b) \<le> l \<and> subseq (take l b') b \<and>
      (l < length b \<longrightarrow> vouched s (exec_cksum (queue s ! q)) (take l b')) \<and>
      (l < length b \<and> \<not> stop_soon t \<and> f \<noteq> FAULT_ERROR \<longrightarrow> files t (fname (queue s ! q)) = Some (take l b')))"
proof (cases "length b < 5")
  case True
  with assms show ?thesis by (simp add: trim_case_def)
next
  case False
  have "unat (of_nat (length b) :: u32) \<le> 2 ^ 31"
    using assms(5) mod_less_eq_dividend [of "length b" "2 ^ 32"] by (simp add: unat_of_nat)
  then obtain p2 where p2: "next_p2 (of_nat (length b)) = Some p2" using next_p2_total_iff by blast
  define t where "t = \<lparr>remove_pos = 0, len_p2 = unat p2, needs_write = False, clean_trace = [], trim_buf = b,
                 trim_exec = 0, trim_fault = FAULT_NONE\<rparr>"
  define s1 where "s1 = s\<lparr>bytes_trim_in := bytes_trim_in s + length b\<rparr>"
  let ?cks = "exec_cksum (queue s ! q)"
  have "trim_inv q b ?cks (t, s1)"
    using assms False by (simp add: trim_inv_def Let_def t_def s1_def maps_ok_def answers_def)
  from trim_loop_ok [OF this] obtain stop t1 s2 where
    l: "trim_loop q (max (unat p2 div TRIM_START_STEPS) TRIM_MIN_BYTES) (t, s1) = Some (stop, t1, s2)"
      "trim_inv q b ?cks (t1, s2)" "trim_same q s1 s2" "stop \<longrightarrow> stop_soon s2 \<or> trim_fault t1 = FAULT_ERROR" by fastforce
  obtain s3 where s3: "(if \<not> stop \<and> needs_write t1 then trim_write q t1 s2 else Some s2) = Some s3"
    "len (queue s3 ! q) = len (queue s2 ! q)"
    "\<not> stop \<and> needs_write t1 \<longrightarrow> files s3 (fname (queue s2 ! q)) = Some (take (len (queue s2 ! q)) (trim_buf t1))"
    "stop_soon s3 = stop_soon s2"
    using trim_write_ok [OF l(2)] by (cases "\<not> stop \<and> needs_write t1") (simp_all, blast)
  define u where "u = s3\<lparr>bytes_trim_out := bytes_trim_out s3 + len (queue s3 ! q)\<rparr>"
  have tc: "trim_case q b s = Some (trim_fault t1, trim_buf t1, u)"
    using False assms(4) l(1) s3(1) unfolding trim_case_def Let_def
    by (simp add: p2 t_def s1_def u_def)
  have v: "vouched s2 = vouched s" using l(3) by (intro ext) (simp add: vouched_def s1_def)
  have nw: "len (queue s2 ! q) < length b \<Longrightarrow> needs_write t1" using l(2) by (auto simp: trim_inv_def Let_def)
  show ?thesis
    using tc l(2,3,4) s3(2-) nw v by (auto simp: trim_inv_def Let_def u_def s1_def)
qed

end
