(* ===== verification/Afl_Det.thy ===== *)
theory Afl_Det
  imports Afl_Trim
begin

text \<open>
  The deterministic stages of \<open>fuzz_one\<close> in \<^verbatim>\<open>docker/AFL/afl-fuzz.c\<close>: walking bit and byte flips with
  token collection and the effector map, arithmetic, interesting values and dictionary tokens. Each
  stage works on the output buffer and the fuzzer state and hands its test cases to an executor, which
  \<open>fuzz_one\<close> sets to \<open>common_fuzz_stuff\<close>. The flag a stage returns says that the executor asked for the
  entry to be abandoned. An access outside a buffer is \<^const>\<open>None\<close>.
\<close>

section \<open>State\<close>

record afl_stage = afl_exec +
  queue_cur :: nat
  skip_deterministic :: bool
  no_arith :: bool
  use_splicing :: bool
  master_id :: nat
  master_max :: nat
  havoc_div :: nat
  blocks_eff_total :: nat
  blocks_eff_select :: nat
  stage_finds :: "nat list"
  stage_cycles :: "int list"

type_synonym 's executor = "u8 list \<Rightarrow> 's \<Rightarrow> (bool \<times> 's) option"
type_synonym 's stage = "u8 list \<times> 's \<Rightarrow> (bool \<times> u8 list \<times> 's) option"

datatype stage_id =
  STAGE_FLIP1 | STAGE_FLIP2 | STAGE_FLIP4 | STAGE_FLIP8 | STAGE_FLIP16 | STAGE_FLIP32
| STAGE_ARITH8 | STAGE_ARITH16 | STAGE_ARITH32 | STAGE_INTEREST8 | STAGE_INTEREST16 | STAGE_INTEREST32
| STAGE_EXTRAS_UO | STAGE_EXTRAS_UI | STAGE_EXTRAS_AO | STAGE_HAVOC | STAGE_SPLICE

definition stage_index :: "stage_id \<Rightarrow> nat" where
  "stage_index k = (case k of
     STAGE_FLIP1 \<Rightarrow> 0 | STAGE_FLIP2 \<Rightarrow> 1 | STAGE_FLIP4 \<Rightarrow> 2 | STAGE_FLIP8 \<Rightarrow> 3 | STAGE_FLIP16 \<Rightarrow> 4 | STAGE_FLIP32 \<Rightarrow> 5
   | STAGE_ARITH8 \<Rightarrow> 6 | STAGE_ARITH16 \<Rightarrow> 7 | STAGE_ARITH32 \<Rightarrow> 8
   | STAGE_INTEREST8 \<Rightarrow> 9 | STAGE_INTEREST16 \<Rightarrow> 10 | STAGE_INTEREST32 \<Rightarrow> 11
   | STAGE_EXTRAS_UO \<Rightarrow> 12 | STAGE_EXTRAS_UI \<Rightarrow> 13 | STAGE_EXTRAS_AO \<Rightarrow> 14 | STAGE_HAVOC \<Rightarrow> 15 | STAGE_SPLICE \<Rightarrow> 16)"

definition hit_cnt_now :: "'a afl_stage_scheme \<Rightarrow> nat" where
  "hit_cnt_now s = queued_paths s + unique_crashes s"

definition finish_stage :: "stage_id \<Rightarrow> nat \<Rightarrow> 'a afl_stage_scheme \<Rightarrow> 'a afl_stage_scheme" where
  "finish_stage k orig s =
     (let i = stage_index k in
      s\<lparr>stage_finds := (stage_finds s)[i := stage_finds s ! i + (hit_cnt_now s - orig)],
        stage_cycles := (stage_cycles s)[i := stage_cycles s ! i + stage_max s]\<rparr>)"

text \<open>A stage: set the registers, run the loop, and account for it unless the entry is abandoned.\<close>

definition run_stage :: "stage_id \<Rightarrow> string \<Rightarrow> int \<Rightarrow> 'a afl_stage_scheme stage \<Rightarrow> 'a afl_stage_scheme stage" where
  "run_stage k short mx loop = (\<lambda>(buf, s).
     let orig = hit_cnt_now s in
     case loop (buf, s\<lparr>stage_short := short, stage_cur := 0, stage_max := mx\<rparr>) of
       None \<Rightarrow> None
     | Some (stop, buf', s') \<Rightarrow> Some (stop, buf', if stop then s' else finish_stage k orig s'))"

section \<open>Bit flips\<close>

definition FLIP_BIT :: "u8 list \<Rightarrow> nat \<Rightarrow> u8 list option" where
  "FLIP_BIT buf b = do { v \<leftarrow> rd8 buf (b div 8); wr8 buf (b div 8) (v XOR drop_bit (b mod 8) 128) }"

definition flip_bits :: "nat list \<Rightarrow> u8 list \<Rightarrow> u8 list option" where
  "flip_bits bs buf = foldM (\<lambda>b buf. FLIP_BIT buf b) bs buf"

record token =
  a_collect :: "u8 list"
  a_len :: nat
  prev_cksum :: u32

definition tok_char :: "u8 \<Rightarrow> token \<Rightarrow> token" where
  "tok_char c a =
     (if a_len a < MAX_AUTO_EXTRA then a\<lparr>a_collect := (a_collect a)[a_len a := c], a_len := a_len a + 1\<rparr>
      else a\<lparr>a_len := a_len a + 1\<rparr>)"

definition tok_flush :: "token \<Rightarrow> 'a afl_stage_scheme \<Rightarrow> 'a afl_stage_scheme option" where
  "tok_flush a s =
     (if MIN_AUTO_EXTRA \<le> a_len a \<and> a_len a \<le> MAX_AUTO_EXTRA
      then maybe_add_auto (take (a_len a) (a_collect a)) s else Some s)"

definition collect_token :: "nat \<Rightarrow> u8 \<Rightarrow> token \<times> 'a afl_stage_scheme \<Rightarrow> (token \<times> 'a afl_stage_scheme) option" where
  "collect_token i c = (\<lambda>(a, s). do {
     let cksum = hash32 (trace_bits s) HASH_CONST;
     (a1, s1) \<leftarrow>
       (if int i = stage_max s - 1 \<and> cksum = prev_cksum a
        then (let a' = tok_char c a in do { s' \<leftarrow> tok_flush a' s; Some (a', s') })
        else if cksum \<noteq> prev_cksum a
        then do { s' \<leftarrow> tok_flush a s; Some (a\<lparr>a_len := 0, prev_cksum := cksum\<rparr>, s') }
        else Some (a, s));
     Some (if cksum \<noteq> exec_cksum (queue s1 ! queue_cur s1) then tok_char c a1 else a1, s1) })"

definition flip1_body :: "'a afl_stage_scheme executor \<Rightarrow> nat \<Rightarrow> u8 list \<times> token \<times> 'a afl_stage_scheme \<Rightarrow>
    (bool \<times> u8 list \<times> token \<times> 'a afl_stage_scheme) option" where
  "flip1_body cfs i = (\<lambda>(buf, a, s). do {
     let s1 = s\<lparr>stage_cur := int i, stage_cur_byte := int (i div 8)\<rparr>;
     b1 \<leftarrow> FLIP_BIT buf i;
     (stop, s2) \<leftarrow> cfs b1 s1;
     (if stop then Some (True, b1, a, s2)
      else do {
        b2 \<leftarrow> FLIP_BIT b1 i;
        (if \<not> dumb_mode s2 \<and> i mod 8 = 7
         then do { c \<leftarrow> rd8 b2 (i div 8); (a', s3) \<leftarrow> collect_token i c (a, s2); Some (False, b2, a', s3) }
         else Some (False, b2, a, s2)) }) })"

definition flip1_loop :: "'a afl_stage_scheme executor \<Rightarrow> 'a afl_stage_scheme stage" where
  "flip1_loop cfs = (\<lambda>(buf, s).
     let a = \<lparr>a_collect = replicate MAX_AUTO_EXTRA 0, a_len = 0, prev_cksum = exec_cksum (queue s ! queue_cur s)\<rparr> in
     map_option (\<lambda>(stop, buf', a', s'). (stop, buf', s'))
       (for_each (flip1_body cfs) [0 ..< 8 * length buf] (buf, a, s\<lparr>stage_val_type := STAGE_VAL_NONE\<rparr>)))"

definition flip1_stage :: "'a afl_stage_scheme executor \<Rightarrow> 'a afl_stage_scheme stage" where
  "flip1_stage cfs = (\<lambda>(buf, s). run_stage STAGE_FLIP1 ''flip1'' (8 * int (length buf)) (flip1_loop cfs) (buf, s))"

definition flipn_body :: "nat \<Rightarrow> 'a afl_stage_scheme executor \<Rightarrow> nat \<Rightarrow> 'a afl_stage_scheme stage" where
  "flipn_body n cfs i = (\<lambda>(buf, s). do {
     let s1 = s\<lparr>stage_cur := int i, stage_cur_byte := int (i div 8)\<rparr>;
     b1 \<leftarrow> flip_bits [i ..< i + n] buf;
     (stop, s2) \<leftarrow> cfs b1 s1;
     (if stop then Some (True, b1, s2)
      else do { b2 \<leftarrow> flip_bits [i ..< i + n] b1; Some (False, b2, s2) }) })"

definition flip2_stage :: "'a afl_stage_scheme executor \<Rightarrow> 'a afl_stage_scheme stage" where
  "flip2_stage cfs = (\<lambda>(buf, s).
     run_stage STAGE_FLIP2 ''flip2'' (8 * int (length buf) - 1) (for_each (flipn_body 2 cfs) [0 ..< 8 * length buf - 1]) (buf, s))"

definition flip4_stage :: "'a afl_stage_scheme executor \<Rightarrow> 'a afl_stage_scheme stage" where
  "flip4_stage cfs = (\<lambda>(buf, s).
     run_stage STAGE_FLIP4 ''flip4'' (8 * int (length buf) - 3) (for_each (flipn_body 4 cfs) [0 ..< 8 * length buf - 3]) (buf, s))"

section \<open>Byte flips and the effector map\<close>

definition EFF_APOS :: "nat \<Rightarrow> nat" where "EFF_APOS p = p div 8"
definition EFF_ALEN :: "nat \<Rightarrow> nat" where "EFF_ALEN l = EFF_APOS l + of_bool (l mod 8 \<noteq> 0)"
definition EFF_SPAN_ALEN :: "nat \<Rightarrow> nat \<Rightarrow> nat" where "EFF_SPAN_ALEN p l = EFF_APOS (p + l - 1) - EFF_APOS p + 1"
definition EFF_MIN_LEN :: nat where "EFF_MIN_LEN = 128"
definition EFF_MAX_PERC :: nat where "EFF_MAX_PERC = 90"

type_synonym eff_map = "bool list"

definition eff_rd :: "eff_map \<Rightarrow> nat \<Rightarrow> bool option" where
  "eff_rd eff p = (if EFF_APOS p < length eff then Some (eff ! EFF_APOS p) else None)"

definition eff_init :: "nat \<Rightarrow> eff_map \<times> nat" where
  "eff_init l =
     (let m = (replicate (EFF_ALEN l) False)[0 := True]
      in if EFF_APOS (l - 1) \<noteq> 0 then (m[EFF_APOS (l - 1) := True], 2) else (m, 1))"

definition eff_mark :: "nat \<Rightarrow> nat \<Rightarrow> 'a afl_stage_scheme \<Rightarrow> eff_map \<times> nat \<Rightarrow> (eff_map \<times> nat) option" where
  "eff_mark l i s = (\<lambda>(eff, eff_cnt). do {
     e \<leftarrow> eff_rd eff i;
     (if e then Some (eff, eff_cnt)
      else let q = exec_cksum (queue s ! queue_cur s);
               cksum = (if \<not> dumb_mode s \<and> l \<ge> EFF_MIN_LEN then hash32 (trace_bits s) HASH_CONST else NOT q)
           in Some (if cksum \<noteq> q then (eff[EFF_APOS i := True], eff_cnt + 1) else (eff, eff_cnt))) })"

definition flip8_body :: "'a afl_stage_scheme executor \<Rightarrow> nat \<Rightarrow> u8 list \<times> (eff_map \<times> nat) \<times> 'a afl_stage_scheme \<Rightarrow>
    (bool \<times> u8 list \<times> (eff_map \<times> nat) \<times> 'a afl_stage_scheme) option" where
  "flip8_body cfs i = (\<lambda>(buf, ec, s). do {
     let s1 = s\<lparr>stage_cur := int i, stage_cur_byte := int i\<rparr>;
     v \<leftarrow> rd8 buf i;
     b1 \<leftarrow> wr8 buf i (v XOR 0xFF);
     (stop, s2) \<leftarrow> cfs b1 s1;
     (if stop then Some (True, b1, ec, s2)
      else do {
        ec' \<leftarrow> eff_mark (length buf) i s2 ec;
        v' \<leftarrow> rd8 b1 i;
        b2 \<leftarrow> wr8 b1 i (v' XOR 0xFF);
        Some (False, b2, ec', s2) }) })"

definition eff_finish :: "nat \<Rightarrow> eff_map \<times> nat \<Rightarrow> 'a afl_stage_scheme \<Rightarrow> eff_map \<times> 'a afl_stage_scheme" where
  "eff_finish l = (\<lambda>(eff, eff_cnt) s.
     let dense = (eff_cnt \<noteq> EFF_ALEN l \<and> eff_cnt * 100 div EFF_ALEN l > EFF_MAX_PERC) in
     (if dense then replicate (EFF_ALEN l) True else eff,
      s\<lparr>blocks_eff_select := blocks_eff_select s + (if dense then EFF_ALEN l else eff_cnt),
        blocks_eff_total := blocks_eff_total s + EFF_ALEN l\<rparr>))"

definition flip8_stage :: "'a afl_stage_scheme executor \<Rightarrow> u8 list \<times> 'a afl_stage_scheme \<Rightarrow>
    (bool \<times> u8 list \<times> eff_map \<times> 'a afl_stage_scheme) option" where
  "flip8_stage cfs = (\<lambda>(buf, s).
     let orig = hit_cnt_now s; l = length buf in
     case for_each (flip8_body cfs) [0 ..< l]
            (buf, eff_init l, s\<lparr>stage_short := ''flip8'', stage_cur := 0, stage_max := int l\<rparr>) of
       None \<Rightarrow> None
     | Some (True, buf', (eff, eff_cnt), s') \<Rightarrow> Some (True, buf', eff, s')
     | Some (False, buf', ec, s') \<Rightarrow>
         (let (eff, s2) = eff_finish l ec s' in Some (False, buf', eff, finish_stage STAGE_FLIP8 orig s2)))"

text \<open>Positions whose whole span the effector map rules out are skipped by the wider stages.\<close>

definition span_dead :: "eff_map \<Rightarrow> nat \<Rightarrow> nat \<Rightarrow> bool option" where
  "span_dead eff i n = foldM (\<lambda>k dead. map_option (\<lambda>e. dead \<and> \<not> e) (eff_rd eff (i + k))) [0 ..< n] True"

definition when_live :: "eff_map \<Rightarrow> nat \<Rightarrow> int \<Rightarrow> (nat \<Rightarrow> 'a afl_stage_scheme stage) \<Rightarrow> nat \<Rightarrow> 'a afl_stage_scheme stage" where
  "when_live eff n cost f i = (\<lambda>(buf, s). do {
     dead \<leftarrow> span_dead eff i n;
     (if dead then Some (False, buf, s\<lparr>stage_max := stage_max s - cost\<rparr>)
      else f i (buf, s\<lparr>stage_cur_byte := int i\<rparr>)) })"

definition flip16_body :: "'a afl_stage_scheme executor \<Rightarrow> nat \<Rightarrow> 'a afl_stage_scheme stage" where
  "flip16_body cfs i = (\<lambda>(buf, s). do {
     v \<leftarrow> rd16 buf i;
     b1 \<leftarrow> wr16 buf i (v XOR 0xFFFF);
     (stop, s1) \<leftarrow> cfs b1 s;
     (if stop then Some (True, b1, s1)
      else do {
        v' \<leftarrow> rd16 b1 i;
        b2 \<leftarrow> wr16 b1 i (v' XOR 0xFFFF);
        Some (False, b2, s1\<lparr>stage_cur := stage_cur s1 + 1\<rparr>) }) })"

definition flip32_body :: "'a afl_stage_scheme executor \<Rightarrow> nat \<Rightarrow> 'a afl_stage_scheme stage" where
  "flip32_body cfs i = (\<lambda>(buf, s). do {
     v \<leftarrow> rd32 buf i;
     b1 \<leftarrow> wr32 buf i (v XOR 0xFFFFFFFF);
     (stop, s1) \<leftarrow> cfs b1 s;
     (if stop then Some (True, b1, s1)
      else do {
        v' \<leftarrow> rd32 b1 i;
        b2 \<leftarrow> wr32 b1 i (v' XOR 0xFFFFFFFF);
        Some (False, b2, s1\<lparr>stage_cur := stage_cur s1 + 1\<rparr>) }) })"

definition flip16_stage :: "'a afl_stage_scheme executor \<Rightarrow> eff_map \<Rightarrow> 'a afl_stage_scheme stage" where
  "flip16_stage cfs eff = (\<lambda>(buf, s).
     run_stage STAGE_FLIP16 ''flip16'' (int (length buf) - 1)
       (for_each (when_live eff 2 1 (flip16_body cfs)) [0 ..< length buf - 1]) (buf, s))"

definition flip32_stage :: "'a afl_stage_scheme executor \<Rightarrow> eff_map \<Rightarrow> 'a afl_stage_scheme stage" where
  "flip32_stage cfs eff = (\<lambda>(buf, s).
     run_stage STAGE_FLIP32 ''flip32'' (int (length buf) - 3)
       (for_each (when_live eff 4 1 (flip32_body cfs)) [0 ..< length buf - 3]) (buf, s))"

section \<open>Arithmetic\<close>

definition then_do :: "('x \<Rightarrow> (bool \<times> 'x) option) \<Rightarrow> ('x \<Rightarrow> (bool \<times> 'x) option) \<Rightarrow> 'x \<Rightarrow> (bool \<times> 'x) option" where
  "then_do f g x = (case f x of None \<Rightarrow> None | Some (stop, y) \<Rightarrow> (if stop then Some (True, y) else g y))"

text \<open>One guarded attempt: run the executor on the changed buffer and count it, or discount it from
  the total of the stage.\<close>

definition try_val :: "'a afl_stage_scheme executor \<Rightarrow> bool \<Rightarrow> int \<Rightarrow> (u8 list \<Rightarrow> u8 list option) \<Rightarrow> 'a afl_stage_scheme stage" where
  "try_val cfs ok v change = (\<lambda>(buf, s).
     if ok
     then do {
       b1 \<leftarrow> change buf;
       (stop, s1) \<leftarrow> cfs b1 (s\<lparr>stage_cur_val := v\<rparr>);
       Some (stop, b1, if stop then s1 else s1\<lparr>stage_cur := stage_cur s1 + 1\<rparr>) }
     else Some (False, buf, s\<lparr>stage_max := stage_max s - 1\<rparr>))"

definition set_val_type :: "stage_val \<Rightarrow> 'a afl_stage_scheme stage" where
  "set_val_type vt = (\<lambda>(buf, s). Some (False, buf, s\<lparr>stage_val_type := vt\<rparr>))"

definition put_back :: "(u8 list \<Rightarrow> u8 list option) \<Rightarrow> 'a afl_stage_scheme stage" where
  "put_back change = (\<lambda>(buf, s). map_option (\<lambda>b. (False, b, s)) (change buf))"

definition arith8_step :: "'a afl_stage_scheme executor \<Rightarrow> nat \<Rightarrow> u8 \<Rightarrow> nat \<Rightarrow> 'a afl_stage_scheme stage" where
  "arith8_step cfs i orig j =
     (let r1 = orig XOR (orig + of_nat j); r2 = orig XOR (orig - of_nat j) in
      then_do (try_val cfs (\<not> could_be_bitflip (ucast r1)) (int j) (\<lambda>b. wr8 b i (orig + of_nat j)))
     (then_do (try_val cfs (\<not> could_be_bitflip (ucast r2)) (- int j) (\<lambda>b. wr8 b i (orig - of_nat j)))
              (put_back (\<lambda>b. wr8 b i orig))))"

definition arith8_body :: "'a afl_stage_scheme executor \<Rightarrow> nat \<Rightarrow> 'a afl_stage_scheme stage" where
  "arith8_body cfs i = (\<lambda>(buf, s). do { orig \<leftarrow> rd8 buf i; for_each (arith8_step cfs i orig) [1 ..< ARITH_MAX + 1] (buf, s) })"

definition arith16_step :: "'a afl_stage_scheme executor \<Rightarrow> nat \<Rightarrow> u16 \<Rightarrow> nat \<Rightarrow> 'a afl_stage_scheme stage" where
  "arith16_step cfs i orig j =
     (let n1 = orig + of_nat j; n2 = orig - of_nat j;
          n3 = SWAP16 (SWAP16 orig + of_nat j); n4 = SWAP16 (SWAP16 orig - of_nat j) in
      then_do (set_val_type STAGE_VAL_LE)
     (then_do (try_val cfs (unat (orig AND 0xff) + j > 0xff \<and> \<not> could_be_bitflip (ucast (orig XOR n1))) (int j) (\<lambda>b. wr16 b i n1))
     (then_do (try_val cfs (unat (orig AND 0xff) < j \<and> \<not> could_be_bitflip (ucast (orig XOR n2))) (- int j) (\<lambda>b. wr16 b i n2))
     (then_do (set_val_type STAGE_VAL_BE)
     (then_do (try_val cfs (unat (drop_bit 8 orig) + j > 0xff \<and> \<not> could_be_bitflip (ucast (orig XOR n3))) (int j) (\<lambda>b. wr16 b i n3))
     (then_do (try_val cfs (unat (drop_bit 8 orig) < j \<and> \<not> could_be_bitflip (ucast (orig XOR n4))) (- int j) (\<lambda>b. wr16 b i n4))
              (put_back (\<lambda>b. wr16 b i orig))))))))"

definition arith16_body :: "'a afl_stage_scheme executor \<Rightarrow> nat \<Rightarrow> 'a afl_stage_scheme stage" where
  "arith16_body cfs i = (\<lambda>(buf, s). do { orig \<leftarrow> rd16 buf i; for_each (arith16_step cfs i orig) [1 ..< ARITH_MAX + 1] (buf, s) })"

definition arith32_step :: "'a afl_stage_scheme executor \<Rightarrow> nat \<Rightarrow> u32 \<Rightarrow> nat \<Rightarrow> 'a afl_stage_scheme stage" where
  "arith32_step cfs i orig j =
     (let n1 = orig + of_nat j; n2 = orig - of_nat j;
          n3 = SWAP32 (SWAP32 orig + of_nat j); n4 = SWAP32 (SWAP32 orig - of_nat j) in
      then_do (set_val_type STAGE_VAL_LE)
     (then_do (try_val cfs (unat (orig AND 0xffff) + j > 0xffff \<and> \<not> could_be_bitflip (orig XOR n1)) (int j) (\<lambda>b. wr32 b i n1))
     (then_do (try_val cfs (unat (orig AND 0xffff) < j \<and> \<not> could_be_bitflip (orig XOR n2)) (- int j) (\<lambda>b. wr32 b i n2))
     (then_do (set_val_type STAGE_VAL_BE)
     (then_do (try_val cfs (unat (SWAP32 orig AND 0xffff) + j > 0xffff \<and> \<not> could_be_bitflip (orig XOR n3)) (int j) (\<lambda>b. wr32 b i n3))
     (then_do (try_val cfs (unat (SWAP32 orig AND 0xffff) < j \<and> \<not> could_be_bitflip (orig XOR n4)) (- int j) (\<lambda>b. wr32 b i n4))
              (put_back (\<lambda>b. wr32 b i orig))))))))"

definition arith32_body :: "'a afl_stage_scheme executor \<Rightarrow> nat \<Rightarrow> 'a afl_stage_scheme stage" where
  "arith32_body cfs i = (\<lambda>(buf, s). do { orig \<leftarrow> rd32 buf i; for_each (arith32_step cfs i orig) [1 ..< ARITH_MAX + 1] (buf, s) })"

definition arith8_stage :: "'a afl_stage_scheme executor \<Rightarrow> eff_map \<Rightarrow> 'a afl_stage_scheme stage" where
  "arith8_stage cfs eff = (\<lambda>(buf, s).
     run_stage STAGE_ARITH8 ''arith8'' (2 * int (length buf) * int ARITH_MAX)
       (for_each (when_live eff 1 (2 * int ARITH_MAX) (arith8_body cfs)) [0 ..< length buf])
       (buf, s\<lparr>stage_val_type := STAGE_VAL_LE\<rparr>))"

definition arith16_stage :: "'a afl_stage_scheme executor \<Rightarrow> eff_map \<Rightarrow> 'a afl_stage_scheme stage" where
  "arith16_stage cfs eff = (\<lambda>(buf, s).
     run_stage STAGE_ARITH16 ''arith16'' (4 * (int (length buf) - 1) * int ARITH_MAX)
       (for_each (when_live eff 2 (4 * int ARITH_MAX) (arith16_body cfs)) [0 ..< length buf - 1]) (buf, s))"

definition arith32_stage :: "'a afl_stage_scheme executor \<Rightarrow> eff_map \<Rightarrow> 'a afl_stage_scheme stage" where
  "arith32_stage cfs eff = (\<lambda>(buf, s).
     run_stage STAGE_ARITH32 ''arith32'' (4 * (int (length buf) - 3) * int ARITH_MAX)
       (for_each (when_live eff 4 (4 * int ARITH_MAX) (arith32_body cfs)) [0 ..< length buf - 3]) (buf, s))"

section \<open>Interesting values\<close>

definition set_val :: "int \<Rightarrow> 'a afl_stage_scheme stage" where
  "set_val v = (\<lambda>(buf, s). Some (False, buf, s\<lparr>stage_cur_val := v\<rparr>))"

definition try_typed :: "'a afl_stage_scheme executor \<Rightarrow> bool \<Rightarrow> stage_val \<Rightarrow> int \<Rightarrow> (u8 list \<Rightarrow> u8 list option) \<Rightarrow>
    'a afl_stage_scheme stage" where
  "try_typed cfs ok vt v change =
     (if ok then then_do (set_val_type vt) (try_val cfs True v change) else try_val cfs False v change)"

definition interest8_step :: "'a afl_stage_scheme executor \<Rightarrow> nat \<Rightarrow> u8 \<Rightarrow> u8 \<Rightarrow> 'a afl_stage_scheme stage" where
  "interest8_step cfs i orig v =
     (let dup = (could_be_bitflip (ucast (orig XOR v)) \<or> could_be_arith (ucast orig) (ucast v) 1) in
      if dup then try_val cfs False 0 Some
      else then_do (try_val cfs True (sint v) (\<lambda>b. wr8 b i v)) (put_back (\<lambda>b. wr8 b i orig)))"

definition interest8_body :: "'a afl_stage_scheme executor \<Rightarrow> nat \<Rightarrow> 'a afl_stage_scheme stage" where
  "interest8_body cfs i = (\<lambda>(buf, s). do { orig \<leftarrow> rd8 buf i; for_each (interest8_step cfs i orig) interesting_8 (buf, s) })"

definition interest16_step :: "'a afl_stage_scheme executor \<Rightarrow> nat \<Rightarrow> u16 \<Rightarrow> int \<Rightarrow> 'a afl_stage_scheme stage" where
  "interest16_step cfs i orig sv =
     (let v = word_of_int sv :: u16; w = SWAP16 v; o32 = ucast orig :: u32 in
      then_do (set_val sv)
     (then_do (try_typed cfs (\<not> could_be_bitflip (ucast (orig XOR v)) \<and> \<not> could_be_arith o32 (ucast v) 2 \<and>
                              \<not> could_be_interest o32 (ucast v) 2 False) STAGE_VAL_LE sv (\<lambda>b. wr16 b i v))
              (try_typed cfs (v \<noteq> w \<and> \<not> could_be_bitflip (ucast (orig XOR w)) \<and> \<not> could_be_arith o32 (ucast w) 2 \<and>
                              \<not> could_be_interest o32 (ucast w) 2 True) STAGE_VAL_BE sv (\<lambda>b. wr16 b i w))))"

definition interest16_body :: "'a afl_stage_scheme executor \<Rightarrow> nat \<Rightarrow> 'a afl_stage_scheme stage" where
  "interest16_body cfs i = (\<lambda>(buf, s). do {
     orig \<leftarrow> rd16 buf i;
     then_do (for_each (interest16_step cfs i orig) interesting_16_s) (put_back (\<lambda>b. wr16 b i orig)) (buf, s) })"

definition interest32_step :: "'a afl_stage_scheme executor \<Rightarrow> nat \<Rightarrow> u32 \<Rightarrow> int \<Rightarrow> 'a afl_stage_scheme stage" where
  "interest32_step cfs i orig sv =
     (let v = word_of_int sv :: u32; w = SWAP32 v in
      then_do (set_val sv)
     (then_do (try_typed cfs (\<not> could_be_bitflip (orig XOR v) \<and> \<not> could_be_arith orig v 4 \<and> \<not> could_be_interest orig v 4 False)
                 STAGE_VAL_LE sv (\<lambda>b. wr32 b i v))
              (try_typed cfs (v \<noteq> w \<and> \<not> could_be_bitflip (orig XOR w) \<and> \<not> could_be_arith orig w 4 \<and> \<not> could_be_interest orig w 4 True)
                 STAGE_VAL_BE sv (\<lambda>b. wr32 b i w))))"

definition interest32_body :: "'a afl_stage_scheme executor \<Rightarrow> nat \<Rightarrow> 'a afl_stage_scheme stage" where
  "interest32_body cfs i = (\<lambda>(buf, s). do {
     orig \<leftarrow> rd32 buf i;
     then_do (for_each (interest32_step cfs i orig) interesting_32_s) (put_back (\<lambda>b. wr32 b i orig)) (buf, s) })"

definition interest8_stage :: "'a afl_stage_scheme executor \<Rightarrow> eff_map \<Rightarrow> 'a afl_stage_scheme stage" where
  "interest8_stage cfs eff = (\<lambda>(buf, s).
     run_stage STAGE_INTEREST8 ''int8'' (int (length buf) * 9)
       (for_each (when_live eff 1 9 (interest8_body cfs)) [0 ..< length buf]) (buf, s\<lparr>stage_val_type := STAGE_VAL_LE\<rparr>))"

definition interest16_stage :: "'a afl_stage_scheme executor \<Rightarrow> eff_map \<Rightarrow> 'a afl_stage_scheme stage" where
  "interest16_stage cfs eff = (\<lambda>(buf, s).
     run_stage STAGE_INTEREST16 ''int16'' (2 * (int (length buf) - 1) * 19)
       (for_each (when_live eff 2 38 (interest16_body cfs)) [0 ..< length buf - 1]) (buf, s))"

definition interest32_stage :: "'a afl_stage_scheme executor \<Rightarrow> eff_map \<Rightarrow> 'a afl_stage_scheme stage" where
  "interest32_stage cfs eff = (\<lambda>(buf, s).
     run_stage STAGE_INTEREST32 ''int32'' (2 * (int (length buf) - 3) * 27)
       (for_each (when_live eff 4 54 (interest32_body cfs)) [0 ..< length buf - 3]) (buf, s))"

section \<open>Dictionary tokens\<close>

definition MAX_FILE :: nat where "MAX_FILE = 1024 * 1024"

definition eff_span_live :: "eff_map \<Rightarrow> nat \<Rightarrow> nat \<Rightarrow> bool option" where
  "eff_span_live eff i l =
     (let n = EFF_SPAN_ALEN i l in
      if EFF_APOS i + n \<le> length eff then Some (list_ex (\<lambda>e. e) (take n (drop (EFF_APOS i) eff))) else None)"

definition over_step :: "'a afl_stage_scheme executor \<Rightarrow> eff_map \<Rightarrow> bool \<Rightarrow> nat \<Rightarrow> nat \<Rightarrow> extra_data \<Rightarrow>
    nat \<times> u8 list \<times> 'a afl_stage_scheme \<Rightarrow> (bool \<times> nat \<times> u8 list \<times> 'a afl_stage_scheme) option" where
  "over_step cfs eff prob cnt i e = (\<lambda>(last_len, buf, s). do {
     (drop_it, s1) \<leftarrow> (if prob \<and> cnt > MAX_DET_EXTRAS
                       then map_option (\<lambda>(r, t). (r \<ge> MAX_DET_EXTRAS, t)) (UR cnt s) else Some (False, s));
     live \<leftarrow> (if drop_it \<or> extra_len e > length buf - i \<or> data e = take (extra_len e) (drop i buf) then Some False
              else eff_span_live eff i (extra_len e));
     (if \<not> live then Some (False, last_len, buf, s1\<lparr>stage_max := stage_max s1 - 1\<rparr>)
      else do {
        b1 \<leftarrow> memcpy buf i (data e) 0 (extra_len e);
        (stop, s2) \<leftarrow> cfs b1 s1;
        Some (stop, extra_len e, b1, if stop then s2 else s2\<lparr>stage_cur := stage_cur s2 + 1\<rparr>) }) })"

definition over_body :: "'a afl_stage_scheme executor \<Rightarrow> eff_map \<Rightarrow> bool \<Rightarrow> extra_data list \<Rightarrow> u8 list \<Rightarrow> nat \<Rightarrow>
    'a afl_stage_scheme stage" where
  "over_body cfs eff prob exs in_buf i = (\<lambda>(buf, s). do {
     (stop, last_len, b1, s1) \<leftarrow>
       for_each (over_step cfs eff prob (length exs) i) exs (0, buf, s\<lparr>stage_cur_byte := int i\<rparr>);
     (if stop then Some (True, b1, s1)
      else do { b2 \<leftarrow> memcpy b1 i in_buf i last_len; Some (False, b2, s1) }) })"

definition extras_UO_stage :: "'a afl_stage_scheme executor \<Rightarrow> eff_map \<Rightarrow> u8 list \<Rightarrow> 'a afl_stage_scheme stage" where
  "extras_UO_stage cfs eff in_buf = (\<lambda>(buf, s).
     run_stage STAGE_EXTRAS_UO ''ext_UO'' (int (length (extras s)) * int (length buf))
       (for_each (over_body cfs eff True (extras s) in_buf) [0 ..< length buf]) (buf, s\<lparr>stage_val_type := STAGE_VAL_NONE\<rparr>))"

definition extras_AO_stage :: "'a afl_stage_scheme executor \<Rightarrow> eff_map \<Rightarrow> u8 list \<Rightarrow> 'a afl_stage_scheme stage" where
  "extras_AO_stage cfs eff in_buf = (\<lambda>(buf, s).
     run_stage STAGE_EXTRAS_AO ''ext_AO'' (int (min (length (a_extras s)) USE_AUTO_EXTRAS) * int (length buf))
       (for_each (over_body cfs eff False (take USE_AUTO_EXTRAS (a_extras s)) in_buf) [0 ..< length buf])
       (buf, s\<lparr>stage_val_type := STAGE_VAL_NONE\<rparr>))"

text \<open>The insertion stage builds its test cases in a second buffer; the copy of the head at the last
  position reads the byte after the input, which belongs to the allocation and is not used again.\<close>

definition insert_step :: "'a afl_stage_scheme executor \<Rightarrow> nat \<Rightarrow> u8 list \<Rightarrow> extra_data \<Rightarrow> 'a afl_stage_scheme stage" where
  "insert_step cfs i buf e = (\<lambda>(tmp, s).
     if length buf + extra_len e > MAX_FILE then Some (False, tmp, s\<lparr>stage_max := stage_max s - 1\<rparr>)
     else do {
       t1 \<leftarrow> memcpy tmp i (data e) 0 (extra_len e);
       t2 \<leftarrow> memcpy t1 (i + extra_len e) buf i (length buf - i);
       (stop, s1) \<leftarrow> cfs (take (length buf + extra_len e) t2) s;
       Some (stop, t2, if stop then s1 else s1\<lparr>stage_cur := stage_cur s1 + 1\<rparr>) })"

definition insert_body :: "'a afl_stage_scheme executor \<Rightarrow> extra_data list \<Rightarrow> u8 list \<Rightarrow> nat \<Rightarrow> 'a afl_stage_scheme stage" where
  "insert_body cfs exs buf i =
     then_do (\<lambda>(tmp, s). for_each (insert_step cfs i buf) exs (tmp, s\<lparr>stage_cur_byte := int i\<rparr>))
       (put_back (\<lambda>tmp. if i < length buf then wr8 tmp i (buf ! i) else Some tmp))"

definition extras_UI_stage :: "'a afl_stage_scheme executor \<Rightarrow> 'a afl_stage_scheme stage" where
  "extras_UI_stage cfs = (\<lambda>(buf, s).
     map_option (\<lambda>(stop, tmp, s'). (stop, buf, s'))
       (run_stage STAGE_EXTRAS_UI ''ext_UI'' (int (length (extras s)) * (int (length buf) + 1))
          (for_each (insert_body cfs (extras s) buf) [0 ..< length buf + 1])
          (replicate (length buf + MAX_DICT_FILE) 0, s)))"

end
