(* ===== verification/Afl_Det_Laws.thy ===== *)
theory Afl_Det_Laws
  imports Afl_Det
begin

text \<open>
  What the deterministic stages do: each hands over exactly the test cases it is meant to, in order,
  leaves the buffer as it found it, and stays inside the buffers. The lemmas are proved once for any
  executor that keeps the contract below and then taken over to \<open>common_fuzz_stuff\<close>, once as it is
  (where a FATAL exit of the process is \<^const>\<open>None\<close>) and once with such exits counted as requests to
  abandon the entry, which leaves memory errors as the only reason for \<^const>\<open>None\<close>.
\<close>

text \<open>The states in which an entry is fuzzed, with \<open>E\<close> the user dictionary and \<open>ix\<close> the index of the entry: the
  maps have their size, the shortcuts and the ratings of the queue and the counters are right, the
  dictionaries are well-formed, the first cycle has begun, and the entry is one of the queue.\<close>

definition books_ok :: "'a afl_exec_scheme \<Rightarrow> bool" where
  "books_ok s \<longleftrightarrow> caps_ok s \<and> refs_inv s \<and> pending_inv s \<and> 0 < stats_update_freq s"

definition autos_ok :: "'a afl_dict_scheme \<Rightarrow> bool" where
  "autos_ok s \<longleftrightarrow> auto_ok_for False s \<and> (\<forall>e \<in> set (a_extras s). 0 < extra_len e)"

definition good_for :: "extra_data list \<Rightarrow> nat \<Rightarrow> 'a afl_stage_scheme \<Rightarrow> bool" where
  "good_for E ix s \<longleftrightarrow> maps_ok s \<and> skip_inv s \<and> books_ok s \<and> extras s = E \<and> extras_ok E \<and> autos_ok s \<and> 0 < queue_cycle s \<and>
     queue_cur s = ix \<and> current_entry s = ix \<and> ix < length (queue s)"

lemmas good_defs = good_for_def maps_ok_def skip_inv_def autos_ok_def auto_ok_for_def books_ok_def caps_ok_def pending_inv_def
  rating_inv_for_def slots_def

lemma good_upd [simp]:
  "good_for E ix (s\<lparr>stage_cur := i\<rparr>) = good_for E ix s" "good_for E ix (s\<lparr>stage_max := i\<rparr>) = good_for E ix s"
  "good_for E ix (s\<lparr>stage_cur_byte := i\<rparr>) = good_for E ix s" "good_for E ix (s\<lparr>stage_cur_val := i\<rparr>) = good_for E ix s"
  "good_for E ix (s\<lparr>stage_val_type := vt\<rparr>) = good_for E ix s" "good_for E ix (s\<lparr>stage_short := sh\<rparr>) = good_for E ix s"
  "good_for E ix (s\<lparr>tried := tr\<rparr>) = good_for E ix s" "good_for E ix (s\<lparr>auto_changed := b\<rparr>) = good_for E ix s"
  "good_for E ix (s\<lparr>rand_cnt := c\<rparr>) = good_for E ix s" "good_for E ix (s\<lparr>random_pos := p\<rparr>) = good_for E ix s"
  "good_for E ix (s\<lparr>urandom_pos := p\<rparr>) = good_for E ix s"
  by (simp_all add: good_defs)

lemma good_stage_upd [simp]:
  "good_for E ix ((s :: 'a afl_stage_scheme)\<lparr>stage_finds := fs\<rparr>) = good_for E ix s" "good_for E ix (s\<lparr>stage_cycles := cs\<rparr>) = good_for E ix s"
  "good_for E ix (s\<lparr>blocks_eff_select := n\<rparr>) = good_for E ix s" "good_for E ix (s\<lparr>blocks_eff_total := n\<rparr>) = good_for E ix s"
  by (simp_all add: good_defs)

lemma good_same_rest: "same_rest s t \<Longrightarrow> good_for E ix s \<Longrightarrow> good_for E ix t \<and> tried t = tried s"
  by (auto simp: same_rest_def)

lemma good_set_auto:
  assumes "good_for E ix s" "autos_ok (s\<lparr>a_extras := es\<rparr>)"
  shows "good_for E ix (s\<lparr>a_extras := es\<rparr>)"
  using assms by (simp add: good_defs)

lemma maybe_add_auto_nonempty:
  assumes "\<forall>e \<in> set (a_extras s). 0 < extra_len e" "m \<noteq> []" "maybe_add_auto m s = Some t"
  shows "\<forall>e \<in> set (a_extras t). 0 < extra_len e"
proof (cases m s rule: maybe_add_auto_cases)
  case (bump es)
  then have "map fold_case es = map fold_case (a_extras s)" by (auto dest: bump_hit_Some)
  then have "map length (map fold_case es) = map length (map fold_case (a_extras s))" by simp
  then have "map extra_len es = map extra_len (a_extras s)" by (simp add: fold_case_def comp_def)
  then have "extra_len ` set es = extra_len ` set (a_extras s)" by (metis set_map)
  then have "\<forall>e \<in> set es. 0 < extra_len e" using assms(1) by (metis (no_types, lifting) image_iff)
  then show ?thesis using bump assms(3) by auto
next
  case (evict r u)
  then have "a_extras u = a_extras s" by (auto simp: same_rest_def)
  then show ?thesis using evict assms set_update_subset_insert [of "a_extras s"] by fastforce
qed (use assms in auto)

lemma maybe_add_auto_form:
  assumes "maybe_add_auto m s = Some t"
  shows "\<exists>u c es. same_rest s u \<and> t = u\<lparr>auto_changed := c, a_extras := es\<rparr>"
proof (cases m s rule: maybe_add_auto_cases)
  case same
  then show ?thesis using assms by (intro exI [of _ s] exI [of _ "auto_changed s"] exI [of _ "a_extras s"]) simp
next
  case (bump es)
  then show ?thesis using assms by (intro exI [of _ s] exI [of _ True] exI [of _ "sort_a_extras es"]) simp
next
  case app
  then show ?thesis using assms
    by (intro exI [of _ s] exI [of _ True] exI [of _ "sort_a_extras (a_extras s @ [\<lparr>data = m, hit_cnt = 0\<rparr>])"]) simp
next
  case (evict r u)
  obtain c p q where u: "u = s\<lparr>auto_changed := True, rand_cnt := c, random_pos := p, urandom_pos := q\<rparr>"
    using evict(4) by (auto simp: same_rest_def)
  let ?u = "s\<lparr>rand_cnt := c, random_pos := p, urandom_pos := q\<rparr>"
  have "same_rest s ?u" unfolding same_rest_def by blast
  moreover have "t = ?u\<lparr>auto_changed := True, a_extras := a_extras t\<rparr>" using assms evict(5) by (auto simp: u)
  ultimately show ?thesis by blast
qed

lemma maybe_add_auto_good:
  assumes "good_for E ix s" "m \<noteq> []"
  shows "\<exists>t. maybe_add_auto m s = Some t \<and> good_for E ix t \<and> tried t = tried s"
proof -
  have srt: "sorted (map extra_len (extras s))" "auto_ok_for False s" using assms(1) by (simp_all add: good_for_def extras_ok_def autos_ok_def)
  obtain t where t: "maybe_add_auto m s = Some t" "auto_ok_for False t" using maybe_add_auto_ok [OF srt(2,1)] by blast
  have a: "autos_ok t" using t maybe_add_auto_nonempty [OF _ assms(2) t(1)] assms(1) by (simp add: good_for_def autos_ok_def)
  obtain u c es where u: "same_rest s u" "t = u\<lparr>auto_changed := c, a_extras := es\<rparr>" using maybe_add_auto_form [OF t(1)] by blast
  have "good_for E ix (u\<lparr>auto_changed := c\<rparr>)" "tried u = tried s" using good_same_rest [OF u(1) assms(1)] by simp_all
  then show ?thesis using t(1) a u(2) good_set_auto [of E ix "u\<lparr>auto_changed := c\<rparr>" es] by simp
qed

section \<open>Flips on buffers\<close>

definition flip_at :: "nat \<Rightarrow> u8 list \<Rightarrow> u8 list" where
  "flip_at i b = b[i div 8 := b ! (i div 8) XOR drop_bit (i mod 8) 128]"

lemma length_flip_at [simp]: "length (flip_at i b) = length b"
  by (simp add: flip_at_def)

lemma rd8_nth: "i < length b \<Longrightarrow> rd8 b i = Some (b ! i)"
proof -
  assume "i < length b"
  then have "take 1 (drop i b) = [b ! i]" by (simp add: take_Suc_conv_app_nth hd_drop_conv_nth take_Suc)
  then show ?thesis using \<open>i < length b\<close> by (simp add: load_def)
qed

lemma wr8_upd: "i < length b \<Longrightarrow> wr8 b i v = Some (b[i := v])"
  by (simp add: store_def upd_conv_take_nth_drop)

lemmas cell8_simps = rd8_nth rd8_nth [unfolded One_nat_def] wr8_upd wr8_upd [unfolded One_nat_def]

lemma FLIP_BIT_at: "i < 8 * length b \<Longrightarrow> FLIP_BIT b i = Some (flip_at i b)"
  by (simp add: FLIP_BIT_def flip_at_def cell8_simps less_mult_imp_div_less mult.commute)

lemma flip_at_flip_at [simp]: "flip_at i (flip_at i b) = b"
  by (cases "i div 8 < length b") (simp_all add: flip_at_def xor.assoc list_update_beyond)

lemma flip_at_commute: "flip_at i (flip_at j b) = flip_at j (flip_at i b)"
proof (cases "i div 8 = j div 8")
  case True
  then show ?thesis by (cases "j div 8 < length b")
      (simp_all add: flip_at_def list_update_beyond xor.assoc xor.left_commute xor.commute)
next
  case False
  then show ?thesis by (simp add: flip_at_def list_update_swap)
qed

lemma flip_at_fold: "flip_at i (fold flip_at is b) = fold flip_at is (flip_at i b)"
  by (induction "is" arbitrary: b) (simp_all add: flip_at_commute)

lemma fold_flip_at_twice: "fold flip_at is (fold flip_at is b) = b"
  by (induction "is" arbitrary: b) (simp_all add: flip_at_fold [symmetric])

lemma length_fold_flip_at [simp]: "length (fold flip_at is b) = length b"
  by (induction "is" arbitrary: b) simp_all

lemma flip_bits_fold: "\<forall>i \<in> set is. i < 8 * length b \<Longrightarrow> flip_bits is b = Some (fold flip_at is b)"
  unfolding flip_bits_def by (induction "is" arbitrary: b) (simp_all add: FLIP_BIT_at)

section \<open>The test cases of a stage\<close>

abbreviation set8 :: "nat \<Rightarrow> u8 \<Rightarrow> u8 list \<Rightarrow> u8 list" where "set8 i v b \<equiv> the (wr8 b i v)"
abbreviation set16 :: "nat \<Rightarrow> u16 \<Rightarrow> u8 list \<Rightarrow> u8 list" where "set16 i v b \<equiv> the (wr16 b i v)"
abbreviation set32 :: "nat \<Rightarrow> u32 \<Rightarrow> u8 list \<Rightarrow> u8 list" where "set32 i v b \<equiv> the (wr32 b i v)"

definition live :: "eff_map \<Rightarrow> nat \<Rightarrow> nat \<Rightarrow> bool" where
  "live eff i n = list_ex (\<lambda>k. eff ! EFF_APOS (i + k)) [0 ..< n]"

text \<open>Over the positions at which a span of \<open>n\<close> bytes fits and is not ruled out.\<close>

definition at_live :: "eff_map \<Rightarrow> nat \<Rightarrow> (nat \<Rightarrow> u8 list \<Rightarrow> u8 list list) \<Rightarrow> u8 list \<Rightarrow> u8 list list" where
  "at_live eff n g b = concat (map (\<lambda>i. if live eff i n then g i b else []) [0 ..< length b - (n - 1)])"

definition flips :: "nat \<Rightarrow> u8 list \<Rightarrow> u8 list list" where
  "flips n b = map (\<lambda>i. fold flip_at [i ..< i + n] b) [0 ..< 8 * length b - (n - 1)]"

definition arith8_vals :: "u8 \<Rightarrow> u8 list" where
  "arith8_vals orig = concat (map (\<lambda>j. filter (\<lambda>v. \<not> could_be_bitflip (ucast (orig XOR v))) [orig + of_nat j, orig - of_nat j])
     [1 ..< ARITH_MAX + 1])"

definition arith16_vals :: "u16 \<Rightarrow> u16 list" where
  "arith16_vals orig = concat (map (\<lambda>j. filter (\<lambda>v. \<not> could_be_bitflip (ucast (orig XOR v)))
     ((if unat (orig AND 0xff) + j > 0xff then [orig + of_nat j] else []) @
      (if unat (orig AND 0xff) < j then [orig - of_nat j] else []) @
      (if unat (drop_bit 8 orig) + j > 0xff then [SWAP16 (SWAP16 orig + of_nat j)] else []) @
      (if unat (drop_bit 8 orig) < j then [SWAP16 (SWAP16 orig - of_nat j)] else []))) [1 ..< ARITH_MAX + 1])"

definition arith32_vals :: "u32 \<Rightarrow> u32 list" where
  "arith32_vals orig = concat (map (\<lambda>j. filter (\<lambda>v. \<not> could_be_bitflip (orig XOR v))
     ((if unat (orig AND 0xffff) + j > 0xffff then [orig + of_nat j] else []) @
      (if unat (orig AND 0xffff) < j then [orig - of_nat j] else []) @
      (if unat (SWAP32 orig AND 0xffff) + j > 0xffff then [SWAP32 (SWAP32 orig + of_nat j)] else []) @
      (if unat (SWAP32 orig AND 0xffff) < j then [SWAP32 (SWAP32 orig - of_nat j)] else []))) [1 ..< ARITH_MAX + 1])"

definition interest8_vals :: "u8 \<Rightarrow> u8 list" where
  "interest8_vals orig =
     filter (\<lambda>v. \<not> could_be_bitflip (ucast (orig XOR v)) \<and> \<not> could_be_arith (ucast orig) (ucast v) 1) interesting_8"

definition interest16_vals :: "u16 \<Rightarrow> u16 list" where
  "interest16_vals orig = concat (map (\<lambda>v.
     filter (\<lambda>w. \<not> could_be_bitflip (ucast (orig XOR w)) \<and> \<not> could_be_arith (ucast orig) (ucast w) 2)
       ((if \<not> could_be_interest (ucast orig) (ucast v) 2 False then [v] else []) @
        (if v \<noteq> SWAP16 v \<and> \<not> could_be_interest (ucast orig) (ucast (SWAP16 v)) 2 True then [SWAP16 v] else []))) interesting_16)"

definition interest32_vals :: "u32 \<Rightarrow> u32 list" where
  "interest32_vals orig = concat (map (\<lambda>v.
     filter (\<lambda>w. \<not> could_be_bitflip (orig XOR w) \<and> \<not> could_be_arith orig w 4)
       ((if \<not> could_be_interest orig v 4 False then [v] else []) @
        (if v \<noteq> SWAP32 v \<and> \<not> could_be_interest orig (SWAP32 v) 4 True then [SWAP32 v] else []))) interesting_32)"

definition overlay :: "u8 list \<Rightarrow> nat \<Rightarrow> u8 list \<Rightarrow> u8 list" where
  "overlay b i d = take i b @ d @ drop (i + length d) b"

definition overlays :: "u8 list \<Rightarrow> extra_data list \<Rightarrow> u8 list set" where
  "overlays b exs = {overlay b i (data e) | i e. e \<in> set exs \<and> i + extra_len e \<le> length b}"

definition over_ok :: "extra_data list \<Rightarrow> nat \<Rightarrow> bool \<Rightarrow> u8 list \<Rightarrow> extra_data list \<Rightarrow> 'a afl_stage_scheme \<Rightarrow> (bool \<times> u8 list \<times> 'a afl_stage_scheme) option \<Rightarrow> bool" where
  "over_ok E ix may_exit b exs s r \<longleftrightarrow> (case r of None \<Rightarrow> may_exit
     | Some (stop, b', s') \<Rightarrow> good_for E ix s' \<and> (\<not> stop \<longrightarrow> b' = b) \<and> (\<exists>new. tried s' = tried s @ new \<and> set new \<subseteq> overlays b exs))"

lemma over_ok_start: "tried t = tried s \<Longrightarrow> over_ok E ix me b exs t r \<Longrightarrow> over_ok E ix me b exs s r"
  by (auto simp: over_ok_def split: option.splits)

definition inserts_at :: "extra_data list \<Rightarrow> u8 list \<Rightarrow> nat \<Rightarrow> u8 list list" where
  "inserts_at exs b i = map (\<lambda>e. take i b @ data e @ drop i b) (filter (\<lambda>e. length b + extra_len e \<le> MAX_FILE) exs)"

definition insertions :: "extra_data list \<Rightarrow> u8 list \<Rightarrow> u8 list list" where
  "insertions exs b = concat (map (inserts_at exs b) [0 ..< length b + 1])"

definition bytes_flipped :: "u8 list \<Rightarrow> u8 list list" where
  "bytes_flipped b = map (\<lambda>i. b[i := b ! i XOR 0xFF]) [0 ..< length b]"

lemma concat_map_filter: "concat (map (\<lambda>j. map f (filter P [j])) xs) = map f (filter P xs)"
  by (induction xs) simp_all

section \<open>The executor as an interface\<close>

locale executor =
  fixes cfs :: "'a afl_stage_scheme executor" and may_exit :: bool and E :: "extra_data list" and ix :: nat
  assumes run: "good_for E ix s \<Longrightarrow> cfs b s = Some (r, t) \<Longrightarrow> good_for E ix t \<and> tried t = tried s @ [b]"
    and leaves: "cfs b s = None \<Longrightarrow> may_exit"
begin

abbreviation good :: "'b afl_stage_scheme \<Rightarrow> bool" where
  "good \<equiv> good_for E ix"

text \<open>A step from states satisfying \<open>P\<close>: it hands over the list \<open>g\<close> of the buffer and turns the buffer into
  \<open>h\<close> of it, ending in \<open>Q\<close>; or it stops right after handing over one of them.\<close>

definition emits :: "('x \<Rightarrow> u8 list) \<Rightarrow> ('x \<Rightarrow> 'a afl_stage_scheme) \<Rightarrow> ('x \<Rightarrow> bool) \<Rightarrow> ('x \<Rightarrow> (bool \<times> 'x) option) \<Rightarrow>
    (u8 list \<Rightarrow> u8 list list) \<Rightarrow> (u8 list \<Rightarrow> u8 list) \<Rightarrow> ('x \<Rightarrow> bool) \<Rightarrow> bool" where
  "emits B S P f g h Q \<longleftrightarrow> (\<forall>x. P x \<longrightarrow> good (S x) \<longrightarrow>
     (case f x of
        None \<Rightarrow> may_exit
      | Some (stop, y) \<Rightarrow> good (S y) \<and>
          (if stop then \<exists>k < length (g (B x)). tried (S y) = tried (S x) @ take (Suc k) (g (B x))
           else B y = h (B x) \<and> tried (S y) = tried (S x) @ g (B x) \<and> Q y)))"

lemma emitsI:
  assumes "\<And>x. P x \<Longrightarrow> good (S x) \<Longrightarrow> f x = None \<Longrightarrow> may_exit"
    and "\<And>x y. P x \<Longrightarrow> good (S x) \<Longrightarrow> f x = Some (True, y) \<Longrightarrow>
      good (S y) \<and> (\<exists>k < length (g (B x)). tried (S y) = tried (S x) @ take (Suc k) (g (B x)))"
    and "\<And>x y. P x \<Longrightarrow> good (S x) \<Longrightarrow> f x = Some (False, y) \<Longrightarrow>
      good (S y) \<and> B y = h (B x) \<and> tried (S y) = tried (S x) @ g (B x) \<and> Q y"
  shows "emits B S P f g h Q"
  unfolding emits_def
proof (intro allI impI)
  fix x assume "P x" "good (S x)"
  with assms [of x] show "case f x of None \<Rightarrow> may_exit | Some (stop, y) \<Rightarrow> good (S y) \<and>
      (if stop then \<exists>k < length (g (B x)). tried (S y) = tried (S x) @ take (Suc k) (g (B x))
       else B y = h (B x) \<and> tried (S y) = tried (S x) @ g (B x) \<and> Q y)"
    by (auto split: option.splits)
qed

lemma emitsD:
  assumes "emits B S P f g h Q" "P x" "good (S x)"
  shows "f x = None \<Longrightarrow> may_exit"
    and "f x = Some (True, y) \<Longrightarrow> good (S y) \<and> (\<exists>k < length (g (B x)). tried (S y) = tried (S x) @ take (Suc k) (g (B x)))"
    and "f x = Some (False, y) \<Longrightarrow> good (S y) \<and> B y = h (B x) \<and> tried (S y) = tried (S x) @ g (B x) \<and> Q y"
  using assms unfolding emits_def by force+

lemma emits_then_do:
  assumes f: "emits B S P f g h Q" and f': "emits B S Q f' g' h' R"
  shows "emits B S P (then_do f f') (\<lambda>b. g b @ g' (h b)) (\<lambda>b. h' (h b)) R"
proof (rule emitsI)
  fix x assume x: "P x" "good (S x)"
  note d = emitsD [OF f x]
  show "then_do f f' x = None \<Longrightarrow> may_exit"
  proof (cases "f x")
    case (Some p)
    assume n: "then_do f f' x = None"
    then obtain z where z: "f x = Some (False, z)" "f' z = None"
      using Some unfolding then_do_def by (cases p) (auto split: if_splits)
    from d(3) [OF z(1)] emitsD(1) [OF f' _ _ z(2)] show may_exit by blast
  qed (use d(1) in blast)
  fix y
  assume "then_do f f' x = Some (True, y)"
  then consider "f x = Some (True, y)" | z where "f x = Some (False, z)" "f' z = Some (True, y)"
    unfolding then_do_def by (auto split: option.splits if_splits)
  then show "good (S y) \<and> (\<exists>k < length (g (B x) @ g' (h (B x))). tried (S y) = tried (S x) @ take (Suc k) (g (B x) @ g' (h (B x))))"
  proof cases
    case 1
    from d(2) [OF 1] obtain k where "good (S y)" "k < length (g (B x))" "tried (S y) = tried (S x) @ take (Suc k) (g (B x))" by blast
    then show ?thesis by (intro conjI exI [of _ k]) simp_all
  next
    case (2 z)
    from d(3) [OF 2(1)] have z: "good (S z)" "B z = h (B x)" "tried (S z) = tried (S x) @ g (B x)" "Q z" by auto
    from emitsD(2) [OF f' z(4,1) 2(2)] obtain k where "good (S y)" "k < length (g' (h (B x)))"
      "tried (S y) = tried (S z) @ take (Suc k) (g' (h (B x)))" by (auto simp: z(2))
    then show ?thesis using z(3) by (intro conjI exI [of _ "length (g (B x)) + k"]) simp_all
  qed
next
  fix x y assume x: "P x" "good (S x)" and "then_do f f' x = Some (False, y)"
  then obtain z where z: "f x = Some (False, z)" "f' z = Some (False, y)"
    unfolding then_do_def by (auto split: option.splits if_splits)
  from emitsD(3) [OF f x z(1)] have "good (S z)" "B z = h (B x)" "tried (S z) = tried (S x) @ g (B x)" "Q z" by auto
  with emitsD(3) [OF f' _ _ z(2)] show "good (S y) \<and> B y = h' (h (B x)) \<and> tried (S y) = tried (S x) @ g (B x) @ g' (h (B x)) \<and> R y"
    by simp
qed

lemma emits_cong:
  assumes "emits B S P f g h Q" "\<And>x. P' x \<Longrightarrow> g (B x) = g' (B x)" "\<And>x. P' x \<Longrightarrow> h (B x) = h' (B x)"
    "\<And>x. P' x \<Longrightarrow> P x" "\<And>x y. P' x \<Longrightarrow> Q y \<Longrightarrow> B y = h' (B x) \<Longrightarrow> Q' y"
  shows "emits B S P' f g' h' Q'"
proof (rule emitsI)
  fix x assume x: "P' x" "good (S x)"
  note d = emitsD [OF assms(1) assms(4) [OF x(1)] x(2)]
  have e: "g (B x) = g' (B x)" "h (B x) = h' (B x)" using assms(2,3) x(1) by blast+
  show "f x = None \<Longrightarrow> may_exit" by (rule d(1))
  show "good (S y) \<and> (\<exists>k < length (g' (B x)). tried (S y) = tried (S x) @ take (Suc k) (g' (B x)))" if "f x = Some (True, y)" for y
    using d(2) [OF that] by (simp only: e)
  show "good (S y) \<and> B y = h' (B x) \<and> tried (S y) = tried (S x) @ g' (B x) \<and> Q' y" if "f x = Some (False, y)" for y
    using d(3) [OF that] assms(5) [OF x(1)] by (simp only: e)
qed

lemma for_each_then_do: "for_each f (i # is) = then_do (f i) (for_each f is)"
  by (rule ext) (simp add: then_do_def)

lemma emits_for_each:
  assumes "\<And>i. i \<in> set is \<Longrightarrow> emits B S P (f i) (g i) (\<lambda>b. b) P"
  shows "emits B S P (for_each f is) (\<lambda>b. concat (map (\<lambda>i. g i b) is)) (\<lambda>b. b) P"
  using assms
proof (induction "is")
  case Nil
  show ?case by (rule emitsI) auto
next
  case (Cons i "is")
  have "emits B S P (f i) (g i) (\<lambda>b. b) P" by (rule Cons.prems) simp
  moreover have "emits B S P (for_each f is) (\<lambda>b. concat (map (\<lambda>i. g i b) is)) (\<lambda>b. b) P"
    by (rule Cons.IH) (simp add: Cons.prems)
  ultimately show ?case unfolding for_each_then_do using emits_then_do by fastforce
qed

section \<open>Steps of the stages\<close>

abbreviation emits2 :: "(u8 list \<Rightarrow> bool) \<Rightarrow> 'a afl_stage_scheme stage \<Rightarrow> (u8 list \<Rightarrow> u8 list list) \<Rightarrow> (u8 list \<Rightarrow> u8 list) \<Rightarrow>
    (u8 list \<Rightarrow> bool) \<Rightarrow> bool" where
  "emits2 P f g h Q \<equiv> emits fst snd (\<lambda>x. P (fst x)) f g h (\<lambda>x. Q (fst x))"

lemma emits_try_val:
  assumes "\<And>b. ok \<Longrightarrow> P b \<Longrightarrow> change b = Some (h b)" "\<And>b. ok \<Longrightarrow> P b \<Longrightarrow> Q (h b)" "\<And>b. \<not> ok \<Longrightarrow> P b \<Longrightarrow> Q b"
  shows "emits2 P (try_val cfs ok v change) (\<lambda>b. if ok then [h b] else []) (\<lambda>b. if ok then h b else b) Q"
proof (rule emitsI)
  fix x :: "u8 list \<times> 'a afl_stage_scheme" assume P: "P (fst x)" and g: "good (snd x)"
  obtain b s where x: "x = (b, s)" by fastforce
  let ?s = "s\<lparr>stage_cur_val := v\<rparr>"
  have gs: "good ?s" "tried ?s = tried s" using g by (simp_all add: x)
  show "try_val cfs ok v change x = None \<Longrightarrow> may_exit"
    using P leaves assms(1) by (auto simp: try_val_def x split: if_splits bind_splits)
  fix y
  show "try_val cfs ok v change x = Some (True, y) \<Longrightarrow> good (snd y) \<and>
      (\<exists>k < length (if ok then [h (fst x)] else []). tried (snd y) = tried (snd x) @ take (Suc k) (if ok then [h (fst x)] else []))"
    using P assms(1) run [OF gs(1)] gs(2) by (auto simp: try_val_def x split: if_splits bind_splits)
  show "try_val cfs ok v change x = Some (False, y) \<Longrightarrow> good (snd y) \<and> fst y = (if ok then h (fst x) else fst x) \<and>
      tried (snd y) = tried (snd x) @ (if ok then [h (fst x)] else []) \<and> Q (fst y)"
    using P g assms run [OF gs(1)] gs(2) by (auto simp: try_val_def x split: if_splits bind_splits)
qed

lemma emits_silent:
  assumes "\<And>b s. P b \<Longrightarrow> good s \<Longrightarrow> \<exists>t. f (b, s) = Some (False, h b, t) \<and> good t \<and> tried t = tried s" "\<And>b. P b \<Longrightarrow> Q (h b)"
  shows "emits2 P f (\<lambda>b. []) h Q"
  by (rule emitsI; use assms in \<open>fastforce\<close>)

lemma emits_set_val_type: "emits2 P (set_val_type vt) (\<lambda>b. []) (\<lambda>b. b) P"
  by (rule emits_silent) (auto simp: set_val_type_def)

lemma emits_set_val: "emits2 P (set_val v) (\<lambda>b. []) (\<lambda>b. b) P"
  by (rule emits_silent) (auto simp: set_val_def)

lemma emits_put_back:
  assumes "\<And>b. P b \<Longrightarrow> change b = Some (h b)" "\<And>b. P b \<Longrightarrow> Q (h b)"
  shows "emits2 P (put_back change) (\<lambda>b. []) h Q"
  by (rule emits_silent) (use assms in \<open>auto simp: put_back_def\<close>)

lemma emits_fcong:
  assumes "emits B S P f g h Q" "\<And>x. P x \<Longrightarrow> f x = f' x"
  shows "emits B S P f' g h Q"
  using assms by (simp add: emits_def)

lemma emits_run_stage:
  assumes "emits2 P loop g (\<lambda>b. b) P"
  shows "emits2 P (run_stage k sh mx loop) g (\<lambda>b. b) P"
proof (rule emitsI)
  fix x :: "u8 list \<times> 'a afl_stage_scheme" assume x: "P (fst x)" "good (snd x)"
  obtain b s where bs: "x = (b, s)" by fastforce
  let ?s = "s\<lparr>stage_short := sh, stage_cur := 0, stage_max := mx\<rparr>"
  have p: "P (fst (b, ?s))" "good (snd (b, ?s))" "tried ?s = tried s" using x by (simp_all add: bs)
  note e = emitsD [OF assms p(1,2)]
  show "run_stage k sh mx loop x = None \<Longrightarrow> may_exit"
    using e(1) by (auto simp: run_stage_def bs Let_def split: option.splits)
  show "good (snd y) \<and> (\<exists>k < length (g (fst x)). tried (snd y) = tried (snd x) @ take (Suc k) (g (fst x)))"
    if "run_stage k sh mx loop x = Some (True, y)" for y
    using e(2) that p(3) by (auto simp: run_stage_def bs Let_def split: option.splits)
  show "good (snd y) \<and> fst y = fst x \<and> tried (snd y) = tried (snd x) @ g (fst x) \<and> P (fst y)"
    if "run_stage k sh mx loop x = Some (False, y)" for y
    using e(3) that p(3) by (auto simp: run_stage_def bs Let_def finish_stage_def split: option.splits)
qed

lemma span_dead_live:
  assumes "\<forall>k < n. EFF_APOS (i + k) < length eff"
  shows "span_dead eff i n = Some (\<not> live eff i n)"
  using assms unfolding span_dead_def live_def
  by (induction n) (auto simp: foldM_append eff_rd_def)

lemma emits_when_live:
  assumes "emits2 P (f i) g (\<lambda>b. b) P" "\<forall>k < n. EFF_APOS (i + k) < length eff"
  shows "emits2 P (when_live eff n cost f i) (\<lambda>b. if live eff i n then g b else []) (\<lambda>b. b) P"
proof (rule emitsI)
  fix x :: "u8 list \<times> 'a afl_stage_scheme" assume x: "P (fst x)" "good (snd x)"
  obtain b s where bs: "x = (b, s)" by fastforce
  let ?s = "s\<lparr>stage_cur_byte := int i\<rparr>"
  have p: "P (fst (b, ?s))" "good (snd (b, ?s))" "tried ?s = tried s" using x by (simp_all add: bs)
  note e = emitsD [OF assms(1) p(1,2)]
  have w: "when_live eff n cost f i x =
      (if live eff i n then f i (b, ?s) else Some (False, b, s\<lparr>stage_max := stage_max s - cost\<rparr>))"
    by (simp add: when_live_def bs span_dead_live [OF assms(2)])
  show "when_live eff n cost f i x = None \<Longrightarrow> may_exit" unfolding w using e(1) by (auto split: if_splits)
  show "good (snd y) \<and> (\<exists>k < length (if live eff i n then g (fst x) else []).
      tried (snd y) = tried (snd x) @ take (Suc k) (if live eff i n then g (fst x) else []))"
    if "when_live eff n cost f i x = Some (True, y)" for y
    using e(2) that p(3) unfolding w by (auto simp: bs split: if_splits)
  show "good (snd y) \<and> fst y = fst x \<and> tried (snd y) = tried (snd x) @ (if live eff i n then g (fst x) else []) \<and> P (fst y)"
    if "when_live eff n cost f i x = Some (False, y)" for y
    using e(3) that p(3) x unfolding w by (auto simp: bs split: if_splits)
qed

lemma eff_covers:
  assumes "length eff = EFF_ALEN l" "i + n \<le> l"
  shows "\<forall>k < n. EFF_APOS (i + k) < length eff"
proof (intro allI impI)
  fix k assume "k < n"
  with assms(2) have "i + k < l" by simp
  then have "(i + k) div 8 < l div 8 + of_bool (l mod 8 \<noteq> 0)"
  proof (cases "l mod 8 = 0")
    case True
    then have "i + k < l div 8 * 8" using \<open>i + k < l\<close> div_mult_mod_eq [of l 8] by linarith
    then show ?thesis using True by (simp add: less_mult_imp_div_less)
  next
    case False
    then show ?thesis using \<open>i + k < l\<close> div_le_mono [of "i + k" l 8] by simp
  qed
  then show "EFF_APOS (i + k) < length eff" by (simp add: assms(1) EFF_ALEN_def EFF_APOS_def)
qed

text \<open>A stage that visits every live position: the positions the loop bound allows are those where the
  span fits.\<close>

lemma emits_live_stage:
  assumes "\<And>i. i + n \<le> l \<Longrightarrow> emits2 (\<lambda>b. i + n \<le> length b) (body i) (g i) (\<lambda>b. b) (\<lambda>b. i + n \<le> length b)"
    "length eff = EFF_ALEN l" "0 < n"
  shows "emits2 (\<lambda>b. length b = l)
    (run_stage k sh mx (for_each (when_live eff n cost body) [0 ..< l - (n - 1)])) (at_live eff n g) (\<lambda>b. b) (\<lambda>b. length b = l)"
proof -
  have "emits2 (\<lambda>b. length b = l) (when_live eff n cost body i) (\<lambda>b. if live eff i n then g i b else []) (\<lambda>b. b) (\<lambda>b. length b = l)"
    if "i \<in> set [0 ..< l - (n - 1)]" for i
  proof -
    have i: "i + n \<le> l" using that assms(3) by auto
    have "emits2 (\<lambda>b. length b = l) (body i) (g i) (\<lambda>b. b) (\<lambda>b. length b = l)"
      using i by (intro emits_cong [OF assms(1) [OF i]]) auto
    then show ?thesis by (rule emits_when_live) (rule eff_covers [OF assms(2) i])
  qed
  then have "emits2 (\<lambda>b. length b = l) (for_each (when_live eff n cost body) [0 ..< l - (n - 1)])
      (\<lambda>b. concat (map (\<lambda>i. if live eff i n then g i b else []) [0 ..< l - (n - 1)])) (\<lambda>b. b) (\<lambda>b. length b = l)"
    by (rule emits_for_each)
  then have "emits2 (\<lambda>b. length b = l) (for_each (when_live eff n cost body) [0 ..< l - (n - 1)]) (at_live eff n g) (\<lambda>b. b) (\<lambda>b. length b = l)"
    by (rule emits_cong) (simp_all add: at_live_def)
  then show ?thesis by (rule emits_run_stage)
qed

lemma emits_flip_pair:
  assumes "\<And>b s. P b \<Longrightarrow> body (b, s) = do {
      b1 \<leftarrow> Some (h b);
      (stop, s1) \<leftarrow> cfs b1 (u s);
      (if stop then Some (True, b1, s1) else Some (False, b, w s1)) }"
    "\<And>s. good s \<Longrightarrow> good (u s) \<and> tried (u s) = tried s" "\<And>s. good s \<Longrightarrow> good (w s) \<and> tried (w s) = tried s"
  shows "emits2 P body (\<lambda>b. [h b]) (\<lambda>b. b) P"
proof (rule emitsI)
  fix x :: "u8 list \<times> 'a afl_stage_scheme" assume x: "P (fst x)" "good (snd x)"
  obtain b s where bs: "x = (b, s)" by fastforce
  from x have gs: "good (u s)" "tried (u s) = tried s" using assms(2) by (simp_all add: bs)
  note e = assms(1) [of b s] run [OF gs(1)]
  show "body x = None \<Longrightarrow> may_exit" using x e(1) leaves by (auto simp: bs split: bind_splits if_splits)
  show "good (snd y) \<and> (\<exists>k < length [h (fst x)]. tried (snd y) = tried (snd x) @ take (Suc k) [h (fst x)])"
    if "body x = Some (True, y)" for y
    using that x e gs by (auto simp: bs split: bind_splits if_splits)
  show "good (snd y) \<and> fst y = fst x \<and> tried (snd y) = tried (snd x) @ [h (fst x)] \<and> P (fst y)"
    if "body x = Some (False, y)" for y
    using that x e gs assms(3) by (fastforce simp: bs split: bind_splits if_splits)
qed

end

text \<open>An executor together with the cells of one width.\<close>

locale cell_executor = executor cfs may_exit E ix + cell rd wr sz
  for cfs :: "'a afl_stage_scheme executor" and may_exit :: bool and E :: "extra_data list" and ix :: nat
    and rd :: "u8 list \<Rightarrow> nat \<Rightarrow> 'v option" and wr :: "u8 list \<Rightarrow> nat \<Rightarrow> 'v \<Rightarrow> u8 list option" and sz :: nat
begin

abbreviation W :: "nat \<Rightarrow> 'v \<Rightarrow> u8 list \<Rightarrow> u8 list" where
  "W i v b \<equiv> the (wr b i v)"

abbreviation fits :: "nat \<Rightarrow> u8 list \<Rightarrow> bool" where
  "fits i b \<equiv> i + sz \<le> length b"

lemma wr_W: "fits i b \<Longrightarrow> wr b i v = Some (W i v b)"
  using wr_ok by force

lemma W_laws:
  assumes "fits i b"
  shows "length (W i v b) = length b" "W i v' (W i v b) = W i v' b" "rd (W i v b) i = Some v"
  using wr_W [OF assms, of v] wr_len wr_wr rd_wr by auto

lemma W_back: "rd b i = Some v \<Longrightarrow> W i v b = b"
  by (simp add: wr_rd)

lemma emits_try: "emits2 (fits i) (try_val cfs ok v (\<lambda>b. wr b i n)) (\<lambda>b. if ok then [W i n b] else [])
    (\<lambda>b. if ok then W i n b else b) (fits i)"
  by (rule emits_try_val) (simp_all add: W_laws, rule wr_W)

lemma emits_back: "emits2 (fits i) (put_back (\<lambda>b. wr b i orig)) (\<lambda>b. []) (W i orig) (\<lambda>b. rd b i = Some orig)"
  by (rule emits_put_back) (simp_all add: W_laws, rule wr_W)

text \<open>Two and four attempts on one cell, after which the cell gets its value back.\<close>

lemma emits_one:
  "emits2 (\<lambda>b. rd b i = Some orig) (then_do (try_val cfs True v (\<lambda>b. wr b i n)) (put_back (\<lambda>b. wr b i orig)))
     (\<lambda>b. [W i n b]) (\<lambda>b. b) (\<lambda>b. rd b i = Some orig)"
  by (rule emits_cong [OF emits_then_do [OF emits_try emits_back]]) (auto simp: W_laws W_back rd_Some_bound)

lemma emits_two:
  "emits2 (\<lambda>b. rd b i = Some orig)
     (then_do (try_val cfs k1 v1 (\<lambda>b. wr b i n1)) (then_do (try_val cfs k2 v2 (\<lambda>b. wr b i n2)) (put_back (\<lambda>b. wr b i orig))))
     (\<lambda>b. (if k1 then [W i n1 b] else []) @ (if k2 then [W i n2 b] else [])) (\<lambda>b. b) (\<lambda>b. rd b i = Some orig)"
  by (rule emits_cong [OF emits_then_do [OF emits_try emits_then_do [OF emits_try emits_back]]])
    (auto simp: W_laws W_back rd_Some_bound)

lemma emits_four:
  "emits2 (\<lambda>b. rd b i = Some orig)
     (then_do (set_val_type vt1) (then_do (try_val cfs k1 v1 (\<lambda>b. wr b i n1)) (then_do (try_val cfs k2 v2 (\<lambda>b. wr b i n2))
       (then_do (set_val_type vt2) (then_do (try_val cfs k3 v3 (\<lambda>b. wr b i n3)) (then_do (try_val cfs k4 v4 (\<lambda>b. wr b i n4))
         (put_back (\<lambda>b. wr b i orig))))))))
     (\<lambda>b. (if k1 then [W i n1 b] else []) @ (if k2 then [W i n2 b] else []) @
          (if k3 then [W i n3 b] else []) @ (if k4 then [W i n4 b] else [])) (\<lambda>b. b) (\<lambda>b. rd b i = Some orig)"
  by (rule emits_cong [OF emits_then_do [OF emits_set_val_type emits_then_do [OF emits_try emits_then_do [OF emits_try
        emits_then_do [OF emits_set_val_type emits_then_do [OF emits_try emits_then_do [OF emits_try emits_back]]]]]]])
    (auto simp: W_laws W_back rd_Some_bound)

text \<open>Applying an involution to a cell, running, and applying it again.\<close>

lemma emits_xor:
  assumes "\<And>v. \<phi> (\<phi> v) = v"
  shows "emits2 (fits i) (\<lambda>(buf, s). do {
      v \<leftarrow> rd buf i;
      b1 \<leftarrow> wr buf i (\<phi> v);
      (stop, s1) \<leftarrow> cfs b1 s;
      (if stop then Some (True, b1, s1)
       else do { v' \<leftarrow> rd b1 i; b2 \<leftarrow> wr b1 i (\<phi> v'); Some (False, b2, s1\<lparr>stage_cur := stage_cur s1 + 1\<rparr>) }) })
    (\<lambda>b. [W i (\<phi> (the (rd b i))) b]) (\<lambda>b. b) (fits i)"
proof (rule emits_flip_pair [where u = "\<lambda>s. s" and w = "\<lambda>s. s\<lparr>stage_cur := stage_cur s + 1\<rparr>"])
  fix b :: "u8 list" and s :: "'a afl_stage_scheme"
  assume f: "fits i b"
  then obtain v where v: "rd b i = Some v" using rd_ok by blast
  obtain b1 where b1: "wr b i (\<phi> v) = Some b1" using wr_ok f by blast
  then have r: "rd b1 i = Some (\<phi> v)" "wr b1 i v = Some b" using rd_wr restore [OF v] by blast+
  have "(case (b, s) of (buf, s) \<Rightarrow> do {
      v \<leftarrow> rd buf i;
      b1 \<leftarrow> wr buf i (\<phi> v);
      (stop, s1) \<leftarrow> cfs b1 s;
      (if stop then Some (True, b1, s1)
       else do { v' \<leftarrow> rd b1 i; b2 \<leftarrow> wr b1 i (\<phi> v'); Some (False, b2, s1\<lparr>stage_cur := stage_cur s1 + 1\<rparr>) }) }) =
    do { (stop, s1) \<leftarrow> cfs b1 s; (if stop then Some (True, b1, s1) else Some (False, b, s1\<lparr>stage_cur := stage_cur s1 + 1\<rparr>)) }"
    by (simp add: v b1 r assms cong: if_cong)
  then show "(case (b, s) of (buf, s) \<Rightarrow> do {
      v \<leftarrow> rd buf i;
      b1 \<leftarrow> wr buf i (\<phi> v);
      (stop, s1) \<leftarrow> cfs b1 s;
      (if stop then Some (True, b1, s1)
       else do { v' \<leftarrow> rd b1 i; b2 \<leftarrow> wr b1 i (\<phi> v'); Some (False, b2, s1\<lparr>stage_cur := stage_cur s1 + 1\<rparr>) }) }) =
    do { b1 \<leftarrow> Some (W i (\<phi> (the (rd b i))) b); (stop, s1) \<leftarrow> cfs b1 s;
         (if stop then Some (True, b1, s1) else Some (False, b, s1\<lparr>stage_cur := stage_cur s1 + 1\<rparr>)) }"
    by (simp add: v b1)
qed simp_all

text \<open>A loop over a cell that reads it first.\<close>

lemma emits_cell_loop:
  assumes "\<And>orig j. j \<in> set js \<Longrightarrow> emits2 (\<lambda>b. rd b i = Some orig) (step orig j) (g orig j) (\<lambda>b. b) (\<lambda>b. rd b i = Some orig)"
  shows "emits2 (fits i) (\<lambda>(buf, s). do { orig \<leftarrow> rd buf i; for_each (step orig) js (buf, s) })
    (\<lambda>b. concat (map (\<lambda>j. g (the (rd b i)) j b) js)) (\<lambda>b. b) (fits i)"
proof -
  have fe: "emits2 (\<lambda>b. rd b i = Some orig) (for_each (step orig) js) (\<lambda>b. concat (map (\<lambda>j. g orig j b) js)) (\<lambda>b. b)
      (\<lambda>b. rd b i = Some orig)" for orig
    by (rule emits_for_each) (rule assms)
  show ?thesis
  proof (rule emitsI)
    fix x :: "u8 list \<times> 'a afl_stage_scheme" assume x: "fits i (fst x)" "good (snd x)"
    obtain b s where bs: "x = (b, s)" by fastforce
    obtain orig where o: "rd b i = Some orig" using x(1) rd_ok bs by force
    have d: "rd (fst x) i = Some orig" by (simp add: bs o)
    note e = emitsD [OF fe [of orig] d x(2)]
    have eq: "(\<lambda>(buf, s). do { orig \<leftarrow> rd buf i; for_each (step orig) js (buf, s) }) x = for_each (step orig) js x"
      by (simp add: bs o)
    show "(\<lambda>(buf, s). do { orig \<leftarrow> rd buf i; for_each (step orig) js (buf, s) }) x = None \<Longrightarrow> may_exit"
      unfolding eq by (rule e(1))
    fix y
    show "(\<lambda>(buf, s). do { orig \<leftarrow> rd buf i; for_each (step orig) js (buf, s) }) x = Some (True, y) \<Longrightarrow> good (snd y) \<and>
        (\<exists>k < length (concat (map (\<lambda>j. g (the (rd (fst x) i)) j (fst x)) js)).
          tried (snd y) = tried (snd x) @ take (Suc k) (concat (map (\<lambda>j. g (the (rd (fst x) i)) j (fst x)) js)))"
      unfolding eq d option.sel by (rule e(2))
    show "(\<lambda>(buf, s). do { orig \<leftarrow> rd buf i; for_each (step orig) js (buf, s) }) x = Some (False, y) \<Longrightarrow> good (snd y) \<and>
        fst y = fst x \<and> tried (snd y) = tried (snd x) @ concat (map (\<lambda>j. g (the (rd (fst x) i)) j (fst x)) js) \<and> fits i (fst y)"
      unfolding eq d option.sel using e(3) x(1) by auto
  qed
qed

text \<open>A loop whose steps leave different values in the cell, and a last write that gives it its own
  back. The buffers in between are the first one up to that cell.\<close>

lemma emits_for_each_const:
  assumes "\<And>j. j \<in> set js \<Longrightarrow> emits2 P (f j) (\<lambda>b. G j) (h j) P"
  shows "emits2 P (for_each f js) (\<lambda>b. concat (map G js)) (fold h js) P"
  using assms
proof (induction js)
  case Nil
  show ?case by (rule emitsI) auto
next
  case (Cons j js)
  have "emits2 P (f j) (\<lambda>b. G j) (h j) P" by (rule Cons.prems) simp
  moreover have "emits2 P (for_each f js) (\<lambda>b. concat (map G js)) (fold h js) P"
    by (rule Cons.IH) (simp add: Cons.prems)
  ultimately show ?case unfolding for_each_then_do using emits_then_do by fastforce
qed

abbreviation upto :: "nat \<Rightarrow> u8 list \<Rightarrow> u8 list \<Rightarrow> bool" where
  "upto i b0 b \<equiv> \<exists>v. b = W i v b0"

lemma emits_try_upto:
  assumes "fits i b0"
  shows "emits2 (upto i b0) (try_val cfs ok v (\<lambda>b. wr b i n)) (\<lambda>b. if ok then [W i n b0] else [])
    (\<lambda>b. if ok then W i n b else b) (upto i b0)"
  by (rule emits_cong [OF emits_try]) (auto simp: W_laws assms)

lemma emits_cell_loop_back:
  assumes "\<And>orig j b0. j \<in> set js \<Longrightarrow> fits i b0 \<Longrightarrow> \<exists>h. emits2 (upto i b0) (step orig j) (\<lambda>b. g orig j b0) h (upto i b0)"
  shows "emits2 (fits i)
    (\<lambda>(buf, s). do { orig \<leftarrow> rd buf i; then_do (for_each (step orig) js) (put_back (\<lambda>b. wr b i orig)) (buf, s) })
    (\<lambda>b. concat (map (\<lambda>j. g (the (rd b i)) j b) js)) (\<lambda>b. b) (fits i)"
proof -
  have fe: "emits2 (\<lambda>b. b = b0) (then_do (for_each (step orig) js) (put_back (\<lambda>b. wr b i orig)))
      (\<lambda>b. concat (map (\<lambda>j. g orig j b0) js)) (\<lambda>b. b0) (\<lambda>b. fits i b)" if r: "rd b0 i = Some orig" for b0 orig
  proof -
    have ft: "fits i b0" using r by (rule rd_Some_bound)
    have "\<forall>j \<in> set js. \<exists>h. emits2 (upto i b0) (step orig j) (\<lambda>b. g orig j b0) h (upto i b0)"
      by (intro ballI) (rule assms [OF _ ft])
    then obtain h where h: "\<forall>j \<in> set js. emits2 (upto i b0) (step orig j) (\<lambda>b. g orig j b0) (h j) (upto i b0)"
      by (rule bchoice [THEN exE])
    have 1: "emits2 (upto i b0) (for_each (step orig) js) (\<lambda>b. concat (map (\<lambda>j. g orig j b0) js)) (fold h js) (upto i b0)"
      by (rule emits_for_each_const) (rule bspec [OF h])
    have 2: "emits2 (upto i b0) (put_back (\<lambda>b. wr b i orig)) (\<lambda>b. []) (\<lambda>b. b0) (fits i)"
    proof (rule emits_put_back)
      show "wr b i orig = Some b0" if "upto i b0 b" for b
        using that wr_wr [OF wr_W [OF ft]] wr_rd [OF r] by auto
    qed (rule ft)
    have "b0 = W i orig b0" using W_back r by simp
    then show ?thesis by (intro emits_cong [OF emits_then_do [OF 1 2]]) auto
  qed
  show ?thesis
  proof (rule emitsI)
    fix x :: "u8 list \<times> 'a afl_stage_scheme" assume x: "fits i (fst x)" "good (snd x)"
    obtain b s where bs: "x = (b, s)" by fastforce
    obtain orig where o: "rd b i = Some orig" using x(1) rd_ok bs by force
    note e = emitsD [OF fe [OF o], of x, OF _ x(2)]
    have d: "rd (fst x) i = Some orig" by (simp add: bs o)
    have eq: "(\<lambda>(buf, s). do { orig \<leftarrow> rd buf i; then_do (for_each (step orig) js) (put_back (\<lambda>b. wr b i orig)) (buf, s) }) x =
        then_do (for_each (step orig) js) (put_back (\<lambda>b. wr b i orig)) x"
      by (simp add: bs o)
    show "(\<lambda>(buf, s). do { orig \<leftarrow> rd buf i; then_do (for_each (step orig) js) (put_back (\<lambda>b. wr b i orig)) (buf, s) }) x = None \<Longrightarrow> may_exit"
      unfolding eq by (rule e(1)) (simp add: bs)
    fix y
    show "(\<lambda>(buf, s). do { orig \<leftarrow> rd buf i; then_do (for_each (step orig) js) (put_back (\<lambda>b. wr b i orig)) (buf, s) }) x = Some (True, y) \<Longrightarrow> good (snd y) \<and>
        (\<exists>k < length (concat (map (\<lambda>j. g (the (rd (fst x) i)) j (fst x)) js)).
          tried (snd y) = tried (snd x) @ take (Suc k) (concat (map (\<lambda>j. g (the (rd (fst x) i)) j (fst x)) js)))"
      unfolding eq d option.sel using e(2) by (simp add: bs)
    show "(\<lambda>(buf, s). do { orig \<leftarrow> rd buf i; then_do (for_each (step orig) js) (put_back (\<lambda>b. wr b i orig)) (buf, s) }) x = Some (False, y) \<Longrightarrow> good (snd y) \<and>
        fst y = fst x \<and> tried (snd y) = tried (snd x) @ concat (map (\<lambda>j. g (the (rd (fst x) i)) j (fst x)) js) \<and> fits i (fst y)"
      unfolding eq d option.sel using e(3) x(1) by (simp add: bs)
  qed
qed

lemma emits_try_typed_upto:
  assumes "fits i b0"
  shows "emits2 (upto i b0) (try_typed cfs ok vt v (\<lambda>b. wr b i n)) (\<lambda>b. if ok then [W i n b0] else [])
    (\<lambda>b. if ok then W i n b else b) (upto i b0)"
proof (cases ok)
  case True
  then show ?thesis
    by (simp only: try_typed_def if_True)
      (rule emits_cong [OF emits_then_do [OF emits_set_val_type emits_try_upto [OF assms, of True]]]; simp)
next
  case False
  then show ?thesis
    using emits_try_upto [OF assms, of False] by (simp only: try_typed_def if_False)
qed

lemma emits_typed_pair:
  assumes "fits i b0"
  shows "emits2 (upto i b0)
    (then_do (set_val sv) (then_do (try_typed cfs k1 vt1 v1 (\<lambda>b. wr b i n1)) (try_typed cfs k2 vt2 v2 (\<lambda>b. wr b i n2))))
    (\<lambda>b. (if k1 then [W i n1 b0] else []) @ (if k2 then [W i n2 b0] else []))
    (\<lambda>b. if k2 then W i n2 (if k1 then W i n1 b else b) else if k1 then W i n1 b else b) (upto i b0)"
  by (rule emits_cong [OF emits_then_do [OF emits_set_val emits_then_do [OF emits_try_typed_upto [OF assms] emits_try_typed_upto [OF assms]]]])
    simp_all

end

sublocale executor < e8: cell_executor cfs may_exit E ix "rd8" "wr8" 1 ..

sublocale executor < e16: cell_executor cfs may_exit E ix "rd16" "wr16" 2 ..

sublocale executor < e32: cell_executor cfs may_exit E ix "rd32" "wr32" 4 ..

context executor
begin

lemma emits_arith8_body:
  "emits2 (e8.fits i) (arith8_body cfs i) (\<lambda>b. map (\<lambda>v. set8 i v b) (arith8_vals (the (rd8 b i)))) (\<lambda>b. b) (e8.fits i)"
proof -
  have "emits2 (\<lambda>b. rd8 b i = Some orig) (arith8_step cfs i orig j)
      (\<lambda>b. map (\<lambda>v. set8 i v b) (filter (\<lambda>v. \<not> could_be_bitflip (ucast (orig XOR v))) [orig + of_nat j, orig - of_nat j]))
      (\<lambda>b. b) (\<lambda>b. rd8 b i = Some orig)" for orig j
    unfolding arith8_step_def Let_def by (rule emits_cong [OF e8.emits_two]) simp_all
  from e8.emits_cell_loop [OF this] show ?thesis
    unfolding arith8_body_def by (rule emits_cong) (simp_all add: arith8_vals_def map_concat comp_def)
qed

lemma emits_arith16_body:
  "emits2 (e16.fits i) (arith16_body cfs i) (\<lambda>b. map (\<lambda>v. set16 i v b) (arith16_vals (the (rd16 b i)))) (\<lambda>b. b) (e16.fits i)"
proof -
  have "emits2 (\<lambda>b. rd16 b i = Some orig) (arith16_step cfs i orig j)
      (\<lambda>b. map (\<lambda>v. set16 i v b) (filter (\<lambda>v. \<not> could_be_bitflip (ucast (orig XOR v)))
        ((if unat (orig AND 0xff) + j > 0xff then [orig + of_nat j] else []) @
         (if unat (orig AND 0xff) < j then [orig - of_nat j] else []) @
         (if unat (drop_bit 8 orig) + j > 0xff then [SWAP16 (SWAP16 orig + of_nat j)] else []) @
         (if unat (drop_bit 8 orig) < j then [SWAP16 (SWAP16 orig - of_nat j)] else []))))
      (\<lambda>b. b) (\<lambda>b. rd16 b i = Some orig)" for orig j
    unfolding arith16_step_def Let_def by (rule emits_cong [OF e16.emits_four]) simp_all
  from e16.emits_cell_loop [OF this] show ?thesis
    unfolding arith16_body_def by (rule emits_cong) (simp_all add: arith16_vals_def map_concat comp_def)
qed

lemma emits_arith32_body:
  "emits2 (e32.fits i) (arith32_body cfs i) (\<lambda>b. map (\<lambda>v. set32 i v b) (arith32_vals (the (rd32 b i)))) (\<lambda>b. b) (e32.fits i)"
proof -
  have "emits2 (\<lambda>b. rd32 b i = Some orig) (arith32_step cfs i orig j)
      (\<lambda>b. map (\<lambda>v. set32 i v b) (filter (\<lambda>v. \<not> could_be_bitflip (orig XOR v))
        ((if unat (orig AND 0xffff) + j > 0xffff then [orig + of_nat j] else []) @
         (if unat (orig AND 0xffff) < j then [orig - of_nat j] else []) @
         (if unat (SWAP32 orig AND 0xffff) + j > 0xffff then [SWAP32 (SWAP32 orig + of_nat j)] else []) @
         (if unat (SWAP32 orig AND 0xffff) < j then [SWAP32 (SWAP32 orig - of_nat j)] else []))))
      (\<lambda>b. b) (\<lambda>b. rd32 b i = Some orig)" for orig j
    unfolding arith32_step_def Let_def by (rule emits_cong [OF e32.emits_four]) simp_all
  from e32.emits_cell_loop [OF this] show ?thesis
    unfolding arith32_body_def by (rule emits_cong) (simp_all add: arith32_vals_def map_concat comp_def)
qed

lemma emits_interest8_body:
  "emits2 (e8.fits i) (interest8_body cfs i) (\<lambda>b. map (\<lambda>v. set8 i v b) (interest8_vals (the (rd8 b i)))) (\<lambda>b. b) (e8.fits i)"
proof -
  have "emits2 (\<lambda>b. rd8 b i = Some orig) (interest8_step cfs i orig v)
      (\<lambda>b. map (\<lambda>v. set8 i v b) (filter (\<lambda>v. \<not> could_be_bitflip (ucast (orig XOR v)) \<and> \<not> could_be_arith (ucast orig) (ucast v) 1) [v]))
      (\<lambda>b. b) (\<lambda>b. rd8 b i = Some orig)" for orig v
  proof (cases "could_be_bitflip (ucast (orig XOR v)) \<or> could_be_arith (ucast orig) (ucast v) 1")
    case True
    then have "interest8_step cfs i orig v = try_val cfs False 0 Some" by (simp add: interest8_step_def)
    moreover have "emits2 (\<lambda>b. rd8 b i = Some orig) (try_val cfs False 0 Some) (\<lambda>b. if False then [b] else [])
        (\<lambda>b. if False then b else b) (\<lambda>b. rd8 b i = Some orig)"
      by (rule emits_try_val) simp_all
    ultimately show ?thesis using True by (auto intro: emits_cong)
  next
    case False
    then have st: "interest8_step cfs i orig v = then_do (try_val cfs True (sint v) (\<lambda>b. wr8 b i v)) (put_back (\<lambda>b. wr8 b i orig))"
      by (simp add: interest8_step_def)
    show ?thesis unfolding st
      by (rule emits_cong [OF e8.emits_one]) (use False in simp_all)
  qed
  from e8.emits_cell_loop [OF this] show ?thesis
    unfolding interest8_body_def
    by (rule emits_cong) (simp_all only: interest8_vals_def concat_map_filter)
qed

lemma emits_interest16_body:
  "emits2 (e16.fits i) (interest16_body cfs i) (\<lambda>b. map (\<lambda>v. set16 i v b) (interest16_vals (the (rd16 b i)))) (\<lambda>b. b) (e16.fits i)"
proof -
  let ?g = "\<lambda>orig sv b. map (\<lambda>v. set16 i v b) (let v = word_of_int sv in
      filter (\<lambda>w. \<not> could_be_bitflip (ucast (orig XOR w)) \<and> \<not> could_be_arith (ucast orig) (ucast w) 2)
       ((if \<not> could_be_interest (ucast orig) (ucast v) 2 False then [v] else []) @
        (if v \<noteq> SWAP16 v \<and> \<not> could_be_interest (ucast orig) (ucast (SWAP16 v)) 2 True then [SWAP16 v] else [])))"
  have "\<exists>h. emits2 (e16.upto i b0) (interest16_step cfs i orig sv) (\<lambda>b. ?g orig sv b0) h (e16.upto i b0)"
    if "e16.fits i b0" for orig sv b0
    unfolding interest16_step_def Let_def by (rule exI, rule emits_cong [OF e16.emits_typed_pair [OF that]]) simp_all
  from e16.emits_cell_loop_back [where g = ?g, OF this] show ?thesis
    unfolding interest16_body_def
    by (rule emits_cong) (simp_all add: interest16_vals_def interesting_16_def map_concat comp_def Let_def)
qed

lemma emits_interest32_body:
  "emits2 (e32.fits i) (interest32_body cfs i) (\<lambda>b. map (\<lambda>v. set32 i v b) (interest32_vals (the (rd32 b i)))) (\<lambda>b. b) (e32.fits i)"
proof -
  let ?g = "\<lambda>orig sv b. map (\<lambda>v. set32 i v b) (let v = word_of_int sv in
      filter (\<lambda>w. \<not> could_be_bitflip (orig XOR w) \<and> \<not> could_be_arith orig w 4)
       ((if \<not> could_be_interest orig v 4 False then [v] else []) @
        (if v \<noteq> SWAP32 v \<and> \<not> could_be_interest orig (SWAP32 v) 4 True then [SWAP32 v] else [])))"
  have "\<exists>h. emits2 (e32.upto i b0) (interest32_step cfs i orig sv) (\<lambda>b. ?g orig sv b0) h (e32.upto i b0)"
    if "e32.fits i b0" for orig sv b0
    unfolding interest32_step_def Let_def by (rule exI, rule emits_cong [OF e32.emits_typed_pair [OF that]]) simp_all
  from e32.emits_cell_loop_back [where g = ?g, OF this] show ?thesis
    unfolding interest32_body_def
    by (rule emits_cong) (simp_all add: interest32_vals_def interesting_32_def map_concat comp_def Let_def)
qed

lemma emits_flipn_body:
  "emits2 (\<lambda>b. i + n \<le> 8 * length b) (flipn_body n cfs i) (\<lambda>b. [fold flip_at [i ..< i + n] b]) (\<lambda>b. b) (\<lambda>b. i + n \<le> 8 * length b)"
proof (rule emits_flip_pair [where u = "\<lambda>s. s\<lparr>stage_cur := int i, stage_cur_byte := int (i div 8)\<rparr>" and w = "\<lambda>s. s"])
  fix b :: "u8 list" and s :: "'a afl_stage_scheme"
  assume "i + n \<le> 8 * length b"
  then have "flip_bits [i ..< i + n] b = Some (fold flip_at [i ..< i + n] b)"
    "flip_bits [i ..< i + n] (fold flip_at [i ..< i + n] b) = Some b"
    by (simp_all add: flip_bits_fold fold_flip_at_twice)
  then show "flipn_body n cfs i (b, s) = do {
      b1 \<leftarrow> Some (fold flip_at [i ..< i + n] b);
      (stop, s1) \<leftarrow> cfs b1 (s\<lparr>stage_cur := int i, stage_cur_byte := int (i div 8)\<rparr>);
      (if stop then Some (True, b1, s1) else Some (False, b, s1)) }"
    by (simp add: flipn_body_def Let_def cong: if_cong)
qed simp_all

lemma emits_flip16_body:
  "emits2 (e16.fits i) (flip16_body cfs i) (\<lambda>b. [set16 i (the (rd16 b i) XOR 0xFFFF) b]) (\<lambda>b. b) (e16.fits i)"
  unfolding flip16_body_def by (rule e16.emits_xor) (simp only: xor.assoc xor_self_eq xor.right_neutral)

lemma emits_flip32_body:
  "emits2 (e32.fits i) (flip32_body cfs i) (\<lambda>b. [set32 i (the (rd32 b i) XOR 0xFFFFFFFF) b]) (\<lambda>b. b) (e32.fits i)"
  unfolding flip32_body_def by (rule e32.emits_xor) (simp only: xor.assoc xor_self_eq xor.right_neutral)

section \<open>Stages\<close>

lemma emits_flipn_stage:
  assumes "0 < n"
  shows "emits2 (\<lambda>b. length b = l) (run_stage k sh mx (for_each (flipn_body n cfs) [0 ..< 8 * l - (n - 1)])) (flips n) (\<lambda>b. b) (\<lambda>b. length b = l)"
proof -
  have "emits2 (\<lambda>b. length b = l) (flipn_body n cfs i) (\<lambda>b. [fold flip_at [i ..< i + n] b]) (\<lambda>b. b) (\<lambda>b. length b = l)"
    if "i \<in> set [0 ..< 8 * l - (n - 1)]" for i
    using that assms by (intro emits_cong [OF emits_flipn_body]) auto
  then have "emits2 (\<lambda>b. length b = l) (for_each (flipn_body n cfs) [0 ..< 8 * l - (n - 1)])
      (\<lambda>b. concat (map (\<lambda>i. [fold flip_at [i ..< i + n] b]) [0 ..< 8 * l - (n - 1)])) (\<lambda>b. b) (\<lambda>b. length b = l)"
    by (rule emits_for_each)
  then have "emits2 (\<lambda>b. length b = l) (for_each (flipn_body n cfs) [0 ..< 8 * l - (n - 1)]) (flips n) (\<lambda>b. b) (\<lambda>b. length b = l)"
    by (rule emits_cong) (simp_all add: flips_def)
  then show ?thesis by (rule emits_run_stage)
qed

lemma emits_flip2_stage: "emits2 (\<lambda>b. length b = l) (flip2_stage cfs) (flips 2) (\<lambda>b. b) (\<lambda>b. length b = l)"
  by (rule emits_fcong [OF emits_flipn_stage [where n = 2 and l = l and k = STAGE_FLIP2 and sh = "''flip2''" and mx = "8 * int l - 1"]]) (auto simp: flip2_stage_def)

lemma emits_flip4_stage: "emits2 (\<lambda>b. length b = l) (flip4_stage cfs) (flips 4) (\<lambda>b. b) (\<lambda>b. length b = l)"
  by (rule emits_fcong [OF emits_flipn_stage [where n = 4 and l = l and k = STAGE_FLIP4 and sh = "''flip4''" and mx = "8 * int l - 3"]]) (auto simp: flip4_stage_def)

lemma emits_flip16_stage:
  assumes "length eff = EFF_ALEN l"
  shows "emits2 (\<lambda>b. length b = l) (flip16_stage cfs eff) (at_live eff 2 (\<lambda>i b. [set16 i (the (rd16 b i) XOR 0xFFFF) b])) (\<lambda>b. b) (\<lambda>b. length b = l)"
  by (rule emits_fcong [OF emits_live_stage [where k = STAGE_FLIP16 and sh = "''flip16''" and mx = "int l - 1" and cost = "1", OF emits_flip16_body assms]]) (auto simp: flip16_stage_def)

lemma emits_flip32_stage:
  assumes "length eff = EFF_ALEN l"
  shows "emits2 (\<lambda>b. length b = l) (flip32_stage cfs eff) (at_live eff 4 (\<lambda>i b. [set32 i (the (rd32 b i) XOR 0xFFFFFFFF) b])) (\<lambda>b. b) (\<lambda>b. length b = l)"
  by (rule emits_fcong [OF emits_live_stage [where k = STAGE_FLIP32 and sh = "''flip32''" and mx = "int l - 3" and cost = "1", OF emits_flip32_body assms]]) (auto simp: flip32_stage_def)

text \<open>Setting a register first does not matter.\<close>

lemma emits_after:
  assumes "emits2 P f g h Q" "\<And>s. good s \<Longrightarrow> good (u s) \<and> tried (u s) = tried s"
  shows "emits2 P (\<lambda>(b, s). f (b, u s)) g h Q"
proof (rule emitsI)
  fix x :: "u8 list \<times> 'a afl_stage_scheme" assume x: "P (fst x)" "good (snd x)"
  obtain b s where bs: "x = (b, s)" by fastforce
  have p: "P (fst (b, u s))" "good (snd (b, u s))" "tried (u s) = tried s" using x assms(2) by (simp_all add: bs)
  note e = emitsD [OF assms(1) p(1,2)]
  show "(case x of (b, s) \<Rightarrow> f (b, u s)) = None \<Longrightarrow> may_exit" using e(1) by (simp add: bs)
  show "good (snd y) \<and> (\<exists>k < length (g (fst x)). tried (snd y) = tried (snd x) @ take (Suc k) (g (fst x)))"
    if "(case x of (b, s) \<Rightarrow> f (b, u s)) = Some (True, y)" for y using e(2) that p(3) by (simp add: bs)
  show "good (snd y) \<and> fst y = h (fst x) \<and> tried (snd y) = tried (snd x) @ g (fst x) \<and> Q (fst y)"
    if "(case x of (b, s) \<Rightarrow> f (b, u s)) = Some (False, y)" for y using e(3) that p(3) by (auto simp: bs)
qed

lemma emits_arith8_stage:
  assumes "length eff = EFF_ALEN l"
  shows "emits2 (\<lambda>b. length b = l) (arith8_stage cfs eff) (at_live eff 1 (\<lambda>i b. map (\<lambda>v. set8 i v b) (arith8_vals (the (rd8 b i)))))
    (\<lambda>b. b) (\<lambda>b. length b = l)"
  by (rule emits_fcong [OF emits_after [OF emits_live_stage [where k = STAGE_ARITH8 and sh = "''arith8''" and mx = "2 * int l * int ARITH_MAX" and cost = "2 * int ARITH_MAX", OF emits_arith8_body assms],
        of "\<lambda>s. s\<lparr>stage_val_type := STAGE_VAL_LE\<rparr>"]]) (auto simp: arith8_stage_def)

lemma emits_arith16_stage:
  assumes "length eff = EFF_ALEN l"
  shows "emits2 (\<lambda>b. length b = l) (arith16_stage cfs eff) (at_live eff 2 (\<lambda>i b. map (\<lambda>v. set16 i v b) (arith16_vals (the (rd16 b i)))))
    (\<lambda>b. b) (\<lambda>b. length b = l)"
  by (rule emits_fcong [OF emits_live_stage [where k = STAGE_ARITH16 and sh = "''arith16''" and mx = "4 * (int l - 1) * int ARITH_MAX" and cost = "4 * int ARITH_MAX", OF emits_arith16_body assms]]) (auto simp: arith16_stage_def)

lemma emits_arith32_stage:
  assumes "length eff = EFF_ALEN l"
  shows "emits2 (\<lambda>b. length b = l) (arith32_stage cfs eff) (at_live eff 4 (\<lambda>i b. map (\<lambda>v. set32 i v b) (arith32_vals (the (rd32 b i)))))
    (\<lambda>b. b) (\<lambda>b. length b = l)"
  by (rule emits_fcong [OF emits_live_stage [where k = STAGE_ARITH32 and sh = "''arith32''" and mx = "4 * (int l - 3) * int ARITH_MAX" and cost = "4 * int ARITH_MAX", OF emits_arith32_body assms]]) (auto simp: arith32_stage_def)

lemma emits_interest8_stage:
  assumes "length eff = EFF_ALEN l"
  shows "emits2 (\<lambda>b. length b = l) (interest8_stage cfs eff) (at_live eff 1 (\<lambda>i b. map (\<lambda>v. set8 i v b) (interest8_vals (the (rd8 b i)))))
    (\<lambda>b. b) (\<lambda>b. length b = l)"
  by (rule emits_fcong [OF emits_after [OF emits_live_stage [where k = STAGE_INTEREST8 and sh = "''int8''" and mx = "int l * 9" and cost = "9", OF emits_interest8_body assms],
        of "\<lambda>s. s\<lparr>stage_val_type := STAGE_VAL_LE\<rparr>"]]) (auto simp: interest8_stage_def)

lemma emits_interest16_stage:
  assumes "length eff = EFF_ALEN l"
  shows "emits2 (\<lambda>b. length b = l) (interest16_stage cfs eff) (at_live eff 2 (\<lambda>i b. map (\<lambda>v. set16 i v b) (interest16_vals (the (rd16 b i)))))
    (\<lambda>b. b) (\<lambda>b. length b = l)"
  by (rule emits_fcong [OF emits_live_stage [where k = STAGE_INTEREST16 and sh = "''int16''" and mx = "2 * (int l - 1) * 19" and cost = "38", OF emits_interest16_body assms]]) (auto simp: interest16_stage_def)

lemma emits_interest32_stage:
  assumes "length eff = EFF_ALEN l"
  shows "emits2 (\<lambda>b. length b = l) (interest32_stage cfs eff) (at_live eff 4 (\<lambda>i b. map (\<lambda>v. set32 i v b) (interest32_vals (the (rd32 b i)))))
    (\<lambda>b. b) (\<lambda>b. length b = l)"
  by (rule emits_fcong [OF emits_live_stage [where k = STAGE_INTEREST32 and sh = "''int32''" and mx = "2 * (int l - 3) * 27" and cost = "54", OF emits_interest32_body assms]]) (auto simp: interest32_stage_def)

subsection \<open>Walking bit with token collection\<close>

lemma tok_flush_ok:
  assumes "good s" "a_collect a \<noteq> []"
  shows "\<exists>t. tok_flush a s = Some t \<and> good t \<and> tried t = tried s"
proof (cases "MIN_AUTO_EXTRA \<le> a_len a \<and> a_len a \<le> MAX_AUTO_EXTRA")
  case True
  then have "take (a_len a) (a_collect a) \<noteq> []" using assms(2) by (auto simp: MIN_AUTO_EXTRA_def)
  then show ?thesis using maybe_add_auto_good [OF assms(1)] True by (simp add: tok_flush_def)
qed (use assms in \<open>auto simp: tok_flush_def\<close>)

lemma tok_char_collect: "a_collect (tok_char c a) \<noteq> [] \<longleftrightarrow> a_collect a \<noteq> []"
  by (simp add: tok_char_def)

lemma collect_token_ok:
  assumes "good s" "a_collect a \<noteq> []"
  shows "\<exists>a' t. collect_token i c (a, s) = Some (a', t) \<and> good t \<and> tried t = tried s \<and> a_collect a' \<noteq> []"
proof -
  obtain t1 t2 where t: "tok_flush (tok_char c a) s = Some t1" "good t1" "tried t1 = tried s"
    "tok_flush a s = Some t2" "good t2" "tried t2 = tried s"
    using tok_flush_ok [OF assms(1)] assms(2) tok_char_collect by meson
  define k where "k = hash32 (trace_bits s) HASH_CONST"
  define inner where "inner = (if int i = stage_max s - 1 \<and> k = prev_cksum a
      then (let a' = tok_char c a in do { s' \<leftarrow> tok_flush a' s; Some (a', s') })
      else if k \<noteq> prev_cksum a
      then do { s' \<leftarrow> tok_flush a s; Some (a\<lparr>a_len := 0, prev_cksum := k\<rparr>, s') }
      else Some (a, s))"
  have "\<exists>a1 s1. inner = Some (a1, s1) \<and> good s1 \<and> tried s1 = tried s \<and> a_collect a1 \<noteq> []"
    using assms t by (simp add: inner_def Let_def tok_char_collect)
  then obtain a1 s1 where "inner = Some (a1, s1)" "good s1" "tried s1 = tried s" "a_collect a1 \<noteq> []" by blast
  then show ?thesis unfolding inner_def k_def by (simp add: collect_token_def Let_def tok_char_collect)
qed

lemma emits_flip1_body:
  assumes "i < 8 * l"
  shows "emits fst (\<lambda>x. snd (snd x)) (\<lambda>x. length (fst x) = l \<and> a_collect (fst (snd x)) \<noteq> []) (flip1_body cfs i)
    (\<lambda>b. [flip_at i b]) (\<lambda>b. b) (\<lambda>x. length (fst x) = l \<and> a_collect (fst (snd x)) \<noteq> [])"
proof (rule emitsI)
  fix x :: "u8 list \<times> token \<times> 'a afl_stage_scheme"
  assume x: "length (fst x) = l \<and> a_collect (fst (snd x)) \<noteq> []" "good (snd (snd x))"
  obtain b a s where bs: "x = (b, a, s)" by (metis prod_cases3)
  let ?s = "s\<lparr>stage_cur := int i, stage_cur_byte := int (i div 8)\<rparr>"
  have gs: "good ?s" "tried ?s = tried s" using x by (simp_all add: bs)
  have fl: "FLIP_BIT b i = Some (flip_at i b)" "FLIP_BIT (flip_at i b) i = Some b"
    using assms x by (simp_all add: bs FLIP_BIT_at)
  have rd: "rd8 b (i div 8) = Some (b ! (i div 8))" using assms x by (intro rd8_nth) (simp add: bs)
  have body: "flip1_body cfs i x = do {
      (stop, s2) \<leftarrow> cfs (flip_at i b) ?s;
      (if stop then Some (True, flip_at i b, a, s2)
       else if \<not> dumb_mode s2 \<and> i mod 8 = 7
       then do { (a', s3) \<leftarrow> collect_token i (b ! (i div 8)) (a, s2); Some (False, b, a', s3) }
       else Some (False, b, a, s2)) }"
    using rd by (simp add: flip1_body_def bs Let_def fl cong: if_cong)
  have "a_collect a \<noteq> []" using x(1) by (simp add: bs)
  note ct = collect_token_ok [where i = i and c = "b ! (i div 8)", OF _ this]
  show "flip1_body cfs i x = None \<Longrightarrow> may_exit"
  proof (cases "cfs (flip_at i b) ?s")
    case (Some p)
    obtain r s2 where p: "p = (r, s2)" by fastforce
    from run [OF gs(1) Some [unfolded p]] ct [of s2] obtain a' s3 where
      "collect_token i (b ! (i div 8)) (a, s2) = Some (a', s3)" by blast
    then show "flip1_body cfs i x = None \<Longrightarrow> may_exit" unfolding body by (simp add: Some p split: if_splits)
  qed (rule leaves)
  show "good (snd (snd y)) \<and> (\<exists>k < length [flip_at i (fst x)]. tried (snd (snd y)) = tried (snd (snd x)) @ take (Suc k) [flip_at i (fst x)])"
    if "flip1_body cfs i x = Some (True, y)" for y
    using that run [OF gs(1)] gs(2) unfolding body by (auto simp: bs split: bind_splits if_splits)
  show "good (snd (snd y)) \<and> fst y = fst x \<and> tried (snd (snd y)) = tried (snd (snd x)) @ [flip_at i (fst x)] \<and>
      length (fst y) = l \<and> a_collect (fst (snd y)) \<noteq> []"
    if r: "flip1_body cfs i x = Some (False, y)" for y
  proof -
    obtain s2 where c: "cfs (flip_at i b) ?s = Some (False, s2)" using r unfolding body by (auto split: bind_splits if_splits)
    from run [OF gs(1) c] gs(2) have s2: "good s2" "tried s2 = tried s @ [flip_at i b]" by auto
    from r c have "y = (b, a, s2) \<or> (\<exists>a' s3. collect_token i (b ! (i div 8)) (a, s2) = Some (a', s3) \<and> y = (b, a', s3))"
      unfolding body by (auto split: bind_splits if_splits)
    then show ?thesis using s2 ct [OF s2(1)] x by (auto simp: bs)
  qed
qed

lemma emits_flip1_stage: "emits2 (\<lambda>b. length b = l) (flip1_stage cfs) (flips 1) (\<lambda>b. b) (\<lambda>b. length b = l)"
proof -
  have fe: "emits fst (\<lambda>x. snd (snd x)) (\<lambda>x. length (fst x) = l \<and> a_collect (fst (snd x)) \<noteq> []) (for_each (flip1_body cfs) [0 ..< 8 * l])
      (\<lambda>b. concat (map (\<lambda>i. [flip_at i b]) [0 ..< 8 * l])) (\<lambda>b. b) (\<lambda>x. length (fst x) = l \<and> a_collect (fst (snd x)) \<noteq> [])"
    by (rule emits_for_each) (rule emits_flip1_body, simp)
  have fl: "concat (map (\<lambda>i. [flip_at i b]) [0 ..< 8 * l]) = flips 1 b" if "length b = l" for b
    using that by (simp add: flips_def)
  have "emits2 (\<lambda>b. length b = l) (flip1_loop cfs) (flips 1) (\<lambda>b. b) (\<lambda>b. length b = l)"
  proof (rule emitsI)
    fix x :: "u8 list \<times> 'a afl_stage_scheme" assume x: "length (fst x) = l" "good (snd x)"
    obtain b s where bs: "x = (b, s)" by fastforce
    define a where "a = \<lparr>a_collect = replicate MAX_AUTO_EXTRA 0, a_len = 0, prev_cksum = exec_cksum (queue s ! queue_cur s)\<rparr>"
    define z where "z = (b, a, s\<lparr>stage_val_type := STAGE_VAL_NONE\<rparr>)"
    have z: "length (fst z) = l \<and> a_collect (fst (snd z)) \<noteq> []" "good (snd (snd z))" "fst z = b" "tried (snd (snd z)) = tried s"
      using x by (simp_all add: z_def bs a_def MAX_AUTO_EXTRA_def)
    note e = emitsD [OF fe z(1,2), unfolded z(3,4) fl [OF x(1) [unfolded bs fst_conv]]]
    have lp: "flip1_loop cfs x = map_option (\<lambda>(stop, buf', a', s'). (stop, buf', s')) (for_each (flip1_body cfs) [0 ..< 8 * l] z)"
      using x by (simp add: flip1_loop_def bs Let_def z_def a_def)
    show "flip1_loop cfs x = None \<Longrightarrow> may_exit" using e(1) by (simp add: lp)
    show "good (snd y) \<and> (\<exists>k < length (flips 1 (fst x)). tried (snd y) = tried (snd x) @ take (Suc k) (flips 1 (fst x)))"
      if "flip1_loop cfs x = Some (True, y)" for y using e(2) that [unfolded lp] by (auto simp: bs)
    show "good (snd y) \<and> fst y = fst x \<and> tried (snd y) = tried (snd x) @ flips 1 (fst x) \<and> length (fst y) = l"
      if "flip1_loop cfs x = Some (False, y)" for y using e(3) that [unfolded lp] by (auto simp: bs)
  qed
  from emits_run_stage [OF this] show ?thesis
    by (rule emits_fcong [where f = "run_stage STAGE_FLIP1 ''flip1'' (8 * int l) (flip1_loop cfs)"]) (auto simp: flip1_stage_def)
qed

subsection \<open>Walking byte with the effector map\<close>

definition eff_ok :: "nat \<Rightarrow> eff_map \<times> nat \<Rightarrow> bool" where
  "eff_ok l = (\<lambda>(eff, n). length eff = EFF_ALEN l \<and> n = length (filter (\<lambda>e. e) eff) \<and> eff ! 0 \<and> eff ! EFF_APOS (l - 1))"

lemma filter_upd:
  "i < length xs \<Longrightarrow> \<not> xs ! i \<Longrightarrow> length (filter (\<lambda>e. e) (xs[i := True])) = length (filter (\<lambda>e. e) xs) + 1"
  by (induction xs arbitrary: i) (auto split: nat.splits simp: nth_Cons)

lemma EFF_ALEN_pos: "0 < l \<Longrightarrow> EFF_APOS (l - 1) < EFF_ALEN l"
  using eff_covers [of "replicate (EFF_ALEN l) True" l "l - 1" 1] by simp

lemma eff_init_ok:
  assumes "0 < l"
  shows "eff_ok l (eff_init l)"
proof -
  let ?n = "EFF_ALEN l" and ?k = "EFF_APOS (l - 1)"
  have k: "?k < ?n" by (rule EFF_ALEN_pos [OF assms])
  let ?m = "(replicate ?n False)[0 := True]"
  have m: "length (filter (\<lambda>e. e) ?m) = 1" using filter_upd [of 0 "replicate ?n False"] k by simp
  show ?thesis
  proof (cases "?k = 0")
    case True
    then show ?thesis using m k by (simp add: eff_init_def eff_ok_def Let_def)
  next
    case False
    have "length (filter (\<lambda>e. e) (?m[?k := True])) = 2" using filter_upd [of ?k ?m] m k False by (simp add: nth_upd)
    then show ?thesis using False k by (simp add: eff_init_def eff_ok_def Let_def nth_upd)
  qed
qed

lemma eff_mark_ok:
  assumes "eff_ok l ec" "i < l"
  shows "\<exists>ec'. eff_mark l i s ec = Some ec' \<and> eff_ok l ec'"
proof -
  obtain eff n where ec: "ec = (eff, n)" by fastforce
  have i: "EFF_APOS i < length eff" using eff_covers [of eff l i 1] assms by (simp add: eff_ok_def ec)
  then show ?thesis using assms filter_upd [OF i]
    by (auto simp: eff_mark_def eff_rd_def ec eff_ok_def Let_def nth_upd)
qed

lemma emits_flip8_body:
  assumes "i < l"
  shows "emits fst (\<lambda>x. snd (snd x)) (\<lambda>x. length (fst x) = l \<and> eff_ok l (fst (snd x))) (flip8_body cfs i)
    (\<lambda>b. [b[i := b ! i XOR 0xFF]]) (\<lambda>b. b) (\<lambda>x. length (fst x) = l \<and> eff_ok l (fst (snd x)))"
proof (rule emitsI)
  fix x :: "u8 list \<times> (eff_map \<times> nat) \<times> 'a afl_stage_scheme"
  assume x: "length (fst x) = l \<and> eff_ok l (fst (snd x))" "good (snd (snd x))"
  obtain b ec s where bs: "x = (b, ec, s)" by (metis prod_cases3)
  let ?s = "s\<lparr>stage_cur := int i, stage_cur_byte := int i\<rparr>" and ?m = "0xFF :: u8"
  have gs: "good ?s" "tried ?s = tried s" using x by (simp_all add: bs)
  define b1 where "b1 = b[i := b ! i XOR ?m]"
  have lb: "length b = l" using x by (simp add: bs)
  then have ib: "i < length b" using assms by simp
  have "(b ! i XOR ?m) XOR ?m = b ! i" by (simp only: xor.assoc xor_self_eq xor.right_neutral)
  then have w: "rd8 b i = Some (b ! i)" "wr8 b i (b ! i XOR ?m) = Some b1" "rd8 b1 i = Some (b ! i XOR ?m)" "wr8 b1 i ((b ! i XOR ?m) XOR ?m) = Some b"
    using ib by (simp_all only: rd8_nth wr8_upd b1_def length_list_update nth_list_update_eq list_update_overwrite list_update_id)
  have body: "flip8_body cfs i x = do {
      (stop, s2) \<leftarrow> cfs b1 ?s;
      (if stop then Some (True, b1, ec, s2) else do { ec' \<leftarrow> eff_mark l i s2 ec; Some (False, b, ec', s2) }) }"
    unfolding flip8_body_def bs prod.case Let_def w Option.bind.bind_lunit lb ..
  have em: "\<exists>ec'. eff_mark l i s2 ec = Some ec' \<and> eff_ok l ec'" for s2 :: "'a afl_stage_scheme"
    using x assms by (intro eff_mark_ok) (simp_all add: bs)
  show "flip8_body cfs i x = None \<Longrightarrow> may_exit"
  proof (cases "cfs b1 ?s")
    case (Some p)
    obtain r s2 where "p = (r, s2)" by fastforce
    then show "flip8_body cfs i x = None \<Longrightarrow> may_exit" unfolding body using em [of s2] by (auto simp: Some split: if_splits)
  qed (rule leaves)
  show "good (snd (snd y)) \<and> (\<exists>k < length [(fst x)[i := fst x ! i XOR 0xFF]].
      tried (snd (snd y)) = tried (snd (snd x)) @ take (Suc k) [(fst x)[i := fst x ! i XOR 0xFF]])"
    if "flip8_body cfs i x = Some (True, y)" for y
    using that run [OF gs(1)] gs(2) unfolding body by (auto simp: bs b1_def split: bind_splits if_splits)
  show "good (snd (snd y)) \<and> fst y = fst x \<and> tried (snd (snd y)) = tried (snd (snd x)) @ [(fst x)[i := fst x ! i XOR 0xFF]] \<and>
      length (fst y) = l \<and> eff_ok l (fst (snd y))"
    if r: "flip8_body cfs i x = Some (False, y)" for y
  proof -
    obtain s2 ec' where c: "cfs b1 ?s = Some (False, s2)" "eff_mark l i s2 ec = Some ec'" "y = (b, ec', s2)"
      using r unfolding body by (auto split: bind_splits if_splits)
    from run [OF gs(1) c(1)] gs(2) have "good s2" "tried s2 = tried s @ [b1]" by auto
    then show ?thesis using c em [of s2] x by (auto simp: bs b1_def)
  qed
qed

text \<open>The walking byte, and the map it leaves: one flag per eight bytes, with the first and the last
  set.\<close>

lemma flip8_stage_ok:
  assumes "good s" "b \<noteq> []"
  shows "case flip8_stage cfs (b, s) of
      None \<Rightarrow> may_exit
    | Some (stop, b', eff, s') \<Rightarrow> good s' \<and>
        (if stop then \<exists>k < length b. tried s' = tried s @ take (Suc k) (bytes_flipped b)
         else b' = b \<and> tried s' = tried s @ bytes_flipped b \<and> length eff = EFF_ALEN (length b) \<and>
              eff ! 0 \<and> eff ! EFF_APOS (length b - 1))"
proof -
  let ?l = "length b"
  have fe: "emits fst (\<lambda>x. snd (snd x)) (\<lambda>x. length (fst x) = ?l \<and> eff_ok ?l (fst (snd x))) (for_each (flip8_body cfs) [0 ..< ?l])
      (\<lambda>b. concat (map (\<lambda>i. [b[i := b ! i XOR 0xFF]]) [0 ..< ?l])) (\<lambda>b. b) (\<lambda>x. length (fst x) = ?l \<and> eff_ok ?l (fst (snd x)))"
    by (rule emits_for_each) (rule emits_flip8_body, simp)
  define x where "x = (b, eff_init ?l, s\<lparr>stage_short := ''flip8'', stage_cur := 0, stage_max := int ?l\<rparr>)"
  have x: "length (fst x) = ?l \<and> eff_ok ?l (fst (snd x))" "good (snd (snd x))" "tried (snd (snd x)) = tried s" "fst x = b"
    using assms eff_init_ok [of ?l] by (simp_all add: x_def)
  have g: "concat (map (\<lambda>i. [b[i := b ! i XOR 0xFF]]) [0 ..< ?l]) = bytes_flipped b" by (simp add: bytes_flipped_def)
  note e = emitsD [OF fe x(1,2), unfolded x(3,4) g]
  have st: "flip8_stage cfs (b, s) = (case for_each (flip8_body cfs) [0 ..< ?l] x of
       None \<Rightarrow> None
     | Some (True, buf', (eff, eff_cnt), s') \<Rightarrow> Some (True, buf', eff, s')
     | Some (False, buf', ec, s') \<Rightarrow>
         (let (eff, s2) = eff_finish ?l ec s' in Some (False, buf', eff, finish_stage STAGE_FLIP8 (hit_cnt_now s) s2)))"
    by (simp add: flip8_stage_def Let_def x_def)
  show ?thesis
  proof (cases "for_each (flip8_body cfs) [0 ..< ?l] x")
    case None
    then show ?thesis using e(1) by (simp add: st)
  next
    case (Some r)
    obtain stop b' eff n s' where r: "r = (stop, b', (eff, n), s')" by (metis prod.collapse)
    show ?thesis
    proof (cases stop)
      case True
      then have "good s' \<and> (\<exists>k < ?l. tried s' = tried s @ take (Suc k) (bytes_flipped b))"
        using e(2) [of "(b', (eff, n), s')"] Some by (simp add: r bytes_flipped_def)
      then show ?thesis by (simp add: st Some r True)
    next
      case False
      then have k: "good s' \<and> b' = b \<and> tried s' = tried s @ bytes_flipped b \<and> eff_ok ?l (eff, n)"
        using e(3) [of "(b', (eff, n), s')"] Some by (simp add: r)
      have p: "0 < EFF_ALEN ?l" "EFF_APOS (?l - 1) < EFF_ALEN ?l" using EFF_ALEN_pos [of ?l] assms(2) by auto
      show ?thesis using k p by (simp add: st Some r False eff_finish_def Let_def finish_stage_def eff_ok_def)
    qed
  qed
qed

subsection \<open>Inserting tokens\<close>

lemma emits_for_upt:
  assumes "\<And>i. i < n \<Longrightarrow> \<exists>h. emits2 (P i) (f i) (\<lambda>b. G i) h (P (Suc i))"
  shows "\<exists>h. emits2 (P 0) (for_each f [0 ..< n]) (\<lambda>b. concat (map G [0 ..< n])) h (P n)"
  using assms
proof (induction n)
  case 0
  show ?case by (rule exI [of _ "\<lambda>b. b"], rule emitsI) auto
next
  case (Suc n)
  then obtain h h' where h: "emits2 (P 0) (for_each f [0 ..< n]) (\<lambda>b. concat (map G [0 ..< n])) h (P n)"
    "emits2 (P n) (f n) (\<lambda>b. G n) h' (P (Suc n))" by (metis less_Suc_eq)
  have "for_each f [0 ..< Suc n] = then_do (for_each f [0 ..< n]) (f n)"
    by (rule ext) (simp add: then_do_def for_each_append split: option.splits)
  with emits_then_do [OF h] show ?case by auto
qed

lemma emits_insert_step:
  assumes "i \<le> length b" "extra_len e \<le> MAX_DICT_FILE"
  shows "\<exists>h. emits2 (\<lambda>t. length t = length b + MAX_DICT_FILE \<and> take i t = take i b) (insert_step cfs i b e)
    (\<lambda>t. inserts_at [e] b i) h (\<lambda>t. length t = length b + MAX_DICT_FILE \<and> take i t = take i b)"
proof (cases "length b + extra_len e > MAX_FILE")
  case True
  then have "insert_step cfs i b e = (\<lambda>(t, s). Some (False, t, s\<lparr>stage_max := stage_max s - 1\<rparr>))"
    by (simp add: insert_step_def)
  moreover have "inserts_at [e] b i = []" using True by (simp add: inserts_at_def)
  ultimately show ?thesis by (intro exI [of _ "\<lambda>t. t"]) (simp, rule emits_silent, auto)
next
  case False
  let ?n = "length b + extra_len e"
  define h where "h t = take i t @ data e @ drop i b @ drop ?n t" for t :: "u8 list"
  have h: "memcpy t i (data e) 0 (extra_len e) = Some (take i t @ data e @ drop (i + extra_len e) t)"
    "memcpy (take i t @ data e @ drop (i + extra_len e) t) (i + extra_len e) b i (length b - i) = Some (h t)"
    "take ?n (h t) = take i t @ data e @ drop i b" "length (h t) = length t" "take i (h t) = take i t"
    if "length t = length b + MAX_DICT_FILE" for t
    using that assms by (simp_all add: memcpy_def h_def)
  let ?P = "\<lambda>t. length t = length b + MAX_DICT_FILE \<and> take i t = take i b"
  have g: "inserts_at [e] b i = [take i b @ data e @ drop i b]" using False by (simp add: inserts_at_def)
  show ?thesis
  proof (intro exI [of _ h], rule emitsI)
    fix x :: "u8 list \<times> 'a afl_stage_scheme" assume x: "?P (fst x)" "good (snd x)"
    obtain t s where ts: "x = (t, s)" by fastforce
    have l: "length t = length b + MAX_DICT_FILE" "take i t = take i b" using x(1) by (simp_all add: ts)
    have st: "insert_step cfs i b e x = do {
        (stop, s1) \<leftarrow> cfs (take i b @ data e @ drop i b) s;
        Some (stop, h t, if stop then s1 else s1\<lparr>stage_cur := stage_cur s1 + 1\<rparr>) }"
      using False h [OF l(1)] l(2) by (simp add: insert_step_def ts)
    note r = run [OF x(2)]
    show "insert_step cfs i b e x = None \<Longrightarrow> may_exit" unfolding st using leaves by (auto split: bind_splits)
    show "good (snd y) \<and> (\<exists>k < length (inserts_at [e] b i). tried (snd y) = tried (snd x) @ take (Suc k) (inserts_at [e] b i))"
      if "insert_step cfs i b e x = Some (True, y)" for y
      using that r unfolding st g by (auto simp: ts split: bind_splits if_splits)
    show "good (snd y) \<and> fst y = h (fst x) \<and> tried (snd y) = tried (snd x) @ inserts_at [e] b i \<and> ?P (fst y)"
      if "insert_step cfs i b e x = Some (False, y)" for y
      using that r h(4,5) [OF l(1)] l unfolding st g by (auto simp: ts split: bind_splits if_splits)
  qed
qed

abbreviation head_ok :: "u8 list \<Rightarrow> nat \<Rightarrow> u8 list \<Rightarrow> bool" where
  "head_ok b i t \<equiv> length t = length b + MAX_DICT_FILE \<and> take (min i (length b)) t = take (min i (length b)) b"

lemma concat_inserts_at: "concat (map (\<lambda>e. inserts_at [e] b i) exs) = inserts_at exs b i"
  unfolding inserts_at_def by (rule concat_map_filter)

lemma emits_insert_body:
  assumes "i \<le> length b" "\<forall>e \<in> set exs. extra_len e \<le> MAX_DICT_FILE"
  shows "\<exists>h. emits2 (head_ok b i) (insert_body cfs exs b i) (\<lambda>t. inserts_at exs b i) h (head_ok b (Suc i))"
proof -
  let ?P = "\<lambda>t. length t = length b + MAX_DICT_FILE \<and> take i t = take i b"
  have "\<forall>e \<in> set exs. \<exists>h. emits2 ?P (insert_step cfs i b e) (\<lambda>t. inserts_at [e] b i) h ?P"
    using emits_insert_step [OF assms(1)] assms(2) by blast
  then obtain h where h: "\<forall>e \<in> set exs. emits2 ?P (insert_step cfs i b e) (\<lambda>t. inserts_at [e] b i) (h e) ?P"
    by (rule bchoice [THEN exE])
  have "emits2 ?P (for_each (insert_step cfs i b) exs) (\<lambda>t. concat (map (\<lambda>e. inserts_at [e] b i) exs)) (fold h exs) ?P"
    by (rule e8.emits_for_each_const) (rule bspec [OF h])
  then have "emits2 ?P (for_each (insert_step cfs i b) exs) (\<lambda>t. inserts_at exs b i) (fold h exs) ?P"
    unfolding concat_inserts_at .
  then have 1: "emits2 ?P (\<lambda>(t, s). for_each (insert_step cfs i b) exs (t, s\<lparr>stage_cur_byte := int i\<rparr>))
      (\<lambda>t. inserts_at exs b i) (fold h exs) ?P"
    by (rule emits_after) simp
  define w where "w t = (if i < length b then t[i := b ! i] else t)" for t :: "u8 list"
  have 2: "emits2 ?P (put_back (\<lambda>t. if i < length b then wr8 t i (b ! i) else Some t)) (\<lambda>t. []) w (head_ok b (Suc i))"
  proof (rule emits_put_back)
    fix t assume t: "?P t"
    show "(if i < length b then wr8 t i (b ! i) else Some t) = Some (w t)"
      using t by (auto simp: w_def cell8_simps)
    show "head_ok b (Suc i) (w t)"
    proof (cases "i < length b")
      case True
      have "take (Suc i) (t[i := b ! i]) = take i t @ [b ! i]" using t True by (simp add: take_Suc_conv_app_nth take_update_swap list_update_append)
      then show ?thesis using t True by (simp add: w_def take_Suc_conv_app_nth)
    qed (use t assms(1) in \<open>simp add: w_def min_def\<close>)
  qed
  show ?thesis
    by (intro exI, rule emits_cong [OF emits_then_do [OF 1 2], folded insert_body_def]) (use assms(1) in \<open>auto simp: min_def\<close>)
qed

lemma emits_insert_loop:
  assumes "\<forall>e \<in> set exs. extra_len e \<le> MAX_DICT_FILE"
  shows "\<exists>h. emits2 (head_ok b 0) (for_each (insert_body cfs exs b) [0 ..< length b + 1])
    (\<lambda>t. concat (map (inserts_at exs b) [0 ..< length b + 1])) h (head_ok b (length b + 1))"
  by (rule emits_for_upt) (rule emits_insert_body, use assms in auto)

lemma extras_UI_stage_ok:
  assumes "good s"
  shows "case extras_UI_stage cfs (b, s) of
      None \<Rightarrow> may_exit
    | Some (stop, b', s') \<Rightarrow> good s' \<and> b' = b \<and>
        (if stop then \<exists>k < length (insertions (extras s) b). tried s' = tried s @ take (Suc k) (insertions (extras s) b)
         else tried s' = tried s @ insertions (extras s) b)"
proof -
  let ?loop = "for_each (insert_body cfs (extras s) b) [0 ..< length b + 1]"
  have dict: "\<forall>e \<in> set (extras s). extra_len e \<le> MAX_DICT_FILE" using assms by (simp add: good_for_def extras_ok_def)
  obtain h where h: "emits2 (head_ok b 0) ?loop (\<lambda>t. insertions (extras s) b) h (head_ok b (length b + 1))"
    using emits_insert_loop [OF dict] unfolding insertions_def by blast
  define x where "x = (replicate (length b + MAX_DICT_FILE) (0 :: u8),
    s\<lparr>stage_short := ''ext_UI'', stage_cur := 0, stage_max := int (length (extras s)) * (int (length b) + 1)\<rparr>)"
  have x: "head_ok b 0 (fst x)" "good (snd x)" "tried (snd x) = tried s" using assms(1) by (simp_all add: x_def)
  note e = emitsD [OF h x(1,2), unfolded x(3)]
  show ?thesis
  proof (cases "?loop x")
    case None
    then show ?thesis using e(1) by (simp add: extras_UI_stage_def run_stage_def Let_def x_def)
  next
    case (Some r)
    obtain stop t s' where r: "r = (stop, t, s')" by (metis prod_cases3)
    have st: "extras_UI_stage cfs (b, s) = Some (stop, b, if stop then s' else finish_stage STAGE_EXTRAS_UI (hit_cnt_now s) s')"
      using Some by (simp add: extras_UI_stage_def run_stage_def Let_def x_def r)
    show ?thesis
    proof (cases stop)
      case True
      then show ?thesis using e(2) [of "(t, s')"] Some st by (auto simp: r)
    next
      case False
      then show ?thesis using e(3) [of "(t, s')"] Some st by (simp add: r finish_stage_def Let_def)
    qed
  qed
qed

subsection \<open>Overwriting with tokens\<close>

text \<open>Between the writes at one offset the buffer is the input with some bytes from that offset on
  replaced; because the tokens come shortest first, the last write covers all the earlier ones and
  putting back its length restores the input.\<close>

lemma overlay_overlay:
  assumes "i + length d' \<le> length b" "length d \<le> length d'"
  shows "memcpy (overlay b i d) i d' 0 (length d') = Some (overlay b i d')"
  using assms by (simp add: overlay_def memcpy_def drop_drop add.commute)

lemma overlay_restore:
  assumes "i + length d \<le> length b"
  shows "memcpy (overlay b i d) i b i (length d) = Some b"
proof -
  have "take i b @ take (length d) (drop i b) @ drop (i + length d) b = b"
    by (metis add.commute append_take_drop_id drop_drop)
  then show ?thesis using assms by (simp add: overlay_def memcpy_def)
qed

lemma eff_span_in:
  assumes "length eff = EFF_ALEN l" "i + n \<le> l" "0 < n"
  shows "\<exists>v. eff_span_live eff i n = Some v"
proof -
  have "EFF_APOS (i + n - 1) < length eff" using eff_covers [OF assms(1), of "i + n - 1" 1] assms(2,3) by simp
  moreover have "EFF_APOS i \<le> EFF_APOS (i + n - 1)" using assms(3) by (simp add: EFF_APOS_def div_le_mono)
  ultimately show ?thesis by (simp add: eff_span_live_def EFF_SPAN_ALEN_def Let_def)
qed

definition over_inv :: "u8 list \<Rightarrow> nat \<Rightarrow> extra_data list \<Rightarrow> 'a afl_stage_scheme \<Rightarrow> nat \<times> u8 list \<times> 'a afl_stage_scheme \<Rightarrow> bool" where
  "over_inv b i exs s0 = (\<lambda>(ll, b', s). good s \<and> (\<exists>d. length d = ll \<and> i + ll \<le> length b \<and> b' = overlay b i d) \<and>
     (\<exists>new. tried s = tried s0 @ new \<and> set new \<subseteq> overlays b exs))"

lemma over_step_ok:
  assumes inv: "over_inv b i exs s0 (ll, b', s)" and e: "e \<in> set exs" "0 < extra_len e" "ll \<le> extra_len e"
    and eff: "length eff = EFF_ALEN (length b)" and cnt: "0 < cnt"
  shows "case over_step cfs eff prob cnt i e (ll, b', s) of
      None \<Rightarrow> may_exit
    | Some (stop, ll', b'', s') \<Rightarrow> over_inv b i exs s0 (ll', b'', s') \<and> ll' \<le> extra_len e"
proof -
  obtain d where d: "length d = ll" "i + ll \<le> length b" "b' = overlay b i d" and g: "good s"
    using inv by (auto simp: over_inv_def)
  have lb: "length b' = length b" using d by (simp add: overlay_def)
  obtain r t where u: "UR cnt s = Some (r, t)" "same_rest s t" by (rule ur.draw_obtain [OF cnt])
  obtain skip s1 where rnd: "(if prob \<and> cnt > MAX_DET_EXTRAS
      then map_option (\<lambda>(r, t). (r \<ge> MAX_DET_EXTRAS, t)) (UR cnt s) else Some (False, s)) = Some (skip, s1)"
    and s1: "good s1" "tried s1 = tried s"
    using u(1) g good_same_rest [OF u(2) g] by (cases "prob \<and> cnt > MAX_DET_EXTRAS") auto
  define dup where "dup \<longleftrightarrow> skip \<or> extra_len e > length b' - i \<or> data e = take (extra_len e) (drop i b')"
  have fit: "\<not> dup \<Longrightarrow> i + extra_len e \<le> length b" using d(2) lb by (auto simp: dup_def)
  obtain lv where lv: "(if dup then Some False else eff_span_live eff i (extra_len e)) = Some lv" "lv \<longrightarrow> i + extra_len e \<le> length b"
  proof (cases dup)
    case False
    then show ?thesis using that eff_span_in [OF eff fit e(2)] fit by auto
  qed (use that in auto)
  have inv1: "over_inv b i exs s0 (ll, b', t)" if "good t" "tried t = tried s" for t
    using inv that by (auto simp: over_inv_def)
  show ?thesis
  proof (cases lv)
    case False
    then have "over_step cfs eff prob cnt i e (ll, b', s) = Some (False, ll, b', s1\<lparr>stage_max := stage_max s1 - 1\<rparr>)"
      using lv(1) [unfolded dup_def] by (simp add: over_step_def rnd)
    then show ?thesis using inv1 s1 e(3) by simp
  next
    case True
    let ?b1 = "overlay b i (data e)"
    have m: "memcpy b' i (data e) 0 (extra_len e) = Some ?b1"
      using overlay_overlay [of i "data e" b d] lv(2) True d e(3) by simp
    have st: "over_step cfs eff prob cnt i e (ll, b', s) = do {
        (stop, s2) \<leftarrow> cfs ?b1 s1; Some (stop, extra_len e, ?b1, if stop then s2 else s2\<lparr>stage_cur := stage_cur s2 + 1\<rparr>) }"
      using lv(1) [unfolded dup_def] True by (simp add: over_step_def rnd m)
    show ?thesis
    proof (cases "cfs ?b1 s1")
      case None
      then show ?thesis using leaves by (simp add: st)
    next
      case (Some p)
      obtain r s2 where p: "p = (r, s2)" by fastforce
      from run [OF s1(1) Some [unfolded p]] s1(2) have s2: "good s2" "tried s2 = tried s @ [?b1]" by auto
      have "?b1 \<in> overlays b exs" using e(1) lv(2) True by (auto simp: overlays_def)
      then have "over_inv b i exs s0 (extra_len e, ?b1, t)" if "good t" "tried t = tried s2" for t
        using inv that s2(2) lv(2) True by (auto simp: over_inv_def)
      then show ?thesis using s2 by (simp add: st Some p)
    qed
  qed
qed

lemma over_loop_ok:
  assumes "over_inv b i exs s0 (ll, b', s)" "set es \<subseteq> set exs" "sorted (map extra_len es)"
    "\<forall>e \<in> set es. 0 < extra_len e \<and> ll \<le> extra_len e" "length eff = EFF_ALEN (length b)" "0 < cnt"
  shows "case for_each (over_step cfs eff prob cnt i) es (ll, b', s) of
      None \<Rightarrow> may_exit | Some (stop, x) \<Rightarrow> over_inv b i exs s0 x"
  using assms
proof (induction es arbitrary: ll b' s)
  case (Cons e es)
  note st = over_step_ok [OF Cons.prems(1) _ _ _ Cons.prems(5,6), of e prob]
  show ?case
  proof (cases "over_step cfs eff prob cnt i e (ll, b', s)")
    case None
    then show ?thesis using st Cons.prems by simp
  next
    case (Some r)
    obtain stop ll1 b1 s1 where r: "r = (stop, ll1, b1, s1)" by (metis prod_cases4)
    then have k: "over_inv b i exs s0 (ll1, b1, s1)" "ll1 \<le> extra_len e" using st Cons.prems Some by simp_all
    show ?thesis
    proof (cases stop)
      case True
      then show ?thesis using k Some r by simp
    next
      case False
      have "case for_each (over_step cfs eff prob cnt i) es (ll1, b1, s1) of None \<Rightarrow> may_exit | Some (stop, x) \<Rightarrow> over_inv b i exs s0 x"
        using Cons.prems k by (intro Cons.IH) (auto intro: order_trans)
      then show ?thesis using Some r False by simp
    qed
  qed
qed simp

lemma over_body_ok:
  assumes "good s" "i \<le> length b" "sorted (map extra_len exs)" "\<forall>e \<in> set exs. 0 < extra_len e" "length eff = EFF_ALEN (length b)"
  shows "over_ok E ix may_exit b exs s (over_body cfs eff prob exs b i (b, s))"
proof (cases "exs = []")
  case True
  then show ?thesis using assms(1,2) overlay_restore [of i "[]" b]
    by (auto simp: over_body_def over_ok_def overlay_def)
next
  case False
  have "over_inv b i exs s (0, b, s\<lparr>stage_cur_byte := int i\<rparr>)"
    using assms(1,2) by (auto simp: over_inv_def overlay_def)
  then have l: "case for_each (over_step cfs eff prob (length exs) i) exs (0, b, s\<lparr>stage_cur_byte := int i\<rparr>) of
      None \<Rightarrow> may_exit | Some (stop, x) \<Rightarrow> over_inv b i exs s x"
    using assms False by (intro over_loop_ok) auto
  show ?thesis
  proof (cases "for_each (over_step cfs eff prob (length exs) i) exs (0, b, s\<lparr>stage_cur_byte := int i\<rparr>)")
    case None
    then show ?thesis using l by (simp add: over_body_def over_ok_def)
  next
    case (Some r)
    obtain stop ll b1 s1 where r: "r = (stop, ll, b1, s1)" by (metis prod_cases4)
    then have k: "over_inv b i exs s (ll, b1, s1)" using l Some by simp
    then obtain d where d: "length d = ll" "i + ll \<le> length b" "b1 = overlay b i d" by (auto simp: over_inv_def)
    have "memcpy b1 i b i ll = Some b" using overlay_restore [of i d b] d by simp
    then show ?thesis using k Some r by (auto simp: over_body_def over_ok_def over_inv_def)
  qed
qed

lemma over_for_each:
  assumes "good s" "\<forall>i \<in> set is. i \<le> length b" "sorted (map extra_len exs)" "\<forall>e \<in> set exs. 0 < extra_len e" "length eff = EFF_ALEN (length b)"
  shows "over_ok E ix may_exit b exs s (for_each (over_body cfs eff prob exs b) is (b, s))"
  using assms
proof (induction "is" arbitrary: s)
  case (Cons i "is")
  have bd: "over_ok E ix may_exit b exs s (over_body cfs eff prob exs b i (b, s))" using Cons.prems by (intro over_body_ok) auto
  show ?case
  proof (cases "over_body cfs eff prob exs b i (b, s)")
    case None
    then show ?thesis using bd by (simp add: over_ok_def)
  next
    case (Some r)
    obtain stop b1 s1 where r: "r = (stop, b1, s1)" by (metis prod_cases3)
    show ?thesis
    proof (cases stop)
      case True
      then show ?thesis using bd Some r by (simp add: over_ok_def)
    next
      case False
      obtain new where k: "good s1" "b1 = b" "tried s1 = tried s @ new" "set new \<subseteq> overlays b exs"
        using bd Some r False by (auto simp: over_ok_def)
      have "over_ok E ix may_exit b exs s1 (for_each (over_body cfs eff prob exs b) is (b, s1))" using Cons.prems k(1) by (intro Cons.IH) auto
      then have "over_ok E ix may_exit b exs s (for_each (over_body cfs eff prob exs b) is (b, s1))"
        using k(3,4) by (fastforce simp: over_ok_def split: option.splits)
      then show ?thesis using Some r False k(2) by simp
    qed
  qed
qed (simp add: over_ok_def)

lemma over_run_stage:
  assumes "\<And>t. good t \<Longrightarrow> over_ok E ix may_exit b exs t (loop (b, t))" "good s"
  shows "over_ok E ix may_exit b exs s (run_stage k sh mx loop (b, s))"
proof -
  let ?s = "s\<lparr>stage_short := sh, stage_cur := 0, stage_max := mx\<rparr>"
  have "over_ok E ix may_exit b exs ?s (loop (b, ?s))" using assms by simp
  then show ?thesis by (auto simp: over_ok_def run_stage_def Let_def finish_stage_def split: option.splits)
qed

lemma extras_UO_stage_ok:
  assumes "good s" "length eff = EFF_ALEN (length b)"
  shows "over_ok E ix may_exit b (extras s) s (extras_UO_stage cfs eff b (b, s))"
proof -
  let ?s = "s\<lparr>stage_val_type := STAGE_VAL_NONE\<rparr>"
  have ex: "sorted (map extra_len (extras s))" "\<forall>e \<in> set (extras s). 0 < extra_len e"
    using assms(1) by (auto simp: good_for_def extras_ok_def Suc_le_eq)
  have "over_ok E ix may_exit b (extras s) ?s (run_stage STAGE_EXTRAS_UO ''ext_UO'' (int (length (extras s)) * int (length b))
      (for_each (over_body cfs eff True (extras s) b) [0 ..< length b]) (b, ?s))"
    using assms ex by (intro over_run_stage over_for_each) simp_all
  then show ?thesis by (intro over_ok_start [of ?s s]) (simp_all add: extras_UO_stage_def)
qed

lemma extras_AO_stage_ok:
  assumes "good s" "length eff = EFF_ALEN (length b)"
  shows "over_ok E ix may_exit b (take USE_AUTO_EXTRAS (a_extras s)) s (extras_AO_stage cfs eff b (b, s))"
proof -
  let ?s = "s\<lparr>stage_val_type := STAGE_VAL_NONE\<rparr>" and ?ex = "take USE_AUTO_EXTRAS (a_extras s)"
  have ex: "sorted (map extra_len ?ex)" "\<forall>e \<in> set ?ex. 0 < extra_len e"
    using assms(1) by (auto simp: good_for_def autos_ok_def auto_ok_for_def dest: in_set_takeD)
  have "over_ok E ix may_exit b ?ex ?s (run_stage STAGE_EXTRAS_AO ''ext_AO'' (int (min (length (a_extras s)) USE_AUTO_EXTRAS) * int (length b))
      (for_each (over_body cfs eff False ?ex b) [0 ..< length b]) (b, ?s))"
    using assms ex by (intro over_run_stage over_for_each) simp_all
  then show ?thesis by (intro over_ok_start [of ?s s]) (simp_all add: extras_AO_stage_def)
qed

end

section \<open>The real executor\<close>

text \<open>An exit of the process inside the executor, seen from a stage: the rest of it is not run.\<close>

definition or_exit :: "'a afl_exec_scheme executor \<Rightarrow> 'a afl_exec_scheme executor" where
  "or_exit f b s = (case f b s of None \<Rightarrow> Some (True, s\<lparr>tried := tried s @ [b]\<rparr>) | Some r \<Rightarrow> Some r)"

lemma good_grow:
  assumes "good_for E ix s" "grow s t"
  shows "good_for E ix t"
proof -
  have o: "extras t = extras s" "a_extras t = a_extras s" "queue_cycle t = queue_cycle s"
      "current_entry t = current_entry s" "afl_exec.more t = afl_exec.more s"
    using assms(2) by (simp_all add: grow_def options_def)
  have "queue_cur t = queue_cur s" using o(5) by (cases s; cases t) simp
  moreover have "autos_ok t = autos_ok s" using o by (simp add: autos_ok_def auto_ok_for_def)
  ultimately show ?thesis using assms o by (auto simp: good_for_def books_ok_def grow_def keeps_defs)
qed

lemma common_fuzz_stuff_run:
  assumes "good_for E ix s" "common_fuzz_stuff b s = Some (r, t)"
  shows "good_for E ix t \<and> tried t = tried s @ [b]"
proof -
  have "ran b s t" using assms by (intro common_fuzz_stuff_ran) (auto simp: good_for_def)
  then have g: "grow (s\<lparr>tried := tried s @ [b]\<rparr>) t" by (simp add: ran_def)
  then have "tried t = tried s @ [b]" by (simp add: grow_def options_def)
  moreover have "good_for E ix (s\<lparr>tried := tried s @ [b]\<rparr>)" using assms(1) by simp
  ultimately show ?thesis using good_grow [OF _ g] by simp
qed

interpretation cfs: executor common_fuzz_stuff True E ix for E ix
  by unfold_locales (auto dest: common_fuzz_stuff_run)

interpretation safe: executor "or_exit common_fuzz_stuff" False E ix for E ix
  by unfold_locales (auto simp: or_exit_def dest: common_fuzz_stuff_run split: option.splits)

end
