(* ===== verification/Afl_Havoc.thy ===== *)
theory Afl_Havoc
  imports Afl_Det_Laws
begin

text \<open>
  The havoc stage of \<open>fuzz_one\<close> in \<^verbatim>\<open>docker/AFL/afl-fuzz.c\<close>: seventeen stacked random tweaks of the output
  buffer. The buffer is modelled with its allocated size, of which the first \<open>temp_len\<close> bytes are the test
  case; every access is checked against the allocation, so a result other than \<^const>\<open>None\<close> is
  memory safety. Where C leaves the order of two draws in one expression open, the position is
  drawn first.
\<close>

section \<open>The tweaks\<close>

type_synonym 's tweak = "u8 list \<times> nat \<times> 's \<Rightarrow> (u8 list \<times> nat \<times> 's) option"

definition havoc_bit :: "'a afl_stage_scheme tweak" where
  "havoc_bit = (\<lambda>(buf, tlen, s). do { (b, s1) \<leftarrow> UR (8 * tlen) s; buf1 \<leftarrow> FLIP_BIT buf b; Some (buf1, tlen, s1) })"

definition havoc_int8 :: "'a afl_stage_scheme tweak" where
  "havoc_int8 = (\<lambda>(buf, tlen, s). do {
     (p, s1) \<leftarrow> UR tlen s; (k, s2) \<leftarrow> UR (length interesting_8) s1;
     buf1 \<leftarrow> wr8 buf p (interesting_8 ! k); Some (buf1, tlen, s2) })"

definition havoc_int16 :: "'a afl_stage_scheme tweak" where
  "havoc_int16 = (\<lambda>(buf, tlen, s).
     if tlen < 2 then Some (buf, tlen, s)
     else do {
       (le, s1) \<leftarrow> UR 2 s; (p, s2) \<leftarrow> UR (tlen - 1) s1; (k, s3) \<leftarrow> UR (length interesting_16) s2;
       buf1 \<leftarrow> wr16 buf p (if le \<noteq> 0 then interesting_16 ! k else SWAP16 (interesting_16 ! k)); Some (buf1, tlen, s3) })"

definition havoc_int32 :: "'a afl_stage_scheme tweak" where
  "havoc_int32 = (\<lambda>(buf, tlen, s).
     if tlen < 4 then Some (buf, tlen, s)
     else do {
       (le, s1) \<leftarrow> UR 2 s; (p, s2) \<leftarrow> UR (tlen - 3) s1; (k, s3) \<leftarrow> UR (length interesting_32) s2;
       buf1 \<leftarrow> wr32 buf p (if le \<noteq> 0 then interesting_32 ! k else SWAP32 (interesting_32 ! k)); Some (buf1, tlen, s3) })"

definition bump :: "bool \<Rightarrow> 'w::len word \<Rightarrow> nat \<Rightarrow> 'w word" where
  "bump add v n = (if add then v + of_nat n else v - of_nat n)"

definition havoc_arith8 :: "bool \<Rightarrow> 'a afl_stage_scheme tweak" where
  "havoc_arith8 add = (\<lambda>(buf, tlen, s). do {
     (p, s1) \<leftarrow> UR tlen s; (n, s2) \<leftarrow> UR ARITH_MAX s1;
     v \<leftarrow> rd8 buf p; buf1 \<leftarrow> wr8 buf p (bump add v (1 + n)); Some (buf1, tlen, s2) })"

definition havoc_arith16 :: "bool \<Rightarrow> 'a afl_stage_scheme tweak" where
  "havoc_arith16 add = (\<lambda>(buf, tlen, s).
     if tlen < 2 then Some (buf, tlen, s)
     else do {
       (le, s1) \<leftarrow> UR 2 s; (p, s2) \<leftarrow> UR (tlen - 1) s1; (n, s3) \<leftarrow> UR ARITH_MAX s2;
       v \<leftarrow> rd16 buf p;
       buf1 \<leftarrow> wr16 buf p (if le \<noteq> 0 then bump add v (1 + n) else SWAP16 (bump add (SWAP16 v) (1 + n)));
       Some (buf1, tlen, s3) })"

definition havoc_arith32 :: "bool \<Rightarrow> 'a afl_stage_scheme tweak" where
  "havoc_arith32 add = (\<lambda>(buf, tlen, s).
     if tlen < 4 then Some (buf, tlen, s)
     else do {
       (le, s1) \<leftarrow> UR 2 s; (p, s2) \<leftarrow> UR (tlen - 3) s1; (n, s3) \<leftarrow> UR ARITH_MAX s2;
       v \<leftarrow> rd32 buf p;
       buf1 \<leftarrow> wr32 buf p (if le \<noteq> 0 then bump add v (1 + n) else SWAP32 (bump add (SWAP32 v) (1 + n)));
       Some (buf1, tlen, s3) })"

definition havoc_byte :: "'a afl_stage_scheme tweak" where
  "havoc_byte = (\<lambda>(buf, tlen, s). do {
     (p, s1) \<leftarrow> UR tlen s; (x, s2) \<leftarrow> UR 255 s1;
     v \<leftarrow> rd8 buf p; buf1 \<leftarrow> wr8 buf p (v XOR (1 + of_nat x)); Some (buf1, tlen, s2) })"

definition havoc_delete :: "'a afl_stage_scheme tweak" where
  "havoc_delete = (\<lambda>(buf, tlen, s).
     if tlen < 2 then Some (buf, tlen, s)
     else do {
       (del_len, s1) \<leftarrow> choose_block_len (tlen - 1) s;
       (del_from, s2) \<leftarrow> UR (tlen - del_len + 1) s1;
       buf1 \<leftarrow> memmove buf del_from (del_from + del_len) (tlen - del_from - del_len);
       Some (buf1, tlen - del_len, s2) })"

text \<open>\<^verbatim>\<open>UR(2) ? UR(256) : out_buf[UR(temp_len)]\<close>\<close>

definition fill_byte :: "u8 list \<Rightarrow> nat \<Rightarrow> 'a afl_stage_scheme \<Rightarrow> (u8 \<times> 'a afl_stage_scheme) option" where
  "fill_byte buf tlen s = do {
     (c, s1) \<leftarrow> UR 2 s;
     (if c \<noteq> 0 then do { (v, s2) \<leftarrow> UR 256 s1; Some (of_nat v, s2) }
      else do { (p, s2) \<leftarrow> UR tlen s1; v \<leftarrow> rd8 buf p; Some (v, s2) }) }"

definition clone_block :: "bool \<Rightarrow> nat \<Rightarrow> 'a afl_stage_scheme \<Rightarrow> (nat \<times> nat \<times> 'a afl_stage_scheme) option" where
  "clone_block actually_clone tlen s =
     (if actually_clone
      then do { (clone_len, s1) \<leftarrow> choose_block_len tlen s; (clone_from, s2) \<leftarrow> UR (tlen - clone_len + 1) s1;
                Some (clone_len, clone_from, s2) }
      else do { (clone_len, s1) \<leftarrow> choose_block_len HAVOC_BLK_XL s; Some (clone_len, 0, s1) })"

definition clone_fill :: "bool \<Rightarrow> u8 list \<Rightarrow> nat \<Rightarrow> u8 list \<Rightarrow> nat \<Rightarrow> nat \<Rightarrow> nat \<Rightarrow> 'a afl_stage_scheme \<Rightarrow>
    (u8 list \<times> 'a afl_stage_scheme) option" where
  "clone_fill actually_clone buf tlen new clone_to clone_from clone_len s =
     (if actually_clone then map_option (\<lambda>n. (n, s)) (memcpy new clone_to buf clone_from clone_len)
      else do { (c, s1) \<leftarrow> fill_byte buf tlen s; n \<leftarrow> memset new clone_to c clone_len; Some (n, s1) })"

definition havoc_clone :: "'a afl_stage_scheme tweak" where
  "havoc_clone = (\<lambda>(buf, tlen, s).
     if tlen + HAVOC_BLK_XL < MAX_FILE
     then do {
       (actually_clone, s1) \<leftarrow> UR 4 s;
       (clone_len, clone_from, s2) \<leftarrow> clone_block (actually_clone \<noteq> 0) tlen s1;
       (clone_to, s3) \<leftarrow> UR tlen s2;
       new1 \<leftarrow> memcpy (replicate (tlen + clone_len) 0) 0 buf 0 clone_to;
       (new2, s4) \<leftarrow> clone_fill (actually_clone \<noteq> 0) buf tlen new1 clone_to clone_from clone_len s3;
       new3 \<leftarrow> memcpy new2 (clone_to + clone_len) buf clone_to (tlen - clone_to);
       Some (new3, tlen + clone_len, s4) }
     else Some (buf, tlen, s))"

definition havoc_overwrite :: "'a afl_stage_scheme tweak" where
  "havoc_overwrite = (\<lambda>(buf, tlen, s).
     if tlen < 2 then Some (buf, tlen, s)
     else do {
       (copy_len, s1) \<leftarrow> choose_block_len (tlen - 1) s;
       (copy_from, s2) \<leftarrow> UR (tlen - copy_len + 1) s1;
       (copy_to, s3) \<leftarrow> UR (tlen - copy_len + 1) s2;
       (c, s4) \<leftarrow> UR 4 s3;
       (if c \<noteq> 0
        then (if copy_from \<noteq> copy_to then do { buf1 \<leftarrow> memmove buf copy_to copy_from copy_len; Some (buf1, tlen, s4) }
              else Some (buf, tlen, s4))
        else do { (v, s5) \<leftarrow> fill_byte buf tlen s4; buf1 \<leftarrow> memset buf copy_to v copy_len; Some (buf1, tlen, s5) }) })"

text \<open>Which dictionary to use, and the token from it: \<^verbatim>\<open>!extras_cnt || (a_extras_cnt && UR(2))\<close>.\<close>

definition pick_extra :: "'a afl_stage_scheme \<Rightarrow> (u8 list \<times> 'a afl_stage_scheme) option" where
  "pick_extra s = do {
     (use_auto, s1) \<leftarrow> (if extras s = [] then Some (True, s)
                        else if a_extras s \<noteq> [] then map_option (\<lambda>(r, t). (r \<noteq> 0, t)) (UR 2 s) else Some (False, s));
     let exs = (if use_auto then a_extras s1 else extras s1);
     (k, s2) \<leftarrow> UR (length exs) s1;
     Some (data (exs ! k), s2) }"

definition havoc_extra_over :: "'a afl_stage_scheme tweak" where
  "havoc_extra_over = (\<lambda>(buf, tlen, s). do {
     (d, s1) \<leftarrow> pick_extra s;
     (if length d > tlen then Some (buf, tlen, s1)
      else do {
        (insert_at, s2) \<leftarrow> UR (tlen - length d + 1) s1;
        buf1 \<leftarrow> memcpy buf insert_at d 0 (length d); Some (buf1, tlen, s2) }) })"

definition havoc_extra_insert :: "'a afl_stage_scheme tweak" where
  "havoc_extra_insert = (\<lambda>(buf, tlen, s). do {
     (insert_at, s1) \<leftarrow> UR (tlen + 1) s;
     (d, s2) \<leftarrow> pick_extra s1;
     (if tlen + length d \<ge> MAX_FILE then Some (buf, tlen, s2)
      else do {
        new1 \<leftarrow> memcpy (replicate (tlen + length d) 0) 0 buf 0 insert_at;
        new2 \<leftarrow> memcpy new1 insert_at d 0 (length d);
        new3 \<leftarrow> memcpy new2 (insert_at + length d) buf insert_at (tlen - insert_at);
        Some (new3, tlen + length d, s2) }) })"

definition havoc_case :: "nat \<Rightarrow> 'a afl_stage_scheme tweak" where
  "havoc_case n =
     (if n = 0 then havoc_bit else if n = 1 then havoc_int8 else if n = 2 then havoc_int16 else if n = 3 then havoc_int32
      else if n = 4 then havoc_arith8 False else if n = 5 then havoc_arith8 True
      else if n = 6 then havoc_arith16 False else if n = 7 then havoc_arith16 True
      else if n = 8 then havoc_arith32 False else if n = 9 then havoc_arith32 True
      else if n = 10 then havoc_byte else if n = 11 \<or> n = 12 then havoc_delete else if n = 13 then havoc_clone
      else if n = 14 then havoc_overwrite else if n = 15 then havoc_extra_over else if n = 16 then havoc_extra_insert
      else Some)"

definition havoc_tweak :: "'a afl_stage_scheme tweak" where
  "havoc_tweak = (\<lambda>(buf, tlen, s). do {
     (n, s1) \<leftarrow> UR (15 + (if extras s \<noteq> [] \<or> a_extras s \<noteq> [] then 2 else 0)) s;
     havoc_case n (buf, tlen, s1) })"

section \<open>The loop\<close>

definition HAVOC_STACK_POW2 :: nat where "HAVOC_STACK_POW2 = 7"
definition HAVOC_CYCLES :: nat where "HAVOC_CYCLES = 256"
definition HAVOC_CYCLES_INIT :: nat where "HAVOC_CYCLES_INIT = 1024"
definition HAVOC_MIN :: nat where "HAVOC_MIN = 16"
definition SPLICE_HAVOC :: nat where "SPLICE_HAVOC = 32"

definition havoc_stack :: "u8 list \<times> nat \<times> 'a afl_stage_scheme \<Rightarrow> (u8 list \<times> nat \<times> 'a afl_stage_scheme) option" where
  "havoc_stack = (\<lambda>(buf, tlen, s). do {
     (r, s1) \<leftarrow> UR HAVOC_STACK_POW2 s;
     let use_stacking = 2 ^ (1 + r);
     foldM (\<lambda>i. havoc_tweak) [0 ..< use_stacking] (buf, tlen, s1\<lparr>stage_cur_val := int use_stacking\<rparr>) })"

text \<open>\<^verbatim>\<open>ck_realloc\<close> to \<open>len\<close> bytes keeps what fits and clears the rest.\<close>

definition havoc_reset :: "u8 list \<Rightarrow> u8 list \<Rightarrow> nat \<Rightarrow> u8 list option" where
  "havoc_reset in_buf buf tlen =
     (let l = length in_buf; buf1 = (if tlen < l then take l (buf @ replicate l 0) else buf)
      in memcpy buf1 0 in_buf 0 l)"

record havoc_st =
  h_max :: nat
  h_perf :: nat
  h_queued :: nat

definition havoc_extend :: "'a afl_stage_scheme \<Rightarrow> havoc_st \<Rightarrow> havoc_st" where
  "havoc_extend s h =
     (if queued_paths s \<noteq> h_queued h
      then (if h_perf h \<le> HAVOC_MAX_MULT * 100
            then h\<lparr>h_max := h_max h * 2, h_perf := h_perf h * 2, h_queued := queued_paths s\<rparr>
            else h\<lparr>h_queued := queued_paths s\<rparr>)
      else h)"

definition havoc_round :: "'a afl_stage_scheme executor \<Rightarrow> u8 list \<Rightarrow> u8 list \<times> 'a afl_stage_scheme \<Rightarrow>
    (bool \<times> u8 list \<times> 'a afl_stage_scheme) option" where
  "havoc_round cfs in_buf = (\<lambda>(buf, s). do {
     (buf1, tlen, s1) \<leftarrow> havoc_stack (buf, length in_buf, s);
     (stop, s2) \<leftarrow> (if tlen \<le> length buf1 then cfs (take tlen buf1) s1 else None);
     (if stop then Some (True, buf1, s2)
      else do { buf2 \<leftarrow> havoc_reset in_buf buf1 tlen; Some (False, buf2, s2) }) })"

text \<open>The loop, with fuel for every execution. The bound doubles whenever a round found something and
  the score is not above its limit.\<close>

fun havoc_loop :: "nat \<Rightarrow> 'a afl_stage_scheme executor \<Rightarrow> u8 list \<Rightarrow> nat \<Rightarrow> havoc_st \<Rightarrow> u8 list \<times> 'a afl_stage_scheme \<Rightarrow>
    (bool \<times> havoc_st \<times> u8 list \<times> 'a afl_stage_scheme) option" where
  "havoc_loop 0 cfs in_buf cur h bs = None"
| "havoc_loop (Suc fuel) cfs in_buf cur h (buf, s) =
     (if cur < h_max h
      then (case havoc_round cfs in_buf (buf, s\<lparr>stage_cur := int cur, stage_max := int (h_max h)\<rparr>) of
              None \<Rightarrow> None
            | Some (True, buf', s') \<Rightarrow> Some (True, h, buf', s')
            | Some (False, buf', s') \<Rightarrow> havoc_loop fuel cfs in_buf (cur + 1) (havoc_extend s' h) (buf', s'))
      else Some (False, h, buf, s\<lparr>stage_cur := int cur, stage_max := int (h_max h)\<rparr>))"

definition havoc_stage_max :: "bool \<Rightarrow> nat \<Rightarrow> nat \<Rightarrow> nat \<Rightarrow> nat" where
  "havoc_stage_max doing_det splice_cycle perf_score hdiv =
     max HAVOC_MIN
       (if splice_cycle = 0 then (if doing_det then HAVOC_CYCLES_INIT else HAVOC_CYCLES) * perf_score div hdiv div 100
        else SPLICE_HAVOC * perf_score div hdiv div 100)"

definition havoc_stage :: "'a afl_stage_scheme executor \<Rightarrow> bool \<Rightarrow> nat \<Rightarrow> nat \<Rightarrow> u8 list \<Rightarrow>
    u8 list \<times> 'a afl_stage_scheme \<Rightarrow> (bool \<times> u8 list \<times> 'a afl_stage_scheme) option" where
  "havoc_stage cfs doing_det splice_cycle perf_score in_buf = (\<lambda>(buf, s).
     if havoc_div s = 0 then None
     else let
       mx = havoc_stage_max doing_det splice_cycle perf_score (havoc_div s);
       orig = hit_cnt_now s;
       s1 = s\<lparr>stage_cur_byte := -1, stage_short := (if splice_cycle = 0 then ''havoc'' else ''splice'')\<rparr>
     in case havoc_loop (2048 * mx + 1) cfs in_buf 0 \<lparr>h_max = mx, h_perf = perf_score, h_queued = queued_paths s1\<rparr> (buf, s1) of
          None \<Rightarrow> None
        | Some (True, h, buf', s') \<Rightarrow> Some (True, buf', s')
        | Some (False, h, buf', s') \<Rightarrow>
            Some (False, buf', finish_stage (if splice_cycle = 0 then STAGE_HAVOC else STAGE_SPLICE) orig s'))"

end
