(* ===== verification/Afl_Havoc_Laws.thy ===== *)
theory Afl_Havoc_Laws
  imports Afl_Havoc
begin

text \<open>
  Memory safety and termination of the havoc stage. A small calculus of total correctness for
  checked computations carries the proofs: \<open>ends Q m\<close> says that \<open>m\<close> ends without a memory error in a
  value satisfying \<open>Q\<close>. Each tweak keeps the case inside its allocation, never makes it empty and
  never lets it outgrow the larger of \<^verbatim>\<open>MAX_FILE\<close> and its initial size; the loop around them restores the buffer after every execution
  and its bound cannot double forever.
\<close>

section \<open>Total correctness of checked computations\<close>

named_theorems wp \<open>introduction rules for computations that end well\<close>

definition ends :: "('x \<Rightarrow> bool) \<Rightarrow> 'x option \<Rightarrow> bool" where
  "ends Q m \<longleftrightarrow> (\<exists>x. m = Some x \<and> Q x)"

lemma ends_Some [simp]: "ends Q (Some x) \<longleftrightarrow> Q x"
  by (simp add: ends_def)

lemma ends_bind [wp]: "ends (\<lambda>x. ends Q (f x)) m \<Longrightarrow> ends Q (m \<bind> f)"
  by (auto simp: ends_def)

lemma ends_if [wp]: "(c \<Longrightarrow> ends Q m) \<Longrightarrow> (\<not> c \<Longrightarrow> ends Q n) \<Longrightarrow> ends Q (if c then m else n)"
  by simp

lemma ends_map_option [wp]: "ends (\<lambda>x. Q (f x)) m \<Longrightarrow> ends Q (map_option f m)"
  by (auto simp: ends_def)

lemma ends_mono: "ends Q m \<Longrightarrow> (\<And>x. Q x \<Longrightarrow> R x) \<Longrightarrow> ends R m"
  by (auto simp: ends_def)

lemma ends_UR [wp]:
  assumes "0 < n" "\<And>r t. r < n \<Longrightarrow> same_rest s t \<Longrightarrow> Q (r, t)"
  shows "ends Q (UR n s)"
  using ur.draw_obtain [OF assms(1), of s] assms(2) unfolding ends_def by metis

lemma ends_choose_block_len [wp]:
  assumes "0 < limit" "0 < queue_cycle s"
    and "\<And>n t. 1 \<le> n \<Longrightarrow> n \<le> limit \<Longrightarrow> n \<le> HAVOC_BLK_XL \<Longrightarrow> same_rest s t \<Longrightarrow> Q (n, t)"
  shows "ends Q (choose_block_len limit s)"
proof (rule choose_block_len_ok [OF assms(1)])
  show "run_over10m s \<longrightarrow> 0 < queue_cycle s" using assms(2) by simp
next
  fix n t
  assume "choose_block_len limit s = Some (n, t)" "1 \<le> n" "n \<le> limit" "n \<le> HAVOC_BLK_XL" "same_rest s t"
  then show ?thesis using assms(3) by (auto simp: ends_def)
qed

lemma ends_store [wp]:
  assumes "i + n \<le> length b" "\<And>b'. length b' = length b \<Longrightarrow> Q b'"
  shows "ends Q (store n b i v)"
  using assms by (auto simp: ends_def store_def)

lemma ends_load [wp]: "i + n \<le> length b \<Longrightarrow> (\<And>v. Q v) \<Longrightarrow> ends Q (load n b i)"
  by (auto simp: ends_def load_def)

lemma ends_memmove [wp]:
  assumes "d + n \<le> length b" "sr + n \<le> length b" "\<And>b'. length b' = length b \<Longrightarrow> Q b'"
  shows "ends Q (memmove b d sr n)"
  using assms by (auto simp: ends_def memmove_def)

lemma ends_memcpy [wp]:
  assumes "d + n \<le> length b" "sr + n \<le> length sb" "\<And>b'. length b' = length b \<Longrightarrow> Q b'"
  shows "ends Q (memcpy b d sb sr n)"
  using assms by (auto simp: ends_def memcpy_def)

lemma ends_memset [wp]:
  assumes "d + n \<le> length b" "\<And>b'. length b' = length b \<Longrightarrow> Q b'"
  shows "ends Q (memset b d c n)"
  using assms by (auto simp: ends_def memset_def)

lemma ends_FLIP_BIT [wp]:
  assumes "i < 8 * length b" "\<And>b'. length b' = length b \<Longrightarrow> Q b'"
  shows "ends Q (FLIP_BIT b i)"
  using assms by (simp add: FLIP_BIT_at)

lemma ends_case_prod [wp]: "(\<And>x y. p = (x, y) \<Longrightarrow> ends Q (f x y)) \<Longrightarrow> ends Q (case p of (x, y) \<Rightarrow> f x y)"
  by (cases p) simp

section \<open>The tweaks\<close>

definition case_ok :: "nat \<Rightarrow> u8 list \<Rightarrow> nat \<Rightarrow> bool" where
  "case_ok M b n \<longleftrightarrow> 1 \<le> n \<and> n \<le> length b \<and> (n \<le> M \<or> n \<le> MAX_FILE)"

definition dict_ok :: "'a afl_dict_scheme \<Rightarrow> bool" where
  "dict_ok s \<longleftrightarrow> extras s \<noteq> [] \<or> a_extras s \<noteq> []"

definition tweak_ok :: "'a afl_stage_scheme tweak \<Rightarrow> ('a afl_stage_scheme \<Rightarrow> bool) \<Rightarrow> bool" where
  "tweak_ok f P \<longleftrightarrow> (\<forall>M b n s. case_ok M b n \<longrightarrow> 0 < queue_cycle s \<longrightarrow> P s \<longrightarrow>
     ends (\<lambda>(b', n', s'). case_ok M b' n' \<and> same_rest s s') (f (b, n, s)))"

lemma tweak_okI:
  assumes "\<And>M b n s. case_ok M b n \<Longrightarrow> 0 < queue_cycle s \<Longrightarrow> P s \<Longrightarrow>
    ends (\<lambda>(b', n', s'). case_ok M b' n' \<and> same_rest s s') (f (b, n, s))"
  shows "tweak_ok f P"
  using assms by (auto simp: tweak_ok_def)

lemma tweak_okD:
  assumes "tweak_ok f P" "case_ok M b n" "0 < queue_cycle s" "P s"
  shows "ends (\<lambda>(b', n', s'). case_ok M b' n' \<and> same_rest s s') (f (b, n, s))"
  using assms by (simp add: tweak_ok_def)

lemma same_rest_cycle: "same_rest s t \<Longrightarrow> queue_cycle t = queue_cycle s"
  by (rule same_rest_fields)

lemma same_rest_dict: "same_rest s t \<Longrightarrow> extras t = extras (s :: 'a afl_dict_scheme) \<and> a_extras t = a_extras s"
  by (auto simp: same_rest_def)

lemma tweak_bit: "tweak_ok havoc_bit (\<lambda>s. True)"
  by (rule tweak_okI) (auto simp: havoc_bit_def case_ok_def intro!: wp)

lemma tweak_int8: "tweak_ok havoc_int8 (\<lambda>s. True)"
  by (rule tweak_okI) (auto simp: havoc_int8_def case_ok_def interesting_8_def intro!: wp; meson same_rest_trans)

lemma length_interesting: "length interesting_8 = 9" "length interesting_16 = 19" "length interesting_32 = 27"
  by (simp_all add: interesting_8_def interesting_16_def interesting_32_def interesting_16_s_def interesting_32_s_def
      INTERESTING_16_def INTERESTING_32_def)

lemma tweak_int16: "tweak_ok havoc_int16 (\<lambda>s. True)"
  by (rule tweak_okI) (auto simp: havoc_int16_def case_ok_def length_interesting intro!: wp; meson same_rest_trans)

lemma tweak_int32: "tweak_ok havoc_int32 (\<lambda>s. True)"
  by (rule tweak_okI) (auto simp: havoc_int32_def case_ok_def length_interesting intro!: wp; meson same_rest_trans)

lemma ARITH_MAX_pos: "0 < ARITH_MAX"
  by (simp add: ARITH_MAX_def)

lemma tweak_arith8: "tweak_ok (havoc_arith8 add) (\<lambda>s. True)"
  by (rule tweak_okI) (auto simp: havoc_arith8_def case_ok_def ARITH_MAX_pos intro!: wp; meson same_rest_trans)

lemma tweak_arith16: "tweak_ok (havoc_arith16 add) (\<lambda>s. True)"
  by (rule tweak_okI) (auto simp: havoc_arith16_def case_ok_def ARITH_MAX_pos intro!: wp; meson same_rest_trans)

lemma tweak_arith32: "tweak_ok (havoc_arith32 add) (\<lambda>s. True)"
  by (rule tweak_okI) (auto simp: havoc_arith32_def case_ok_def ARITH_MAX_pos intro!: wp; meson same_rest_trans)

lemma tweak_byte: "tweak_ok havoc_byte (\<lambda>s. True)"
  by (rule tweak_okI) (auto simp: havoc_byte_def case_ok_def intro!: wp; meson same_rest_trans)

lemma tweak_delete: "tweak_ok havoc_delete (\<lambda>s. True)"
  by (rule tweak_okI) (auto simp: havoc_delete_def case_ok_def intro!: wp intro: same_rest_trans)

lemma ends_fill_byte [wp]:
  assumes "case_ok M b n" "\<And>c t. same_rest s t \<Longrightarrow> Q (c, t)"
  shows "ends Q (fill_byte b n s)"
  using assms unfolding fill_byte_def case_ok_def
  by (auto intro!: wp assms(2); meson same_rest_trans)

lemma HAVOC_BLK_XL_pos: "0 < HAVOC_BLK_XL"
  by (simp add: HAVOC_BLK_XL_def)

lemma tweak_overwrite: "tweak_ok havoc_overwrite (\<lambda>s. True)"
  by (rule tweak_okI) (auto simp: havoc_overwrite_def case_ok_def intro!: wp; meson same_rest_trans)

lemma ends_clone_block [wp]:
  assumes "1 \<le> n" "0 < queue_cycle s"
    and "\<And>l from t. 1 \<le> l \<Longrightarrow> l \<le> HAVOC_BLK_XL \<Longrightarrow> ac \<longrightarrow> from + l \<le> n \<Longrightarrow> same_rest s t \<Longrightarrow> Q (l, from, t)"
  shows "ends Q (clone_block ac n s)"
  using assms(1,2) unfolding clone_block_def
  by (auto simp: HAVOC_BLK_XL_pos intro!: wp assms(3) intro: same_rest_trans)

lemma ends_clone_fill [wp]:
  assumes "case_ok M b n" "to + l \<le> length new" "ac \<longrightarrow> from + l \<le> n"
    and "\<And>new' t. length new' = length new \<Longrightarrow> same_rest s t \<Longrightarrow> Q (new', t)"
  shows "ends Q (clone_fill ac b n new to from l s)"
  using assms(1,2,3) unfolding clone_fill_def
  by (auto intro!: wp assms(4) simp: case_ok_def)

lemma tweak_clone: "tweak_ok havoc_clone (\<lambda>s. True)"
proof (rule tweak_okI)
  fix M b n and s :: "'a afl_stage_scheme"
  assume ok: "case_ok M b n" and c: "0 < queue_cycle s"
  then have n: "1 \<le> n" "n \<le> length b" by (auto simp: case_ok_def)
  show "ends (\<lambda>(b', n', s'). case_ok M b' n' \<and> same_rest s s') (havoc_clone (b, n, s))"
  proof (cases "n + HAVOC_BLK_XL < MAX_FILE")
    case True
    have "ends (\<lambda>(b', n', s'). case_ok M b' n' \<and> same_rest s s') (do {
       (clone_to, s3) \<leftarrow> UR n s2;
       new1 \<leftarrow> memcpy (replicate (n + l) 0) 0 b 0 clone_to;
       (new2, s4) \<leftarrow> clone_fill ac b n new1 clone_to from l s3;
       new3 \<leftarrow> memcpy new2 (clone_to + l) b clone_to (n - clone_to);
       Some (new3, n + l, s4) })"
      if "1 \<le> l" "l \<le> HAVOC_BLK_XL" "ac \<longrightarrow> from + l \<le> n" "same_rest s s2" for ac l "from" s2
      using that n True ok by (auto intro!: wp simp: case_ok_def; meson same_rest_trans)
    note rest = this
    have "ends (\<lambda>(b', n', s'). case_ok M b' n' \<and> same_rest s s') (clone_block (r \<noteq> 0) n s1 \<bind> (\<lambda>(l, from, s2). do {
       (clone_to, s3) \<leftarrow> UR n s2;
       new1 \<leftarrow> memcpy (replicate (n + l) 0) 0 b 0 clone_to;
       (new2, s4) \<leftarrow> clone_fill (r \<noteq> 0) b n new1 clone_to from l s3;
       new3 \<leftarrow> memcpy new2 (clone_to + l) b clone_to (n - clone_to);
       Some (new3, n + l, s4) }))" if s1: "same_rest s s1" for r :: nat and s1
      by (rule ends_bind, rule ends_clone_block [OF n(1)], use c s1 in \<open>simp add: same_rest_cycle\<close>,
          simp only: prod.case, rule rest, assumption+, rule same_rest_trans [OF s1])
    then show ?thesis using True unfolding havoc_clone_def
      by (simp only: prod.case if_True) (rule ends_bind, rule ends_UR, simp, simp)
  qed (use ok in \<open>simp add: havoc_clone_def\<close>)
qed

lemma ends_pick_extra [wp]:
  assumes "dict_ok s" "\<And>d t. same_rest s t \<Longrightarrow> Q (d, t)"
  shows "ends Q (pick_extra s)"
  using assms(1) unfolding pick_extra_def dict_ok_def Let_def
  by (auto intro!: wp assms(2) dest: same_rest_dict intro: same_rest_trans split: if_splits)

lemma tweak_extra_over: "tweak_ok havoc_extra_over dict_ok"
  by (rule tweak_okI) (auto simp: havoc_extra_over_def case_ok_def intro!: wp; meson same_rest_trans)

lemma dict_ok_same: "same_rest s t \<Longrightarrow> dict_ok t = dict_ok s"
  by (auto simp: dict_ok_def dest: same_rest_dict)

lemma tweak_extra_insert: "tweak_ok havoc_extra_insert dict_ok"
  by (rule tweak_okI) (auto simp: havoc_extra_insert_def case_ok_def dict_ok_same intro!: wp; meson same_rest_trans)

lemma tweak_weaken: "tweak_ok f (\<lambda>s. True) \<Longrightarrow> tweak_ok f P"
  by (simp add: tweak_ok_def)

lemma tweak_skip: "tweak_ok Some P"
  by (simp add: tweak_ok_def)

lemmas tweaks = tweak_bit tweak_int8 tweak_int16 tweak_int32 tweak_arith8 tweak_arith16 tweak_arith32 tweak_byte
  tweak_delete tweak_clone tweak_overwrite tweak_skip

lemma tweak_case: "tweak_ok (havoc_case n) (\<lambda>s. 15 \<le> n \<longrightarrow> dict_ok s)"
proof -
  consider "n = 15" | "n = 16" | "n \<noteq> 15 \<and> n \<noteq> 16" by blast
  then show ?thesis
  proof cases
    case 1
    then show ?thesis using tweak_extra_over by (simp add: havoc_case_def tweak_ok_def)
  next
    case 2
    then show ?thesis using tweak_extra_insert by (simp add: havoc_case_def tweak_ok_def)
  next
    case 3
    then have "tweak_ok (havoc_case n) (\<lambda>s. True)" by (simp add: havoc_case_def tweaks)
    then show ?thesis by (rule tweak_weaken)
  qed
qed

lemma tweak_tweak: "tweak_ok havoc_tweak (\<lambda>s. True)"
proof (rule tweak_okI)
  fix M b n and s :: "'a afl_stage_scheme"
  assume ok: "case_ok M b n" "0 < queue_cycle s"
  let ?k = "15 + (if extras s \<noteq> [] \<or> a_extras s \<noteq> [] then 2 else 0) :: nat"
  have "ends (\<lambda>(b', n', s'). case_ok M b' n' \<and> same_rest s s') (havoc_case r (b, n, s1))"
    if r: "r < ?k" and s1: "same_rest s s1" for r s1
  proof -
    have "15 \<le> r \<longrightarrow> dict_ok s" using r by (auto simp: dict_ok_def split: if_splits)
    then have "15 \<le> r \<longrightarrow> dict_ok s1" by (simp add: dict_ok_same [OF s1])
    then have "ends (\<lambda>(b', n', s'). case_ok M b' n' \<and> same_rest s1 s') (havoc_case r (b, n, s1))"
      using ok by (intro tweak_okD [OF tweak_case]) (simp_all add: same_rest_cycle [OF s1])
    then show ?thesis by (rule ends_mono) (auto intro: same_rest_trans [OF s1])
  qed
  then show "ends (\<lambda>(b', n', s'). case_ok M b' n' \<and> same_rest s s') (havoc_tweak (b, n, s))"
    unfolding havoc_tweak_def by (simp only: prod.case) (rule ends_bind, rule ends_UR, simp, simp)
qed

section \<open>The loop\<close>

definition calm :: "'a afl_stage_scheme \<Rightarrow> 'a afl_stage_scheme \<Rightarrow> bool" where
  "calm s t \<longleftrightarrow> (\<forall>E ix. good_for E ix s \<longrightarrow> good_for E ix t) \<and> tried t = tried s \<and> queue_cycle t = queue_cycle s"

lemma calm_same_rest: "same_rest s t \<Longrightarrow> calm s t"
  unfolding calm_def using good_same_rest [of s t] same_rest_cycle [of s t] by (auto simp: same_rest_def)

lemma calm_trans: "calm s t \<Longrightarrow> calm t u \<Longrightarrow> calm s u"
  by (simp add: calm_def)

lemma ends_foldM:
  assumes "I b" "\<And>i b. I b \<Longrightarrow> ends I (f i b)"
  shows "ends I (foldM f is b)"
  using assms(1)
proof (induction "is" arbitrary: b)
  case (Cons i "is")
  from assms(2) [OF Cons.prems] obtain b' where "f i b = Some b'" "I b'" by (auto simp: ends_def)
  with Cons.IH [OF this(2)] show ?case by simp
qed simp

lemma ends_havoc_stack:
  assumes "case_ok M b n" "0 < queue_cycle s"
  shows "ends (\<lambda>(b', n', s'). case_ok M b' n' \<and> calm s s') (havoc_stack (b, n, s))"
proof -
  have step: "ends (\<lambda>(b', n', s'). case_ok M b' n' \<and> calm s s' \<and> 0 < queue_cycle s') (havoc_tweak x)"
    if inv: "case x of (b', n', s') \<Rightarrow> case_ok M b' n' \<and> calm s s' \<and> 0 < queue_cycle s'" for x
  proof -
    obtain b1 n1 s1 where x: "x = (b1, n1, s1)" by (cases x)
    have "ends (\<lambda>(b', n', s'). case_ok M b' n' \<and> same_rest s1 s') (havoc_tweak x)"
      using tweak_okD [OF tweak_tweak, of M b1 n1 s1] inv by (simp add: x)
    note tweaked = this
    have "calm s s' \<and> 0 < queue_cycle s'" if "same_rest s1 s'" for s'
      using calm_trans [OF _ calm_same_rest [OF that]] same_rest_cycle [OF that] inv by (simp add: x)
    then show ?thesis by (intro ends_mono [OF tweaked]) (simp add: split_beta)
  qed
  have "ends (\<lambda>(b', n', s'). case_ok M b' n' \<and> calm s s' \<and> 0 < queue_cycle s')
      (foldM (\<lambda>i. havoc_tweak) is (b, n, s1\<lparr>stage_cur_val := v\<rparr>))" if s1: "same_rest s s1" for "is" :: "nat list" and s1 v
    using calm_same_rest [OF s1] assms same_rest_cycle [OF s1] by (intro ends_foldM step) (auto simp: calm_def)
  note loop = this
  have "ends (\<lambda>(b', n', s'). case_ok M b' n' \<and> calm s s' \<and> 0 < queue_cycle s') (havoc_stack (b, n, s))"
    unfolding havoc_stack_def Let_def
    by (simp only: prod.case) (rule ends_bind, rule ends_UR, simp add: HAVOC_STACK_POW2_def, simp only: prod.case, rule loop)
  then show ?thesis by (rule ends_mono) auto
qed

lemma havoc_reset_ok:
  assumes "case_ok M b n"
  shows "ends (\<lambda>b'. take (length in_buf) b' = in_buf) (havoc_reset in_buf b n)"
proof -
  have "length in_buf \<le> length (if n < length in_buf then take (length in_buf) (b @ replicate (length in_buf) 0) else b)"
    using assms by (auto simp: case_ok_def)
  then show ?thesis by (auto simp: havoc_reset_def Let_def memcpy_def)
qed

text \<open>The bound of the loop and the score double together, the score at most once above its limit.\<close>

definition doubled :: "nat \<Rightarrow> nat \<Rightarrow> havoc_st \<Rightarrow> nat \<Rightarrow> bool" where
  "doubled mx p h d \<longleftrightarrow> h_max h = mx * 2 ^ d \<and> h_perf h = p * 2 ^ d \<and> (d = 0 \<or> p * 2 ^ d \<le> 2 * HAVOC_MAX_MULT * 100)"

lemma doubled_extend:
  assumes "doubled mx p h d"
  shows "\<exists>d' \<ge> d. doubled mx p (havoc_extend s h) d'"
proof (cases "queued_paths s \<noteq> h_queued h \<and> h_perf h \<le> HAVOC_MAX_MULT * 100")
  case True
  then have "doubled mx p (havoc_extend s h) (Suc d)" using assms by (auto simp: doubled_def havoc_extend_def)
  then show ?thesis by (meson le_SucI order_refl)
next
  case False
  then show ?thesis using assms by (intro exI [of _ d]) (auto simp: doubled_def havoc_extend_def)
qed

lemma doubled_le:
  assumes "doubled mx p h d" "1 \<le> p"
  shows "d \<le> 11" "h_max h \<le> 2048 * mx"
proof -
  show d: "d \<le> 11"
  proof (rule ccontr)
    assume "\<not> d \<le> 11"
    then have "(2 :: nat) ^ 12 \<le> 2 ^ d" by (intro power_increasing) auto
    also have "\<dots> \<le> p * 2 ^ d" using assms(2) by simp
    also have "\<dots> \<le> 2 * HAVOC_MAX_MULT * 100" using assms(1) \<open>\<not> d \<le> 11\<close> by (auto simp: doubled_def)
    finally show False by (simp add: HAVOC_MAX_MULT_def)
  qed
  then have "(2 :: nat) ^ d \<le> 2 ^ 11" by (intro power_increasing) auto
  then show "h_max h \<le> 2048 * mx" using assms(1) by (simp add: doubled_def mult.commute)
qed

context executor
begin

lemma good_cycle: "good s \<Longrightarrow> 0 < queue_cycle s"
  by (simp add: good_for_def)

definition rounds_ok :: "u8 list \<Rightarrow> nat \<Rightarrow> 'a afl_stage_scheme \<Rightarrow> u8 list \<times> 'a afl_stage_scheme \<Rightarrow> bool" where
  "rounds_ok in_buf k s = (\<lambda>(buf', s'). good s' \<and>
     (\<exists>cs. tried s' = tried s @ cs \<and> length cs = k \<and> (\<forall>c \<in> set cs. 1 \<le> length c \<and> length c \<le> max (length in_buf) MAX_FILE)))"

lemma rounds_ok_0: "good s \<Longrightarrow> rounds_ok in_buf 0 s (buf, s)"
  by (simp add: rounds_ok_def)

lemma rounds_ok_trans: "rounds_ok in_buf k s (b, t) \<Longrightarrow> rounds_ok in_buf j t x \<Longrightarrow> rounds_ok in_buf (k + j) s x"
  by (cases x) (force simp: rounds_ok_def)

lemma havoc_round_ok:
  assumes "good s" "take (length in_buf) buf = in_buf" "1 \<le> length in_buf"
  shows "case havoc_round cfs in_buf (buf, s) of
     None \<Rightarrow> may_exit
   | Some (stop, buf', s') \<Rightarrow> rounds_ok in_buf 1 s (buf', s') \<and> (\<not> stop \<longrightarrow> take (length in_buf) buf' = in_buf)"
proof -
  have "length in_buf \<le> length buf" using assms(2) by (metis length_take min.cobounded1)
  then have "case_ok (length in_buf) buf (length in_buf)" using assms by (simp add: case_ok_def)
  with ends_havoc_stack [of "length in_buf" buf "length in_buf" s] good_cycle [OF assms(1)] obtain b1 n1 s1
    where st: "havoc_stack (buf, length in_buf, s) = Some (b1, n1, s1)" "case_ok (length in_buf) b1 n1" "calm s s1"
    by (auto simp: ends_def)
  have n1: "n1 \<le> length b1" "1 \<le> length (take n1 b1)" "length (take n1 b1) \<le> max (length in_buf) MAX_FILE" using st(2) by (auto simp: case_ok_def)
  have s1: "good s1" "tried s1 = tried s" using st(3) assms(1) by (auto simp: calm_def)
  show ?thesis
  proof (cases "cfs (take n1 b1) s1")
    case None
    then show ?thesis using st(1) n1(1) leaves by (simp add: havoc_round_def)
  next
    case (Some rt)
    then obtain r t where rt: "cfs (take n1 b1) s1 = Some (r, t)" by (cases rt) auto
    have t: "rounds_ok in_buf 1 s (b', t)" for b'
      using run [OF s1(1) rt] s1 n1 by (simp add: rounds_ok_def)
    obtain b2 where "havoc_reset in_buf b1 n1 = Some b2" "take (length in_buf) b2 = in_buf"
      using havoc_reset_ok [OF st(2), of in_buf] by (auto simp: ends_def)
    with st(1) n1(1) rt t show ?thesis by (cases r) (simp_all add: havoc_round_def)
  qed
qed

definition loop_ok :: "nat \<Rightarrow> nat \<Rightarrow> nat \<Rightarrow> nat \<Rightarrow> u8 list \<Rightarrow> 'a afl_stage_scheme \<Rightarrow>
    (bool \<times> havoc_st \<times> u8 list \<times> 'a afl_stage_scheme) option \<Rightarrow> bool" where
  "loop_ok mx p d cur in_buf s r \<longleftrightarrow> (case r of
     None \<Rightarrow> may_exit
   | Some (stop, h', buf', s') \<Rightarrow> (\<exists>d' \<ge> d. doubled mx p h' d') \<and> cur \<le> h_max h' \<and>
       (if stop then \<exists>k. cur + k < h_max h' \<and> rounds_ok in_buf (Suc k) s (buf', s')
        else take (length in_buf) buf' = in_buf \<and> rounds_ok in_buf (h_max h' - cur) s (buf', s')))"

lemma loop_ok_step:
  assumes "rounds_ok in_buf 1 s (b', s')" "d \<le> d1" "loop_ok mx p d1 (cur + 1) in_buf s' r"
  shows "loop_ok mx p d cur in_buf s r"
proof (cases r)
  case None
  then show ?thesis using assms(3) unfolding loop_ok_def by simp
next
  case (Some x)
  then obtain stop h' b2 s2 where r: "r = Some (stop, h', b2, s2)" by (cases x) auto
  have h: "\<exists>d' \<ge> d. doubled mx p h' d'" "cur + 1 \<le> h_max h'"
    using assms(2,3) r by (auto simp: loop_ok_def intro: order_trans)
  show ?thesis
  proof (cases stop)
    case True
    with assms(3) r obtain k where "cur + 1 + k < h_max h'" "rounds_ok in_buf (Suc k) s' (b2, s2)" by (auto simp: loop_ok_def)
    then show ?thesis using rounds_ok_trans [OF assms(1), of "Suc k"] h r True
      by (auto simp: loop_ok_def intro!: exI [of _ "Suc k"])
  next
    case False
    then have "take (length in_buf) b2 = in_buf" "rounds_ok in_buf (h_max h' - (cur + 1)) s' (b2, s2)"
      using assms(3) r by (auto simp: loop_ok_def)
    moreover have "1 + (h_max h' - (cur + 1)) = h_max h' - cur" using h(2) by simp
    ultimately show ?thesis using rounds_ok_trans [OF assms(1), of "h_max h' - (cur + 1)" "(b2, s2)"] h r False
      by (simp add: loop_ok_def)
  qed
qed

lemma havoc_loop_ok:
  assumes "good s" "take (length in_buf) buf = in_buf" "1 \<le> length in_buf"
    and "doubled mx p h d" "1 \<le> p" "cur \<le> h_max h" "2048 * mx < fuel + cur"
  shows "loop_ok mx p d cur in_buf s (havoc_loop fuel cfs in_buf cur h (buf, s))"
  using assms(1,2,4,6,7)
proof (induction fuel arbitrary: cur h d buf s)
  case 0
  then show ?case using doubled_le [OF 0(3) assms(5)] by simp
next
  case (Suc fuel)
  show ?case
  proof (cases "cur < h_max h")
    case False
    then show ?thesis using Suc.prems by (auto simp: rounds_ok_def loop_ok_def)
  next
    case True
    let ?s = "s\<lparr>stage_cur := int cur, stage_max := int (h_max h)\<rparr>"
    have g: "good ?s" using Suc.prems by simp
    note r = havoc_round_ok [OF g Suc.prems(2) assms(3)]
    have start: "rounds_ok in_buf k ?s x = rounds_ok in_buf k s x" for k x by (simp add: rounds_ok_def)
    consider "havoc_round cfs in_buf (buf, ?s) = None" | b' s' where "havoc_round cfs in_buf (buf, ?s) = Some (True, b', s')"
      | b' s' where "havoc_round cfs in_buf (buf, ?s) = Some (False, b', s')"
      by (metis (full_types) not_Some_eq prod_cases3)
    then show ?thesis
    proof cases
      case 1
      then show ?thesis using r True unfolding loop_ok_def by simp
    next
      case 2
      then have "\<exists>k. cur + k < h_max h \<and> rounds_ok in_buf (Suc k) s (b', s')"
        using r True by (intro exI [of _ 0]) (simp add: start)
      then show ?thesis using 2 True Suc.prems(3) by (auto simp: loop_ok_def)
    next
      case (3 b' s')
      then have 3: "rounds_ok in_buf 1 s (b', s')" "take (length in_buf) b' = in_buf"
        and eq: "havoc_loop (Suc fuel) cfs in_buf cur h (buf, s) = havoc_loop fuel cfs in_buf (cur + 1) (havoc_extend s' h) (b', s')"
        using r True by (simp_all add: start)
      obtain d1 where d1: "d \<le> d1" "doubled mx p (havoc_extend s' h) d1"
        using doubled_extend [OF Suc.prems(3)] by blast
      have "good s'" using 3(1) by (simp add: rounds_ok_def)
      moreover have "cur + 1 \<le> h_max (havoc_extend s' h)" using True by (simp add: havoc_extend_def)
      moreover have "2048 * mx < fuel + (cur + 1)" using Suc.prems(5) by simp
      ultimately have "loop_ok mx p d1 (cur + 1) in_buf s' (havoc_loop fuel cfs in_buf (cur + 1) (havoc_extend s' h) (b', s'))"
        using 3(2) d1(2) by (intro Suc.IH)
      then show ?thesis unfolding eq by (rule loop_ok_step [OF 3(1) d1(1)])
    qed
  qed
qed

lemma havoc_stage_ok:
  assumes "good s" "take (length in_buf) buf = in_buf" "1 \<le> length in_buf"
    and "1 \<le> perf" "havoc_div s \<noteq> 0"
  shows "case havoc_stage cfs det spl perf in_buf (buf, s) of
     None \<Rightarrow> may_exit
   | Some (stop, buf', s') \<Rightarrow> good s' \<and>
       (\<exists>cs d. tried s' = tried s @ cs \<and> (\<forall>c \<in> set cs. 1 \<le> length c \<and> length c \<le> max (length in_buf) MAX_FILE) \<and> d \<le> 11 \<and>
          (if stop then cs \<noteq> [] \<and> length cs \<le> havoc_stage_max det spl perf (havoc_div s) * 2 ^ d
           else length cs = havoc_stage_max det spl perf (havoc_div s) * 2 ^ d \<and> take (length in_buf) buf' = in_buf))"
proof -
  define mx where "mx = havoc_stage_max det spl perf (havoc_div s)"
  define s1 where "s1 = s\<lparr>stage_cur_byte := -1, stage_short := (if spl = 0 then ''havoc'' else ''splice'')\<rparr>"
  define h where "h = \<lparr>h_max = mx, h_perf = perf, h_queued = queued_paths s1\<rparr>"
  define r where "r = havoc_loop (2048 * mx + 1) cfs in_buf 0 h (buf, s1)"
  have s1: "good s1" "tried s1 = tried s" using assms(1) by (simp_all add: s1_def)
  have "loop_ok mx perf 0 0 in_buf s1 r"
    unfolding r_def by (rule havoc_loop_ok [OF s1(1) assms(2,3), where h = h]) (use assms in \<open>simp_all add: h_def doubled_def\<close>)
  note ok = this
  have eq: "havoc_stage cfs det spl perf in_buf (buf, s) = (case r of
          None \<Rightarrow> None
        | Some (True, h, buf', s') \<Rightarrow> Some (True, buf', s')
        | Some (False, h, buf', s') \<Rightarrow>
            Some (False, buf', finish_stage (if spl = 0 then STAGE_HAVOC else STAGE_SPLICE) (hit_cnt_now s) s'))"
    using assms(5) by (simp only: havoc_stage_def r_def mx_def s1_def h_def Let_def prod.case if_False)
  show ?thesis
  proof (cases r)
    case None
    then show ?thesis using ok eq by (simp add: loop_ok_def)
  next
    case (Some x)
    then obtain stop h' b' s' where r: "r = Some (stop, h', b', s')" by (cases x) auto
    then obtain d where d: "doubled mx perf h' d" using ok by (auto simp: loop_ok_def)
    then have d11: "d \<le> 11" "h_max h' = mx * 2 ^ d" using doubled_le [OF d assms(4)] by (auto simp: doubled_def)
    show ?thesis
    proof (cases stop)
      case True
      then obtain k where "k < h_max h'" "rounds_ok in_buf (Suc k) s1 (b', s')" using ok r by (auto simp: loop_ok_def)
      then show ?thesis using eq r True d11 s1 by (fastforce simp: rounds_ok_def mx_def)
    next
      case False
      then have "take (length in_buf) b' = in_buf" "rounds_ok in_buf (mx * 2 ^ d) s1 (b', s')"
        using ok r d11(2) by (auto simp: loop_ok_def)
      moreover have "good (finish_stage k orig s') = good s'" "tried (finish_stage k orig s') = tried s'" for k orig
        by (simp_all add: finish_stage_def Let_def)
      ultimately show ?thesis using eq r False d11(1) s1 by (auto simp: rounds_ok_def mx_def intro!: exI [of _ d])
    qed
  qed
qed

end

end
