(* ===== verification/Afl_Fuzz_One.thy ===== *)
theory Afl_Fuzz_One
  imports Afl_Havoc_Laws
begin

text \<open>
  The frame of \<open>fuzz_one\<close> in \<^verbatim>\<open>docker/AFL/afl-fuzz.c\<close>: whether an entry is skipped, loading, calibration
  and trimming of the input, the sequence of the deterministic stages, the havoc rounds with the
  splicing in between, and the book-keeping when the entry is left. As before \<^const>\<open>None\<close> is a
  stop of the process.
\<close>

section \<open>The deterministic sequence\<close>

definition only_if :: "bool \<Rightarrow> 'a afl_stage_scheme stage \<Rightarrow> 'a afl_stage_scheme stage" where
  "only_if c f = (if c then f else (\<lambda>(buf, s). Some (False, buf, s)))"

definition value_stages :: "'a afl_stage_scheme executor \<Rightarrow> bool \<Rightarrow> nat \<Rightarrow> eff_map \<Rightarrow> 'a afl_stage_scheme stage" where
  "value_stages cfs arith l eff =
     then_do (only_if (2 \<le> l) (flip16_stage cfs eff))
    (then_do (only_if (4 \<le> l) (flip32_stage cfs eff))
    (then_do (only_if arith (arith8_stage cfs eff))
    (then_do (only_if (arith \<and> 2 \<le> l) (arith16_stage cfs eff))
    (then_do (only_if (arith \<and> 4 \<le> l) (arith32_stage cfs eff))
    (then_do (interest8_stage cfs eff)
    (then_do (only_if (arith \<and> 2 \<le> l) (interest16_stage cfs eff))
             (only_if (arith \<and> 4 \<le> l) (interest32_stage cfs eff))))))))"

definition dict_stages :: "'a afl_stage_scheme executor \<Rightarrow> eff_map \<Rightarrow> u8 list \<Rightarrow> 'a afl_stage_scheme stage" where
  "dict_stages cfs eff in_buf =
     then_do (\<lambda>(buf, s). only_if (extras s \<noteq> []) (then_do (extras_UO_stage cfs eff in_buf) (extras_UI_stage cfs)) (buf, s))
             (\<lambda>(buf, s). only_if (a_extras s \<noteq> []) (extras_AO_stage cfs eff in_buf) (buf, s))"

definition flip_stages :: "'a afl_stage_scheme executor \<Rightarrow> 'a afl_stage_scheme stage" where
  "flip_stages cfs = then_do (flip1_stage cfs) (then_do (flip2_stage cfs) (flip4_stage cfs))"

definition det_stages :: "'a afl_stage_scheme executor \<Rightarrow> bool \<Rightarrow> u8 list \<Rightarrow> 'a afl_stage_scheme stage" where
  "det_stages cfs arith in_buf =
     then_do (flip_stages cfs)
       (\<lambda>(buf, s). case flip8_stage cfs (buf, s) of
          None \<Rightarrow> None
        | Some (stop, buf', eff, s') \<Rightarrow>
            (if stop then Some (True, buf', s')
             else then_do (value_stages cfs arith (length buf') eff) (dict_stages cfs eff in_buf) (buf', s')))"

section \<open>Choosing and loading the entry\<close>

definition SKIP_TO_NEW_PROB :: nat where "SKIP_TO_NEW_PROB = 99"
definition SKIP_NFAV_OLD_PROB :: nat where "SKIP_NFAV_OLD_PROB = 95"
definition SKIP_NFAV_NEW_PROB :: nat where "SKIP_NFAV_NEW_PROB = 75"
definition CAL_CHANCES :: nat where "CAL_CHANCES = 3"
definition SPLICE_CYCLES :: nat where "SPLICE_CYCLES = 15"

abbreviation cur_entry :: "'a afl_stage_scheme \<Rightarrow> queue_entry" where
  "cur_entry s \<equiv> queue s ! queue_cur s"

definition odds :: "nat \<Rightarrow> 'a afl_stage_scheme \<Rightarrow> (bool \<times> 'a afl_stage_scheme) option" where
  "odds p s = map_option (\<lambda>(r, t). (r < p, t)) (UR 100 s)"

definition skip_entry :: "'a afl_stage_scheme \<Rightarrow> (bool \<times> 'a afl_stage_scheme) option" where
  "skip_entry s =
     (if pending_favored s \<noteq> 0
      then (if was_fuzzed (cur_entry s) \<or> \<not> favored (cur_entry s) then odds SKIP_TO_NEW_PROB s else Some (False, s))
      else if \<not> dumb_mode s \<and> \<not> favored (cur_entry s) \<and> queued_paths s > 10
      then (if queue_cycle s > 1 \<and> \<not> was_fuzzed (cur_entry s) then odds SKIP_NFAV_NEW_PROB s else odds SKIP_NFAV_OLD_PROB s)
      else Some (False, s))"

text \<open>Opening and mapping or reading the first \<open>l\<close> bytes of a file; a missing file or an empty mapping
  stops the process, and so does a file shorter than its entry says (the entries are written with
  their length, so it can only have been changed from outside).\<close>

definition read_file :: "string \<Rightarrow> nat \<Rightarrow> 'a afl_queue_scheme \<Rightarrow> u8 list option" where
  "read_file fn l s = (case files s fn of None \<Rightarrow> None | Some c \<Rightarrow> if 0 < l \<and> l \<le> length c then Some (take l c) else None)"

text \<open>Another attempt at an entry that failed to calibrate; \<^const>\<open>True\<close> leaves the entry.\<close>

definition recalibrate :: "u8 list \<Rightarrow> 'a afl_stage_scheme \<Rightarrow> (bool \<times> 'a afl_stage_scheme) option" where
  "recalibrate in_buf s =
     (if cal_failed (cur_entry s) = 0 then Some (False, s)
      else do {
        (res, s1) \<leftarrow>
          (if cal_failed (cur_entry s) < CAL_CHANCES
           then calibrate_case (queue_cur s) in_buf (queue_cycle s - 1) False (upd_entry (queue_cur s) (\<lambda>e. e\<lparr>exec_cksum := 0\<rparr>) s)
           else Some (FAULT_TMOUT, s));
        (if cal_failed (cur_entry s) < CAL_CHANCES \<and> res = FAULT_ERROR then None
         else if stop_soon s1 \<or> res \<noteq> crash_mode s1 then Some (True, s1\<lparr>cur_skipped_paths := cur_skipped_paths s1 + 1\<rparr>)
         else Some (False, s1)) })"

definition trim_entry :: "u8 list \<Rightarrow> 'a afl_stage_scheme \<Rightarrow> (bool \<times> u8 list \<times> 'a afl_stage_scheme) option" where
  "trim_entry in_buf s =
     (if dumb_mode s \<or> trim_done (cur_entry s) then Some (False, in_buf, s)
      else do {
        (res, b, s1) \<leftarrow> trim_case (queue_cur s) in_buf s;
        (if res = FAULT_ERROR then None
         else if stop_soon s1 then Some (True, b, s1\<lparr>cur_skipped_paths := cur_skipped_paths s1 + 1\<rparr>)
         else Some (False, b, upd_entry (queue_cur s1) (\<lambda>e. e\<lparr>trim_done := True\<rparr>) s1)) })"

text \<open>Whether the deterministic stages are due: not switched off, not done before, and this instance's
  share when several masters split the work.\<close>

definition det_due :: "'a afl_stage_scheme \<Rightarrow> bool" where
  "det_due s \<longleftrightarrow> \<not> (skip_deterministic s \<or> was_fuzzed (cur_entry s) \<or> passed_det (cur_entry s)) \<and>
     \<not> (master_max s \<noteq> 0 \<and> int (unat (exec_cksum (cur_entry s)) mod master_max s) \<noteq> int (master_id s) - 1)"

section \<open>Splicing\<close>

partial_function (option) pick_other :: "nat \<Rightarrow> nat \<Rightarrow> 'a afl_rng_scheme \<Rightarrow> (nat \<times> 'a afl_rng_scheme) option" where
  "pick_other n me s = (case UR n s of None \<Rightarrow> None | Some (tid, s1) \<Rightarrow> if tid = me then pick_other n me s1 else Some (tid, s1))"

declare pick_other.simps [code]

text \<open>The first entry from \<open>t\<close> on that has two bytes or more and is not the current one.\<close>

definition splice_target :: "nat \<Rightarrow> 'a afl_stage_scheme \<Rightarrow> nat option" where
  "splice_target t s = List.find (\<lambda>i. \<not> (len (queue s ! i) < 2 \<or> i = queue_cur s)) [t ..< length (queue s)]"

text \<open>Cross the input with the target at an offset between the first and the last difference, if
  they differ enough.\<close>

definition splice_mix :: "u8 list \<Rightarrow> u8 list \<Rightarrow> 'a afl_stage_scheme \<Rightarrow> (u8 list option \<times> 'a afl_stage_scheme) option" where
  "splice_mix in_buf new_buf s = do {
     (f_diff, l_diff) \<leftarrow> locate_diffs in_buf new_buf (min (length in_buf) (length new_buf));
     (if f_diff < 0 \<or> l_diff < 2 \<or> f_diff = l_diff then Some (None, s)
      else do {
        (r, s1) \<leftarrow> UR (nat (l_diff - f_diff)) s;
        b \<leftarrow> memcpy new_buf 0 in_buf 0 (nat f_diff + r);
        Some (Some b, s1) }) }"

definition splice_try :: "u8 list \<Rightarrow> 'a afl_stage_scheme \<Rightarrow> (u8 list option \<times> 'a afl_stage_scheme) option" where
  "splice_try orig_in s = do {
     let in_buf = take (len (cur_entry s)) orig_in;
     (tid, s1) \<leftarrow> pick_other (queued_paths s) (current_entry s) s;
     t \<leftarrow> seek_entry (queue s1) tid;
     (case splice_target t s1 of
        None \<Rightarrow> Some (None, s1\<lparr>splicing_with := int (tid + (length (queue s1) - t))\<rparr>)
      | Some i \<Rightarrow> do {
          let s2 = s1\<lparr>splicing_with := int (tid + (i - t))\<rparr>;
          new_buf \<leftarrow> read_file (fname (queue s2 ! i)) (len (queue s2 ! i)) s2;
          splice_mix in_buf new_buf s2 }) }"

text \<open>\<^verbatim>\<open>retry_splicing\<close>, with the number of attempts left; the result tells how many are left after it.\<close>

primrec find_splice :: "nat \<Rightarrow> u8 list \<Rightarrow> 'a afl_stage_scheme \<Rightarrow> ((nat \<times> u8 list) option \<times> 'a afl_stage_scheme) option" where
  "find_splice 0 orig_in s = Some (None, s)"
| "find_splice (Suc k) orig_in s =
     (if use_splicing s \<and> queued_paths s > 1 \<and> len (cur_entry s) > 1
      then do {
        (r, s1) \<leftarrow> splice_try orig_in s;
        (case r of None \<Rightarrow> find_splice k orig_in s1 | Some b \<Rightarrow> Some (Some (k, b), s1)) }
      else Some (None, s))"

lemma find_splice_less: "find_splice k orig_in s = Some (Some (k', b), t) \<Longrightarrow> k' < k"
proof (induction k arbitrary: s)
  case (Suc k)
  then show ?case by (fastforce split: if_splits bind_splits option.splits)
qed simp

text \<open>The havoc rounds: the first on the input itself, the further ones on spliced inputs. \<open>k\<close> splicing
  attempts are left.\<close>

function havoc_rounds :: "nat \<Rightarrow> 'a afl_stage_scheme executor \<Rightarrow> bool \<Rightarrow> nat \<Rightarrow> u8 list \<Rightarrow> u8 list \<Rightarrow> u8 list \<times> 'a afl_stage_scheme \<Rightarrow>
    (bool \<times> 'a afl_stage_scheme) option" where
  "havoc_rounds k cfs doing_det perf orig_in in_buf bs =
     (case havoc_stage cfs doing_det (SPLICE_CYCLES - k) perf in_buf bs of
        None \<Rightarrow> None
      | Some (stop, buf', s1) \<Rightarrow>
          (if stop then Some (True, s1)
           else (case find_splice k orig_in s1 of
                   None \<Rightarrow> None
                 | Some (None, s2) \<Rightarrow> Some (False, s2)
                 | Some (Some (k', b), s2) \<Rightarrow> havoc_rounds k' cfs doing_det perf orig_in b (b, s2))))"
  by pat_completeness auto

termination
  by (relation "measure fst") (auto dest: find_splice_less)

declare havoc_rounds.simps [simp del]

section \<open>The whole of it\<close>

definition abandon_entry :: "bool \<Rightarrow> 'a afl_stage_scheme \<Rightarrow> nat \<times> 'a afl_stage_scheme" where
  "abandon_entry ret_val s =
     (let s1 = s\<lparr>splicing_with := -1\<rparr> in
      (of_bool ret_val,
       if \<not> stop_soon s1 \<and> cal_failed (cur_entry s1) = 0 \<and> \<not> was_fuzzed (cur_entry s1)
       then (let s2 = (upd_entry (queue_cur s1) (\<lambda>e. e\<lparr>was_fuzzed := True\<rparr>) s1)\<lparr>pending_not_fuzzed := pending_not_fuzzed s1 - 1\<rparr>
             in if favored (cur_entry s1) then s2\<lparr>pending_favored := pending_favored s2 - 1\<rparr> else s2)
       else s1))"

definition fuzz_stages :: "'a afl_stage_scheme executor \<Rightarrow> u8 list \<Rightarrow> 'a afl_stage_scheme \<Rightarrow> (bool \<times> 'a afl_stage_scheme) option" where
  "fuzz_stages cfs orig_in s = do {
     let in_buf = take (len (cur_entry s)) orig_in;
     (perf, s1) \<leftarrow> calculate_score (queue_cur s) s;
     let doing_det = det_due s1;
     (stop, out_buf, s2) \<leftarrow> (if doing_det then det_stages cfs (\<not> no_arith s1) in_buf (in_buf, s1) else Some (False, in_buf, s1));
     (if stop then Some (True, s2)
      else do {
        s3 \<leftarrow> (if doing_det \<and> \<not> passed_det (cur_entry s2) then mark_as_det_done (queue_cur s2) s2 else Some s2);
        havoc_rounds SPLICE_CYCLES cfs doing_det perf orig_in in_buf (out_buf, s3) }) }"

definition fuzz_one :: "'a afl_stage_scheme \<Rightarrow> (nat \<times> 'a afl_stage_scheme) option" where
  "fuzz_one s = do {
     (skip, s1) \<leftarrow> skip_entry s;
     (if skip then Some (1, s1)
      else do {
        in_buf \<leftarrow> read_file (fname (cur_entry s1)) (len (cur_entry s1)) s1;
        let s2 = s1\<lparr>subseq_tmouts := 0, cur_depth := depth (cur_entry s1)\<rparr>;
        (left, s3) \<leftarrow> recalibrate in_buf s2;
        (if left then Some (abandon_entry True s3)
         else do {
           (left2, orig_in, s4) \<leftarrow> trim_entry in_buf s3;
           (if left2 then Some (abandon_entry True s4)
            else do {
              (stop, s5) \<leftarrow> fuzz_stages common_fuzz_stuff orig_in s4;
              Some (abandon_entry stop s5) }) }) }) }"

end
