(* ===== verification/Afl_Fuzz_One_Laws.thy ===== *)
theory Afl_Fuzz_One_Laws
  imports Afl_Fuzz_One
begin

text \<open>
  What a whole call of \<open>fuzz_one\<close> does: the deterministic stages hand over exactly the test cases of
  their specifications, in the order of the stages, and leave the buffer as it was; the random choice
  of a partner for splicing, the crossover, the havoc rounds, and the book-keeping at the end.
\<close>

section \<open>The deterministic sequence\<close>

definition flip16_at :: "nat \<Rightarrow> u8 list \<Rightarrow> u8 list list" where
  "flip16_at i b = [set16 i (the (rd16 b i) XOR 0xFFFF) b]"

definition flip32_at :: "nat \<Rightarrow> u8 list \<Rightarrow> u8 list list" where
  "flip32_at i b = [set32 i (the (rd32 b i) XOR 0xFFFFFFFF) b]"

text \<open>The test cases of the stages that work on values, in order.\<close>

definition value_cases :: "bool \<Rightarrow> eff_map \<Rightarrow> u8 list \<Rightarrow> u8 list list" where
  "value_cases arith eff b =
     (if 2 \<le> length b then at_live eff 2 flip16_at b else []) @
     (if 4 \<le> length b then at_live eff 4 flip32_at b else []) @
     (if arith then at_live eff 1 (\<lambda>i b. map (\<lambda>v. set8 i v b) (arith8_vals (the (rd8 b i)))) b else []) @
     (if arith \<and> 2 \<le> length b then at_live eff 2 (\<lambda>i b. map (\<lambda>v. set16 i v b) (arith16_vals (the (rd16 b i)))) b else []) @
     (if arith \<and> 4 \<le> length b then at_live eff 4 (\<lambda>i b. map (\<lambda>v. set32 i v b) (arith32_vals (the (rd32 b i)))) b else []) @
     at_live eff 1 (\<lambda>i b. map (\<lambda>v. set8 i v b) (interest8_vals (the (rd8 b i)))) b @
     (if arith \<and> 2 \<le> length b then at_live eff 2 (\<lambda>i b. map (\<lambda>v. set16 i v b) (interest16_vals (the (rd16 b i)))) b else []) @
     (if arith \<and> 4 \<le> length b then at_live eff 4 (\<lambda>i b. map (\<lambda>v. set32 i v b) (interest32_vals (the (rd32 b i)))) b else [])"

text \<open>The test cases of a complete deterministic run: the walking flips, the value stages under some
  effector map that keeps both ends of the input, overlays of user tokens, all their insertions, and
  overlays of automatic tokens.\<close>

definition det_cases :: "extra_data list \<Rightarrow> bool \<Rightarrow> u8 list \<Rightarrow> u8 list list \<Rightarrow> bool" where
  "det_cases E arith b det \<longleftrightarrow> (\<exists>eff over autos.
     det = flips 1 b @ flips 2 b @ flips 4 b @ bytes_flipped b @ value_cases arith eff b @ over @ insertions E b @ autos \<and>
     length eff = EFF_ALEN (length b) \<and> eff ! 0 \<and> eff ! EFF_APOS (length b - 1) \<and>
     set over \<subseteq> overlays b E \<and> (\<forall>c \<in> set autos. length c = length b))"

context executor
begin

lemma emits_only_if:
  assumes "emits2 (\<lambda>b. length b = l) f g (\<lambda>b. b) (\<lambda>b. length b = l)"
  shows "emits2 (\<lambda>b. length b = l) (only_if c f) (\<lambda>b. if c then g b else []) (\<lambda>b. b) (\<lambda>b. length b = l)"
proof (cases c)
  case True
  then show ?thesis using assms by (simp add: only_if_def)
next
  case False
  have "emits2 (\<lambda>b. length b = l) (\<lambda>(b, s). Some (False, b, s)) (\<lambda>b. []) (\<lambda>b. b) (\<lambda>b. length b = l)"
    by (rule emits_silent) auto
  then show ?thesis using False by (simp add: only_if_def)
qed

lemma emits_value_stages:
  assumes "length eff = EFF_ALEN l"
  shows "emits2 (\<lambda>b. length b = l) (value_stages cfs arith l eff) (value_cases arith eff) (\<lambda>b. b) (\<lambda>b. length b = l)"
  unfolding value_stages_def
  by (rule emits_cong, (rule emits_then_do emits_only_if emits_interest8_stage [OF assms] emits_flip16_stage [OF assms]
        emits_flip32_stage [OF assms] emits_arith8_stage [OF assms] emits_arith16_stage [OF assms] emits_arith32_stage [OF assms]
        emits_interest16_stage [OF assms] emits_interest32_stage [OF assms])+)
    (simp_all add: value_cases_def flip16_at_def [abs_def] flip32_at_def [abs_def] cong: if_cong)

lemma emits_flip_stages:
  "emits2 (\<lambda>b. length b = l) (flip_stages cfs) (\<lambda>b. flips 1 b @ flips 2 b @ flips 4 b) (\<lambda>b. b) (\<lambda>b. length b = l)"
  unfolding flip_stages_def
  by (rule emits_cong, (rule emits_then_do emits_flip1_stage emits_flip2_stage emits_flip4_stage)+) simp_all

text \<open>The dictionary stages: overlays of tokens, all insertions of user tokens, overlays of automatic tokens.\<close>

definition dict_ok_result :: "u8 list \<Rightarrow> 'a afl_stage_scheme \<Rightarrow> (bool \<times> u8 list \<times> 'a afl_stage_scheme) option \<Rightarrow> bool" where
  "dict_ok_result b s r \<longleftrightarrow> (case r of
     None \<Rightarrow> may_exit
   | Some (stop, b', s') \<Rightarrow> good s' \<and> (\<exists>new. tried s' = tried s @ new) \<and>
       (\<not> stop \<longrightarrow> b' = b \<and> (\<exists>over autos. tried s' = tried s @ over @ insertions E b @ autos \<and>
          set over \<subseteq> overlays b E \<and> (\<forall>c \<in> set autos. length c = length b))))"

lemma length_overlays: "c \<in> overlays b exs \<Longrightarrow> length c = length b"
  by (auto simp: overlays_def overlay_def)

lemma dict_stages_ok:
  assumes "good s" "length eff = EFF_ALEN (length b)"
  shows "dict_ok_result b s (dict_stages cfs eff b (b, s))"
proof -
  have ex: "extras t = E" if "good t" for t :: "'a afl_stage_scheme" using that by (simp add: good_for_def)
  define user where "user = only_if (extras s \<noteq> []) (then_do (extras_UO_stage cfs eff b) (extras_UI_stage cfs)) (b, s)"
  have user: "case user of None \<Rightarrow> may_exit
     | Some (stop, b', s') \<Rightarrow> good s' \<and> (\<exists>new. tried s' = tried s @ new) \<and>
         (\<not> stop \<longrightarrow> b' = b \<and> (\<exists>over. tried s' = tried s @ over @ insertions E b \<and> set over \<subseteq> overlays b E))"
  proof (cases "E = []")
    case True
    then show ?thesis using assms(1) ex [OF assms(1)] by (simp add: user_def only_if_def insertions_def inserts_at_def)
  next
    case False
    then have u: "user = then_do (extras_UO_stage cfs eff b) (extras_UI_stage cfs) (b, s)"
      using ex [OF assms(1)] by (simp add: user_def only_if_def)
    note uo = extras_UO_stage_ok [OF assms, unfolded over_ok_def ex [OF assms(1)]]
    show ?thesis
    proof (cases "extras_UO_stage cfs eff b (b, s)")
      case None
      then show ?thesis using uo by (simp add: u then_do_def)
    next
      case (Some r)
      obtain stop b1 s1 where r: "r = (stop, b1, s1)" by (cases r)
      obtain new where s1: "good s1" "\<not> stop \<longrightarrow> b1 = b" "tried s1 = tried s @ new" "set new \<subseteq> overlays b E"
        using uo Some r by auto
      note ui = extras_UI_stage_ok [OF s1(1), of b, unfolded ex [OF s1(1)]]
      show ?thesis
      proof (cases stop)
        case True
        then show ?thesis using Some r s1 by (simp add: u then_do_def)
      next
        case False
        then show ?thesis using ui Some r s1 by (auto simp: u then_do_def split: option.splits if_splits)
      qed
    qed
  qed
  have eq: "dict_stages cfs eff b (b, s) = (case user of None \<Rightarrow> None | Some (stop, b', s') \<Rightarrow> if stop then Some (True, b', s')
      else only_if (a_extras s' \<noteq> []) (extras_AO_stage cfs eff b) (b', s'))"
    by (simp add: dict_stages_def then_do_def user_def split: option.splits)
  show ?thesis
  proof (cases user)
    case None
    then show ?thesis using user unfolding eq dict_ok_result_def by simp
  next
    case (Some r)
    obtain stop b1 s1 where r: "r = (stop, b1, s1)" by (cases r)
    show ?thesis
    proof (cases stop)
      case True
      then show ?thesis using user Some r unfolding eq dict_ok_result_def by simp
    next
      case False
      then obtain over where s1: "good s1" "b1 = b" "tried s1 = tried s @ over @ insertions E b" "set over \<subseteq> overlays b E"
        using user Some r by auto
      show ?thesis
      proof (cases "a_extras s1 = []")
        case True
        moreover have "\<exists>over' autos. tried s1 = tried s @ over' @ insertions E b @ autos \<and> set over' \<subseteq> overlays b E \<and>
            (\<forall>c \<in> set autos. length c = length b)" using s1(3,4) by (intro exI [of _ over] exI [of _ "[]"]) simp
        ultimately show ?thesis using False Some r s1(1,2,3) unfolding eq dict_ok_result_def by (simp add: only_if_def)
      next
        case ao: False
        note k = extras_AO_stage_ok [OF s1(1) assms(2), unfolded over_ok_def]
        have res: "dict_stages cfs eff b (b, s) = extras_AO_stage cfs eff b (b, s1)"
          using False Some r s1(2) ao by (simp add: eq only_if_def)
        show ?thesis
        proof (cases "extras_AO_stage cfs eff b (b, s1)")
          case None
          then show ?thesis using k unfolding res dict_ok_result_def by simp
        next
          case (Some q)
          obtain stop' b2 s2 where q: "q = (stop', b2, s2)" by (cases q)
          obtain new where n: "good s2" "\<not> stop' \<longrightarrow> b2 = b" "tried s2 = tried s1 @ new"
            "set new \<subseteq> overlays b (take USE_AUTO_EXTRAS (a_extras s1))" using k Some q by auto
          then have "\<exists>over' autos. tried s2 = tried s @ over' @ insertions E b @ autos \<and> set over' \<subseteq> overlays b E \<and>
            (\<forall>c \<in> set autos. length c = length b)"
            using s1(3,4) length_overlays by (intro exI [of _ over] exI [of _ new]) auto
          then show ?thesis using n(1-3) s1(3) unfolding res Some q dict_ok_result_def by auto
        qed
      qed
    qed
  qed
qed

lemma value_dict_ok:
  assumes "good s" "length eff = EFF_ALEN (length b)"
  shows "case then_do (value_stages cfs arith (length b) eff) (dict_stages cfs eff b) (b, s) of
      None \<Rightarrow> may_exit
    | Some (stop, b', s') \<Rightarrow> good s' \<and> (\<exists>new. tried s' = tried s @ new) \<and>
        (\<not> stop \<longrightarrow> b' = b \<and> (\<exists>over autos. tried s' = tried s @ value_cases arith eff b @ over @ insertions E b @ autos \<and>
           set over \<subseteq> overlays b E \<and> (\<forall>c \<in> set autos. length c = length b)))"
proof -
  define vs where "vs = value_stages cfs arith (length b) eff (b, s)"
  have p: "length (fst (b, s)) = length b" "good (snd (b, s))" using assms by simp_all
  note e = emitsD [OF emits_value_stages [OF assms(2)] p, of arith, folded vs_def]
  consider "vs = None" | y where "vs = Some (True, y)" | y where "vs = Some (False, y)"
    by (metis (full_types) not_Some_eq surj_pair)
  then show ?thesis
  proof cases
    case 1
    then show ?thesis using e(1) by (simp add: then_do_def vs_def)
  next
    case (2 y)
    then show ?thesis using e(2) [OF 2] by (cases y) (auto simp: then_do_def vs_def)
  next
    case (3 y)
    obtain s1 where y: "y = (b, s1)" and s1: "good s1" "tried s1 = tried s @ value_cases arith eff b"
      using e(3) [OF 3] by (cases y) auto
    show ?thesis using dict_stages_ok [OF s1(1) assms(2)] 3 s1(2) unfolding dict_ok_result_def
      by (fastforce simp: then_do_def vs_def y split: option.splits)
  qed
qed

lemma rest_ok:
  assumes "good s" "b \<noteq> []"
  shows "case (case flip8_stage cfs (b, s) of
          None \<Rightarrow> None
        | Some (stop, buf', eff, s') \<Rightarrow>
            (if stop then Some (True, buf', s')
             else then_do (value_stages cfs arith (length buf') eff) (dict_stages cfs eff b) (buf', s'))) of
      None \<Rightarrow> may_exit
    | Some (stop, b', s') \<Rightarrow> good s' \<and> (\<exists>new. tried s' = tried s @ new) \<and>
        (\<not> stop \<longrightarrow> b' = b \<and> (\<exists>eff over autos.
           tried s' = tried s @ bytes_flipped b @ value_cases arith eff b @ over @ insertions E b @ autos \<and>
           length eff = EFF_ALEN (length b) \<and> eff ! 0 \<and> eff ! EFF_APOS (length b - 1) \<and>
           set over \<subseteq> overlays b E \<and> (\<forall>c \<in> set autos. length c = length b)))"
proof (cases "flip8_stage cfs (b, s)")
  case None
  then show ?thesis using flip8_stage_ok [OF assms] by simp
next
  case (Some r)
  obtain stop b1 eff s1 where r: "r = (stop, b1, eff, s1)" by (cases r)
  note f8 = flip8_stage_ok [OF assms, unfolded Some r option.case prod.case]
  show ?thesis
  proof (cases stop)
    case True
    then show ?thesis using f8 by (auto simp: Some r)
  next
    case False
    then have s1: "good s1" "b1 = b" "tried s1 = tried s @ bytes_flipped b" "length eff = EFF_ALEN (length b)"
      "eff ! 0" "eff ! EFF_APOS (length b - 1)" using f8 by simp_all
    show ?thesis using value_dict_ok [OF s1(1,4), of arith] False s1
      by (fastforce simp: Some r split: option.splits)
  qed
qed

lemma det_stages_ok:
  assumes "good s" "b \<noteq> []"
  shows "case det_stages cfs arith b (b, s) of
      None \<Rightarrow> may_exit
    | Some (stop, b', s') \<Rightarrow> good s' \<and> (\<exists>new. tried s' = tried s @ new) \<and>
        (\<not> stop \<longrightarrow> b' = b \<and> (\<exists>det. tried s' = tried s @ det \<and> det_cases E arith b det))"
proof -
  define fl where "fl = flip_stages cfs (b, s)"
  define rest where "rest = (\<lambda>(buf, s). case flip8_stage cfs (buf, s) of
          None \<Rightarrow> None
        | Some (stop, buf', eff, s') \<Rightarrow>
            (if stop then Some (True, buf', s')
             else then_do (value_stages cfs arith (length buf') eff) (dict_stages cfs eff b) (buf', s')))"
  have eq: "det_stages cfs arith b (b, s) = (case fl of None \<Rightarrow> None | Some (stop, y) \<Rightarrow> (if stop then Some (True, y) else rest y))"
    unfolding det_stages_def then_do_def fl_def rest_def ..
  have p: "length (fst (b, s)) = length b" "good (snd (b, s))" using assms by simp_all
  note e = emitsD [OF emits_flip_stages p, folded fl_def]
  consider "fl = None" | y where "fl = Some (True, y)" | y where "fl = Some (False, y)"
    by (metis (full_types) not_Some_eq surj_pair)
  then show ?thesis
  proof cases
    case 1
    then show ?thesis using e(1) by (simp add: eq)
  next
    case (2 y)
    then show ?thesis using e(2) [OF 2] by (cases y) (auto simp: eq)
  next
    case (3 y)
    obtain s1 where y: "y = (b, s1)" and s1: "good s1" "tried s1 = tried s @ flips 1 b @ flips 2 b @ flips 4 b"
      using e(3) [OF 3] by (cases y) auto
    have res: "det_stages cfs arith b (b, s) = rest (b, s1)" unfolding eq 3 y by simp
    have r: "rest (b, s1) = (case flip8_stage cfs (b, s1) of
          None \<Rightarrow> None
        | Some (stop, buf', eff, s') \<Rightarrow>
            (if stop then Some (True, buf', s')
             else then_do (value_stages cfs arith (length buf') eff) (dict_stages cfs eff b) (buf', s')))"
      unfolding rest_def by (simp only: prod.case)
    note k = rest_ok [OF s1(1) assms(2), of arith, folded r]
    show ?thesis
    proof (cases "rest (b, s1)")
      case None
      then show ?thesis using k by (simp add: res)
    next
      case (Some q)
      then show ?thesis using k s1(2) by (cases q) (auto simp: res det_cases_def)
    qed
  qed
qed

end

section \<open>Splicing\<close>

lemma pick_other_Some:
  assumes "pick_other n me s = Some (tid, t)"
  shows "tid < n \<and> tid \<noteq> me \<and> same_rest s t"
proof -
  have "fst y < n \<and> fst y \<noteq> me \<and> same_rest s (snd y)" if "pick_other n me s = Some y" for y
    using that
  proof (rule pick_other.raw_induct [of "\<lambda>n me s y. fst y < n \<and> fst y \<noteq> me \<and> same_rest s (snd y)", rotated])
    fix f :: "nat \<Rightarrow> nat \<Rightarrow> 'a afl_rng_scheme \<Rightarrow> (nat \<times> 'a afl_rng_scheme) option" and n me s y
    assume ih: "\<And>n me s y. f n me s = Some y \<Longrightarrow> fst y < n \<and> fst y \<noteq> me \<and> same_rest s (snd y)"
      and eq: "(case UR n s of None \<Rightarrow> None | Some (tid, s1) \<Rightarrow> if tid = me then f n me s1 else Some (tid, s1)) = Some y"
    from eq obtain r s1 where u: "UR n s = Some (r, s1)" and k: "(if r = me then f n me s1 else Some (r, s1)) = Some y"
      by (auto split: option.splits)
    note b = ur.draw_bound [OF u] ur.draw_frame [OF u]
    show "fst y < n \<and> fst y \<noteq> me \<and> same_rest s (snd y)"
      using k ih [of n me s1 y] b same_rest_trans [OF b(2)] by (cases "r = me") auto
  qed
  from this [OF assms] show ?thesis by simp
qed

lemma UR_value: "0 < n \<Longrightarrow> UR n s = Some (r, t) \<Longrightarrow>
  r = random_src s (random_pos s) mod n \<and> random_pos t = random_pos s + 1 \<and> random_src t = random_src s"
  by (auto simp: UR_def reseed_def Let_def split: if_splits)

text \<open>The draw is repeated until it misses the current entry, which happens as soon as the generator
  delivers another residue.\<close>

lemma pick_other_total:
  assumes "0 < n" "random_src s (random_pos s + k) mod n \<noteq> me"
  shows "\<exists>tid t. pick_other n me s = Some (tid, t)"
  using assms(2)
proof (induction k arbitrary: s)
  case 0
  obtain r t where "UR n s = Some (r, t)" using ur.draw_total [OF assms(1)] by blast
  then show ?case using 0 UR_value [OF assms(1)] by (subst pick_other.simps) fastforce
next
  case (Suc k)
  obtain r t where u: "UR n s = Some (r, t)" using ur.draw_total [OF assms(1)] by blast
  then have "random_src t (random_pos t + k) mod n \<noteq> me" using Suc.prems UR_value [OF assms(1) u] by simp
  from Suc.IH [OF this] show ?case using u by (subst pick_other.simps) auto
qed

lemma splice_target_Some:
  "splice_target t s = Some i \<Longrightarrow> t \<le> i \<and> i < length (queue s) \<and> 2 \<le> len (queue s ! i) \<and> i \<noteq> queue_cur s"
  unfolding splice_target_def by (fastforce simp: find_Some_iff)

definition differences :: "u8 list \<Rightarrow> u8 list \<Rightarrow> nat set" where
  "differences a b = {i. i < min (length a) (length b) \<and> a ! i \<noteq> b ! i}"

lemma finite_differences [simp]: "finite (differences a b)"
  by (simp add: differences_def)

lemma locate_diffs_min:
  "locate_diffs a b (min (length a) (length b)) =
     Some (if differences a b = {} then (-1, -1) else (int (Min (differences a b)), int (Max (differences a b))))"
proof -
  let ?m = "min (length a) (length b)"
  have "{i. i < length (take ?m a) \<and> take ?m a ! i \<noteq> take ?m b ! i} = differences a b"
    by (auto simp: differences_def)
  then show ?thesis
    using locate_diffs_loop_spec [of "take ?m a" "take ?m b" "-1" "-1" 0] by (simp add: locate_diffs_def Let_def)
qed

lemma splice_mix_spec:
  "\<exists>r t. splice_mix a b s = Some (r, t) \<and> same_rest s t \<and>
     (let D = differences a b in
      if D = {} \<or> Max D < 2 \<or> Min D = Max D then r = None
      else \<exists>k. r = Some (take k a @ drop k b) \<and> Min D \<le> k \<and> k < Max D)"
proof -
  define D where "D = differences a b"
  show ?thesis
  proof (cases "D = {} \<or> Max D < 2 \<or> Min D = Max D")
    case True
    then have "splice_mix a b s = Some (None, s)"
      by (cases "D = {}") (auto simp: splice_mix_def locate_diffs_min D_def)
    then show ?thesis using True by (simp add: Let_def D_def)
  next
    case False
    then have "Min D \<in> D" "Max D \<in> D" by (simp_all add: D_def)
    then have "Min D \<le> Max D" by (simp add: D_def)
    with False \<open>Max D \<in> D\<close> have D: "Min D < Max D" "Max D < length a" "Max D < length b"
      by (linarith, simp_all add: D_def differences_def)
    then obtain r t where r: "UR (Max D - Min D) s = Some (r, t)" "r < Max D - Min D" "same_rest s t"
      using ur.draw_obtain [of "Max D - Min D" s] by (metis zero_less_diff)
    have "Min D + r \<le> length a" "Min D + r \<le> length b" using r(2) D by linarith+
    then have "memcpy b 0 a 0 (Min D + r) = Some (take (Min D + r) a @ drop (Min D + r) b)" by (simp add: memcpy_def)
    then have "splice_mix a b s = Some (Some (take (Min D + r) a @ drop (Min D + r) b), t)"
      using False r(1) by (simp add: splice_mix_def locate_diffs_min D_def [symmetric] nat_minus_as_int)
    then show ?thesis using False r(2,3) by (auto simp: Let_def D_def [symmetric])
  qed
qed

lemma splice_mix_new:
  assumes "splice_mix a b s = Some (Some c, t)"
  shows "same_rest s t \<and> length c = length b \<and> 3 \<le> length c \<and> (\<exists>i < length a. i < length c \<and> c ! i \<noteq> a ! i)"
proof -
  let ?D = "differences a b"
  obtain k where D: "?D \<noteq> {}" "2 \<le> Max ?D" and k: "c = take k a @ drop k b" "k < Max ?D" and st: "same_rest s t"
    using splice_mix_spec [of a b s] assms by (auto simp: Let_def split: if_splits)
  then have m: "Max ?D \<in> ?D" by simp
  then have "Max ?D < length a" "Max ?D < length b" "a ! Max ?D \<noteq> b ! Max ?D" by (auto simp: differences_def)
  moreover from this k have "c ! Max ?D = b ! Max ?D" by (simp add: nth_append)
  ultimately show ?thesis using k D(2) st by (intro conjI exI [of _ "Max ?D"]) auto
qed

section \<open>The havoc rounds\<close>

context executor
begin

definition handed :: "'a afl_stage_scheme \<Rightarrow> 'a afl_stage_scheme \<Rightarrow> nat \<Rightarrow> bool" where
  "handed s t n \<longleftrightarrow> good t \<and> (\<exists>cs. tried t = tried s @ cs \<and> n \<le> length cs \<and> (\<forall>c \<in> set cs. c \<noteq> []))"

lemma handed_trans: "handed s t m \<Longrightarrow> handed t u n \<Longrightarrow> handed s u (m + n)"
  unfolding handed_def by force

lemma handed_less: "handed s t m \<Longrightarrow> n \<le> m \<Longrightarrow> handed s t n"
  unfolding handed_def by force

lemma havoc_stage_handed:
  assumes "good s" "in_buf \<noteq> []" "take (length in_buf) buf = in_buf" "1 \<le> perf" "havoc_stage cfs det spl perf in_buf (buf, s) = Some (stop, b', t)"
  shows "handed s t (if stop then 1 else HAVOC_MIN)"
proof -
  have "havoc_div s \<noteq> 0"
  proof
    assume "havoc_div s = 0"
    then show False using assms(5) by (simp add: havoc_stage_def)
  qed
  moreover have "1 \<le> length in_buf" using assms(2) by (simp add: Suc_le_eq)
  ultimately obtain cs d where cs: "good t" "tried t = tried s @ cs" "\<forall>c \<in> set cs. 1 \<le> length c"
    "if stop then cs \<noteq> [] else length cs = havoc_stage_max det spl perf (havoc_div s) * 2 ^ d"
    using havoc_stage_ok [OF assms(1,3) _ assms(4), of det spl, unfolded assms(5) option.case prod.case]
    by (cases stop) auto
  have "HAVOC_MIN \<le> havoc_stage_max det spl perf (havoc_div s)" by (simp add: havoc_stage_max_def)
  also have "\<dots> \<le> havoc_stage_max det spl perf (havoc_div s) * 2 ^ d" by simp
  finally have "HAVOC_MIN \<le> havoc_stage_max det spl perf (havoc_div s) * 2 ^ d" .
  then show ?thesis using cs by (cases stop) (auto simp: handed_def Suc_le_eq)
qed

lemma handed_quiet: "good t \<Longrightarrow> tried t = tried s \<Longrightarrow> handed s t 0"
  by (simp add: handed_def)

lemma good_splicing [simp]: "good (s\<lparr>splicing_with := w\<rparr>) = good s"
  by (simp add: good_defs)

lemma splice_try_handed:
  assumes "good s" "splice_try orig s = Some (r, t)"
  shows "handed s t 0 \<and> (\<forall>b. r = Some b \<longrightarrow> b \<noteq> [])"
proof -
  let ?in = "take (len (cur_entry s)) orig"
  obtain tid s1 p where p: "pick_other (queued_paths s) (current_entry s) s = Some (tid, s1)" "seek_entry (queue s1) tid = Some p"
    and rest: "(case splice_target p s1 of
        None \<Rightarrow> Some (None, s1\<lparr>splicing_with := int (tid + (length (queue s1) - p))\<rparr>)
      | Some i \<Rightarrow> do {
          let s2 = s1\<lparr>splicing_with := int (tid + (i - p))\<rparr>;
          new_buf \<leftarrow> read_file (fname (queue s2 ! i)) (len (queue s2 ! i)) s2;
          splice_mix ?in new_buf s2 }) = Some (r, t)"
    using assms(2) by (auto simp: splice_try_def Let_def split: bind_splits)
  have s1: "good s1" "tried s1 = tried s" using pick_other_Some [OF p(1)] good_same_rest [of s s1 E ix] assms(1) by auto
  show ?thesis
  proof (cases "splice_target p s1")
    case None
    then show ?thesis using rest s1 by (auto intro: handed_quiet)
  next
    case (Some i)
    define s2 where "s2 = s1\<lparr>splicing_with := int (tid + (i - p))\<rparr>"
    have s2: "good s2" "tried s2 = tried s" using s1 by (simp_all add: s2_def)
    obtain nb where m: "splice_mix ?in nb s2 = Some (r, t)"
      using rest Some by (auto simp: s2_def Let_def split: bind_splits)
    have "same_rest s2 t" using splice_mix_spec [of ?in nb s2] m by auto
    then have "handed s t 0" using good_same_rest [of s2 t E ix] s2 by (auto intro: handed_quiet)
    moreover have "b \<noteq> []" if "r = Some b" for b using splice_mix_new [of ?in nb s2 b t] m that by auto
    ultimately show ?thesis by simp
  qed
qed

lemma find_splice_handed:
  assumes "good s" "find_splice k orig s = Some (r, t)"
  shows "handed s t 0 \<and> (\<forall>k' b. r = Some (k', b) \<longrightarrow> b \<noteq> [])"
  using assms
proof (induction k arbitrary: s)
  case 0
  then show ?case by (simp add: handed_def)
next
  case (Suc k)
  show ?case
  proof (cases "use_splicing s \<and> queued_paths s > 1 \<and> len (cur_entry s) > 1")
    case True
    then obtain r1 s1 where t: "splice_try orig s = Some (r1, s1)"
      and k: "(case r1 of None \<Rightarrow> find_splice k orig s1 | Some b \<Rightarrow> Some (Some (k, b), s1)) = Some (r, t)"
      using Suc.prems(2) by (auto split: bind_splits)
    note h = splice_try_handed [OF Suc.prems(1) t]
    show ?thesis
    proof (cases r1)
      case None
      then show ?thesis using Suc.IH [of s1] h k handed_trans [of s s1 0 t 0] by (auto simp: handed_def)
    next
      case (Some b)
      then show ?thesis using h k by auto
    qed
  next
    case False
    then show ?thesis using Suc.prems by (auto simp: handed_def)
  qed
qed

lemma havoc_rounds_handed:
  assumes "good s" "in_buf \<noteq> []" "take (length in_buf) buf = in_buf" "1 \<le> perf"
    "havoc_rounds k cfs det perf orig in_buf (buf, s) = Some (stop, t)"
  shows "handed s t (if stop then 1 else HAVOC_MIN)"
  using assms(1-3,5)
proof (induction k arbitrary: in_buf buf s rule: less_induct)
  case (less k)
  obtain stop1 b1 s1 where h: "havoc_stage cfs det (SPLICE_CYCLES - k) perf in_buf (buf, s) = Some (stop1, b1, s1)"
    using less.prems(4) by (subst (asm) havoc_rounds.simps) (auto split: option.splits)
  note h1 = havoc_stage_handed [OF less.prems(1-3) assms(4) h]
  show ?case
  proof (cases stop1)
    case True
    then show ?thesis using less.prems(4) h h1 by (subst (asm) havoc_rounds.simps) simp
  next
    case False
    then obtain r s2 where f: "find_splice k orig s1 = Some (r, s2)"
      and k: "(case r of None \<Rightarrow> Some (False, s2) | Some (k', b) \<Rightarrow> havoc_rounds k' cfs det perf orig b (b, s2)) = Some (stop, t)"
      using less.prems(4) h by (subst (asm) havoc_rounds.simps) (auto split: option.splits)
    have g1: "good s1" using h1 by (simp add: handed_def)
    note fh = find_splice_handed [OF g1 f]
    have h2: "handed s s2 HAVOC_MIN" using handed_trans [OF h1, of s2 0] fh False by simp
    show ?thesis
    proof (cases r)
      case None
      then show ?thesis using k h2 by simp
    next
      case (Some kb)
      then obtain k' b where r: "r = Some (k', b)" by (cases kb) auto
      have "k' < k" using f r by (auto dest: find_splice_less)
      moreover have "good s2" "b \<noteq> []" using fh r by (auto simp: handed_def)
      ultimately have "handed s2 t (if stop then 1 else HAVOC_MIN)" using less.IH [of k' s2 b b] k r by simp
      from handed_trans [OF h2 this] show ?thesis by (rule handed_less) simp
    qed
  qed
qed

end

section \<open>Skipping\<close>

text \<open>The chance, in percent, that an entry is skipped.\<close>

definition skip_odds :: "'a afl_stage_scheme \<Rightarrow> nat" where
  "skip_odds s =
     (if favored (cur_entry s) \<and> \<not> was_fuzzed (cur_entry s) then 0
      else if pending_favored s \<noteq> 0 then 99
      else if dumb_mode s \<or> favored (cur_entry s) \<or> queued_paths s \<le> 10 then 0
      else if was_fuzzed (cur_entry s) \<or> queue_cycle s \<le> 1 then 95 else 75)"

lemma odds_spec: "\<exists>t. odds p s = Some (random_src s (random_pos s) mod 100 < p, t) \<and> same_rest s t"
proof -
  have "0 < (100 :: nat)" by simp
  from ur.draw_obtain [OF this] obtain r t where u: "UR 100 s = Some (r, t)" "same_rest s t" by blast
  then show ?thesis using UR_value [OF _ u(1)] by (simp add: odds_def)
qed

lemma skip_entry_odds:
  "\<exists>t. skip_entry s = Some (random_src s (random_pos s) mod 100 < skip_odds s, t) \<and> same_rest s t \<and> (skip_odds s = 0 \<longrightarrow> t = s)"
proof -
  obtain t99 t95 t75 where t:
    "odds 99 s = Some (random_src s (random_pos s) mod 100 < 99, t99)" "same_rest s t99"
    "odds 95 s = Some (random_src s (random_pos s) mod 100 < 95, t95)" "same_rest s t95"
    "odds 75 s = Some (random_src s (random_pos s) mod 100 < 75, t75)" "same_rest s t75"
    using odds_spec by metis
  show ?thesis
    by (simp add: skip_entry_def skip_odds_def SKIP_TO_NEW_PROB_def SKIP_NFAV_OLD_PROB_def SKIP_NFAV_NEW_PROB_def t not_le)
qed

section \<open>Leaving an entry\<close>

lemma abandon_entry_spec:
  assumes "queue_cur s < length (queue s)" "pending_inv s" "abandon_entry r s = (v, t)"
  shows "pending_inv t \<and> queue_cur t = queue_cur s \<and> length (queue t) = length (queue s) \<and>
    v = of_bool r \<and> splicing_with t = -1 \<and>
    was_fuzzed (cur_entry t) = (was_fuzzed (cur_entry s) \<or> \<not> stop_soon s \<and> cal_failed (cur_entry s) = 0)"
proof -
  let ?e = "(cur_entry s)\<lparr>was_fuzzed := True\<rparr>"
  show ?thesis
  proof (cases "\<not> stop_soon s \<and> cal_failed (cur_entry s) = 0 \<and> \<not> was_fuzzed (cur_entry s)")
    case True
    then have u: "Suc (unfuzzed ((queue s)[queue_cur s := ?e])) = unfuzzed (queue s)"
      using unfuzzed_upd [OF assms(1), of ?e] by simp
    then have "of_nat (unfuzzed (queue s)) - 1 = (of_nat (unfuzzed ((queue s)[queue_cur s := ?e])) :: u32)"
      by (metis add_diff_cancel_left' of_nat_Suc)
    then show ?thesis using assms True by (auto simp: abandon_entry_def pending_inv_def upd_entry_def Let_def split: if_splits)
  next
    case False
    then show ?thesis using assms by (auto simp: abandon_entry_def pending_inv_def Let_def split: if_splits)
  qed
qed

section \<open>All stages of an entry\<close>

lemma good_upd_entry:
  assumes "good_for E ix s" "\<And>e. next_100 (f e) = next_100 e" "\<And>e. tc_ref (f e) = tc_ref e"
    "\<And>e. trace_mini (f e) = trace_mini e" "\<And>e. was_fuzzed (f e) = was_fuzzed e"
  shows "good_for E ix (upd_entry q f s)"
proof -
  have "refs_inv (upd_entry q f s)" using assms(1,3,4) by (intro refs_upd_entry) (simp_all add: good_for_def books_ok_def)
  moreover have "pending_inv (upd_entry q f s)"
    using assms(1,5) by (simp add: good_for_def books_ok_def pending_inv_def upd_entry_def unfuzzed_same)
  moreover have "skip_inv (upd_entry q f s)"
    using assms(1,2) by (auto simp: good_for_def skip_inv_def upd_entry_def nth_upd)
  ultimately show ?thesis
    using assms(1) by (simp add: good_for_def books_ok_def maps_ok_def caps_ok_def autos_ok_def auto_ok_for_def upd_entry_def)
qed

lemma calculate_score_quiet:
  assumes "calculate_score q s = Some (p, t)"
  shows "1 \<le> p" "good_for E ix s \<Longrightarrow> good_for E ix t" "tried t = tried s" "det_due t = det_due s" "no_arith t = no_arith s"
    "take (len (cur_entry t)) orig = take (len (cur_entry s)) orig"
proof -
  show "1 \<le> p" using calculate_score_bounds [of q s] assms by (metis le_trans one_le_numeral)
  obtain h where t: "t = upd_entry q (\<lambda>e. e\<lparr>handicap := h\<rparr>) s"
    using assms by (auto simp: calculate_score_def Let_def split: if_splits prod.splits)
  show "good_for E ix s \<Longrightarrow> good_for E ix t" unfolding t by (rule good_upd_entry) simp_all
  show "tried t = tried s" "det_due t = det_due s" "no_arith t = no_arith s"
    "take (len (cur_entry t)) orig = take (len (cur_entry s)) orig"
    by (simp_all add: t upd_entry_def det_due_def nth_upd)
qed

lemma mark_as_det_done_quiet:
  assumes "mark_as_det_done q s = Some t" "good_for E ix s"
  shows "good_for E ix t \<and> tried t = tried s"
proof -
  have "good_for E ix (s\<lparr>files := fs\<rparr>)" for fs using assms(2) by (simp add: good_defs)
  moreover obtain fs where t: "t = upd_entry q (\<lambda>e. e\<lparr>passed_det := True\<rparr>) (s\<lparr>files := fs\<rparr>)"
    using assms(1) by (auto simp: mark_as_det_done_def create_excl_def split: bind_splits if_splits)
  ultimately show ?thesis using good_upd_entry [of E ix "s\<lparr>files := fs\<rparr>" "\<lambda>e. e\<lparr>passed_det := True\<rparr>" q] by (simp add: upd_entry_def)
qed

context executor
begin

lemma fuzz_stages_ok:
  assumes "good s" "0 < len (cur_entry s)" "orig \<noteq> []" "fuzz_stages cfs orig s = Some (stop, t)"
  defines "b \<equiv> take (len (cur_entry s)) orig"
  shows "good t \<and> (\<exists>new. tried t = tried s @ new) \<and> (\<not> stop \<longrightarrow> (\<exists>det cs. tried t = tried s @ det @ cs \<and>
     HAVOC_MIN \<le> length cs \<and> (\<forall>c \<in> set cs. c \<noteq> []) \<and>
     (if det_due s then det_cases E (\<not> no_arith s) b det else det = [])))"
proof -
  have b: "b \<noteq> []" using assms(2,3) by (simp add: b_def)
  obtain perf s1 where cs: "calculate_score (queue_cur s) s = Some (perf, s1)"
    using assms(4) by (auto simp: fuzz_stages_def Let_def split: bind_splits)
  note q = calculate_score_quiet [OF cs]
  have g1: "good s1" using q(2) assms(1) .
  define dr where "dr = (if det_due s then det_stages cfs (\<not> no_arith s) b (b, s1) else Some (False, b, s1))"
  have "fuzz_stages cfs orig s = dr \<bind> (\<lambda>(st, ob, s2). if st then Some (True, s2)
      else do {
        s3 \<leftarrow> (if det_due s \<and> \<not> passed_det (cur_entry s2) then mark_as_det_done (queue_cur s2) s2 else Some s2);
        havoc_rounds SPLICE_CYCLES cfs (det_due s) perf orig b (ob, s3) })"
    unfolding fuzz_stages_def Let_def cs dr_def b_def by (simp only: Option.bind.bind_lunit prod.case q(4,5))
  then obtain st ob s2 where d: "dr = Some (st, ob, s2)"
    and k: "(if st then Some (True, s2)
      else do {
        s3 \<leftarrow> (if det_due s \<and> \<not> passed_det (cur_entry s2) then mark_as_det_done (queue_cur s2) s2 else Some s2);
        havoc_rounds SPLICE_CYCLES cfs (det_due s) perf orig b (ob, s3) }) = Some (stop, t)"
    using assms(4) by (cases dr) auto
  have det: "good s2 \<and> (\<exists>new. tried s2 = tried s @ new) \<and> (\<not> st \<longrightarrow> ob = b \<and> (\<exists>det. tried s2 = tried s @ det \<and>
     (if det_due s then det_cases E (\<not> no_arith s) b det else det = [])))"
  proof (cases "det_due s")
    case True
    then show ?thesis using det_stages_ok [OF g1 b, of "\<not> no_arith s"] d q(3) unfolding dr_def by auto
  next
    case False
    then show ?thesis using d g1 q(3) by (simp add: dr_def)
  qed
  show ?thesis
  proof (cases st)
    case True
    then show ?thesis using k det by auto
  next
    case False
    then obtain s3 where m: "(if det_due s \<and> \<not> passed_det (cur_entry s2) then mark_as_det_done (queue_cur s2) s2 else Some s2) = Some s3"
      and h: "havoc_rounds SPLICE_CYCLES cfs (det_due s) perf orig b (ob, s3) = Some (stop, t)"
      using k by (auto split: bind_splits)
    have s3: "good s3" "tried s3 = tried s2" using m det mark_as_det_done_quiet [of "queue_cur s2" s2 s3 E ix] by (auto split: if_splits)
    have ob: "ob = b" using det False by simp
    have "handed s3 t (if stop then 1 else HAVOC_MIN)"
      by (rule havoc_rounds_handed [OF s3(1) b _ q(1) h]) (simp add: ob)
    then obtain cs where cs: "good t" "tried t = tried s2 @ cs" "\<not> stop \<longrightarrow> HAVOC_MIN \<le> length cs" "\<forall>c \<in> set cs. c \<noteq> []"
      using s3(2) by (cases stop) (auto simp: handed_def)
    obtain det where dt: "tried s2 = tried s @ det" "if det_due s then det_cases E (\<not> no_arith s) b det else det = []"
      using det False by blast
    have "\<not> stop \<longrightarrow> tried t = tried s @ det @ cs \<and> HAVOC_MIN \<le> length cs \<and> (\<forall>c \<in> set cs. c \<noteq> []) \<and>
        (if det_due s then det_cases E (\<not> no_arith s) b det else det = [])"
      using cs dt by simp
    then show ?thesis using cs(1,2) dt(1) by (metis append.assoc)
  qed
qed

end

text \<open>A call that returns 0 has left the entry marked as fuzzed, unless the user stopped the fuzzer or the
  entry does not calibrate.\<close>

lemma abandon_fuzzed:
  assumes "abandon_entry r s = (v, t)" "queue_cur t < length (queue t)"
  shows "v \<le> 1" "was_fuzzed (cur_entry t) \<or> stop_soon t \<or> cal_failed (cur_entry t) \<noteq> 0"
  using assms by (auto simp: abandon_entry_def upd_entry_def Let_def split: if_splits)

lemma fuzz_one_left:
  assumes "fuzz_one s = Some (r, t)"
  shows "skip_entry s = Some (True, t) \<and> r = 1 \<or> (\<exists>b u. abandon_entry b u = (r, t))"
  using assms unfolding fuzz_one_def Let_def
  by (auto split: bind_splits if_splits)

end
