(* ===== verification/Afl_Sample.thy ===== *)
theory Afl_Sample
  imports Afl_Trim Afl_Fuzz_One_Laws
begin

text \<open>
  A concrete state, used to show that the hypotheses of the theorems can hold: a session on its first
  cycle with one calibrated entry of six bytes, a target that always exits normally and touches
  nothing, and a user dictionary with one token.
\<close>

definition quiet_run :: run_result where
  "quiet_run = Run \<lparr>status = Exited 0, child_timed_out = False, raw_trace = replicate MAP_SIZE 0, exec_ms = 1,
     got_sigint = False, got_sigusr1 = False\<rparr>"

definition sample_entry :: queue_entry where
  "sample_entry = \<lparr>fname = ''out/queue/id:000000'', len = 6, cal_failed = 0, trim_done = False, was_fuzzed = False, passed_det = False,
     has_new_cov = True, var_behavior = False, favored = False, fs_redundant = False, bitmap_size = 1, exec_cksum = 7, exec_us = 100,
     handicap = 0, depth = 1, trace_mini = None, tc_ref = 0, next_100 = None\<rparr>"

definition sample_input :: "u8 list" where "sample_input = [71, 69, 84, 32, 47, 10]"

definition sample :: afl_stage where
  "sample = \<lparr>rand_cnt = 5, random_src = (\<lambda>n. n), random_pos = 0, urandom_src = (\<lambda>n. 0), urandom_pos = 0, run_over10m = False,
     queue_cycle = 1,
     trace_bits = replicate MAP_SIZE 0, virgin_bits = replicate MAP_SIZE 255, virgin_tmout = replicate MAP_SIZE 255,
     virgin_crash = replicate MAP_SIZE 255, var_bytes = replicate MAP_SIZE 0, bitmap_changed = False,
     out_dir = ''out'', files = [''out/queue/id:000000'' \<mapsto> sample_input], time_src = (\<lambda>n. n), time_pos = 0,
     queue = [sample_entry], q_prev100 = 0, top_rated = replicate MAP_SIZE None, queued_paths = 1, queued_variable = 0,
     queued_discovered = 0, queued_favored = 0, queued_with_cov = 1, pending_not_fuzzed = 1, pending_favored = 0,
     cur_depth = 1, max_depth = 1, cycles_wo_finds = 0, last_path_time = 0, score_changed = True, dumb_mode = False,
     in_dir = ''in'', extras = [\<lparr>data = [71, 69, 84], hit_cnt = 0\<rparr>], a_extras = [], auto_changed = False,
     target = (\<lambda>n inp k. quiet_run), fsrv_hello = 0, post_handler = None, freq_src = (\<lambda>n. 1), exec_pos = 0, freq_pos = 0,
     testcase = [], forksrv_pid = 1, stop_soon = False, skip_requested = False, exec_tmout = 1000, hang_tmout = 1000,
     crash_mode = FAULT_NONE, dumb_forksrv = False, no_forkserver = False, uses_asan = False, fast_cal = False,
     resuming_fuzz = False, exit_when_done = False, bench_until_crash = False, kill_signal = 0, slowest_exec_ms = 0,
     total_execs = 0, total_crashes = 0, total_tmouts = 0, unique_crashes = 0, unique_tmouts = 0, unique_hangs = 0,
     last_crash_time = 0, last_hang_time = 0, last_crash_execs = 0, subseq_tmouts = 0, cur_skipped_paths = 0,
     total_cal_us = 800, total_cal_cycles = 8, total_bitmap_size = 1, total_bitmap_entries = 1, var_byte_count = 0,
     start_time = 0, last_ms = 0, last_stats_ms = 0, stats_update_freq = 1, stage_short = ''init'', stage_cur = 0, stage_max = 0,
     stage_cur_byte = -1, stage_cur_val = 0, stage_val_type = STAGE_VAL_NONE, current_entry = 0, splicing_with = -1,
     syncing_party = None, syncing_case = 0, bytes_trim_in = 0, bytes_trim_out = 0, trim_execs = 0, crash_readme = [], tried = [],
     queue_cur = 0, skip_deterministic = False, no_arith = False, use_splicing = False, master_id = 0, master_max = 0,
     havoc_div = 1, blocks_eff_total = 0, blocks_eff_select = 0, stage_finds = replicate 32 0, stage_cycles = replicate 32 0\<rparr>"

lemmas sample_defs = sample_def sample_entry_def sample_input_def quiet_run_def

lemma sample_maps: "maps_ok sample"
  by (simp add: maps_ok_def sample_def)

lemma sample_skip: "skip_inv sample"
  by (simp add: skip_inv_def sample_defs)

lemma sample_slots: "slots sample e = {}"
  by (auto simp: slots_def sample_def)

lemma sample_rating: "rating_inv sample"
  unfolding rating_inv_for_def sample_slots by (simp add: entry_ok_def) (simp add: sample_defs)

lemma sample_pending: "pending_inv sample"
  by (simp add: pending_inv_def unfuzzed_def sample_defs)

lemma sample_good: "good_for [\<lparr>data = [71, 69, 84], hit_cnt = 0\<rparr>] 0 sample"
  using sample_maps sample_skip sample_pending rating_refs [OF sample_rating]
  by (simp add: good_for_def books_ok_def caps_ok_def extras_ok_def autos_ok_def auto_ok_for_def MAX_DICT_FILE_def) (simp add: sample_def)

lemma sample_marker: "marker_inv sample"
  by (simp add: marker_inv_def inj_on_def marker_def redundant_path_def) (simp add: sample_defs)

lemma sample_answers: "answers sample"
  by (simp add: answers_def sample_defs)

lemma sample_novelty: "novelty (trace_bits sample) (virgin_bits sample) = 0"
proof -
  have "trace_bits sample ! k = 0" if "k < length (trace_bits sample)" for k using that by (simp add: sample_def)
  then show ?thesis by (auto simp: novelty_def)
qed

end
