(* ===== verification/Afl_Main.thy ===== *)
theory Afl_Main
  imports Afl_Fuzz_One_Laws
begin

text \<open>
  The session around \<open>fuzz_one\<close>, from \<^verbatim>\<open>docker/AFL/afl-fuzz.c\<close>: \<open>setup_shm\<close>, \<open>read_testcases\<close>, \<open>pivot_inputs\<close>,
  \<open>find_timeout\<close>, \<open>perform_dry_run\<close>, \<open>show_init_stats\<close>, \<open>find_start_position\<close>, \<open>sync_fuzzers\<close> and the start and the
  main loop of \<open>main\<close>. What the directories hold when they are scanned is part of the state, as a
  function of the directory and, for the directories of other fuzzers, of the number of the scan; what a
  scan lists can be accessed, and the shared memory is granted and comes zeroed. As before \<^const>\<open>None\<close> is a
  stop of the process. Resuming in place (\<^verbatim>\<open>-i -\<close>), where old directories are moved and deleted, is left out.
\<close>

section \<open>State\<close>

type_synonym peer_queue = "(string \<times> u8 list option) list"

record afl_main = afl_stage +
  scandir :: "string \<Rightarrow> (string \<times> bool) list option"
  extras_dir :: "(dir_read \<times> bool \<times> nat) option"
  in_bitmap :: bool
  shuffle_queue :: bool
  timeout_given :: nat
  skip_crashes :: bool
  hang_tmout_given :: bool
  useless_at_start :: nat
  queued_at_start :: nat
  sync_id :: "string option"
  import_first :: bool
  sync_src :: "nat \<Rightarrow> (string \<times> peer_queue option) list"
  sync_pos :: nat
  queued_imported :: nat
  not_on_tty :: bool

text \<open>The variables of \<open>main\<close> that live across passes of its loop. The pointer \<^verbatim>\<open>queue_cur\<close> is null only between two
  passes; \<open>cur_null\<close> says so.\<close>

record main_locals =
  exit_1 :: bool
  prev_queued :: nat
  sync_interval_cnt :: nat
  seek_to :: nat
  cur_null :: bool

definition EXEC_TIMEOUT :: nat where "EXEC_TIMEOUT = 1000"
definition EXEC_TM_ROUND :: nat where "EXEC_TM_ROUND = 20"
definition SYNC_INTERVAL :: nat where "SYNC_INTERVAL = 5"

section \<open>Strings\<close>

fun strstr :: "'a list \<Rightarrow> 'a list \<Rightarrow> 'a list option" where
  "strstr [] n = (if n = [] then Some [] else None)"
| "strstr (c # cs) n = (if take (length n) (c # cs) = n then Some (c # cs) else strstr cs n)"

text \<open>\<^verbatim>\<open>sscanf\<close> with \<^verbatim>\<open>%06u\<close>: white space, then at most six characters of an optional sign and digits.\<close>

definition sscanf_06u :: "string \<Rightarrow> u32 option" where
  "sscanf_06u s =
     (let f = take 6 (dropWhile (\<lambda>c. isspace (of_char c)) s);
          signed = (f \<noteq> [] \<and> (hd f = CHR ''+'' \<or> hd f = CHR ''-''));
          ds = takeWhile is_digit (if signed then tl f else f)
      in if ds = [] then None
         else Some (if signed \<and> hd f = CHR ''-'' then - of_nat (digits_value ds) else of_nat (digits_value ds)))"

section \<open>Input files\<close>

definition setup_shm :: "'a afl_main_scheme \<Rightarrow> 'a afl_main_scheme" where
  "setup_shm s =
     (let s1 = (if in_bitmap s then s else s\<lparr>virgin_bits := replicate MAP_SIZE 255\<rparr>)
      in s1\<lparr>virgin_tmout := replicate MAP_SIZE 255, virgin_crash := replicate MAP_SIZE 255, trace_bits := replicate MAP_SIZE 0\<rparr>)"

definition read_testcase :: "string \<times> bool \<Rightarrow> 'a afl_main_scheme \<Rightarrow> 'a afl_main_scheme option" where
  "read_testcase = (\<lambda>(d_name, is_reg) s.
     let fn = in_dir s @ ''/'' @ d_name; dfn = in_dir s @ ''/.state/deterministic_done/'' @ d_name in
     if \<not> is_reg then Some s
     else (case files s fn of
             None \<Rightarrow> None
           | Some c \<Rightarrow>
               if c = [] \<or> strstr fn ''/README.testcases'' \<noteq> None then Some s
               else if length c > MAX_FILE then None
               else Some (add_to_queue fn (length c) (files s dfn \<noteq> None) s)))"

definition read_testcases :: "'a afl_main_scheme \<Rightarrow> 'a afl_main_scheme option" where
  "read_testcases s = do {
     let fn = in_dir s @ ''/queue'';
     let s1 = (if scandir s fn \<noteq> None \<or> files s fn \<noteq> None then s\<lparr>in_dir := fn\<rparr> else s);
     nl \<leftarrow> scandir s1 (in_dir s1);
     (stop, nl', s2) \<leftarrow> (if shuffle_queue s1 \<and> length nl > 1 then shuffle_ptrs nl s1 else Some (False, nl, s1));
     s3 \<leftarrow> foldM read_testcase nl' s2;
     (if queued_paths s3 = 0 then None else Some (s3\<lparr>last_path_time := 0, queued_at_start := queued_paths s3\<rparr>)) }"

text \<open>A hard link, or else a copy: either needs the old file, and neither replaces an existing one.\<close>

definition link_or_copy :: "string \<Rightarrow> string \<Rightarrow> 'a afl_main_scheme \<Rightarrow> 'a afl_main_scheme option" where
  "link_or_copy old_path new_path s = (case files s old_path of None \<Rightarrow> None | Some c \<Rightarrow> create_excl new_path c s)"

text \<open>The depth of a resumed entry: one more than that of the parent its name mentions.\<close>

definition pivot_depth :: "nat \<Rightarrow> string \<Rightarrow> 'a afl_main_scheme \<Rightarrow> 'a afl_main_scheme" where
  "pivot_depth q rest s =
     (case dropWhile (\<lambda>c. c \<noteq> CHR '':'') rest of
        [] \<Rightarrow> s
      | _ # src_str \<Rightarrow>
          (case sscanf_06u src_str of
             None \<Rightarrow> s
           | Some src_id \<Rightarrow>
               (let s1 = (if unat src_id < length (queue s)
                          then upd_entry q (\<lambda>e. e\<lparr>depth := depth (queue s ! unat src_id) + 1\<rparr>) s else s)
                in if max_depth s1 < depth (queue s1 ! q) then s1\<lparr>max_depth := depth (queue s1 ! q)\<rparr> else s1)))"

definition pivot_input :: "nat \<Rightarrow> 'a afl_main_scheme \<Rightarrow> 'a afl_main_scheme option" where
  "pivot_input q s = do {
     let old = fname (queue s ! q);
     let rsl = (case after_last_slash old of None \<Rightarrow> old | Some r \<Rightarrow> r);
     let (nfn, s1) =
       (if take 3 rsl = ''id:'' \<and> sscanf_06u (drop 3 rsl) = Some (of_nat q)
        then (out_dir s @ ''/queue/'' @ rsl, pivot_depth q (drop 3 rsl) (s\<lparr>resuming_fuzz := True\<rparr>))
        else (let use_name = (case strstr rsl '',orig:'' of None \<Rightarrow> rsl | Some r \<Rightarrow> drop 6 r)
              in (out_dir s @ ''/queue/id:'' @ pad0 6 q @ '',orig:'' @ use_name, s)));
     s2 \<leftarrow> link_or_copy old nfn s1;
     let s3 = upd_entry q (\<lambda>e. e\<lparr>fname := nfn\<rparr>) s2;
     (if passed_det (queue s3 ! q) then mark_as_det_done q s3 else Some s3) }"

definition pivot_inputs :: "'a afl_main_scheme \<Rightarrow> 'a afl_main_scheme option" where
  "pivot_inputs s = foldM pivot_input [0 ..< length (queue s)] s"

section \<open>Resumption\<close>

text \<open>The number after a label in the statistics file of the session that is resumed.\<close>

definition stats_number :: "u8 list \<Rightarrow> 'a afl_main_scheme \<Rightarrow> u32 option" where
  "stats_number label s =
     (if \<not> resuming_fuzz s then None
      else (case files s (in_dir s @ ''/../fuzzer_stats'') of
              None \<Rightarrow> None
            | Some c \<Rightarrow> (case strstr (takeWhile (\<lambda>b. b \<noteq> 0) (take 4095 c)) label of
                           None \<Rightarrow> None
                         | Some off \<Rightarrow> Some (of_int (atoi (drop 20 off))))))"

abbreviation bytes_of :: "string \<Rightarrow> u8 list" where
  "bytes_of \<equiv> map of_char"

definition find_start_position :: "'a afl_main_scheme \<Rightarrow> nat" where
  "find_start_position s =
     (case stats_number (bytes_of ''cur_path          : '') s of
        None \<Rightarrow> 0 | Some ret \<Rightarrow> if unat ret \<ge> queued_paths s then 0 else unat ret)"

definition find_timeout :: "'a afl_main_scheme \<Rightarrow> 'a afl_main_scheme" where
  "find_timeout s =
     (case stats_number (bytes_of ''exec_timeout      : '') s of
        None \<Rightarrow> s | Some ret \<Rightarrow> if ret \<le> 4 then s else s\<lparr>exec_tmout := unat ret, timeout_given := 3\<rparr>)"

section \<open>Dry run\<close>

definition skip_dry :: "nat \<Rightarrow> nat \<times> 'a afl_main_scheme \<Rightarrow> (bool \<times> nat \<times> 'a afl_main_scheme) option" where
  "skip_dry q = (\<lambda>(cal_failures, s). Some (False, cal_failures + 1, upd_entry q (\<lambda>e. e\<lparr>cal_failed := CAL_CHANCES\<rparr>) s))"

definition dry_run :: "nat \<Rightarrow> nat \<times> 'a afl_main_scheme \<Rightarrow> (bool \<times> nat \<times> 'a afl_main_scheme) option" where
  "dry_run q = (\<lambda>(cal_failures, s). do {
     use_mem \<leftarrow> read_file (fname (queue s ! q)) (len (queue s ! q)) s;
     (res, s1) \<leftarrow> calibrate_case q use_mem 0 True s;
     (if stop_soon s1 then Some (True, cal_failures, s1)
      else (case res of
              FAULT_NONE \<Rightarrow> if crash_mode s1 \<noteq> FAULT_NONE then None else Some (False, cal_failures, s1)
            | FAULT_TMOUT \<Rightarrow> if timeout_given s1 > 1 then skip_dry q (cal_failures, s1) else None
            | FAULT_CRASH \<Rightarrow> if crash_mode s1 \<noteq> FAULT_NONE then Some (False, cal_failures, s1)
                             else if skip_crashes s1 then skip_dry q (cal_failures, s1) else None
            | FAULT_ERROR \<Rightarrow> None
            | FAULT_NOINST \<Rightarrow> None
            | FAULT_NOBITS \<Rightarrow> Some (False, cal_failures, s1\<lparr>useless_at_start := useless_at_start s1 + 1\<rparr>))) })"

definition perform_dry_run :: "'a afl_main_scheme \<Rightarrow> 'a afl_main_scheme option" where
  "perform_dry_run s = do {
     (stop, cal_failures, s1) \<leftarrow> for_each dry_run [0 ..< length (queue s)] (0, s);
     (if \<not> stop \<and> cal_failures \<noteq> 0 \<and> cal_failures = queued_paths s1 then None else Some s1) }"

text \<open>The settings that \<open>show_init_stats\<close> derives from the calibration. The timeout is a 32-bit value, the
  times it is computed from have 64 bits.\<close>

definition init_tmout :: "u64 \<Rightarrow> u64 \<Rightarrow> u32" where
  "init_tmout avg_us max_us =
     (let t0 = ucast ((if avg_us > 50000 then avg_us * 2 else if avg_us > 10000 then avg_us * 3 else avg_us * 5) div 1000) :: u32;
          t1 = ucast (max (ucast t0) (max_us div 1000)) :: u32;
          t2 = (t1 + of_nat EXEC_TM_ROUND) div of_nat EXEC_TM_ROUND * of_nat EXEC_TM_ROUND
      in if t2 > of_nat EXEC_TIMEOUT then of_nat EXEC_TIMEOUT else t2)"

definition show_init_stats :: "'a afl_main_scheme \<Rightarrow> 'a afl_main_scheme" where
  "show_init_stats s =
     (let avg_us = (if total_cal_cycles s \<noteq> 0 then total_cal_us s div total_cal_cycles s else 0);
          max_us = fold (\<lambda>e m. max m (exec_us e)) (queue s) 0;
          s1 = s\<lparr>havoc_div := (if avg_us > 50000 then 10 else if avg_us > 20000 then 5 else if avg_us > 10000 then 2 else havoc_div s)\<rparr>;
          s2 = (if timeout_given s1 = 0 then s1\<lparr>exec_tmout := unat (init_tmout avg_us max_us), timeout_given := 1\<rparr> else s1)
      in if dumb_mode s2 \<and> \<not> hang_tmout_given s2
         then s2\<lparr>hang_tmout := min EXEC_TIMEOUT (unat (of_nat (exec_tmout s2) * 2 + 100 :: u32))\<rparr> else s2)"

section \<open>Importing from other fuzzers\<close>

text \<open>Running a test case of another fuzzer; \<^const>\<open>True\<close> ends the import.\<close>

definition import_case :: "string \<Rightarrow> u8 list \<Rightarrow> 'a afl_main_scheme \<Rightarrow> (bool \<times> 'a afl_main_scheme) option" where
  "import_case party mem s = do {
     s1 \<leftarrow> write_to_testcase mem (length mem) s;
     (fault, s2) \<leftarrow> run_target (exec_tmout s1) s1;
     (if stop_soon s2 then Some (True, s2)
      else do {
        (k, s3) \<leftarrow> save_if_interesting mem fault (s2\<lparr>syncing_party := Some party\<rparr>);
        let s4 = s3\<lparr>queued_imported := queued_imported s3 + of_bool k, syncing_party := None, stage_cur := stage_cur s3 + 1\<rparr>;
        Some (False, if stage_cur s3 mod int (stats_update_freq s3) = 0 then show_stats s4 else s4) }) }"

definition case_id :: "string \<Rightarrow> u32 option" where
  "case_id d_name = (if take 1 d_name = ''.'' \<or> take 3 d_name \<noteq> ''id:'' then None else sscanf_06u (drop 3 d_name))"

text \<open>One file of the queue of another fuzzer; the state carries the bound for the next time.\<close>

definition sync_case :: "string \<Rightarrow> u32 \<Rightarrow> string \<times> u8 list option \<Rightarrow> u32 \<times> 'a afl_main_scheme \<Rightarrow>
    (bool \<times> u32 \<times> 'a afl_main_scheme) option" where
  "sync_case party min_accept = (\<lambda>(d_name, content) (next_min, s).
     case case_id d_name of
       None \<Rightarrow> Some (False, next_min, s)
     | Some cid \<Rightarrow>
         (let s1 = s\<lparr>syncing_case := unat cid\<rparr>; next' = (if cid \<ge> next_min then cid + 1 else next_min) in
          if cid < min_accept then Some (False, next_min, s1)
          else (case content of
                  None \<Rightarrow> Some (False, next', s1)
                | Some mem \<Rightarrow>
                    if mem = [] \<or> length mem > MAX_FILE then Some (False, next', s1)
                    else map_option (\<lambda>(stop, t). (stop, next', t)) (import_case party mem s1))))"

definition synced_path :: "string \<Rightarrow> 'a afl_main_scheme \<Rightarrow> string" where
  "synced_path party s = out_dir s @ ''/.synced/'' @ party"

text \<open>The four bytes of the bound; a file that is too short leaves the upper bytes zero.\<close>

definition synced_bound :: "string \<Rightarrow> 'a afl_main_scheme \<Rightarrow> u32" where
  "synced_bound party s = (case files s (synced_path party s) of None \<Rightarrow> 0 | Some c \<Rightarrow> load_le (take 4 c))"

definition write_bound :: "string \<Rightarrow> u32 \<Rightarrow> 'a afl_main_scheme \<Rightarrow> 'a afl_main_scheme" where
  "write_bound party b s =
     s\<lparr>files := (files s)(synced_path party s \<mapsto>
        store_le 4 b @ drop 4 (case files s (synced_path party s) of None \<Rightarrow> [] | Some c \<Rightarrow> c))\<rparr>"

definition sync_peer :: "string \<times> peer_queue option \<Rightarrow> 'a afl_main_scheme \<Rightarrow> (bool \<times> 'a afl_main_scheme) option" where
  "sync_peer = (\<lambda>(d_name, qd) s.
     if take 1 d_name = ''.'' \<or> sync_id s = Some d_name then Some (False, s)
     else (case qd of
        None \<Rightarrow> Some (False, s)
      | Some entries \<Rightarrow> do {
          let min_accept = synced_bound d_name s;
          let s1 = (if files s (synced_path d_name s) = None then s\<lparr>files := (files s)(synced_path d_name s \<mapsto> [])\<rparr> else s);
          (stop, next_min, s2) \<leftarrow> for_each (sync_case d_name min_accept) entries (min_accept, s1\<lparr>stage_cur := 0, stage_max := 0\<rparr>);
          Some (if stop then (True, s2) else (False, write_bound d_name next_min s2)) }))"

definition sync_fuzzers :: "'a afl_main_scheme \<Rightarrow> 'a afl_main_scheme option" where
  "sync_fuzzers s = map_option snd
     (for_each sync_peer (sync_src s (sync_pos s)) (s\<lparr>sync_pos := sync_pos s + 1, stage_max := 0, stage_cur := 0, cur_depth := 0\<rparr>))"

section \<open>The main loop\<close>

text \<open>Entering a queue cycle, when there is no current entry.\<close>

definition start_cycle :: "main_locals \<times> 'a afl_main_scheme \<Rightarrow> (main_locals \<times> 'a afl_main_scheme) option" where
  "start_cycle = (\<lambda>(m, s).
     if seek_to m \<ge> length (queue s) then None
     else do {
       let s1 = s\<lparr>queue_cycle := queue_cycle s + 1, current_entry := seek_to m, cur_skipped_paths := 0, queue_cur := seek_to m\<rparr>;
       let s2 = show_stats s1;
       let s3 = (if queued_paths s2 = prev_queued m
                 then (if use_splicing s2 then s2\<lparr>cycles_wo_finds := cycles_wo_finds s2 + 1\<rparr> else s2\<lparr>use_splicing := True\<rparr>)
                 else s2\<lparr>cycles_wo_finds := 0\<rparr>);
       let m1 = m\<lparr>cur_null := False, seek_to := 0, prev_queued := queued_paths s3\<rparr>;
       s4 \<leftarrow> (if sync_id s3 \<noteq> None \<and> queue_cycle s3 = 1 \<and> import_first s3 then sync_fuzzers s3 else Some s3);
       Some (m1, s4) })"

definition next_entry :: "main_locals \<times> 'a afl_main_scheme \<Rightarrow> main_locals \<times> 'a afl_main_scheme" where
  "next_entry = (\<lambda>(m, s).
     let s1 = s\<lparr>current_entry := current_entry s + 1\<rparr>
     in if queue_cur s + 1 < length (queue s) then (m, s1\<lparr>queue_cur := queue_cur s + 1\<rparr>) else (m\<lparr>cur_null := True\<rparr>, s1))"

definition sync_due :: "nat \<Rightarrow> main_locals \<times> 'a afl_main_scheme \<Rightarrow> (main_locals \<times> 'a afl_main_scheme) option" where
  "sync_due skipped_fuzz = (\<lambda>(m, s).
     if \<not> stop_soon s \<and> sync_id s \<noteq> None \<and> skipped_fuzz = 0
     then map_option (Pair (m\<lparr>sync_interval_cnt := sync_interval_cnt m + 1\<rparr>))
            (if sync_interval_cnt m mod SYNC_INTERVAL = 0 then sync_fuzzers s else Some s)
     else Some (m, s))"

text \<open>One pass through the loop; \<^const>\<open>True\<close> leaves it.\<close>

definition main_round :: "main_locals \<times> 'a afl_main_scheme \<Rightarrow> (bool \<times> main_locals \<times> 'a afl_main_scheme) option" where
  "main_round = (\<lambda>(m, s). do {
     s1 \<leftarrow> cull_queue s;
     (m2, s2) \<leftarrow> (if cur_null m then start_cycle (m, s1) else Some (m, s1));
     (skipped_fuzz, s3) \<leftarrow> fuzz_one s2;
     (m4, s4) \<leftarrow> sync_due skipped_fuzz (m2, s3);
     let s5 = (if \<not> stop_soon s4 \<and> exit_1 m4 then s4\<lparr>stop_soon := True\<rparr> else s4);
     Some (if stop_soon s5 then (True, m4, s5) else (False, next_entry (m4, s5))) })"

primrec main_rounds :: "nat \<Rightarrow> main_locals \<times> 'a afl_main_scheme \<Rightarrow> (bool \<times> main_locals \<times> 'a afl_main_scheme) option" where
  "main_rounds 0 ms = Some (False, ms)"
| "main_rounds (Suc n) ms =
     (case main_round ms of None \<Rightarrow> None | Some (stop, ms') \<Rightarrow> if stop then Some (True, ms') else main_rounds n ms')"

text \<open>From the shared memory to the dry run, and from there to the loop. A session that is stopped in the
  meantime does not enter it (\<^const>\<open>True\<close>).\<close>

definition load_dictionary :: "'a afl_main_scheme \<Rightarrow> 'a afl_main_scheme option" where
  "load_dictionary s =
     (case extras_dir s of
        None \<Rightarrow> Some s
      | Some (d, has_level, dict_level) \<Rightarrow>
          (case load_extras d has_level dict_level (extras s) of Inl e \<Rightarrow> None | Inr es \<Rightarrow> Some (s\<lparr>extras := es\<rparr>)))"

definition load_session :: "'a afl_main_scheme \<Rightarrow> 'a afl_main_scheme option" where
  "load_session s = do {
     s1 \<leftarrow> read_testcases (setup_shm s);
     (stop, s2) \<leftarrow> load_auto s1;
     s3 \<leftarrow> pivot_inputs s2;
     s4 \<leftarrow> load_dictionary s3;
     let s5 = (if timeout_given s4 = 0 then find_timeout s4 else s4);
     let (t, s6) = get_cur_time s5;
     Some (s6\<lparr>start_time := of_nat t\<rparr>) }"

definition main_start :: "bool \<Rightarrow> 'a afl_main_scheme \<Rightarrow> (bool \<times> main_locals \<times> 'a afl_main_scheme) option" where
  "main_start just_one s = do {
     s1 \<leftarrow> load_session s;
     s2 \<leftarrow> perform_dry_run s1;
     s3 \<leftarrow> cull_queue s2;
     let s4 = show_init_stats s3;
     let m = \<lparr>exit_1 = just_one, prev_queued = 0, sync_interval_cnt = 0, seek_to = find_start_position s4, cur_null = True\<rparr>;
     let s5 = save_auto s4;
     Some (stop_soon s5, m, if stop_soon s5 \<or> not_on_tty s5 then s5 else s5\<lparr>start_time := start_time s5 + 4000\<rparr>) }"

end
