(* ===== verification/Afl_Session_Laws.thy ===== *)
theory Afl_Session_Laws
  imports Afl_Main
begin

text \<open>
  What a session keeps: \<open>fuzz_one\<close> leaves a state fit for the next entry, whatever the target does; so do
  culling, importing and the passes of the main loop; and the start of the session establishes it.
\<close>

section \<open>An entry\<close>

lemma good_silent [simp]:
  "good_for E ix (s\<lparr>subseq_tmouts := n\<rparr>) = good_for E ix s" "good_for E ix (s\<lparr>cur_depth := n\<rparr>) = good_for E ix s"
  "good_for E ix (s\<lparr>cur_skipped_paths := n\<rparr>) = good_for E ix s" "good_for E ix (s\<lparr>trim_execs := n\<rparr>) = good_for E ix s"
  "good_for E ix (s\<lparr>bytes_trim_in := n\<rparr>) = good_for E ix s" "good_for E ix (s\<lparr>bytes_trim_out := n\<rparr>) = good_for E ix s"
  "good_for E ix (s\<lparr>files := fs\<rparr>) = good_for E ix s" "good_for E ix (s\<lparr>pending_favored := pf\<rparr>) = good_for E ix s"
  by (simp_all add: good_defs)

lemma good_frame: "good_for E ix s \<Longrightarrow> frame s t \<Longrightarrow> good_for E ix t"
  by (blast intro: good_grow frame_grow)

lemma good_maps: "good_for E ix s \<Longrightarrow> maps_ok s" "good_for E ix s \<Longrightarrow> ix < length (queue s)" "good_for E ix s \<Longrightarrow> queue_cur s = ix"
  by (simp_all add: good_for_def)

lemma frame_len:
  assumes "frame s t" "q < length (queue s)"
  shows "len (queue t ! q) = len (queue s ! q)"
  using assms by (auto simp: frame_def queue_same_def identity_def)

lemma recalibrate_good:
  assumes "recalibrate in_buf s = Some (left, t)" "good_for E ix s"
  shows "good_for E ix t \<and> len (queue t ! ix) = len (queue s ! ix)"
proof (cases "cal_failed (cur_entry s) = 0")
  case False
  define u where "u = upd_entry (queue_cur s) (\<lambda>e. e\<lparr>exec_cksum := 0\<rparr>) s"
  have u: "good_for E ix u" unfolding u_def by (rule good_upd_entry [OF assms(2)]) simp_all
  have ul: "len (queue u ! ix) = len (queue s ! ix)" by (simp add: u_def upd_entry_def nth_upd)
  obtain res s1 where r: "(if cal_failed (cur_entry s) < CAL_CHANCES
           then calibrate_case (queue_cur s) in_buf (queue_cycle s - 1) False u else Some (FAULT_TMOUT, s)) = Some (res, s1)"
    and t: "t = s1 \<or> t = s1\<lparr>cur_skipped_paths := cur_skipped_paths s1 + 1\<rparr>"
    using assms(1) False by (auto simp: recalibrate_def u_def split: bind_splits if_splits)
  have "good_for E ix s1 \<and> len (queue s1 ! ix) = len (queue s ! ix)"
  proof (cases "cal_failed (cur_entry s) < CAL_CHANCES")
    case True
    then have f: "frame u s1" using r good_maps [OF u] good_maps [OF assms(2)] by (auto intro: frame_calibrate_case)
    then show ?thesis using good_frame [OF u f] frame_len [OF f good_maps(2) [OF u]] ul by simp
  qed (use r assms(2) in simp)
  then show ?thesis using t by auto
qed (use assms in \<open>auto simp: recalibrate_def\<close>)

definition trims :: "extra_data list \<Rightarrow> nat \<Rightarrow> trim_state \<times> 'a afl_stage_scheme \<Rightarrow> bool" where
  "trims E ix = (\<lambda>(t, s). good_for E ix s \<and> 4 \<le> len (queue s ! ix) \<and> trim_buf t \<noteq> [] \<and>
     (needs_write t \<longrightarrow> length (clean_trace t) = MAP_SIZE))"

lemma length_memmove: "memmove b d s n = Some c \<Longrightarrow> length c = length b"
  by (auto simp: memmove_def split: if_splits)

lemma trim_keep_trims:
  assumes "trim_keep ix av (t, s) = Some (t', s')" "trims E ix (t, s)" "4 \<le> len (queue s ! ix) - av"
  shows "trims E ix (t', s')" "remove_pos t' = remove_pos t"
proof -
  define s1 where "s1 = upd_entry ix (\<lambda>e. e\<lparr>len := len (queue s ! ix) - av\<rparr>) s"
  have g: "good_for E ix s" "trim_buf t \<noteq> []" "needs_write t \<longrightarrow> length (clean_trace t) = MAP_SIZE" using assms(2) by (auto simp: trims_def)
  have "good_for E ix s1" unfolding s1_def by (rule good_upd_entry [OF g(1)]) simp_all
  moreover have "len (queue s1 ! ix) = len (queue s ! ix) - av" using good_maps(2) [OF g(1)] by (simp add: s1_def upd_entry_def)
  moreover obtain buf where "s' = s1" "length buf = length (trim_buf t)" "trim_buf t' = buf" "remove_pos t' = remove_pos t"
    "clean_trace t' = (if needs_write t then clean_trace t else trace_bits s)"
    using assms(1) by (auto simp: trim_keep_def Let_def s1_def dest: length_memmove split: bind_splits)
  moreover have "length (trace_bits s) = MAP_SIZE" using good_maps(1) [OF g(1)] by (simp add: maps_ok_def)
  ultimately show "trims E ix (t', s')" "remove_pos t' = remove_pos t" using g assms(3) by (auto simp: trims_def)
qed

lemma trim_step_trims:
  assumes "trim_step ix rl (t, s) = Some (stop, t', s')" "trims E ix (t, s)" "4 \<le> remove_pos t" "remove_pos t < len (queue s ! ix)"
  shows "trims E ix (t', s') \<and> 4 \<le> remove_pos t'"
proof -
  let ?l = "len (queue s ! ix)"
  define av where "av = min rl (?l - remove_pos t)"
  have av: "4 \<le> ?l - av" using assms(3,4) by (auto simp: av_def)
  obtain s1 fault s2 where w: "write_with_gap (trim_buf t) ?l (remove_pos t) av s = Some s1" "run_target (exec_tmout s1) s1 = Some (fault, s2)"
    using assms(1) by (auto simp: trim_step_def Let_def av_def split: bind_splits)
  define s3 where "s3 = s2\<lparr>trim_execs := trim_execs s2 + 1\<rparr>"
  define t1 where "t1 = t\<lparr>trim_fault := fault\<rparr>"
  have "frame s s1" by (rule frame_write_with_gap [OF w(1)])
  also have "frame s1 s2" by (rule frame_run_target [OF w(2)])
  also have "frame s2 s3" by (rule frame_silent) (simp_all add: options_def s3_def)
  finally have f3: "frame s s3" .
  have g: "good_for E ix s" using assms(2) by (simp add: trims_def)
  have l3: "len (queue s3 ! ix) = ?l" by (rule frame_len [OF f3 good_maps(2) [OF g]])
  have tr3: "trims E ix (t1\<lparr>remove_pos := p\<rparr>, s3)" for p using assms(2) good_frame [OF g f3] l3 by (simp add: trims_def t1_def)
  then have tr3': "trims E ix (t1, s3)" by (simp add: trims_def t1_def)
  have st: "trim_step ix rl (t, s) =
     (if stop_soon s3 \<or> fault = FAULT_ERROR then Some (True, t1, s3)
      else do {
        (t2, s4) \<leftarrow> (if hash32 (trace_bits s3) HASH_CONST = exec_cksum (queue s3 ! ix)
                     then trim_keep ix av (t1, s3) else Some (t1\<lparr>remove_pos := remove_pos t1 + rl\<rparr>, s3));
        let s5 = (if trim_exec t2 mod stats_update_freq s4 = 0 then show_stats s4 else s4);
        Some (False, t2\<lparr>trim_exec := trim_exec t2 + 1\<rparr>, s5\<lparr>stage_cur := stage_cur s5 + 1\<rparr>) })"
    unfolding trim_step_def prod.case Let_def av_def [symmetric] by (simp add: w s3_def t1_def)
  show ?thesis
  proof (cases "stop_soon s3 \<or> fault = FAULT_ERROR")
    case True
    then show ?thesis using assms(1,3) st tr3' by (auto simp: t1_def)
  next
    case False
    then obtain t2 s4 where k: "(if hash32 (trace_bits s3) HASH_CONST = exec_cksum (queue s3 ! ix)
        then trim_keep ix av (t1, s3) else Some (t1\<lparr>remove_pos := remove_pos t1 + rl\<rparr>, s3)) = Some (t2, s4)"
      and r: "t' = t2\<lparr>trim_exec := trim_exec t2 + 1\<rparr>"
        "s' = (let s5 = (if trim_exec t2 mod stats_update_freq s4 = 0 then show_stats s4 else s4) in s5\<lparr>stage_cur := stage_cur s5 + 1\<rparr>)"
      using assms(1) st by (auto simp: Let_def split: bind_splits)
    have "trims E ix (t2, s4) \<and> 4 \<le> remove_pos t2"
      using k tr3 trim_keep_trims [OF _ tr3', of av t2 s4] av l3 assms(3) by (auto simp: t1_def split: if_splits)
    then show ?thesis using r good_frame [OF _ frame_show_stats [of s4]] by (auto simp: trims_def Let_def)
  qed
qed

lemma trim_pass_trims:
  assumes "trim_pass n ix rl (t, s) = Some (stop, t', s')" "trims E ix (t, s)" "4 \<le> remove_pos t"
  shows "trims E ix (t', s')"
  using assms
proof (induction n arbitrary: t s)
  case (Suc n)
  show ?case
  proof (cases "remove_pos t < len (queue s ! ix)")
    case True
    then obtain st1 t1 s1 where 1: "trim_step ix rl (t, s) = Some (st1, t1, s1)" using Suc.prems(1) by (auto split: option.splits)
    show ?thesis using trim_step_trims [OF 1 Suc.prems(2,3) True] Suc.prems(1) True 1 Suc.IH [of t1 s1] by (auto split: if_splits)
  qed (use Suc.prems in simp)
qed simp

lemma trim_loop_trims:
  assumes "trim_loop ix rl ts = Some (stop, t', s')" "trims E ix ts"
  shows "trims E ix (t', s')"
  using assms
proof (induction ix rl ts rule: trim_loop.induct)
  case (1 q rl ts)
  obtain t s where ts: "ts = (t, s)" by fastforce
  show ?case
  proof (cases "rl \<ge> max (len_p2 t div TRIM_END_STEPS) TRIM_MIN_BYTES")
    case True
    define t0 s0 where "t0 = t\<lparr>remove_pos := rl\<rparr>" and "s0 = s\<lparr>stage_cur := 0, stage_max := int (len (queue s ! q) div rl)\<rparr>"
    obtain st1 t1 s1 where p: "trim_pass (len (queue s ! q) + 1) q rl (t0, s0) = Some (st1, t1, s1)"
      using 1(2) True by (subst (asm) trim_loop.simps) (auto simp: ts t0_def s0_def split: option.splits)
    have lp: "trim_loop q rl ts = (if st1 then Some (True, t1, s1) else trim_loop q (rl div 2) (t1, s1))"
      using True p by (subst trim_loop.simps) (simp add: ts t0_def s0_def)
    have "trims E q (t0, s0)" using 1(3) by (simp add: ts trims_def t0_def s0_def)
    moreover have "4 \<le> remove_pos t0" using True by (simp add: t0_def trim_consts)
    ultimately have t1: "trims E q (t1, s1)" by (rule trim_pass_trims [OF p])
    show ?thesis
    proof (cases st1)
      case False
      then show ?thesis using True p t1 1(2) lp by (intro 1(1) [of "(st1, t1, s1)" st1 "(t1, s1)"]) (simp_all add: ts t0_def s0_def)
    qed (use 1(2) lp t1 in simp)
  next
    case False
    then show ?thesis using 1(2,3) by (subst (asm) trim_loop.simps) (simp add: ts del: max.bounded_iff)
  qed
qed

lemma good_trace:
  assumes "good_for E ix s" "length tr = MAP_SIZE"
  shows "good_for E ix (s\<lparr>trace_bits := tr\<rparr>)"
  using assms by (simp add: good_defs)

lemma trim_write_good:
  assumes "trim_write ix t s = Some u" "good_for E ix s" "length (clean_trace t) = MAP_SIZE"
  shows "good_for E ix u \<and> len (queue u ! ix) = len (queue s ! ix)"
proof -
  obtain fs where u: "u = update_bitmap_score ix (s\<lparr>files := fs, trace_bits := clean_trace t\<rparr>)"
    using assms(1) by (auto simp: trim_write_def create_excl_def unlink_def Let_def split: bind_splits if_splits option.splits)
  have g: "good_for E ix (s\<lparr>files := fs, trace_bits := clean_trace t\<rparr>)" using good_trace [of E ix "s\<lparr>files := fs\<rparr>"] assms(2,3) by simp
  then have f: "frame (s\<lparr>files := fs, trace_bits := clean_trace t\<rparr>) u" unfolding u by (intro frame_update_bitmap_score good_maps(2))
  show ?thesis using good_frame [OF g f] frame_len [OF f good_maps(2) [OF g]] by simp
qed

lemma trim_case_good:
  assumes "trim_case ix b s = Some (f, b', t)" "good_for E ix s" "0 < len (queue s ! ix)" "b \<noteq> []"
  shows "good_for E ix t \<and> 0 < len (queue t ! ix) \<and> b' \<noteq> []"
proof (cases "len (queue s ! ix) < 5")
  case True
  then show ?thesis using assms by (simp add: trim_case_def)
next
  case False
  define s1 where "s1 = s\<lparr>bytes_trim_in := bytes_trim_in s + len (queue s ! ix)\<rparr>"
  obtain p2 stop t1 s2 s3 where l: "trim_loop ix (max (p2 div TRIM_START_STEPS) TRIM_MIN_BYTES)
      (\<lparr>remove_pos = 0, len_p2 = p2, needs_write = False, clean_trace = [], trim_buf = b, trim_exec = 0, trim_fault = FAULT_NONE\<rparr>, s1) = Some (stop, t1, s2)"
    and w: "(if \<not> stop \<and> needs_write t1 then trim_write ix t1 s2 else Some s2) = Some s3"
    and t: "b' = trim_buf t1" "t = s3\<lparr>bytes_trim_out := bytes_trim_out s3 + len (queue s3 ! ix)\<rparr>"
    using assms(1) False by (auto simp: trim_case_def s1_def Let_def split: bind_splits)
  have "trims E ix (t1, s2)" using assms(2,4) False by (intro trim_loop_trims [OF l]) (simp add: trims_def s1_def)
  then have k: "good_for E ix s2" "4 \<le> len (queue s2 ! ix)" "trim_buf t1 \<noteq> []" "needs_write t1 \<longrightarrow> length (clean_trace t1) = MAP_SIZE"
    by (simp_all add: trims_def)
  then have "good_for E ix s3 \<and> len (queue s3 ! ix) = len (queue s2 ! ix)"
    using w trim_write_good [of ix t1 s2 s3 E] by (auto split: if_splits)
  then show ?thesis using k(2,3) t by simp
qed

lemma trim_entry_good:
  assumes "trim_entry b s = Some (left, b', t)" "good_for E ix s" "0 < len (queue s ! ix)" "b \<noteq> []"
  shows "good_for E ix t \<and> 0 < len (queue t ! ix) \<and> b' \<noteq> []"
proof (cases "dumb_mode s \<or> trim_done (cur_entry s)")
  case False
  then obtain res s1 where c: "trim_case ix b s = Some (res, b', s1)"
    and t: "t = s1\<lparr>cur_skipped_paths := cur_skipped_paths s1 + 1\<rparr> \<or> t = upd_entry (queue_cur s1) (\<lambda>e. e\<lparr>trim_done := True\<rparr>) s1"
    using assms(1) good_maps(3) [OF assms(2)] by (auto simp: trim_entry_def split: bind_splits if_splits)
  note k = trim_case_good [OF c assms(2-4)]
  have "good_for E ix (upd_entry (queue_cur s1) (\<lambda>e. e\<lparr>trim_done := True\<rparr>) s1)" using k by (intro good_upd_entry) simp_all
  then show ?thesis using k t by (auto simp: upd_entry_def nth_upd)
qed (use assms in \<open>auto simp: trim_entry_def\<close>)

lemma abandon_entry_good:
  assumes "abandon_entry r s = (v, t)" "good_for E ix s"
  shows "good_for E ix t"
proof -
  have q: "queue_cur s < length (queue s)" "pending_inv s" using assms(2) by (simp_all add: good_for_def books_ok_def)
  from abandon_entry_spec [OF q assms(1)] have p: "pending_inv t" by simp
  define u where "u = s\<lparr>splicing_with := -1\<rparr>"
  define g where "g = (\<lambda>e :: queue_entry. if \<not> stop_soon s \<and> cal_failed (cur_entry s) = 0 \<and> \<not> was_fuzzed (cur_entry s) then e\<lparr>was_fuzzed := True\<rparr> else e)"
  obtain pn pf where t: "t = (upd_entry (queue_cur s) g u)\<lparr>pending_not_fuzzed := pn, pending_favored := pf\<rparr>"
  proof (cases "\<not> stop_soon s \<and> cal_failed (cur_entry s) = 0 \<and> \<not> was_fuzzed (cur_entry s)")
    case True
    then have "t = (upd_entry (queue_cur s) g u)\<lparr>pending_not_fuzzed := pending_not_fuzzed s - 1,
        pending_favored := (if favored (cur_entry s) then pending_favored s - 1 else pending_favored s)\<rparr>"
      using assms(1) by (auto simp: abandon_entry_def u_def g_def Let_def upd_entry_def)
    then show thesis by (rule that)
  next
    case False
    have "t = u" using assms(1) False unfolding abandon_entry_def Let_def u_def by (simp split: if_splits)
    moreover have "g = (\<lambda>e. e)" using False by (intro ext) (simp only: g_def if_False)
    ultimately have "t = (upd_entry (queue_cur s) g u)\<lparr>pending_not_fuzzed := pending_not_fuzzed u, pending_favored := pending_favored u\<rparr>"
      by (simp add: upd_entry_def)
    then show thesis by (rule that)
  qed
  have u: "good_for E ix u" using assms(2) by (simp add: good_defs u_def)
  then have "refs_inv (upd_entry (queue_cur s) g u)" by (intro refs_upd_entry) (simp_all add: g_def good_for_def books_ok_def)
  then have "refs_inv t" by (simp add: t rating_inv_for_def slots_def)
  moreover have "skip_inv t" using u by (auto simp: t good_for_def skip_inv_def upd_entry_def nth_upd g_def)
  ultimately show ?thesis
    using u p by (simp add: good_for_def books_ok_def) (simp add: t maps_ok_def caps_ok_def autos_ok_def auto_ok_for_def upd_entry_def)
qed

lemma fuzz_one_good:
  assumes "fuzz_one s = Some (r, t)" "good_for E ix s"
  shows "good_for E ix t"
proof -
  obtain skip s1 where k: "skip_entry s = Some (skip, s1)" using assms(1) by (auto simp: fuzz_one_def split: bind_splits)
  have g1: "good_for E ix s1" using skip_entry_odds [of s] k good_same_rest [of s s1 E ix] assms(2) by auto
  show ?thesis
  proof (cases skip)
    case False
    define s2 where "s2 = s1\<lparr>subseq_tmouts := 0, cur_depth := depth (cur_entry s1)\<rparr>"
    have g2: "good_for E ix s2" using g1 by (simp add: s2_def)
    obtain b left s3 where b: "read_file (fname (cur_entry s1)) (len (cur_entry s1)) s1 = Some b"
      and c: "recalibrate b s2 = Some (left, s3)"
      and rest: "(if left then Some (abandon_entry True s3)
         else do {
           (left2, orig_in, s4) \<leftarrow> trim_entry b s3;
           (if left2 then Some (abandon_entry True s4)
            else do { (stop, s5) \<leftarrow> fuzz_stages common_fuzz_stuff orig_in s4; Some (abandon_entry stop s5) }) }) = Some (r, t)"
      using assms(1) k False by (auto simp: fuzz_one_def s2_def Let_def split: bind_splits)
    have bl: "0 < len (queue s2 ! ix)" "b \<noteq> []" using b good_maps(3) [OF g1] by (auto simp: read_file_def s2_def split: option.splits if_splits)
    note g3 = recalibrate_good [OF c g2]
    show ?thesis
    proof (cases left)
      case True
      then have "abandon_entry True s3 = (r, t)" using rest by simp
      then show ?thesis using g3 by (blast intro: abandon_entry_good)
    next
      case False
      then obtain left2 orig s4 where d: "trim_entry b s3 = Some (left2, orig, s4)"
        and rest2: "(if left2 then Some (abandon_entry True s4)
            else do { (stop, s5) \<leftarrow> fuzz_stages common_fuzz_stuff orig s4; Some (abandon_entry stop s5) }) = Some (r, t)"
        using rest by (auto split: bind_splits)
      have g4: "good_for E ix s4" "0 < len (queue s4 ! ix)" "orig \<noteq> []"
        using trim_entry_good [OF d, of E ix] g3 bl by simp_all
      show ?thesis
      proof (cases left2)
        case True
        then have "abandon_entry True s4 = (r, t)" using rest2 by simp
        then show ?thesis using g4(1) by (rule abandon_entry_good)
      next
        case False
        then obtain stop s5 where e: "fuzz_stages common_fuzz_stuff orig s4 = Some (stop, s5)" "abandon_entry stop s5 = (r, t)"
          using rest2 by (auto split: bind_splits)
        have "good_for E ix s5" using cfs.fuzz_stages_ok [OF g4(1) _ g4(3) e(1)] g4(2) good_maps(3) [OF g4(1)] by simp
        then show ?thesis by (rule abandon_entry_good [OF e(2)])
      qed
    qed
  qed (use assms(1) k g1 in \<open>simp add: fuzz_one_def\<close>)
qed

section \<open>Between entries\<close>

text \<open>What holds between two entries, and that a step leaves the place in the queue alone.\<close>

definition sound :: "extra_data list \<Rightarrow> 'a afl_exec_scheme \<Rightarrow> bool" where
  "sound E s \<longleftrightarrow> maps_ok s \<and> skip_inv s \<and> books_ok s \<and> extras s = E \<and> extras_ok E \<and> autos_ok s"

definition stays :: "extra_data list \<Rightarrow> 'a afl_main_scheme \<Rightarrow> 'a afl_main_scheme \<Rightarrow> bool" where
  "stays E s t \<longleftrightarrow> sound E t \<and> length (queue s) \<le> length (queue t) \<and> queue_cur t = queue_cur s \<and> current_entry t = current_entry s \<and>
     queue_cycle t = queue_cycle s"

lemmas sound_defs = sound_def maps_ok_def skip_inv_def autos_ok_def auto_ok_for_def books_ok_def caps_ok_def pending_inv_def
  rating_inv_for_def slots_def

lemma good_sound: "good_for E ix s \<longleftrightarrow> sound E s \<and> 0 < queue_cycle s \<and> queue_cur s = ix \<and> current_entry s = ix \<and> ix < length (queue s)"
  by (auto simp: good_for_def sound_def)

lemma stays_trans: "stays E s t \<Longrightarrow> stays E t u \<Longrightarrow> stays E s u"
  by (auto simp: stays_def)

lemma stays_refl: "sound E s \<Longrightarrow> stays E s s"
  by (simp add: stays_def)

lemma stays_sound: "stays E s t \<Longrightarrow> sound E t"
  by (simp add: stays_def)

lemma sound_grow: "sound E s \<Longrightarrow> grow s t \<Longrightarrow> sound E t"
  by (auto simp: sound_def grow_def options_def books_ok_def autos_ok_def auto_ok_for_def keeps_defs)

lemma stays_grow:
  assumes "sound E s" "grow s t"
  shows "stays E s t"
proof -
  have "afl_exec.more t = afl_exec.more s" "current_entry t = current_entry s" "queue_cycle t = queue_cycle s"
    using assms(2) by (simp_all add: grow_def options_def)
  moreover from this(1) have "queue_cur t = queue_cur s" by (cases s; cases t) simp
  ultimately show ?thesis using sound_grow [OF assms] assms(2) by (simp add: stays_def grow_def)
qed

lemma stays_frame: "sound E s \<Longrightarrow> frame s t \<Longrightarrow> stays E s t"
  by (blast intro: stays_grow frame_grow)

lemma cull_queue_obtain:
  assumes "cull_queue s = Some t"
  obtains qs qf pf sc fs where "t = s\<lparr>queue := qs, queued_favored := qf, pending_favored := pf, score_changed := sc, files := fs\<rparr>"
    "length qs = length (queue s)" "\<And>i. i < length (queue s) \<Longrightarrow> blank_flags (qs ! i) = blank_flags (queue s ! i)"
proof -
  have b: "blank t = blank s" by (rule cull_queue_blank [OF assms])
  have "t = (blank t)\<lparr>queue := queue t, queued_favored := queued_favored t, pending_favored := pending_favored t,
      score_changed := score_changed t, files := files t\<rparr>" by (simp add: blank_def)
  also have "\<dots> = s\<lparr>queue := queue t, queued_favored := queued_favored t, pending_favored := pending_favored t,
      score_changed := score_changed t, files := files t\<rparr>" unfolding b by (simp add: blank_def)
  finally show thesis using that blank_nth [OF b] by blast
qed

lemma blank_flags_eq:
  assumes "blank_flags e = blank_flags d"
  shows "tc_ref e = tc_ref d" "trace_mini e = trace_mini d" "next_100 e = next_100 d" "was_fuzzed e = was_fuzzed d" "len e = len d"
  using arg_cong [OF assms, of tc_ref] arg_cong [OF assms, of trace_mini] arg_cong [OF assms, of next_100]
    arg_cong [OF assms, of was_fuzzed] arg_cong [OF assms, of len] by (simp_all add: blank_flags_def)

lemma cull_queue_stays:
  assumes "cull_queue s = Some t" "sound E s"
  shows "stays E s t"
proof -
  obtain qs qf pf sc fs where t: "t = s\<lparr>queue := qs, queued_favored := qf, pending_favored := pf, score_changed := sc, files := fs\<rparr>"
    and q: "length qs = length (queue s)" "\<And>i. i < length (queue s) \<Longrightarrow> blank_flags (qs ! i) = blank_flags (queue s ! i)"
    using cull_queue_obtain [OF assms(1)] by metis
  note e = blank_flags_eq [OF q(2)]
  have "refs_inv s" using assms(2) by (simp add: sound_def books_ok_def)
  then have "refs_inv t" by (rule rating_inv_flag) (simp_all add: t q(1) e(1,2))
  moreover have "map was_fuzzed qs = map was_fuzzed (queue s)" using q(1) e(4) by (simp add: list_eq_iff_nth_eq)
  then have "pending_inv t" using assms(2) by (simp add: sound_def books_ok_def pending_inv_def unfuzzed_map t)
  moreover have "skip_inv t" using assms(2) q(1) e(3) by (auto simp: sound_def skip_inv_def t)
  ultimately show ?thesis
    using assms(2) by (simp add: stays_def sound_def books_ok_def) (simp add: t q(1) maps_ok_def caps_ok_def autos_ok_def auto_ok_for_def)
qed

section \<open>Importing\<close>

lemma sound_silent [simp]:
  "sound E (s\<lparr>syncing_case := a\<rparr>) = sound E s" "sound E (s\<lparr>syncing_party := p\<rparr>) = sound E s" "sound E (s\<lparr>files := fs\<rparr>) = sound E s"
  "sound E (s\<lparr>stage_cur := x\<rparr>) = sound E s" "sound E (s\<lparr>stage_max := x\<rparr>) = sound E s" "sound E (s\<lparr>cur_depth := d\<rparr>) = sound E s"
  "sound E (s\<lparr>stop_soon := b\<rparr>) = sound E s" "sound E (s\<lparr>current_entry := n\<rparr>) = sound E s"
  "sound E (s\<lparr>queue_cycle := n\<rparr>) = sound E s" "sound E (s\<lparr>cycles_wo_finds := n\<rparr>) = sound E s"
  "sound E (s\<lparr>cur_skipped_paths := n\<rparr>) = sound E s"
  by (simp_all add: sound_defs)

lemma sound_silent_stage [simp]:
  "sound E ((s :: 'a afl_stage_scheme)\<lparr>queue_cur := q\<rparr>) = sound E s" "sound E (s\<lparr>use_splicing := b\<rparr>) = sound E s"
  by (simp_all add: sound_defs)

lemma sound_silent_main [simp]:
  "sound E ((s :: 'a afl_main_scheme)\<lparr>queued_imported := n\<rparr>) = sound E s" "sound E (s\<lparr>sync_pos := n\<rparr>) = sound E s"
  by (simp_all add: sound_defs)

lemma stays_silent:
  assumes "sound E s"
  shows "stays E s (s\<lparr>syncing_case := a\<rparr>)" "stays E s (s\<lparr>syncing_party := p\<rparr>)" "stays E s (s\<lparr>files := fs\<rparr>)"
    "stays E s (s\<lparr>queued_imported := n, syncing_party := p, stage_cur := x\<rparr>)" "stays E s (s\<lparr>stage_cur := x, stage_max := y\<rparr>)"
    "stays E s (s\<lparr>sync_pos := n, stage_max := y, stage_cur := x, cur_depth := d\<rparr>)" "stays E s (s\<lparr>stop_soon := b\<rparr>)"
  using assms by (simp_all add: stays_def)

lemma import_case_stays:
  assumes "import_case party mem s = Some (stop, t)" "sound E s"
  shows "stays E s t"
proof -
  obtain s1 fault s2 where w: "write_to_testcase mem (length mem) s = Some s1" "run_target (exec_tmout s1) s1 = Some (fault, s2)"
    using assms(1) by (auto simp: import_case_def split: bind_splits)
  have "frame s s2" by (rule frame_trans [OF frame_write_to_testcase [OF w(1)] frame_run_target [OF w(2)]])
  then have y2: "stays E s s2" by (rule stays_frame [OF assms(2)])
  show ?thesis
  proof (cases "stop_soon s2")
    case True
    then show ?thesis using assms(1) w y2 by (simp add: import_case_def)
  next
    case False
    define s2' where "s2' = s2\<lparr>syncing_party := Some party\<rparr>"
    have y2': "stays E s s2'" unfolding s2'_def by (rule stays_trans [OF y2 stays_silent(2)]) (rule stays_sound [OF y2])
    obtain k s3 where k: "save_if_interesting mem fault s2' = Some (k, s3)"
      and t: "t = (let s4 = s3\<lparr>queued_imported := queued_imported s3 + of_bool k, syncing_party := None, stage_cur := stage_cur s3 + 1\<rparr>
        in if stage_cur s3 mod int (stats_update_freq s3) = 0 then show_stats s4 else s4)"
      using assms(1) w False by (auto simp: import_case_def s2'_def Let_def split: bind_splits)
    have "grow s2' s3" using stays_sound [OF y2'] by (intro save_if_interesting_grow [OF k]) (simp_all add: sound_def)
    then have y3: "stays E s s3" using y2' stays_grow stays_sound stays_trans by blast
    define s4 where "s4 = s3\<lparr>queued_imported := queued_imported s3 + of_bool k, syncing_party := None, stage_cur := stage_cur s3 + 1\<rparr>"
    have y4: "stays E s s4" unfolding s4_def by (rule stays_trans [OF y3 stays_silent(4)]) (rule stays_sound [OF y3])
    have "stays E s (show_stats s4)" by (rule stays_trans [OF y4 stays_frame]) (rule stays_sound [OF y4], rule frame_show_stats)
    then show ?thesis using y4 unfolding t Let_def s4_def [symmetric] by simp
  qed
qed

lemma sync_case_cases:
  assumes "sync_case party mn f (nm, s) = Some (stop, nm', t)"
  obtains (skip) "t = s \<or> (\<exists>a. t = s\<lparr>syncing_case := a\<rparr>)" "\<not> stop"
  | (run) mem a where "import_case party mem (s\<lparr>syncing_case := a\<rparr>) = Some (stop, t)"
proof -
  obtain dn content where f: "f = (dn, content)" by (cases f)
  have "(t = s \<or> (\<exists>a. t = s\<lparr>syncing_case := a\<rparr>)) \<and> \<not> stop \<or> (\<exists>mem a. import_case party mem (s\<lparr>syncing_case := a\<rparr>) = Some (stop, t))"
  proof (cases "case_id dn")
    case None
    then show ?thesis using assms by (simp add: f sync_case_def)
  next
    case (Some cid)
    have "(t = s\<lparr>syncing_case := unat cid\<rparr> \<and> \<not> stop) \<or> (\<exists>mem. import_case party mem (s\<lparr>syncing_case := unat cid\<rparr>) = Some (stop, t))"
      using assms Some by (cases content) (auto simp: f sync_case_def Let_def split: if_splits)
    then show ?thesis by blast
  qed
  then show thesis using skip run by blast
qed

lemma sync_case_stays:
  assumes "sync_case party mn f (nm, s) = Some (stop, nm', t)" "sound E s"
  shows "stays E s t"
  using assms(1)
proof (cases rule: sync_case_cases)
  case skip
  then show ?thesis using stays_refl [OF assms(2)] stays_silent(1) [OF assms(2)] by auto
next
  case (run mem a)
  have "sound E (s\<lparr>syncing_case := a\<rparr>)" using assms(2) by simp
  from stays_trans [OF stays_silent(1) [OF assms(2)] import_case_stays [OF run this]] show ?thesis .
qed

lemma sync_peer_stays:
  assumes "sync_peer p s = Some (stop, t)" "sound E s"
  shows "stays E s t"
proof -
  obtain dn qd where p: "p = (dn, qd)" by (cases p)
  show ?thesis
  proof (cases "(take 1 dn = ''.'' \<or> sync_id s = Some dn) \<or> qd = None")
    case True
    then show ?thesis using assms stays_refl by (auto simp: p sync_peer_def split: if_splits)
  next
    case False
    then obtain es where qd: "qd = Some es" by auto
    define s1 where "s1 = (if files s (synced_path dn s) = None then s\<lparr>files := (files s)(synced_path dn s \<mapsto> [])\<rparr> else s)"
    define s1' where "s1' = s1\<lparr>stage_cur := 0, stage_max := 0\<rparr>"
    have y1: "stays E s s1" using stays_refl [OF assms(2)] stays_silent(3) [OF assms(2)] by (simp add: s1_def)
    have y1': "stays E s s1'" unfolding s1'_def by (rule stays_trans [OF y1 stays_silent(5)]) (rule stays_sound [OF y1])
    obtain st nm s2 where l: "for_each (sync_case dn (synced_bound dn s)) es (synced_bound dn s, s1') = Some (st, nm, s2)"
      and t: "t = (if st then s2 else write_bound dn nm s2)"
      using assms(1) False by (auto simp: p qd sync_peer_def s1_def s1'_def Let_def split: bind_splits if_splits)
    have "stays E s (snd (nm, s2))"
    proof (rule for_each_inv [OF l])
      show "stays E s (snd (synced_bound dn s, s1'))" using y1' by simp
      show "stays E s (snd b')" if "stays E s (snd b)" "sync_case dn (synced_bound dn s) i b = Some (ab, b')" for i b ab b'
        using that sync_case_stays [of dn _ i "fst b" "snd b" ab "fst b'" "snd b'"] stays_sound stays_trans by (metis prod.collapse)
    qed
    then have y2: "stays E s s2" by simp
    have "stays E s (write_bound dn nm s2)" unfolding write_bound_def
      by (rule stays_trans [OF y2 stays_silent(3)]) (rule stays_sound [OF y2])
    then show ?thesis using y2 t by simp
  qed
qed

lemma sync_fuzzers_stays:
  assumes "sync_fuzzers s = Some t" "sound E s"
  shows "stays E s t"
proof -
  define s1 where "s1 = s\<lparr>sync_pos := sync_pos s + 1, stage_max := 0, stage_cur := 0, cur_depth := 0\<rparr>"
  have y1: "stays E s s1" unfolding s1_def by (rule stays_silent [OF assms(2)])
  obtain st where l: "for_each sync_peer (sync_src s (sync_pos s)) s1 = Some (st, t)"
    using assms(1) by (auto simp: sync_fuzzers_def s1_def)
  show ?thesis by (rule for_each_inv [OF l, of "stays E s"]) (use y1 sync_peer_stays stays_sound stays_trans in blast)+
qed

section \<open>The main loop\<close>

text \<open>Between two passes: the next cycle starts inside the queue, and a current entry is one that can be
  fuzzed.\<close>

definition session_inv :: "extra_data list \<Rightarrow> main_locals \<times> 'a afl_main_scheme \<Rightarrow> bool" where
  "session_inv E = (\<lambda>(m, s). sound E s \<and> seek_to m < length (queue s) \<and>
     (\<not> cur_null m \<longrightarrow> seek_to m = 0 \<and> good_for E (queue_cur s) s))"

text \<open>The entry that the next pass works on.\<close>

definition at_entry :: "main_locals \<times> 'a afl_main_scheme \<Rightarrow> nat" where
  "at_entry = (\<lambda>(m, s). if cur_null m then seek_to m else queue_cur s)"

lemma start_cycle_good:
  assumes "start_cycle (m, s) = Some (m', t)" "sound E s"
  shows "good_for E (seek_to m) t" "\<not> cur_null m'" "seek_to m' = 0"
proof -
  define s1 where "s1 = s\<lparr>queue_cycle := queue_cycle s + 1, current_entry := seek_to m, cur_skipped_paths := 0, queue_cur := seek_to m\<rparr>"
  define s2 where "s2 = show_stats s1"
  define s3 where "s3 = (if queued_paths s2 = prev_queued m
                 then (if use_splicing s2 then s2\<lparr>cycles_wo_finds := cycles_wo_finds s2 + 1\<rparr> else s2\<lparr>use_splicing := True\<rparr>)
                 else s2\<lparr>cycles_wo_finds := 0\<rparr>)"
  have l: "seek_to m < length (queue s)" using assms(1) by (auto simp: start_cycle_def not_le split: if_splits)
  have r: "(if sync_id s3 \<noteq> None \<and> queue_cycle s3 = 1 \<and> import_first s3 then sync_fuzzers s3 else Some s3) = Some t"
    and m: "m' = m\<lparr>cur_null := False, seek_to := 0, prev_queued := queued_paths s3\<rparr>"
    using assms(1) l unfolding start_cycle_def prod.case Let_def s1_def [symmetric] s2_def [symmetric] s3_def [symmetric]
    by (auto split: bind_splits)
  show "\<not> cur_null m'" "seek_to m' = 0" by (simp_all add: m)
  have "sound E s1" using assms(2) by (simp add: s1_def)
  then have y: "stays E s1 s2" unfolding s2_def by (rule stays_frame) (rule frame_show_stats)
  then have y3: "stays E s1 s3" by (auto simp: s3_def stays_def)
  have "t = s3 \<or> sync_fuzzers s3 = Some t" using r by (auto split: if_splits)
  then have "stays E s1 t" using y3 stays_trans [OF y3 sync_fuzzers_stays [OF _ stays_sound [OF y3]]] by auto
  then show "good_for E (seek_to m) t" using l by (simp add: stays_def good_sound s1_def)
qed

lemma good_stays: "good_for E ix s \<Longrightarrow> stays E s t \<Longrightarrow> good_for E ix t"
  by (auto simp: good_sound stays_def)

lemma sync_due_good:
  assumes "sync_due k (m, s) = Some (m', t)" "good_for E ix s"
  shows "good_for E ix t" "cur_null m' = cur_null m" "seek_to m' = seek_to m"
proof -
  have "t = s \<or> sync_fuzzers s = Some t" and "cur_null m' = cur_null m \<and> seek_to m' = seek_to m"
    using assms(1) by (auto simp: sync_due_def split: if_splits)
  then show "good_for E ix t" "cur_null m' = cur_null m" "seek_to m' = seek_to m"
    using assms(2) good_stays sync_fuzzers_stays good_sound by blast+
qed

lemma main_round_inv:
  assumes "main_round (m, s) = Some (stop, m', t)" "session_inv E (m, s)"
  shows "session_inv E (m', t) \<and> (\<not> stop \<longrightarrow>
    (if at_entry (m, s) + 1 < length (queue t) then \<not> cur_null m' \<and> at_entry (m', t) = at_entry (m, s) + 1
     else cur_null m' \<and> at_entry (m', t) = 0 \<and> length (queue t) = at_entry (m, s) + 1))"
proof -
  let ?ix = "at_entry (m, s)"
  obtain s1 m2 s2 k s3 m4 s4 where c: "cull_queue s = Some s1"
    and b: "(if cur_null m then start_cycle (m, s1) else Some (m, s1)) = Some (m2, s2)"
    and f: "fuzz_one s2 = Some (k, s3)" and d: "sync_due k (m2, s3) = Some (m4, s4)"
    and r: "(let s5 = (if \<not> stop_soon s4 \<and> exit_1 m4 then s4\<lparr>stop_soon := True\<rparr> else s4)
      in Some (if stop_soon s5 then (True, m4, s5) else (False, next_entry (m4, s5)))) = Some (stop, m', t)"
    using assms(1) by (auto simp: main_round_def split: bind_splits)
  have so: "sound E s" using assms(2) by (simp add: session_inv_def)
  note y1 = cull_queue_stays [OF c so]
  have g2: "good_for E ?ix s2" "\<not> cur_null m2" "seek_to m2 = 0"
  proof -
    have "good_for E ?ix s2 \<and> \<not> cur_null m2 \<and> seek_to m2 = 0"
    proof (cases "cur_null m")
      case True
      then show ?thesis using b start_cycle_good [of m s1 m2 s2 E] stays_sound [OF y1] by (simp add: at_entry_def)
    next
      case False
      then have "good_for E ?ix s" "seek_to m = 0" using assms(2) by (simp_all add: session_inv_def at_entry_def)
      then show ?thesis using b False good_stays [OF _ y1] by auto
    qed
    then show "good_for E ?ix s2" "\<not> cur_null m2" "seek_to m2 = 0" by simp_all
  qed
  note g4 = sync_due_good [OF d fuzz_one_good [OF f g2(1)]]
  define s5 where "s5 = (if \<not> stop_soon s4 \<and> exit_1 m4 then s4\<lparr>stop_soon := True\<rparr> else s4)"
  have g5: "good_for E ?ix s5" using g4(1) by (simp add: s5_def good_sound)
  have m4: "\<not> cur_null m4" "seek_to m4 = 0" using g4 g2 by simp_all
  have p: "queue_cur s5 = ?ix" "current_entry s5 = ?ix" "?ix < length (queue s5)" "sound E s5" "0 < queue_cycle s5" "queue s5 \<noteq> []" using g5 by (auto simp: good_sound)
  show ?thesis
  proof (cases "stop_soon s5")
    case True
    then have "stop" "m' = m4" "t = s5" using r by (simp_all add: s5_def [symmetric] Let_def)
    then show ?thesis using g5 m4 p by (auto simp: session_inv_def good_sound)
  next
    case False
    then have n: "\<not> stop" "next_entry (m4, s5) = (m', t)" using r by (simp_all add: s5_def [symmetric] Let_def)
    show ?thesis
    proof (cases "?ix + 1 < length (queue s5)")
      case True
      then have "m' = m4" "t = s5\<lparr>current_entry := ?ix + 1, queue_cur := ?ix + 1\<rparr>" using n p by (simp_all add: next_entry_def)
      then show ?thesis using True m4 p n(1) by (simp add: session_inv_def at_entry_def good_sound)
    next
      case False
      then have "m' = m4\<lparr>cur_null := True\<rparr>" "t = s5\<lparr>current_entry := ?ix + 1\<rparr>" using n p by (simp_all add: next_entry_def)
      then show ?thesis using False m4 p n(1) by (auto simp: session_inv_def at_entry_def good_sound)
    qed
  qed
qed

lemma main_rounds_inv:
  assumes "main_rounds n ms = Some (stop, ms')" "session_inv E ms"
  shows "session_inv E ms'"
  using assms
proof (induction n arbitrary: ms)
  case (Suc n)
  obtain st ms1 where r: "main_round ms = Some (st, ms1)" using Suc.prems(1) by (auto split: option.splits)
  have "session_inv E ms1" using main_round_inv [of "fst ms" "snd ms" st "fst ms1" "snd ms1"] r Suc.prems(2) by simp
  then show ?case using Suc.prems(1) r Suc.IH [of ms1] by (auto split: if_splits)
qed simp

section \<open>The start\<close>

text \<open>The globals of a process that has parsed its arguments.\<close>

definition fresh :: "'a afl_main_scheme \<Rightarrow> bool" where
  "fresh s \<longleftrightarrow> queue s = [] \<and> queued_paths s = 0 \<and> pending_not_fuzzed s = 0 \<and> top_rated s = replicate MAP_SIZE None \<and>
     unique_crashes s = 0 \<and> unique_hangs s = 0 \<and> 0 < stats_update_freq s \<and> length (var_bytes s) = MAP_SIZE \<and>
     (in_bitmap s \<longrightarrow> length (virgin_bits s) = MAP_SIZE) \<and> extras s = [] \<and> a_extras s = []"

lemma setup_shm_sound: "fresh s \<Longrightarrow> sound [] (setup_shm s)"
  by (auto simp: fresh_def setup_shm_def sound_defs extras_ok_def unfuzzed_def Let_def)

lemma sound_same_rest: "same_rest s t \<Longrightarrow> sound E s \<Longrightarrow> sound E t \<and> queue t = queue s"
  by (auto simp: same_rest_def sound_defs)

lemma shuffle_ptrs_rest:
  assumes "shuffle_ptrs xs s = Some (stop, ys, t)"
  shows "same_rest s t"
proof -
  have "same_rest s (snd (ys, t))"
  proof (rule for_each_inv [OF assms [unfolded shuffle_ptrs_def], where P = "\<lambda>b. same_rest s (snd b)"])
    show "same_rest s (snd b')" if h: "same_rest s (snd b)" "shuffle_body (length xs) i b = Some (ab, b')" for i b ab b'
    proof -
      obtain r where "UR (length xs - i) (snd b) = Some (r, snd b')"
        using h(2) by (cases b) (auto simp: shuffle_body_def Let_def split: bind_splits if_splits)
      then show ?thesis using h(1) ur.draw_frame same_rest_trans by blast
    qed
  qed simp
  then show ?thesis by simp
qed

lemma read_testcase_sound:
  assumes "read_testcase d s = Some t" "sound E s"
  shows "sound E t"
proof -
  have "t = s \<or> (\<exists>fn l pd. t = add_to_queue fn l pd s)"
    using assms(1) by (auto simp: read_testcase_def Let_def split: prod.splits if_splits option.splits)
  then show ?thesis using assms(2) sound_grow grow_add_to_queue by blast
qed

lemma read_testcases_sound:
  assumes "read_testcases s = Some t" "sound E s"
  shows "sound E t \<and> queue t \<noteq> []"
proof -
  define s1 where "s1 = (if scandir s (in_dir s @ ''/queue'') \<noteq> None \<or> files s (in_dir s @ ''/queue'') \<noteq> None
    then s\<lparr>in_dir := in_dir s @ ''/queue''\<rparr> else s)"
  obtain nl st nl' s2 s3 where sh: "(if shuffle_queue s1 \<and> length nl > 1 then shuffle_ptrs nl s1 else Some (False, nl, s1)) = Some (st, nl', s2)"
    and f: "foldM read_testcase nl' s2 = Some s3"
    and r: "(if queued_paths s3 = 0 then None else Some (s3\<lparr>last_path_time := 0, queued_at_start := queued_paths s3\<rparr>)) = Some t"
    using assms(1) unfolding read_testcases_def Let_def s1_def [symmetric] by (auto split: bind_splits)
  have q: "queued_paths s3 \<noteq> 0" "t = s3\<lparr>last_path_time := 0, queued_at_start := queued_paths s3\<rparr>" using r by (auto split: if_splits)
  have "sound E s1" using assms(2) by (simp add: s1_def sound_defs)
  then have "sound E s2" using sh sound_same_rest shuffle_ptrs_rest by (fastforce split: if_splits)
  then have s3: "sound E s3" by (rule foldM_inv [OF f]) (rule read_testcase_sound)
  moreover have "queue s3 \<noteq> []" using s3 q(1) by (auto simp: sound_def skip_inv_def)
  moreover have "sound E t = sound E s3" "queue t = queue s3" unfolding q(2) by (simp_all add: sound_defs)
  ultimately show ?thesis by simp
qed

lemma maybe_add_auto_sound:
  assumes "maybe_add_auto m s = Some t" "sound E s" "m \<noteq> []"
  shows "sound E t \<and> queue t = queue s"
proof -
  have a: "auto_ok_for False s" "sorted (map extra_len (extras s))" "\<forall>e \<in> set (a_extras s). 0 < extra_len e"
    using assms(2) by (simp_all add: sound_def autos_ok_def extras_ok_def)
  have "autos_ok t" using maybe_add_auto_ok [OF a(1,2), of m] maybe_add_auto_nonempty [OF a(3) assms(3,1)] assms(1)
    by (simp add: autos_ok_def)
  moreover obtain u c es where u: "same_rest s u" "t = u\<lparr>auto_changed := c, a_extras := es\<rparr>" using maybe_add_auto_form [OF assms(1)] by blast
  moreover have "sound E u \<and> queue u = queue s" by (rule sound_same_rest [OF u(1) assms(2)])
  moreover have "maps_ok t = maps_ok u" "skip_inv t = skip_inv u" "books_ok t = books_ok u"
    by (simp_all add: u(2) maps_ok_def skip_inv_def books_ok_def caps_ok_def pending_inv_def rating_inv_for_def slots_def)
  moreover have "extras t = extras u" "queue t = queue u" by (simp_all add: u(2))
  ultimately show ?thesis by (simp add: sound_def)
qed

lemma load_auto_sound:
  assumes "load_auto s = Some (stop, t)" "sound E s"
  shows "sound E t \<and> queue t = queue s"
proof (rule for_each_inv [OF assms(1) [unfolded load_auto_def], where P = "\<lambda>u. sound E u \<and> queue u = queue s"])
  show "sound E s \<and> queue s = queue s" using assms(2) by simp
  show "sound E b' \<and> queue b' = queue s" if b: "sound E b \<and> queue b = queue s" "load_auto_body i b = Some (ab, b')" for i b ab b'
  proof -
    have "b' = b \<or> (\<exists>m. maybe_add_auto m b = Some b' \<and> m \<noteq> [])"
      using b(2) by (auto simp: load_auto_body_def Let_def MIN_AUTO_EXTRA_def split: option.splits if_splits)
    then show ?thesis using b(1) maybe_add_auto_sound by metis
  qed
qed

lemma sound_upd_entry:
  assumes "sound E s" "\<And>e. next_100 (f e) = next_100 e" "\<And>e. tc_ref (f e) = tc_ref e"
    "\<And>e. trace_mini (f e) = trace_mini e" "\<And>e. was_fuzzed (f e) = was_fuzzed e"
  shows "sound E (upd_entry q f s)"
proof -
  have "refs_inv (upd_entry q f s)" using assms(1,3,4) by (intro refs_upd_entry) (simp_all add: sound_def books_ok_def)
  moreover have "pending_inv (upd_entry q f s)"
    using assms(1,5) by (simp add: sound_def books_ok_def pending_inv_def upd_entry_def unfuzzed_same)
  moreover have "skip_inv (upd_entry q f s)"
    using assms(1,2) by (auto simp: sound_def skip_inv_def upd_entry_def nth_upd)
  ultimately show ?thesis
    using assms(1) by (simp add: sound_def books_ok_def maps_ok_def caps_ok_def autos_ok_def auto_ok_for_def upd_entry_def)
qed

lemma length_upd_entry [simp]: "length (queue (upd_entry q f s)) = length (queue s)"
  by (simp add: upd_entry_def)

abbreviation sound_len :: "extra_data list \<Rightarrow> nat \<Rightarrow> 'a afl_exec_scheme \<Rightarrow> bool" where
  "sound_len E n s \<equiv> sound E s \<and> length (queue s) = n"

lemma sound_depth [simp]: "sound E (s\<lparr>max_depth := n\<rparr>) = sound E s" "sound E (s\<lparr>resuming_fuzz := b\<rparr>) = sound E s"
  by (simp_all add: sound_defs)

lemma mark_as_det_done_sound:
  assumes "mark_as_det_done q s = Some t" "sound_len E n s"
  shows "sound_len E n t"
proof -
  obtain fs where t: "t = upd_entry q (\<lambda>e. e\<lparr>passed_det := True\<rparr>) (s\<lparr>files := fs\<rparr>)"
    using assms(1) by (auto simp: mark_as_det_done_def create_excl_def split: bind_splits if_splits)
  have "sound E t" unfolding t by (rule sound_upd_entry) (use assms(2) in simp_all)
  then show ?thesis using assms(2) by (simp add: t)
qed

lemma pivot_depth_sound:
  assumes "sound_len E n s"
  shows "sound_len E n (pivot_depth q r s)"
proof -
  have "sound E (upd_entry q (\<lambda>e. e\<lparr>depth := d\<rparr>) s)" for d by (rule sound_upd_entry) (use assms in simp_all)
  then show ?thesis using assms by (auto simp: pivot_depth_def Let_def split: list.splits option.splits)
qed

lemma pivot_input_sound:
  assumes "pivot_input q s = Some t" "sound_len E n s"
  shows "sound_len E n t"
proof -
  obtain nfn s1 s2 where s1: "s1 = s \<or> (\<exists>r. s1 = pivot_depth q r (s\<lparr>resuming_fuzz := True\<rparr>))"
    and l: "link_or_copy (fname (queue s ! q)) nfn s1 = Some s2"
    and t: "t = upd_entry q (\<lambda>e. e\<lparr>fname := nfn\<rparr>) s2 \<or> mark_as_det_done q (upd_entry q (\<lambda>e. e\<lparr>fname := nfn\<rparr>) s2) = Some t"
    using assms(1) unfolding pivot_input_def Let_def by (auto split: prod.splits bind_splits if_splits)
  have "sound_len E n s1" using s1 pivot_depth_sound [of E "s\<lparr>resuming_fuzz := True\<rparr>" n q] assms(2) by auto
  then have s2: "sound_len E n s2" using l by (auto simp: link_or_copy_def create_excl_def split: option.splits if_splits)
  have "sound E (upd_entry q (\<lambda>e. e\<lparr>fname := nfn\<rparr>) s2)" by (rule sound_upd_entry) (use s2 in simp_all)
  then have "sound_len E n (upd_entry q (\<lambda>e. e\<lparr>fname := nfn\<rparr>) s2)" using s2 by simp
  then show ?thesis using t mark_as_det_done_sound by blast
qed

lemma pivot_inputs_sound:
  assumes "pivot_inputs s = Some t" "sound_len E n s"
  shows "sound_len E n t"
  by (rule foldM_inv [OF assms(1) [unfolded pivot_inputs_def]]) (use assms(2) pivot_input_sound in blast)+

lemma dry_run_sound:
  assumes "dry_run q (c, s) = Some (stop, c', t)" "sound_len E n s" "q < n"
  shows "sound_len E n t"
proof -
  obtain b res s1 where k: "calibrate_case q b 0 True s = Some (res, s1)"
    and t: "t = s1 \<or> t = upd_entry q (\<lambda>e. e\<lparr>cal_failed := CAL_CHANCES\<rparr>) s1 \<or> t = s1\<lparr>useless_at_start := useless_at_start s1 + 1\<rparr>"
    using assms(1) by (auto simp: dry_run_def skip_dry_def split: bind_splits if_splits fault.splits)
  have f: "frame s s1" using assms(2,3) by (intro frame_calibrate_case [OF k]) (simp_all add: sound_def)
  then have s1: "sound_len E n s1" using assms(2) sound_grow [OF _ frame_grow] by (auto simp: frame_def queue_same_def)
  have "sound E (upd_entry q (\<lambda>e. e\<lparr>cal_failed := CAL_CHANCES\<rparr>) s1)" by (rule sound_upd_entry) (use s1 in simp_all)
  moreover have "sound E (s1\<lparr>useless_at_start := m\<rparr>) = sound E s1" for m by (simp add: sound_defs)
  ultimately show ?thesis using t s1 by auto
qed

lemma perform_dry_run_sound:
  assumes "perform_dry_run s = Some t" "sound_len E n s"
  shows "sound_len E n t"
proof -
  obtain st c where l: "for_each dry_run [0 ..< length (queue s)] (0, s) = Some (st, c, t)"
    using assms(1) by (auto simp: perform_dry_run_def split: bind_splits if_splits)
  have "sound_len E n (snd (c, t))"
  proof (rule for_each_inv [OF l, where P = "\<lambda>b. sound_len E n (snd b)"])
    show "sound_len E n (snd (0, s))" using assms(2) by simp
    show "sound_len E n (snd b')" if "i \<in> set [0 ..< length (queue s)]" "sound_len E n (snd b)" "dry_run i b = Some (ab, b')" for i b ab b'
      using that dry_run_sound [of i "fst b" "snd b" ab "fst b'" "snd b'" E n] assms(2) by simp
  qed
  then show ?thesis by simp
qed

lemma show_init_stats_sound [simp]: "sound E (show_init_stats s) = sound E s" "queue (show_init_stats s) = queue s"
    "queued_paths (show_init_stats s) = queued_paths s"
  by (simp_all add: show_init_stats_def Let_def sound_defs)

lemma find_timeout_sound [simp]: "sound E (find_timeout s) = sound E s" "queue (find_timeout s) = queue s"
  by (auto simp: find_timeout_def sound_defs split: option.splits)

lemma find_start_position_less: "0 < queued_paths s \<Longrightarrow> find_start_position s < queued_paths s"
  by (auto simp: find_start_position_def split: option.splits)

text \<open>The user dictionary is loaded after the tokens of an earlier session.\<close>

lemma sound_extras: "sound E s \<Longrightarrow> extras_ok es \<Longrightarrow> sound es (s\<lparr>extras := es\<rparr>)"
  by (simp add: sound_defs)

lemma load_dictionary_sound:
  assumes "load_dictionary s = Some t" "sound_len [] n s"
  shows "\<exists>E. sound_len E n t"
proof (cases "extras_dir s")
  case None
  then show ?thesis using assms by (auto simp: load_dictionary_def)
next
  case (Some x)
  obtain d hl dl where x: "x = (d, hl, dl)" by (cases x)
  obtain es where es: "load_extras d hl dl (extras s) = Inr es" "t = s\<lparr>extras := es\<rparr>"
    using assms(1) by (auto simp: load_dictionary_def Some x split: sum.splits)
  have "extras s = []" "extras_ok []" using assms(2) by (simp_all add: sound_def)
  then have "extras_ok es" using load_extras_ok [OF es(1)] by simp
  then show ?thesis using sound_extras assms(2) es(2) by auto
qed

lemma sound_clock [simp]: "sound E (s\<lparr>start_time := a\<rparr>) = sound E s" "sound E (s\<lparr>time_pos := b\<rparr>) = sound E s"
  by (simp_all add: sound_defs)

lemma load_session_sound:
  assumes "load_session s = Some t" "fresh s"
  obtains E where "sound E t" "queue t \<noteq> []"
proof -
  obtain s1 st s2 s3 s4 where r: "read_testcases (setup_shm s) = Some s1" "load_auto s1 = Some (st, s2)" "pivot_inputs s2 = Some s3"
    "load_dictionary s3 = Some s4"
    and t: "(let (a, u) = get_cur_time (if timeout_given s4 = 0 then find_timeout s4 else s4) in Some (u\<lparr>start_time := of_nat a\<rparr>)) = Some t"
    using assms(1) unfolding load_session_def by (auto simp: Let_def split: bind_splits)
  have s1: "sound [] s1" "queue s1 \<noteq> []" using read_testcases_sound [OF r(1) setup_shm_sound [OF assms(2)]] by simp_all
  define n where "n = length (queue s1)"
  have "sound_len [] n s2" using load_auto_sound [OF r(2) s1(1)] by (simp add: n_def)
  then have "sound_len [] n s3" by (rule pivot_inputs_sound [OF r(3)])
  then obtain E where s4: "sound_len E n s4" using load_dictionary_sound [OF r(4)] by blast
  have "sound E t" "length (queue t) = n" using s4 t by (auto simp: get_cur_time_def split: if_splits)
  moreover from this(2) have "queue t \<noteq> []" using s1(2) unfolding n_def by (metis length_0_conv)
  ultimately show thesis using that by blast
qed

lemma main_start_inv:
  assumes "main_start j s = Some (stop, m, t)" "fresh s"
  shows "session_inv (extras t) (m, t) \<and> cur_null m \<and> (stop \<longleftrightarrow> stop_soon t)"
proof -
  obtain s1 s2 s3 where r: "load_session s = Some s1" "perform_dry_run s1 = Some s2" "cull_queue s2 = Some s3"
    and t: "m = \<lparr>exit_1 = j, prev_queued = 0, sync_interval_cnt = 0, seek_to = find_start_position (show_init_stats s3), cur_null = True\<rparr>"
      "(let s5 = save_auto (show_init_stats s3)
        in (stop_soon s5, if stop_soon s5 \<or> not_on_tty s5 then s5 else s5\<lparr>start_time := start_time s5 + 4000\<rparr>)) = (stop, t)"
    using assms(1) unfolding main_start_def by (auto simp: Let_def split: bind_splits)
  obtain E where s1: "sound E s1" "queue s1 \<noteq> []" by (rule load_session_sound [OF r(1) assms(2)])
  have "sound_len E (length (queue s1)) s2" by (rule perform_dry_run_sound [OF r(2)]) (simp add: s1(1))
  then have s3: "sound E s3" "queue s3 \<noteq> []" using cull_queue_stays [OF r(3), of E] s1(2) by (auto simp: stays_def)
  have "sound E (save_auto (show_init_stats s3))" by (rule sound_grow [OF _ frame_grow [OF frame_save_auto]]) (simp add: s3(1))
  then have st: "sound E t" "queue t = queue s3" "stop \<longleftrightarrow> stop_soon t" using t(2) by (auto simp: Let_def split: if_splits)
  have "queued_paths s3 = length (queue s3)" using s3(1) by (simp add: sound_def skip_inv_def)
  then have "find_start_position (show_init_stats s3) < length (queue s3)"
    using find_start_position_less [of "show_init_stats s3"] s3(2) by simp
  moreover have "E = extras t" using st(1) by (simp add: sound_def)
  ultimately show ?thesis using t(1) st by (simp add: session_inv_def)
qed

end
