(* ===== verification/Afl_Sync_Laws.thy ===== *)
theory Afl_Sync_Laws
  imports Afl_Session_Laws
begin

text \<open>
  Importing from other fuzzers and the settings derived from the dry run: the bound kept for each peer
  passes every case that was looked at, so that an unchanged peer costs no execution; and the timeout
  chosen when none was given.
\<close>

section \<open>The bound of a peer\<close>

lemma sync_case_bound:
  assumes "sync_case party mn (d, c) (nm, s) = Some (stop, nm', t)" "mn \<le> nm" "case_id d \<noteq> Some (- 1)"
  shows "nm \<le> nm' \<and> (\<forall>cid. case_id d = Some cid \<longrightarrow> cid < nm')"
proof (cases "case_id d")
  case None
  then show ?thesis using assms(1) by (simp add: sync_case_def)
next
  case (Some cid)
  have up: "cid < cid + 1" using Some assms(3) inc_less_eq_triv_imp [of cid] linorder_not_le by auto
  have "cid < mn \<and> nm' = nm \<or> \<not> cid < mn \<and> nm' = (if cid \<ge> nm then cid + 1 else nm)"
    using assms(1) Some by (auto simp: sync_case_def Let_def split: if_splits option.splits)
  then show ?thesis using Some up assms(2) by (auto split: if_splits)
qed

lemma sync_cases_bound:
  assumes "for_each (sync_case party mn) es (nm, s) = Some (False, nm', t)" "mn \<le> nm" "\<forall>(d, c) \<in> set es. case_id d \<noteq> Some (- 1)"
  shows "nm \<le> nm' \<and> (\<forall>(d, c) \<in> set es. \<forall>cid. case_id d = Some cid \<longrightarrow> cid < nm')"
  using assms
proof (induction es arbitrary: nm s)
  case (Cons e es)
  obtain d c where e: "e = (d, c)" by (cases e)
  obtain nm1 s1 where c: "sync_case party mn (d, c) (nm, s) = Some (False, nm1, s1)" "for_each (sync_case party mn) es (nm1, s1) = Some (False, nm', t)"
    using Cons.prems(1) by (auto simp: e split: option.splits if_splits)
  have 1: "nm \<le> nm1 \<and> (\<forall>cid. case_id d = Some cid \<longrightarrow> cid < nm1)"
    using Cons.prems(2,3) by (intro sync_case_bound [OF c(1)]) (auto simp: e)
  moreover have "nm1 \<le> nm' \<and> (\<forall>(d, c) \<in> set es. \<forall>cid. case_id d = Some cid \<longrightarrow> cid < nm')"
    using Cons.prems(2,3) 1 by (intro Cons.IH [OF c(2)]) auto
  ultimately show ?case by (auto simp: e)
qed simp

lemma write_bound_simps [simp]: "queue (write_bound party b s) = queue s" "exec_pos (write_bound party b s) = exec_pos s"
  by (simp_all add: write_bound_def)

lemma synced_bound_write: "synced_bound party (write_bound party b s) = b"
  by (simp add: synced_bound_def write_bound_def synced_path_def)

text \<open>What the bound has passed is not run again.\<close>

lemma sync_cases_skip:
  assumes "\<forall>(d, c) \<in> set es. \<forall>cid. case_id d = Some cid \<longrightarrow> cid < mn"
  shows "\<exists>a. for_each (sync_case party mn) es (nm, s) = Some (False, nm, s\<lparr>syncing_case := a\<rparr>)"
  using assms
proof (induction es arbitrary: s)
  case Nil
  show ?case by (rule exI [of _ "syncing_case s"]) simp
next
  case (Cons e es)
  obtain d c where e: "e = (d, c)" by (cases e)
  obtain a where a: "sync_case party mn (d, c) (nm, s) = Some (False, nm, s\<lparr>syncing_case := a\<rparr>)"
  proof (cases "case_id d")
    case None
    then show thesis using that [of "syncing_case s"] by (simp add: sync_case_def)
  next
    case (Some cid)
    then show thesis using that [of "unat cid"] Cons.prems by (simp add: sync_case_def e)
  qed
  obtain a' where "for_each (sync_case party mn) es (nm, s\<lparr>syncing_case := a\<rparr>) = Some (False, nm, s\<lparr>syncing_case := a, syncing_case := a'\<rparr>)"
    using Cons.IH [of "s\<lparr>syncing_case := a\<rparr>"] Cons.prems by auto
  then show ?case by (auto simp: e a)
qed

definition peer_idle :: "string \<times> peer_queue option \<Rightarrow> 'a afl_main_scheme \<Rightarrow> bool" where
  "peer_idle p s \<longleftrightarrow> (\<exists>t. sync_peer p s = Some (False, t) \<and> exec_pos t = exec_pos s \<and> queue t = queue s \<and>
     synced_bound (fst p) t = synced_bound (fst p) s)"

lemma sync_peer_idle:
  assumes "\<forall>es. qd = Some es \<longrightarrow> (\<forall>(d, c) \<in> set es. \<forall>cid. case_id d = Some cid \<longrightarrow> cid < synced_bound party s)"
  shows "peer_idle (party, qd) s"
proof (cases "(take 1 party = ''.'' \<or> sync_id s = Some party) \<or> qd = None")
  case True
  then have "sync_peer (party, qd) s = Some (False, s)" by (auto simp: sync_peer_def)
  then show ?thesis by (simp add: peer_idle_def)
next
  case False
  then obtain es where es: "qd = Some es" by auto
  let ?s = "(if files s (synced_path party s) = None then s\<lparr>files := (files s)(synced_path party s \<mapsto> [])\<rparr> else s)\<lparr>stage_cur := 0, stage_max := 0\<rparr>"
  obtain a where "for_each (sync_case party (synced_bound party s)) es (synced_bound party s, ?s) = Some (False, synced_bound party s, ?s\<lparr>syncing_case := a\<rparr>)"
    using sync_cases_skip [of es "synced_bound party s" party "synced_bound party s" ?s] assms es by auto
  then have "sync_peer (party, qd) s = Some (False, write_bound party (synced_bound party s) (?s\<lparr>syncing_case := a\<rparr>))"
    using False by (simp add: sync_peer_def es Let_def)
  then show ?thesis by (simp add: peer_idle_def synced_bound_write)
qed

lemma sync_peer_bound:
  assumes "sync_peer (party, Some es) s = Some (False, t)" "\<not> (take 1 party = ''.'' \<or> sync_id s = Some party)"
    "\<forall>(d, c) \<in> set es. case_id d \<noteq> Some (- 1)"
  shows "synced_bound party s \<le> synced_bound party t \<and>
    (\<forall>(d, c) \<in> set es. \<forall>cid. case_id d = Some cid \<longrightarrow> cid < synced_bound party t)"
proof -
  let ?s = "(if files s (synced_path party s) = None then s\<lparr>files := (files s)(synced_path party s \<mapsto> [])\<rparr> else s)\<lparr>stage_cur := 0, stage_max := 0\<rparr>"
  obtain nm u where l: "for_each (sync_case party (synced_bound party s)) es (synced_bound party s, ?s) = Some (False, nm, u)"
    and t: "t = write_bound party nm u"
    using assms(1,2) by (auto simp: sync_peer_def Let_def split: bind_splits if_splits)
  show ?thesis using sync_cases_bound [OF l _ assms(3)] by (simp add: t synced_bound_write)
qed

section \<open>The timeout\<close>

definition tmout_ms :: "nat \<Rightarrow> nat \<Rightarrow> nat" where
  "tmout_ms avg_us max_us =
     max ((if avg_us > 50000 then 2 else if avg_us > 10000 then 3 else 5) * avg_us div 1000) (max_us div 1000)"

lemma unat_narrow: "unat x < 2 ^ 32 \<Longrightarrow> unat (ucast x :: u32) = unat x" for x :: u64
  by (simp add: unsigned_ucast_eq take_bit_nat_eq_self)

lemma unat_widen: "unat (ucast x :: u64) = unat x" for x :: u32
proof -
  have "unat x < 2 ^ 32" using unsigned_less [of x, where ?'a = nat] by simp
  then show ?thesis by (simp add: unsigned_ucast_eq take_bit_nat_eq_self_iff)
qed

lemma unat_times_small: "unat x < 2 ^ 32 \<Longrightarrow> k \<le> 5 \<Longrightarrow> unat (x * of_nat k) = unat x * k" for x :: u64
proof -
  assume "unat x < 2 ^ 32" "k \<le> 5"
  then have "unat x * k \<le> 2 ^ 32 * 5" by (intro mult_mono) simp_all
  moreover have "unat (of_nat k :: u64) = k" using \<open>k \<le> 5\<close> by (simp add: unat_of_nat)
  ultimately show ?thesis by (subst unat_mult_lem [THEN iffD1]) simp_all
qed

lemma init_tmout_nat:
  assumes "unat avg_us < 2 ^ 32" "unat max_us < 2 ^ 32"
  shows "unat (init_tmout avg_us max_us) = min 1000 ((tmout_ms (unat avg_us) (unat max_us) div 20 + 1) * 20)"
proof -
  define k where "k = (if avg_us > 50000 then 2 else if avg_us > 10000 then 3 else (5 :: nat))"
  have k: "k \<le> 5" by (simp add: k_def)
  define p where "p = (if avg_us > 50000 then avg_us * 2 else if avg_us > 10000 then avg_us * 3 else avg_us * 5)"
  have "p = avg_us * of_nat k" by (simp add: p_def k_def)
  then have p: "unat p = unat avg_us * k" using unat_times_small [OF assms(1) k] by simp
  have "unat avg_us * k \<le> unat avg_us * 5" using k by simp
  also have "\<dots> \<le> 2 ^ 32 * 5" using assms(1) by simp
  finally have "unat avg_us * k div 1000 \<le> 2 ^ 32 * 5 div 1000" by (rule div_le_mono)
  then have "unat avg_us * k div 1000 < 2 ^ 31" by simp
  moreover have "unat max_us div 1000 < 2 ^ 31" using assms(2) by simp
  ultimately have small: "unat avg_us * k div 1000 < 2 ^ 31" "unat max_us div 1000 < 2 ^ 31" .
  define t0 where "t0 = (ucast (p div 1000) :: u32)"
  have "unat (p div 1000) = unat avg_us * k div 1000" by (simp add: unat_div p)
  then have t0: "unat t0 = unat avg_us * k div 1000" using small(1) unat_narrow [of "p div 1000"] by (simp add: t0_def)
  define t1 where "t1 = (ucast (max (ucast t0) (max_us div 1000) :: u64) :: u32)"
  have "unat (max (ucast t0) (max_us div 1000)) = max (unat avg_us * k div 1000) (unat max_us div 1000)"
    by (simp add: max_def word_le_nat_alt unat_widen t0 unat_div)
  then have t1: "unat t1 = max (unat avg_us * k div 1000) (unat max_us div 1000)"
    using small unat_narrow [of "max (ucast t0) (max_us div 1000)"] by (simp add: t1_def)
  have kk: "k = (if unat avg_us > 50000 then 2 else if unat avg_us > 10000 then 3 else 5)"
    by (simp add: k_def word_less_nat_alt)
  then have "unat t1 = tmout_ms (unat avg_us) (unat max_us)" by (simp add: t1 tmout_ms_def mult.commute)
  moreover have "unat (t1 + 20) = unat t1 + 20" using t1 small by (subst unat_add_lem [THEN iffD1]) simp_all
  then have d: "unat ((t1 + 20) div 20) = unat t1 div 20 + 1" by (simp add: unat_div)
  moreover have "unat t1 < 2 ^ 31" using t1 small by simp
  then have "(unat t1 div 20 + 1) * 20 < 2 ^ 32" by simp
  then have "unat ((t1 + 20) div 20 * 20) = (unat t1 div 20 + 1) * 20"
    using d by (subst unat_mult_lem [THEN iffD1]) simp_all
  ultimately show ?thesis
    unfolding init_tmout_def Let_def p_def [symmetric] t0_def [symmetric] t1_def [symmetric]
    by (simp add: EXEC_TM_ROUND_def EXEC_TIMEOUT_def word_less_nat_alt min_def)
qed

end
