(* ===== verification/Afl_Session_Sample.thy ===== *)
theory Afl_Session_Sample
  imports Afl_Sample Afl_Sync_Laws
begin

text \<open>
  Concrete sessions: one that is under way, on the entry of \<open>sample\<close>, which is about to be skipped because
  favored entries are pending; and one that starts on an input directory with one file, in which the user
  interrupts the dry run.
\<close>

definition running :: afl_main where
  "running = afl_stage.extend (sample\<lparr>pending_favored := 1, score_changed := False\<rparr>)
     (afl_main.fields (\<lambda>d. if d = ''in'' then Some [(''a'', True)] else None) None False False 0 False False 0 1 (Some ''me'') False
       (\<lambda>n. [(''you'', Some [(''id:000003,src:000000'', Some [])])]) 0 0 True)"

definition running_locals :: main_locals where
  "running_locals = \<lparr>exit_1 = False, prev_queued = 1, sync_interval_cnt = 0, seek_to = 0, cur_null = False\<rparr>"

lemmas running_defs = running_def afl_stage.extend_def afl_main.fields_def sample_def

lemma running_simps [simp]:
  "queue running = [sample_entry]" "queue_cur running = 0" "current_entry running = 0" "queue_cycle running = 1"
  "pending_favored running = 1" "score_changed running = False" "random_src running = (\<lambda>n. n)"
  "random_pos running = 0" "rand_cnt running = 5" "dumb_mode running = False"
  "stop_soon running = False" "sync_id running = Some ''me''" "use_splicing running = False" "queued_paths running = 1"
  by (simp_all add: running_defs)

lemma running_sound: "sound (extras sample) running"
proof -
  have "maps_ok running = maps_ok sample" by (simp add: maps_ok_def running_defs)
  moreover have "skip_inv running = skip_inv sample" by (simp add: skip_inv_def running_defs)
  moreover have "refs_inv running = refs_inv sample" by (simp add: rating_inv_for_def slots_def running_defs)
  moreover have "pending_inv running = pending_inv sample" by (simp add: pending_inv_def running_defs)
  moreover have "caps_ok running = caps_ok sample" by (simp add: caps_ok_def running_defs)
  moreover have "autos_ok running = autos_ok sample" by (simp add: autos_ok_def auto_ok_for_def running_defs)
  moreover have "extras running = extras sample" "stats_update_freq running = stats_update_freq sample" by (simp_all add: running_defs)
  moreover have "sound (extras sample) sample" using sample_good by (simp add: good_sound) (simp add: sound_def)
  ultimately show ?thesis by (simp add: sound_def books_ok_def)
qed

lemma running_inv: "session_inv (extras sample) (running_locals, running)"
  using running_sound by (simp add: session_inv_def running_locals_def good_sound)

lemma running_round: "\<exists>m t. main_round (running_locals, running) = Some (False, m, t)"
proof -
  obtain t where k: "skip_entry running = Some (random_src running (random_pos running) mod 100 < skip_odds running, t)" "same_rest running t"
    using skip_entry_odds [of running] by auto
  have "skip_odds running = 99" by (simp add: skip_odds_def sample_entry_def)
  then have "fuzz_one running = Some (1, t)" using k(1) by (simp add: fuzz_one_def)
  moreover have "cull_queue running = Some running" by (simp add: cull_queue_def)
  moreover have "stop_soon t = False" using k(2) by (auto simp: same_rest_def)
  ultimately show ?thesis by (simp add: main_round_def sync_due_def running_locals_def next_entry_def Let_def)
qed

text \<open>The start of a session, and the interrupted run.\<close>

definition starting :: afl_main where
  "starting = running\<lparr>queue := [], queued_paths := 0, queued_with_cov := 0, pending_not_fuzzed := 0, pending_favored := 0, cur_depth := 0, max_depth := 0,
     queue_cycle := 0, extras := [], files := [''in/a'' \<mapsto> [71, 69, 84]], forksrv_pid := 0, fsrv_hello := 7,
     total_cal_us := 0, total_cal_cycles := 0, total_bitmap_size := 0, total_bitmap_entries := 0,
     target := (\<lambda>n inp k. Run \<lparr>status = Signaled 2, child_timed_out = False, raw_trace = [], exec_ms = 1, got_sigint = True, got_sigusr1 = False\<rparr>)\<rparr>"

lemmas starting_defs = starting_def running_defs

lemma starting_fresh: "fresh starting"
  by (simp add: fresh_def starting_defs)

lemmas start_eval = load_session_def read_testcases_def setup_shm_def read_testcase_def add_to_queue_def get_cur_time_def MAX_FILE_def
  new_entry_def load_auto_def USE_AUTO_EXTRAS_def load_auto_body_def pivot_inputs_def pivot_input_def after_last_slash_def
  sscanf_06u_def link_or_copy_def create_excl_def load_dictionary_def find_timeout_def stats_number_def upd_entry_def

definition dry_entry :: queue_entry where
  "dry_entry = new_entry ''out/queue/id:000000,orig:a'' 3 1 False"

lemma pad0_zero: "pad0 6 0 = ''000000''"
  by code_simp

lemma starting_loads:
  "\<exists>s. load_session starting = Some s \<and> queue s = [dry_entry] \<and> files s (fname dry_entry) = Some [71, 69, 84] \<and>
     target s = target starting \<and> fsrv_hello s = 7 \<and> forksrv_pid s = 0 \<and> stop_soon s = False \<and> crash_mode s = FAULT_NONE \<and>
     dumb_mode s = False \<and> no_forkserver s = False \<and> uses_asan s = False \<and> score_changed s = False \<and> fast_cal s = False \<and> auto_changed s = False"
  by (simp add: start_eval starting_defs dry_entry_def pad0_zero upt_rec Let_def)

lemma starting_stops: "\<exists>m t. main_start False starting = Some (True, m, t)"
proof -
  obtain s where s: "load_session starting = Some s" "queue s = [dry_entry]" "files s (fname dry_entry) = Some [71, 69, 84]"
     "target s = target starting" "fsrv_hello s = 7" "forksrv_pid s = 0" "stop_soon s = False" "crash_mode s = FAULT_NONE"
     "dumb_mode s = False" "no_forkserver s = False" "uses_asan s = False" "score_changed s = False" "fast_cal s = False" "auto_changed s = False"
    using starting_loads by blast
  have tg: "target s n b k = Run \<lparr>status = Signaled 2, child_timed_out = False, raw_trace = [], exec_ms = 1, got_sigint = True, got_sigusr1 = False\<rparr>" for n b k
    by (simp add: s(4) starting_def)
  have "\<exists>f t. calibrate_case 0 [71, 69, 84] 0 True s = Some (f, t) \<and> stop_soon t \<and> score_changed t = False \<and> auto_changed t = False"
    by (simp add: calibrate_case_def cal_start_def s(2,3,5-) tg dry_entry_def new_entry_def upd_entry_def use_execve_def init_forkserver_def get_cur_time_us_def
      cal_loop.simps [of _ _ _ _ 0] CAL_CYCLES_def cal_body_def write_to_testcase_def run_target_def run_outcome_def cal_finish_def wexitstatus_def Let_def)
  then obtain f t where c: "calibrate_case 0 [71, 69, 84] 0 True s = Some (f, t)" "stop_soon t" "score_changed t = False" "auto_changed t = False" by blast
  have "read_file (fname dry_entry) (len dry_entry) s = Some [71, 69, 84]"
    using s(3) by (simp add: read_file_def) (simp add: dry_entry_def new_entry_def)
  then have "dry_run 0 (0, s) = Some (True, 0, t)" using c(1,2) by (simp add: dry_run_def s(2))
  then have "perform_dry_run s = Some t" by (simp add: perform_dry_run_def s(2))
  moreover have "cull_queue t = Some t" using c(3) by (simp add: cull_queue_def)
  moreover have k: "auto_changed (show_init_stats t) = auto_changed t" "stop_soon (show_init_stats t) = stop_soon t"
    by (simp_all add: show_init_stats_def Let_def)
  have "save_auto (show_init_stats t) = show_init_stats t" using k(1) c(4) by (simp add: save_auto_def)
  ultimately show ?thesis using k(2) c(2) \<open>save_auto (show_init_stats t) = show_init_stats t\<close> by (simp add: main_start_def s(1) Let_def)
qed

end
