(* ===== verification/Spec2Isabelle.thy ===== *)
theory Spec2Isabelle
  imports Legion_Properties Legion_Corpora Afl_Session_Sample
begin

text \<open>
  A verification of Legion, which runs several fuzzers in rounds and distributes its resources among them by what they
  find, and of the fuzzing core it drives: the American Fuzzy Lop under \<^verbatim>\<open>src/docker/AFL\<close> (\<^verbatim>\<open>afl-fuzz.c\<close>, \<^verbatim>\<open>config.h\<close>,
  \<^verbatim>\<open>types.h\<close>, \<^verbatim>\<open>hash.h\<close>).

  \<^bold>\<open>Legion.\<close> The scheduler (\<^verbatim>\<open>src/legion\<close>) analyses the call graph of the target for deep functions, gives every fuzzer some resource
  units per round by a bandit rule, starts, pauses and resumes their worker processes, moves units from stagnating
  fuzzers to the best one during the round, and afterwards scores the fuzzers by the coverage of their corpora. The
  replay tool (\<^verbatim>\<open>src/instrumentor\<close>) runs the instrumented target on a corpus and reports edges, paths and the functions of the edges.

  \<^bold>\<open>AFL.\<close> AFL keeps a queue of inputs. For each of them \<open>fuzz_one\<close> decides whether to skip it,
  calibrates and trims it, scores it, and then derives test cases from it: first deterministic ones
  (flips, arithmetic, interesting values, dictionary tokens), then random ones (havoc), then random ones
  on a crossover with another entry (splicing). Every test case goes through \<open>common_fuzz_stuff\<close>, which
  executes the target and lets \<open>save_if_interesting\<close> decide, by the coverage bitmap, whether the case is new;
  new ones are calibrated and appended to the queue. The ratings of the queue entries per bitmap index and
  \<open>cull_queue\<close> choose the favored entries, which \<open>fuzz_one\<close> prefers.

  \<^bold>\<open>State.\<close> The globals of \<^verbatim>\<open>afl-fuzz.c\<close> are one record, built by extension along the theories:
  \<open>afl_rng\<close>, \<open>afl_map\<close>, \<open>afl_queue\<close>, \<open>afl_dict\<close>, \<open>afl_exec\<close>, \<open>afl_stage\<close>, \<open>afl_main\<close> (and \<open>main_locals\<close> for the variables of \<open>main\<close>). Bytes and the counters whose
  wrap-around matters are words; buffers are lists of bytes with bounds-checked accesses; the linked list
  of the queue is a list whose indices are the pointers; the output directory is a map from paths to
  contents. Randomness, the clock and the behaviour of the fuzzed program are streams and a function in the
  state about which nothing is assumed, so that the theorems hold for every seed and every target.
  The folders of Legion are another record, \<open>disk\<close>: an association list from paths to directories and files, the paths that cannot be opened, and a
  stream that says which writes are granted; its directories are listed in the order of the list. The commands that Legion runs
  (the replay tool, scripts, copying) are a function \<open>sys\<close> from the command line and the disk to the exit code and the disk, about which
  \<open>pulls\<close>, \<open>replays\<close> and \<open>runs_ok\<close> state what is relied on. What \<^verbatim>\<open>/proc\<close> shows is an arbitrary function of the time.
  \<^const>\<open>None\<close> is the end of the process: a FATAL or PFATAL exit, an access outside a buffer, a division by
  zero, a null pointer, or a loop that does not end.

  \<^bold>\<open>Theories.\<close>
  \<^item> \<open>Prelude\<close>: words, byte swaps, little-endian cells (locale \<open>cell\<close>), \<^verbatim>\<open>memcpy\<close>, \<^verbatim>\<open>memmove\<close>, \<^verbatim>\<open>memset\<close>,
    loops that may stop early (\<open>for_each\<close>, \<open>foldM\<close>).
  \<^item> \<open>Afl_Rng\<close>: \<open>UR\<close>, \<open>shuffle_ptrs\<close>, \<open>choose_block_len\<close>, \<open>locate_diffs\<close>.
  \<^item> \<open>Afl_Bitmap\<close>: \<open>has_new_bits\<close>, the counters, \<open>classify_counts\<close>, \<open>simplify_trace\<close>, \<open>minimize_bits\<close>; the word-wise
    loops equal their byte-wise descriptions.
  \<^item> \<open>Afl_Queue\<close>: \<open>add_to_queue\<close>, the markers, \<open>update_bitmap_score\<close>, \<open>cull_queue\<close>; the invariants \<open>skip_inv\<close>,
    \<open>marker_inv\<close>, \<open>pending_inv\<close>, \<open>refs_inv\<close> (reference counts and compacted traces of the ratings, for every target)
    and \<open>rating_inv\<close> (the compacted traces cover the indices won, for ratings from unchanged traces).
  \<^item> \<open>Afl_Dict\<close>: \<open>load_extras\<close>, \<open>load_extras_file\<close>, \<open>maybe_add_auto\<close>, \<open>save_auto\<close>, \<open>load_auto\<close>.
  \<^item> \<open>Afl_Checks\<close>: \<open>could_be_bitflip\<close>, \<open>could_be_arith\<close>, \<open>could_be_interest\<close>, \<open>next_p2\<close>.
  \<^item> \<open>Afl_Exec\<close>, \<open>Afl_Exec_Laws\<close>: \<open>hash32\<close>, \<open>run_target\<close>, \<open>calibrate_case\<close>, \<open>save_if_interesting\<close>,
    \<open>common_fuzz_stuff\<close>, \<open>trim_case\<close>, \<open>calculate_score\<close>; what a run leaves alone and what it keeps.
  \<^item> \<open>Afl_Trim\<close>: the correctness of \<open>trim_case\<close>.
  \<^item> \<open>Afl_Det\<close>, \<open>Afl_Det_Laws\<close>: the deterministic stages. The stages take the executor as an argument; the
    locale \<open>executor\<close> states what they need of it, the lemmas say which cases each stage hands over, and the
    interpretations \<open>cfs\<close> and \<open>safe\<close> are \<open>common_fuzz_stuff\<close> itself and \<open>common_fuzz_stuff\<close> with the exit of
    the process turned into a request to stop. With the second one the stages are shown never to
    leave their buffers.
  \<^item> \<open>Afl_Havoc\<close>, \<open>Afl_Havoc_Laws\<close>: the seventeen tweaks and the havoc loop, with the same locale and a small
    calculus of weakest preconditions (\<open>ends\<close>).
  \<^item> \<open>Afl_Fuzz_One\<close>, \<open>Afl_Fuzz_One_Laws\<close>: skipping, recalibration, trimming, the sequence of stages, splicing and
    the exit \<open>abandon_entry\<close>.
  \<^item> \<open>Afl_Main\<close>: the session around \<open>fuzz_one\<close>: reading and renaming the inputs (\<open>read_testcases\<close>, \<open>pivot_inputs\<close>), the dry run
    (\<open>perform_dry_run\<close>, \<open>show_init_stats\<close>), importing from other fuzzers (\<open>sync_fuzzers\<close>), the start (\<open>main_start\<close>) and the
    passes (\<open>main_round\<close>) of \<open>main\<close>.
  \<^item> \<open>Afl_Session_Laws\<close>, \<open>Afl_Sync_Laws\<close>: the invariant \<open>session_inv\<close> of the whole session, from a fresh process
    (\<open>fresh\<close>) through any number of passes; the bounds of the import and the derived timeout.
  \<^item> \<open>Legion_Hash_Set\<close>: the hash set of path hashes of the replay tool; it refines a counting set (locale
    \<open>counting_set\<close>, interpretation \<open>hs\<close>).
  \<^item> \<open>Legion_Trace\<close>: the path hash, the edge callbacks and \<open>run_single_test\<close>; what a run records.
  \<^item> \<open>Legion_Graph\<close>: \<open>shortest_paths\<close> and \<open>find_deep_functions\<close> on the call graph.
  \<^item> \<open>Legion_Workers\<close>: the worker processes of a fuzzer, pausing, resuming, starting and appending;
    \<open>ensure_active_round_fuzzer_units\<close> reaches its target in a steady environment.
  \<^item> \<open>Legion_Schedule\<close>: selection, allocation and reassignment of resource units, and the choice of the seeds to
    synchronise.
  \<^item> \<open>Legion_Text\<close>: reading of numbers and lines as the C and C++ libraries do it.
  \<^item> \<open>Legion_Batch\<close>, \<open>Legion_Batch_Laws\<close>: the batch replay, with the loop over the children as the step relation
    \<open>batch_step\<close>; its invariant says what is collected whatever the order.
  \<^item> \<open>Legion_Bandit\<close>: the weights, scores and probabilities of a round.
  \<^item> \<open>Legion_Record\<close>, \<open>Legion_Record_Laws\<close>: reading of reports, metrics, and the evaluation of rounds and monitor windows; what
    is read is what the runs did.
  \<^item> \<open>Legion_Options\<close>: the command line (\<open>parse_args\<close>) and the quoting of words in commands.
  \<^item> \<open>Legion_Files\<close>: the seed and crash folders of \<^verbatim>\<open>legion.cc\<close>: fingerprints, manifests, accumulation, staging, export and archives.
  \<^item> \<open>Legion_Sync\<close>: collecting the outputs of the workers, the incremental evaluation of a corpus, and the selection and pulling of the
    seeds that are synchronised; the periodic pull of a running round (\<open>wait_and_pull\<close>).
  \<^item> \<open>Legion_Process\<close>: the reading of \<^verbatim>\<open>/proc\<close>, the tree of processes and the signals of \<open>stop_process_group\<close>.
  \<^item> \<open>Legion_Files_Laws\<close>, \<open>Legion_Crash_Laws\<close>, \<open>Legion_Sync_Laws\<close>, \<open>Legion_Store\<close>: manifests are read back, accumulation is the union of
    fingerprints, crashes survive staging and export, new seeds are found once and the selected ones cover what all
    cover, and every operation keeps the store well-formed (\<open>disk_ok\<close>).
  \<^item> \<open>Legion_Properties\<close>, \<open>Legion_Corpora\<close>: the properties of the Legion components.
  \<^item> \<open>Afl_Sample\<close>, \<open>Afl_Session_Sample\<close>: concrete states at which the properties below are exercised.

  \<^bold>\<open>Loops and fuel.\<close> Loops with a fixed bound are folds over an index list; the calibration and splicing loops are
  functions with a termination measure. \<open>next_p2_loop\<close> and \<open>pick_other\<close> may run for ever and are partial
  functions, with theorems that say when they return. \<open>tree_walk\<close> ends because every process is pushed once, even
  if the parent links form a cycle, and \<open>wait_and_pull\<close> because the time counted grows by ten minutes per pass. The bound of the havoc loop grows while it runs; its fuel
  is 2048 times the initial bound plus one, which is enough because the bound doubles at most eleven times,
  as the score starts at 1 or more and doubling stops above 1600 (\<open>havoc_stage_safe\<close> shows that the fuel
  never runs out).

  \<^bold>\<open>Choices.\<close> The 64-bit little-endian build without \<^verbatim>\<open>SIMPLE_FILES\<close> and \<^verbatim>\<open>IGNORE_FINDS\<close>. \<^verbatim>\<open>qsort\<close> is a stable
  sort. Counters that only grow and are only printed are natural numbers.

  \<^bold>\<open>Not modelled.\<close> The creation of processes, shared memory, timers and signals (their outcome is the observation of a
  run), the status screen beyond its feedback into fuzzing, option parsing and the checks of the environment, resuming
  in place, the statistics files, the
  companion tools, the other bundled fuzzers; of Legion, the start of processes, the command lines of the bundled fuzzers and the builds,
  the pauses and the timing of a whole round, the per-path statistics of a round, and the
  regular expressions by which the call graph is read.

  The sections named \<open>Further facts\<close> hold lemmas about single operations which complete the numbered properties.
\<close>

section \<open>Properties\<close>







text \<open>
  C3. The havoc stage makes no access outside its buffer and divides by nothing but a positive divisor; it executes its bound of cases doubled at most eleven times, restores the buffer, and every case is non-empty and no longer than the larger of MAX_FILE and the input.
\<close>

theorem havoc_stage_safe:
  assumes "good_for E k s" "take (length in_buf) buf = in_buf" "in_buf \<noteq> []" "1 \<le> perf" "havoc_div s \<noteq> 0"
  shows "case havoc_stage (or_exit common_fuzz_stuff) det spl perf in_buf (buf, s) of
     None \<Rightarrow> False
   | Some (stop, buf', s') \<Rightarrow> good_for E k s' \<and>
       (\<exists>cs d. tried s' = tried s @ cs \<and> (\<forall>c \<in> set cs. 1 \<le> length c \<and> length c \<le> max (length in_buf) MAX_FILE) \<and> d \<le> 11 \<and>
          (if stop then cs \<noteq> [] \<and> length cs \<le> havoc_stage_max det spl perf (havoc_div s) * 2 ^ d
           else length cs = havoc_stage_max det spl perf (havoc_div s) * 2 ^ d \<and> take (length in_buf) buf' = in_buf))"
  using safe.havoc_stage_ok [OF assms(1,2) _ assms(4,5), of det spl] assms(3) by (simp add: Suc_le_eq)

theorem havoc_stage_safe_witness:
  "case havoc_stage (or_exit common_fuzz_stuff) True 0 100 sample_input (sample_input, sample) of
     None \<Rightarrow> False
   | Some (stop, buf', s') \<Rightarrow> \<not> stop \<longrightarrow> take 6 buf' = sample_input"
proof -
  have "take (length sample_input) sample_input = sample_input" "sample_input \<noteq> []" "1 \<le> (100 :: nat)" "havoc_div sample \<noteq> 0"
    "length sample_input = 6"
    by (simp_all add: sample_defs)
  then show ?thesis using havoc_stage_safe [OF sample_good, of sample_input sample_input 100 True 0]
    by (auto split: option.splits)
qed


text \<open>
  C4. has_new_bits, which walks the trace in 64-bit words and skips the empty ones, computes the byte-wise novelty of the trace (2 for a new tuple, 1 for a new count, 0 otherwise), clears the seen bits in the virgin map, and flags a change of the main map.
\<close>

theorem has_new_bits_novelty:
  assumes "length (trace_bits s) = MAP_SIZE" "length (virgin_map v s) = MAP_SIZE"
  shows "has_new_bits v s =
    (let r = novelty (trace_bits s) (virgin_map v s);
         s1 = set_virgin_map v (clear_seen (virgin_map v s) (trace_bits s)) s
     in (r, if r \<noteq> 0 \<and> v = VIRGIN_BITS then s1\<lparr>bitmap_changed := True\<rparr> else s1))"
  by (rule has_new_bits_unfold [OF assms])

theorem has_new_bits_novelty_witness: "fst (has_new_bits VIRGIN_BITS sample) = 0"
proof -
  have "length (trace_bits sample) = MAP_SIZE" "length (virgin_map VIRGIN_BITS sample) = MAP_SIZE" by (simp_all add: sample_def)
  from has_new_bits_novelty [OF this] show ?thesis by (simp add: Let_def sample_novelty)
qed








text \<open>
  C7. trim_case ends, never grows the input, keeps four bytes or all of them, keeps a subsequence of the bytes whose execution had the recorded checksum, and rewrites the file with them.
\<close>

theorem trim_case_safe:
  assumes "q < length (queue s)" "maps_ok s" "answers s" "len (queue s ! q) = length b" "length b \<le> 2 ^ 31"
  shows "\<exists>f b' t. trim_case q b s = Some (f, b', t) \<and> length b' = length b \<and>
    (let l = len (queue t ! q) in
      l \<le> length b \<and> min 4 (length b) \<le> l \<and> subseq (take l b') b \<and>
      (l < length b \<longrightarrow> vouched s (exec_cksum (queue s ! q)) (take l b')) \<and>
      (l < length b \<and> \<not> stop_soon t \<and> f \<noteq> FAULT_ERROR \<longrightarrow> files t (fname (queue s ! q)) = Some (take l b')))"
  by (rule trim_case_spec [OF assms])

theorem trim_case_safe_witness: "\<exists>f b' t. trim_case 0 sample_input sample = Some (f, b', t) \<and> length b' = 6"
proof -
  have "0 < length (queue sample)" "len (queue sample ! 0) = length sample_input" "length sample_input \<le> 2 ^ 31" "length sample_input = 6"
    by (simp_all add: sample_defs)
  then show ?thesis using trim_case_safe [OF _ sample_maps sample_answers, of 0 sample_input] by auto
qed








text \<open>
  C10. Whatever the target does, however many passes the main loop makes, the books of the fuzzer stay right: maps of full size, queue shortcuts, reference counts and compacted traces of the ratings, the counter of entries never fuzzed, the caps on crashes and hangs, both dictionaries; and between two passes the current entry is one of the queue whose index is current_entry.
\<close>

theorem session_rounds:
  assumes "session_inv E ms" "main_rounds n ms = Some (stop, ms')"
  shows "session_inv E ms'"
  by (rule main_rounds_inv [OF assms(2,1)])

theorem session_rounds_witness:
  "\<exists>m t. main_rounds 1 (running_locals, running) = Some (False, m, t) \<and> session_inv (extras sample) (m, t)"
proof -
  obtain m t where "main_round (running_locals, running) = Some (False, m, t)" using running_round by blast
  then have r: "main_rounds 1 (running_locals, running) = Some (False, m, t)" by simp
  show ?thesis using session_rounds [OF running_inv r] r by blast
qed


text \<open>
  C11. A session that gets through its start enters the main loop in a state with its books right: from the globals of a fresh process, after reading and renaming the input files, loading both dictionaries, the dry run, culling and the choice of the first entry, with the start position inside the queue; the loop is skipped exactly when the user has stopped the fuzzer.
\<close>

theorem session_starts:
  assumes "fresh s" "main_start just_one s = Some (stop, m, t)"
  shows "session_inv (extras t) (m, t) \<and> cur_null m \<and> (stop \<longleftrightarrow> stop_soon t)"
  by (rule main_start_inv [OF assms(2,1)])

theorem session_starts_witness:
  "\<exists>m t. main_start False starting = Some (True, m, t) \<and> session_inv (extras t) (m, t) \<and> stop_soon t"
proof -
  obtain m t where r: "main_start False starting = Some (True, m, t)" using starting_stops by blast
  then show ?thesis using session_starts [OF starting_fresh r] by blast
qed


text \<open>
  C12. The main loop takes the entries of the queue in order and skips none: a pass works on one entry, the next pass on the entry after it if there is one by then, entries found or imported during the pass included, and otherwise a new cycle begins at the first entry.
\<close>

theorem main_round_order:
  assumes "session_inv E (m, s)" "main_round (m, s) = Some (False, m', t)"
  shows "if at_entry (m, s) + 1 < length (queue t) then \<not> cur_null m' \<and> at_entry (m', t) = at_entry (m, s) + 1
     else cur_null m' \<and> at_entry (m', t) = 0 \<and> length (queue t) = at_entry (m, s) + 1"
  using main_round_inv [OF assms(2,1)] by blast

theorem main_round_order_witness:
  "\<exists>m t. main_round (running_locals, running) = Some (False, m, t) \<and> (at_entry (m, t) = 1 \<or> cur_null m \<and> at_entry (m, t) = 0)"
proof -
  obtain m t where r: "main_round (running_locals, running) = Some (False, m, t)" using running_round by blast
  have "at_entry (running_locals, running) = 0" by (simp add: at_entry_def running_locals_def)
  then show ?thesis using main_round_order [OF running_inv r] r by (auto split: if_splits)
qed


text \<open>
  C13. Importing from another fuzzer moves the stored bound past every case that was looked at and never back, so that importing again from an unchanged peer, or from one with only such cases, executes nothing and leaves queue and bound alone. The numbers of the cases must be below 2^32 - 1, at which the bound would wrap around; the names AFL gives have six digits.
\<close>

theorem sync_imports_once:
  assumes "sync_peer (party, Some es) s = Some (False, t)" "\<not> (take 1 party = ''.'' \<or> sync_id s = Some party)"
    "\<forall>(d, c) \<in> set es. case_id d \<noteq> Some (- 1)" "set es' \<subseteq> set es"
  shows "synced_bound party s \<le> synced_bound party t \<and>
    (\<exists>u. sync_peer (party, Some es') t = Some (False, u) \<and> exec_pos u = exec_pos t \<and> queue u = queue t \<and>
       synced_bound party u = synced_bound party t)"
proof -
  note b = sync_peer_bound [OF assms(1-3)]
  then have "peer_idle (party, Some es') t" using assms(4) by (intro sync_peer_idle) fast
  then show ?thesis using b by (simp add: peer_idle_def)
qed

theorem sync_imports_once_witness:
  "\<exists>t u. sync_peer (''you'', Some [(''id:000003'', Some [])]) running = Some (False, t) \<and>
     sync_peer (''you'', Some [(''id:000003'', Some [])]) t = Some (False, u) \<and> exec_pos u = exec_pos t"
proof -
  have c: "case_id ''id:000003'' = Some 3" by code_simp
  have r: "\<exists>t. sync_peer (''you'', Some [(''id:000003'', Some [])]) running = Some (False, t)"
    by (simp add: sync_peer_def sync_case_def c Let_def)
  then obtain t where t: "sync_peer (''you'', Some [(''id:000003'', Some [])]) running = Some (False, t)" by blast
  show ?thesis using sync_imports_once [OF t, of "[(''id:000003'', Some [])]"] t c by simp blast
qed


text \<open>
  C14. calculate_score fails only before anything was calibrated, and otherwise returns a score between 2 and 1600 (HAVOC_MAX_MULT times 100).
\<close>

theorem calculate_score_range:
  "(calculate_score q s = None \<longleftrightarrow> total_cal_cycles s = 0 \<or> total_bitmap_entries s = 0) \<and>
   (\<forall>p t. calculate_score q s = Some (p, t) \<longrightarrow> 2 \<le> p \<and> p \<le> 1600)"
  by (rule calculate_score_bounds)

theorem calculate_score_range_witness: "\<exists>p t. calculate_score 0 sample = Some (p, t) \<and> 2 \<le> p \<and> p \<le> 1600"
proof -
  have "\<not> (total_cal_cycles sample = 0 \<or> total_bitmap_entries sample = 0)" by (simp add: sample_def)
  then show ?thesis using calculate_score_range [of 0 sample] by (cases "calculate_score 0 sample") auto
qed


text \<open>
  C15. maybe_add_auto keeps the automatic dictionary within its limit, free of duplicates up to case, apart from the user dictionary, with the used part sorted by length and holding the most frequent tokens; the user dictionary is untouched.
\<close>

theorem maybe_add_auto_keeps:
  assumes "auto_ok s" "sorted (map extra_len (extras s))"
  shows "\<exists>s'. maybe_add_auto mem s = Some s' \<and> auto_ok s' \<and> extras s' = extras s"
  by (rule maybe_add_auto_ok [OF assms])

theorem maybe_add_auto_keeps_witness: "\<exists>s'. maybe_add_auto [1, 2, 3] sample = Some s' \<and> auto_ok s'"
proof -
  have "auto_ok sample" "sorted (map extra_len (extras sample))" by (simp_all add: auto_ok_for_def sample_def)
  from maybe_add_auto_keeps [OF this, of "[1, 2, 3]"] show ?thesis by blast
qed


text \<open>
  C16. load_extras either reports an error or delivers a non-empty dictionary, sorted by length, of tokens of one to MAX_DICT_FILE bytes.
\<close>

theorem load_extras_sorted:
  assumes "load_extras d hl dl ex = Inr r" "extras_ok ex"
  shows "extras_ok r \<and> r \<noteq> []"
  by (rule load_extras_ok [OF assms])

theorem load_extras_sorted_witness:
  "\<exists>r. load_extras (Is_dir [(True, [71, 69, 84]), (True, [1])]) False 0 [] = Inr r \<and> extras_ok r"
proof -
  have "load_extras (Is_dir [(True, [71, 69, 84]), (True, [1])]) False 0 [] = Inr [\<lparr>data = [1], hit_cnt = 0\<rparr>, \<lparr>data = [71, 69, 84], hit_cnt = 0\<rparr>]"
    by (simp add: load_extras_def sort_extras_len_def MAX_DICT_FILE_def)
  moreover have "extras_ok []" by (simp add: extras_ok_def)
  ultimately show ?thesis using load_extras_sorted by blast
qed


text \<open>
  C17. could_be_bitflip answers exactly whether the difference is nothing, a run of 1, 2 or 4 bits anywhere, or of 8, 16 or 32 bits at a byte boundary.
\<close>

theorem could_be_bitflip_shapes:
  "could_be_bitflip x \<longleftrightarrow> x = 0 \<or> (\<exists>sh w. flip_shape sh w \<and> sh + w \<le> 32 \<and> x = push_bit sh (mask w))"
  by (rule could_be_bitflip_iff)


text \<open>
  C18. could_be_arith answers exactly whether the new value is the old one, or differs in a single byte, a single 16-bit half or the whole word by at most ARITH_MAX in either byte order.
\<close>

theorem could_be_arith_reach: "could_be_arith old new blen \<longleftrightarrow> arith_reach blen old new"
  by (rule could_be_arith_iff)


text \<open>
  C19. classify_counts and simplify_trace, which work on 64-bit words with 16-bit lookups and a shortcut for empty words, map every byte of the trace through the 8-bit tables.
\<close>

theorem trace_maps_bytewise:
  assumes "length mem = MAP_SIZE"
  shows "classify_counts mem = map count_class_lookup8 mem \<and> simplify_trace mem = map simplify_lookup mem"
  using classify.loop_map_size [OF assms] simplify.loop_map_size [OF assms] by (simp add: classify_counts_def simplify_trace_def)

theorem trace_maps_bytewise_witness: "classify_counts (replicate MAP_SIZE 5) ! 77 = 8"
proof -
  have "length (replicate MAP_SIZE (5 :: u8)) = MAP_SIZE" by simp
  from trace_maps_bytewise [OF this] show ?thesis by (simp add: MAP_SIZE_def count_class_lookup8_def)
qed


section \<open>Further facts\<close>

text \<open>A trace is new once: after has_new_bits has seen a trace, asking again about the same trace reports nothing new.\<close>

theorem has_new_bits_once:
  assumes "length (trace_bits s) = MAP_SIZE" "length (virgin_map v s) = MAP_SIZE" "has_new_bits v s = (r, t)"
  shows "fst (has_new_bits v t) = 0"
proof -
  let ?vir = "clear_seen (virgin_map v s) (trace_bits s)"
  have t: "trace_bits t = trace_bits s" "virgin_map v t = ?vir"
    using assms has_new_bits_unfold [OF assms(1,2)] by (cases v; auto simp: Let_def split: if_splits)+
  then have "length (trace_bits t) = MAP_SIZE" "length (virgin_map v t) = MAP_SIZE" using assms by simp_all
  from has_new_bits_unfold [OF this] show ?thesis
    using assms(1,2) by (simp add: Let_def t novelty_clear_seen)
qed


text \<open>next_p2 returns exactly for arguments up to 2^31, and then the least power of two that is not smaller; above, the shifted bit is lost and the loop never ends.\<close>

theorem next_p2_terminates:
  "case next_p2 val of
     None \<Rightarrow> 2 ^ 31 < unat val
   | Some p \<Rightarrow> unat val \<le> 2 ^ 31 \<and> (\<exists>m \<le> 31. p = 2 ^ m \<and> unat val \<le> 2 ^ m \<and> (m = 0 \<or> 2 ^ (m - 1) < unat val))"
proof (cases "next_p2 val")
  case None
  then show ?thesis using next_p2_total_iff [of val] by simp
next
  case (Some p)
  then have le: "unat val \<le> 2 ^ 31" using next_p2_total_iff [of val] by blast
  then obtain m where m: "m \<le> 31" "p = 2 ^ m" "unat val \<le> 2 ^ m" "\<forall>j. unat val \<le> 2 ^ j \<longrightarrow> m \<le> j"
    using next_p2_spec [of val] Some by auto
  have "m = 0 \<or> 2 ^ (m - 1) < unat val"
    using m(4) [rule_format, of "m - 1"] by (cases "unat val \<le> 2 ^ (m - 1)") auto
  then have "\<exists>m \<le> 31. p = 2 ^ m \<and> unat val \<le> 2 ^ m \<and> (m = 0 \<or> 2 ^ (m - 1) < unat val)" using m(1-3) by blast
  then show ?thesis using Some le by simp
qed


text \<open>However many entries are added to the queue, walking the next_100 shortcuts and then the plain links by an index reaches the entry of that index.\<close>

theorem seek_added_entry:
  assumes "skip_inv s" "tid \<le> length (queue s)"
  shows "skip_inv (add_to_queue fn l pd s) \<and> seek_entry (queue (add_to_queue fn l pd s)) tid = Some tid"
  using add_to_queue_skip_inv [OF assms(1)] seek_entry_index [OF add_to_queue_skip_inv [OF assms(1)]] assms(2) by simp


text \<open>The splicing crossover gives up exactly when the two inputs do not differ enough, and otherwise takes a head of the input and the tail of the partner, cut between their first and last difference, without leaving either buffer.\<close>

theorem splice_mix_crosses:
  "\<exists>r t. splice_mix a b s = Some (r, t) \<and> same_rest s t \<and>
     (let D = differences a b in
      if D = {} \<or> Max D < 2 \<or> Min D = Max D then r = None
      else \<exists>k. r = Some (take k a @ drop k b) \<and> Min D \<le> k \<and> k < Max D)"
  by (rule splice_mix_spec)


text \<open>The draw of a splicing partner returns as soon as the generator delivers a residue other than the current entry's, and then an index of the queue that is not the current one.\<close>

theorem pick_other_returns:
  assumes "0 < n" "random_src s (random_pos s + k) mod n \<noteq> me"
  shows "\<exists>tid t. pick_other n me s = Some (tid, t) \<and> tid < n \<and> tid \<noteq> me \<and> same_rest s t"
  using pick_other_total [OF assms] pick_other_Some by blast


text \<open>fuzz_one skips an entry exactly when the next random number modulo 100 is below 99, 95, 75 or 0 by the state of the queue; a favored entry that was never fuzzed is never skipped.\<close>

theorem skip_entry_chance:
  "\<exists>t. skip_entry s = Some (random_src s (random_pos s) mod 100 < skip_odds s, t) \<and> same_rest s t \<and>
       (if skip_odds s = 0 then t = s else True)"
  using skip_entry_odds [of s] by auto


text \<open>Leaving an entry marks it as fuzzed unless the fuzzer was stopped or the entry does not calibrate, and the counter of entries never fuzzed stays right.\<close>

theorem abandon_entry_counts:
  assumes "queue_cur s < length (queue s)" "pending_inv s" "abandon_entry r s = (v, t)"
  shows "pending_inv t \<and> queue_cur t = queue_cur s \<and> length (queue t) = length (queue s) \<and>
    v = of_bool r \<and> splicing_with t = -1 \<and>
    was_fuzzed (cur_entry t) = (was_fuzzed (cur_entry s) \<or> \<not> stop_soon s \<and> cal_failed (cur_entry s) = 0)"
  by (rule abandon_entry_spec [OF assms])


text \<open>could_be_bitflip also accepts the pattern 0x180, two adjacent bits across a byte boundary, which none of the walking flips of a little-endian 16-bit cell produces; arithmetic and interesting values with this difference are skipped although no earlier stage tried them.\<close>

theorem bitflip_guard_gap:
  "could_be_bitflip 0x180 \<and>
   0x180 \<notin> set (concat (map (\<lambda>w. map (\<lambda>i. load_le (fold flip_at [i ..< i + w] [0, 0]) :: u16) [0 ..< 17 - w]) [1, 2, 4]) @ [0xFF, 0xFF00, 0xFFFF])"
  by code_simp


text \<open>Without a timeout option, the timeout derived from the dry run is the larger of the slowest case and 2, 3 or 5 times the average by its size, taken to the next multiple of 20 ms above it and capped at one second; so it exceeds every calibrated time below the cap. The times are below 2^32 microseconds, so that nothing wraps around.\<close>

theorem init_timeout_bounds:
  assumes "unat avg_us < 2 ^ 32" "unat max_us < 2 ^ 32"
  shows "unat (init_tmout avg_us max_us) = min 1000 ((tmout_ms (unat avg_us) (unat max_us) div 20 + 1) * 20) \<and>
    20 \<le> unat (init_tmout avg_us max_us) \<and> min 999 (unat max_us div 1000) < unat (init_tmout avg_us max_us)"
proof -
  have "unat max_us div 1000 \<le> tmout_ms (unat avg_us) (unat max_us)" by (simp add: tmout_ms_def)
  moreover have "x < (x div 20 + 1) * 20" for x :: nat by (metis Suc_eq_plus1 dividend_less_div_times mult.commute mult_Suc zero_less_numeral add.commute)
  ultimately have "unat max_us div 1000 < (tmout_ms (unat avg_us) (unat max_us) div 20 + 1) * 20" by (meson le_less_trans)
  then show ?thesis unfolding init_tmout_nat [OF assms] by (simp add: min_def)
qed


end
